(* ===== verification/Prelude.thy ===== *)
theory Prelude
  imports Main "HOL-Library.Word"
begin

text \<open>
  Prelude of the development: the C integer types as words, the outcome type of a kernel
  operation with its sequencing operator, the little-endian byte codecs that give C structures
  their layout, and byte-addressed memory with range reads and writes. Nothing here is specific
  to one component.
\<close>

unbundle bit_operations_syntax

section \<open>C integer types and memory (kernel/types.h)\<close>

type_synonym u8 = "8 word"
type_synonym u16 = "16 word"
type_synonym u32 = "32 word"
type_synonym u64 = "64 word"

text \<open>Physical memory: one byte per 64-bit address.\<close>

type_synonym memory = "u64 \<Rightarrow> u8"

named_theorems mem_simps \<open>closed forms of memory operations\<close>
named_theorems unat_simps \<open>words read as natural numbers\<close>

section \<open>Outcomes of kernel operations\<close>

text \<open>
  A wait channel is the address of a kernel object; the kernel only ever compares channels for
  equality, so one constructor per kind of object stands for its address. \<open>ChanNone\<close> is the
  null pointer.
\<close>

datatype chan =
    ChanNone
  | ChanProc nat           \<comment> \<open>a struct proc, by its index in proc[]\<close>
  | ChanTicks              \<comment> \<open>\&ticks\<close>
  | ChanLog                \<comment> \<open>\&log\<close>
  | ChanPipeRead u64       \<comment> \<open>\&pi->nread\<close>
  | ChanPipeWrite u64      \<comment> \<open>\&pi->nwrite\<close>
  | ChanBufLock nat        \<comment> \<open>the sleep lock of a buffer\<close>
  | ChanInodeLock nat      \<comment> \<open>the sleep lock of an inode cache entry\<close>
  | ChanDiskFree           \<comment> \<open>\&disk.free[0]\<close>
  | ChanBuf nat            \<comment> \<open>a struct buf\<close>
  | ChanCons               \<comment> \<open>\&cons.r\<close>
  | ChanUartTx             \<comment> \<open>\&uart\_tx\_r\<close>

text \<open>
  An operation returns (\<open>Ok\<close>), calls \<open>panic\<close> with a message, goes to sleep on a channel before
  it can finish, or runs into behaviour that C leaves undefined, such as an array access out of
  bounds (\<open>Undef\<close>).
\<close>

datatype 'a result = Ok 'a | Panic string | Sleep chan | Undef string

fun andthen :: "'a result \<Rightarrow> ('a \<Rightarrow> 'b result) \<Rightarrow> 'b result" where
  "andthen (Ok x) f = f x"
| "andthen (Panic e) f = Panic e"
| "andthen (Sleep c) f = Sleep c"
| "andthen (Undef e) f = Undef e"

lemma andthen_cong [fundef_cong]:
  "m = m' \<Longrightarrow> (\<And>x. m' = Ok x \<Longrightarrow> f x = g x) \<Longrightarrow> andthen m f = andthen m' g"
  by (cases m') auto

lemma andthen_eq_Ok [simp]: "andthen m f = Ok y \<longleftrightarrow> (\<exists>x. m = Ok x \<and> f x = Ok y)"
  by (cases m) auto

lemma andthen_assoc: "andthen (andthen m f) g = andthen m (\<lambda>x. andthen (f x) g)"
  by (cases m) auto

fun is_ok :: "'a result \<Rightarrow> bool" where
  "is_ok (Ok x) = True"
| "is_ok r = False"

lemma is_ok_iff: "is_ok r \<longleftrightarrow> (\<exists>x. r = Ok x)"
  by (cases r) auto

lemma is_ok_andthen: "is_ok (andthen m f) \<longleftrightarrow> (\<exists>x. m = Ok x \<and> is_ok (f x))"
  by (cases m) auto

section \<open>Little-endian byte codecs\<close>

fun le_encode :: "nat \<Rightarrow> 'a::len word \<Rightarrow> u8 list" where
  "le_encode 0 w = []"
| "le_encode (Suc n) w = ucast w # le_encode n (drop_bit 8 w)"

fun le_decode :: "u8 list \<Rightarrow> 'a::len word" where
  "le_decode [] = 0"
| "le_decode (b # bs) = ucast b OR push_bit 8 (le_decode bs)"

lemma length_le_encode [simp]: "length (le_encode n w) = n"
  by (induction n arbitrary: w) auto

lemma le_decode_encode: "le_decode (le_encode n w) = take_bit (8 * n) w"
proof (induction n arbitrary: w)
  case 0
  then show ?case by simp
next
  case (Suc n)
  show ?case
    by (rule bit_word_eqI) (auto simp: Suc.IH bit_simps)
qed

lemma le_decode_encode_full [simp]:
  "8 * n = LENGTH('a) \<Longrightarrow> le_decode (le_encode n w) = (w :: 'a::len word)"
  by (simp add: le_decode_encode)

lemma bit_u8_high: "bit (b :: u8) n \<Longrightarrow> n < 8"
  using bit_imp_le_length by fastforce

lemma bit_le_decode_high: "bit (le_decode bs :: 'a::len word) k \<Longrightarrow> k < 8 * length bs"
proof (induction bs arbitrary: k)
  case Nil
  then show ?case by simp
next
  case (Cons b bs)
  from Cons.prems consider "bit b k" | "8 \<le> k" "bit (le_decode bs :: 'a word) (k - 8)"
    by (auto simp: bit_simps)
  then show ?case
    by cases (use Cons.IH bit_u8_high in \<open>fastforce+\<close>)
qed

lemma le_encode_decode:
  "8 * length bs \<le> LENGTH('a) \<Longrightarrow> le_encode (length bs) (le_decode bs :: 'a::len word) = bs"
proof (induction bs)
  case Nil
  then show ?case by simp
next
  case (Cons b bs)
  have "ucast (ucast b OR push_bit 8 (le_decode bs) :: 'a word) = b"
    using Cons.prems by (intro bit_word_eqI) (auto simp: bit_simps)
  moreover have "drop_bit 8 (ucast b OR push_bit 8 (le_decode bs) :: 'a word) = le_decode bs"
    using Cons.prems
    by (intro bit_word_eqI) (auto simp: bit_simps dest: bit_u8_high bit_le_decode_high)
  ultimately show ?case using Cons by simp
qed

section \<open>Words as natural numbers\<close>

lemma unat_minus_1 [unat_simps]: "unat (- 1 :: 'a::len word) = 2 ^ LENGTH('a) - 1"
  by (simp add: unsigned_minus_1_eq_mask mask_eq_exp_minus_1)

lemma unat_take_bit [unat_simps]: "unat (take_bit n x) = unat x mod 2 ^ n"
  for x :: "'a::len word"
  by (simp only: unsigned_take_bit_eq take_bit_nat_def)

lemma unat_and_mask: "unat (x AND mask n) = unat x mod 2 ^ n" for x :: "'a::len word"
  by (simp only: unat_take_bit flip: take_bit_eq_mask)

lemma and_not_mask: "x AND NOT (mask n) = x - take_bit n x" for x :: "'a::len word"
  by (subst disjunctive_diff) (auto simp: bit_simps intro!: bit_word_eqI)

lemma unat_u64_lt [simp]: "unat (x :: u64) < 18446744073709551616"
  using unsigned_less [of x] by simp

lemma unat_u32_lt [simp]: "unat (x :: u32) < 4294967296"
  using unsigned_less [of x] by simp

lemma unat_of_nat_u64: "n < 18446744073709551616 \<Longrightarrow> unat (of_nat n :: u64) = n"
  by (simp add: unat_of_nat)

lemma unat_of_nat_u32: "n < 4294967296 \<Longrightarrow> unat (of_nat n :: u32) = n"
  by (simp add: unat_of_nat)

lemma unat_ucast_u32_u64 [simp, unat_simps]: "unat (ucast (x :: u32) :: u64) = unat x"
  by (simp add: unsigned_ucast_eq take_bit_nat_def order_less_trans [OF unat_u32_lt])

lemma ucast_u32_u64: "(ucast (x :: u32) :: u64) = of_nat (unat x)"
  by (rule word_unat_eq_iff [THEN iffD2]) (simp add: unat_of_nat order_less_trans [OF unat_u32_lt])

lemma unat_diff_Suc: "x \<noteq> a \<Longrightarrow> unat (x - (a + 1)) = unat (x - a) - 1"
  for x a :: "'a::len word"
  by (metis diff_diff_eq eq_iff_diff_eq_0 unat_minus_one)

lemma unat_diff_self_Suc: "unat (a - (a + 1) :: 'a::len word) = 2 ^ LENGTH('a) - 1"
  by (simp add: unat_minus_1)

section \<open>Byte memory\<close>

text \<open>
  An address lies in the range of \<open>n\<close> bytes from \<open>a\<close> when its distance from \<open>a\<close> is below \<open>n\<close>;
  the distance is taken modulo \<open>2\<^sup>6\<^sup>4\<close>, as address arithmetic is.
\<close>

abbreviation in_range :: "u64 \<Rightarrow> nat \<Rightarrow> u64 \<Rightarrow> bool" where
  "in_range a n x \<equiv> unat (x - a) < n"

fun read_bytes :: "memory \<Rightarrow> u64 \<Rightarrow> nat \<Rightarrow> u8 list" where
  "read_bytes m a 0 = []"
| "read_bytes m a (Suc n) = m a # read_bytes m (a + 1) n"

fun write_bytes :: "memory \<Rightarrow> u64 \<Rightarrow> u8 list \<Rightarrow> memory" where
  "write_bytes m a [] = m"
| "write_bytes m a (b # bs) = write_bytes (m(a := b)) (a + 1) bs"

lemma length_read_bytes [simp]: "length (read_bytes m a n) = n"
  by (induction n arbitrary: a) auto

lemma nth_read_bytes: "i < n \<Longrightarrow> read_bytes m a n ! i = m (a + of_nat i)"
  by (induction n arbitrary: a i) (auto simp: nth_Cons' algebra_simps of_nat_diff)

lemma write_bytes_apply [mem_simps]:
  "length bs \<le> 18446744073709551616 \<Longrightarrow>
   write_bytes m a bs x = (if in_range a (length bs) x then bs ! unat (x - a) else m x)"
proof (induction bs arbitrary: m a)
  case Nil
  then show ?case by simp
next
  case (Cons b bs)
  show ?case
  proof (cases "x = a")
    case True
    then show ?thesis using Cons unat_diff_self_Suc [of a] by simp
  next
    case False
    then have "unat (x - a) \<noteq> 0" by (simp add: unat_eq_0)
    then show ?thesis using Cons False by (auto simp: unat_diff_Suc nth_Cons')
  qed
qed

lemma read_bytes_cong:
  "(\<And>i. i < n \<Longrightarrow> m (a + of_nat i) = m' (a + of_nat i)) \<Longrightarrow> read_bytes m a n = read_bytes m' a n"
  by (rule nth_equalityI) (auto simp: nth_read_bytes)

lemma read_write_bytes_same:
  "n = length bs \<Longrightarrow> n \<le> 18446744073709551616 \<Longrightarrow> read_bytes (write_bytes m a bs) a n = bs"
  by (rule nth_equalityI) (auto simp: nth_read_bytes write_bytes_apply unat_of_nat_u64)

lemma read_write_bytes_other:
  assumes "length bs \<le> 18446744073709551616"
    and "\<And>i. i < n \<Longrightarrow> \<not> in_range a (length bs) (b + of_nat i)"
  shows "read_bytes (write_bytes m a bs) b n = read_bytes m b n"
  using assms by (intro read_bytes_cong) (auto simp: write_bytes_apply)

definition load64 :: "memory \<Rightarrow> u64 \<Rightarrow> u64" where
  "load64 m a = le_decode (read_bytes m a 8)"

definition store64 :: "memory \<Rightarrow> u64 \<Rightarrow> u64 \<Rightarrow> memory" where
  "store64 m a v = write_bytes m a (le_encode 8 v)"

definition load32 :: "memory \<Rightarrow> u64 \<Rightarrow> u32" where
  "load32 m a = le_decode (read_bytes m a 4)"

definition store32 :: "memory \<Rightarrow> u64 \<Rightarrow> u32 \<Rightarrow> memory" where
  "store32 m a v = write_bytes m a (le_encode 4 v)"

lemma load64_store64_same [mem_simps]: "load64 (store64 m a v) a = v"
  by (simp add: load64_def store64_def read_write_bytes_same)

lemma load32_store32_same [mem_simps]: "load32 (store32 m a v) a = v"
  by (simp add: load32_def store32_def read_write_bytes_same)

lemma load64_cong: "(\<And>i. i < 8 \<Longrightarrow> m (a + of_nat i) = m' (a + of_nat i)) \<Longrightarrow> load64 m a = load64 m' a"
  unfolding load64_def by (metis read_bytes_cong)

lemma load64_same_mem:
  "(\<And>x. in_range a 8 x \<Longrightarrow> m x = m' x) \<Longrightarrow> load64 m a = load64 m' a"
  by (rule load64_cong) (simp add: unat_of_nat_u64)

lemma store64_apply_other: "\<not> in_range a 8 x \<Longrightarrow> store64 m a v x = m x"
  by (simp add: store64_def write_bytes_apply)

lemma load64_store64_other:
  "(\<And>x. in_range b 8 x \<Longrightarrow> \<not> in_range a 8 x) \<Longrightarrow> load64 (store64 m a v) b = load64 m b"
  by (rule load64_same_mem) (simp add: store64_apply_other)

lemma load64_zero: "(\<And>x. in_range a 8 x \<Longrightarrow> m x = 0) \<Longrightarrow> load64 m a = 0"
proof -
  assume z: "\<And>x. in_range a 8 x \<Longrightarrow> m x = 0"
  have "load64 m a = load64 (\<lambda>_. 0) a" by (rule load64_same_mem) (simp add: z)
  also have "\<dots> = 0" by (simp add: load64_def numeral_eq_Suc)
  finally show ?thesis .
qed

end
