(* ===== verification/Layout.thy ===== *)
theory Layout
  imports Prelude
begin

text \<open>
  The constants and address macros of kernel/riscv.h, kernel/memlayout.h and kernel/param.h:
  page rounding, the fields of Sv39 page-table entries and virtual addresses, and the arithmetic
  of pages and page-table slots that the memory components share.
\<close>

unbundle bit_operations_syntax

section \<open>Constants\<close>

abbreviation PGSIZE :: u64 where "PGSIZE \<equiv> 4096"
abbreviation KERNBASE :: u64 where "KERNBASE \<equiv> 0x80000000"
abbreviation PHYSTOP :: u64 where "PHYSTOP \<equiv> 0x88000000"
abbreviation MAXVA :: u64 where "MAXVA \<equiv> 0x4000000000"
abbreviation SV39 :: u64 where "SV39 \<equiv> 0x8000000000"
abbreviation TRAMPOLINE :: u64 where "TRAMPOLINE \<equiv> 0x3FFFFFF000"
abbreviation TRAPFRAME :: u64 where "TRAPFRAME \<equiv> 0x3FFFFFE000"

abbreviation PTE_V :: u64 where "PTE_V \<equiv> 1"
abbreviation PTE_R :: u64 where "PTE_R \<equiv> 2"
abbreviation PTE_W :: u64 where "PTE_W \<equiv> 4"
abbreviation PTE_X :: u64 where "PTE_X \<equiv> 8"
abbreviation PTE_U :: u64 where "PTE_U \<equiv> 16"

section \<open>Address macros\<close>

definition PGROUNDDOWN :: "u64 \<Rightarrow> u64" where
  "PGROUNDDOWN a = a AND NOT (PGSIZE - 1)"

definition PGROUNDUP :: "u64 \<Rightarrow> u64" where
  "PGROUNDUP sz = (sz + PGSIZE - 1) AND NOT (PGSIZE - 1)"

definition PA2PTE :: "u64 \<Rightarrow> u64" where
  "PA2PTE pa = push_bit 10 (drop_bit 12 pa)"

definition PTE2PA :: "u64 \<Rightarrow> u64" where
  "PTE2PA pte = push_bit 12 (drop_bit 10 pte)"

definition PTE_FLAGS :: "u64 \<Rightarrow> u64" where
  "PTE_FLAGS pte = pte AND 0x3FF"

definition PXSHIFT :: "nat \<Rightarrow> nat" where
  "PXSHIFT level = 12 + 9 * level"

definition PX :: "nat \<Rightarrow> u64 \<Rightarrow> u64" where
  "PX level va = drop_bit (PXSHIFT level) va AND 0x1FF"

section \<open>Page arithmetic on natural numbers\<close>

lemma div_mod_split:
  fixes x n :: nat
  obtains q r where "x = n * q + r" "x div n = q" "x mod n = r"
  by (metis mult_div_mod_eq)

lemma page_nat:
  fixes x p :: nat
  assumes "p mod 4096 = 0"
  shows "x - x mod 4096 = p \<longleftrightarrow> p \<le> x \<and> x < p + 4096"
proof -
  obtain k where p: "p = 4096 * k" using assms by (auto simp: mod_eq_0_iff_dvd)
  obtain q r where "x = 4096 * q + r" "x mod 4096 = r" by (rule div_mod_split)
  moreover have "x mod 4096 < 4096" by simp
  ultimately show ?thesis unfolding p by auto
qed

lemma slot_nat:
  fixes x p :: nat
  assumes "p mod 4096 = 0" "i < 512"
  shows "p + 8 * i \<le> x \<and> x < p + 8 * i + 8 \<longleftrightarrow> x - x mod 4096 = p \<and> x mod 4096 div 8 = i"
   
proof -
  obtain k where p: "p = 4096 * k" using assms by (auto simp: mod_eq_0_iff_dvd)
  obtain q r where x: "x = 4096 * q + r" "x mod 4096 = r" by (rule div_mod_split)
  have r: "r < 4096" using x(2) by auto
  have "x - x mod 4096 = p \<longleftrightarrow> q = k" using x p by auto
  moreover have "r div 8 = i \<longleftrightarrow> 8 * i \<le> r \<and> r < 8 * i + 8" by auto
  moreover have "q = k" if "p + 8 * i \<le> x" "x < p + 8 * i + 8"
  proof -
    have "4096 * k < 4096 * (q + 1)" "4096 * q < 4096 * (k + 1)" using that x p r assms(2) by auto
    then show ?thesis by simp
  qed
  ultimately show ?thesis using x p by auto
qed

lemma aligned_nat_le: "x mod 4096 = 0 \<Longrightarrow> x < 18446744073709551616 \<Longrightarrow> x \<le> (18446744073709547520::nat)"
proof -
  assume "x mod 4096 = 0" "x < 18446744073709551616"
  then obtain k where "x = 4096 * k" by (auto simp: mod_eq_0_iff_dvd)
  with \<open>x < _\<close> show ?thesis by auto
qed

section \<open>Rounding\<close>

lemma mask12: "PGSIZE - 1 = mask 12"
  by (simp add: mask_eq_exp_minus_1)

lemma PGROUNDDOWN_alt: "PGROUNDDOWN a = a - a mod 4096"
  using and_not_mask [of a 12] by (simp only: PGROUNDDOWN_def mask12) (simp add: take_bit_eq_mod)

lemma unat_PGROUNDDOWN [unat_simps]: "unat (PGROUNDDOWN a) = unat a - unat a mod 4096"
  by (simp add: PGROUNDDOWN_alt unat_sub unat_mod word_le_nat_alt)

lemma PGROUNDUP_alt: "PGROUNDUP sz = PGROUNDDOWN (sz + 4095)"
  by (simp add: PGROUNDUP_def PGROUNDDOWN_def add_diff_eq [symmetric])

lemma unat_PGROUNDUP:
  "unat sz \<le> 18446744073709547520 \<Longrightarrow> unat (PGROUNDUP sz) = (unat sz + 4095) div 4096 * 4096"
  by (simp add: PGROUNDUP_alt unat_PGROUNDDOWN unat_word_ariths minus_mod_eq_div_mult)

definition pgaligned :: "u64 \<Rightarrow> bool" where
  "pgaligned a \<longleftrightarrow> a mod PGSIZE = 0"

lemma pgaligned_unat: "pgaligned a \<longleftrightarrow> unat a mod 4096 = 0"
  by (simp add: pgaligned_def unat_mod word_unat_eq_iff)

lemma PGROUNDDOWN_aligned [simp]: "pgaligned (PGROUNDDOWN a)"
  by (simp add: pgaligned_unat unat_PGROUNDDOWN minus_mod_eq_div_mult)

lemma PGROUNDUP_aligned [simp]: "pgaligned (PGROUNDUP a)"
  by (simp add: PGROUNDUP_alt)

lemma PGROUNDDOWN_id: "pgaligned a \<Longrightarrow> PGROUNDDOWN a = a"
  by (simp add: PGROUNDDOWN_alt pgaligned_def)

lemma pgaligned_unat_le: "pgaligned a \<Longrightarrow> unat a \<le> 18446744073709547520"
  by (simp add: pgaligned_unat aligned_nat_le)

section \<open>Ranges, pages and page-table slots\<close>

lemma in_range_unat:
  assumes "unat a + n \<le> 18446744073709551616"
  shows "in_range a n x \<longleftrightarrow> unat a \<le> unat x \<and> unat x < unat a + n"
  using assms by (auto simp: unat_sub_if')

lemma in_page:
  assumes "pgaligned pg"
  shows "in_range pg 4096 x \<longleftrightarrow> PGROUNDDOWN x = pg"
proof -
  have "PGROUNDDOWN x = pg \<longleftrightarrow> unat x - unat x mod 4096 = unat pg"
    by (simp add: word_unat_eq_iff unat_PGROUNDDOWN)
  also have "\<dots> \<longleftrightarrow> unat pg \<le> unat x \<and> unat x < unat pg + 4096"
    using assms by (intro page_nat) (simp add: pgaligned_unat)
  finally show ?thesis
    using pgaligned_unat_le [OF assms] by (simp add: in_range_unat)
qed

text \<open>The address of entry \<open>i\<close> of the page-table page \<open>pg\<close>.\<close>

definition slot :: "u64 \<Rightarrow> nat \<Rightarrow> u64" where
  "slot pg i = pg + 8 * of_nat i"

lemma unat_slot:
  assumes "pgaligned pg" "i < 512"
  shows "unat (slot pg i) = unat pg + 8 * i"
proof -
  have "unat (8 * of_nat i :: u64) = 8 * i"
    using assms(2) by (simp add: unat_word_ariths unat_of_nat)
  then show ?thesis
    using pgaligned_unat_le [OF assms(1)] assms(2) by (simp add: slot_def unat_word_ariths)
qed

lemma in_slot:
  assumes "pgaligned pg" "i < 512"
  shows "in_range (slot pg i) 8 x \<longleftrightarrow> PGROUNDDOWN x = pg \<and> unat x mod 4096 div 8 = i"
proof -
  have "in_range (slot pg i) 8 x \<longleftrightarrow> unat pg + 8 * i \<le> unat x \<and> unat x < unat pg + 8 * i + 8"
    using assms pgaligned_unat_le [OF assms(1)] by (simp add: in_range_unat unat_slot)
  also have "\<dots> \<longleftrightarrow> unat x - unat x mod 4096 = unat pg \<and> unat x mod 4096 div 8 = i"
    using assms by (intro slot_nat) (simp_all add: pgaligned_unat)
  finally show ?thesis by (simp add: word_unat_eq_iff [of "PGROUNDDOWN x"] unat_PGROUNDDOWN)
qed

lemma load64_slot_store64:
  assumes "pgaligned pg" "i < 512" "pgaligned pg'" "i' < 512"
  shows "load64 (store64 m (slot pg i) v) (slot pg' i') =
    (if pg = pg' \<and> i = i' then v else load64 m (slot pg' i'))"
  using assms by (auto simp: load64_store64_same in_slot intro!: load64_store64_other)

lemma store64_slot_other_page:
  "pgaligned pg \<Longrightarrow> i < 512 \<Longrightarrow> PGROUNDDOWN x \<noteq> pg \<Longrightarrow> store64 m (slot pg i) v x = m x"
  by (simp add: store64_apply_other in_slot)

lemma slot_inject:
  "pgaligned pg \<Longrightarrow> pgaligned pg' \<Longrightarrow> i < 512 \<Longrightarrow> i' < 512 \<Longrightarrow>
   slot pg i = slot pg' i' \<longleftrightarrow> pg = pg' \<and> i = i'"
  using in_slot [of pg i "slot pg i"] in_slot [of pg' i' "slot pg i"] by auto

lemma slot_nonzero: "pgaligned pg \<Longrightarrow> i < 512 \<Longrightarrow> pg \<noteq> 0 \<Longrightarrow> slot pg i \<noteq> 0"
  by (simp add: unat_slot word_unat_eq_iff)

lemma slot_0 [simp]: "slot pg 0 = pg"
  by (simp add: slot_def)

section \<open>Page-table entries and virtual addresses\<close>

text \<open>A page the kernel can manage: aligned and below the end of RAM.\<close>

abbreviation ram_page :: "u64 \<Rightarrow> bool" where
  "ram_page pa \<equiv> pgaligned pa \<and> pa < PHYSTOP"

lemma mask_lt_bit: "x < 2 ^ n \<Longrightarrow> bit x k \<Longrightarrow> k < n" for x :: "'a::len word"
  by (metis bit_take_bit_iff less_mask_eq take_bit_eq_mask)

lemma pgaligned_bits: "pgaligned a \<longleftrightarrow> take_bit 12 a = 0"
  by (simp add: pgaligned_def take_bit_eq_mod)

lemma pgaligned_bit: "pgaligned a \<Longrightarrow> bit a k \<Longrightarrow> 12 \<le> k"
  by (metis bit_0_eq bit_take_bit_iff bot_apply bot_bool_def not_le pgaligned_bits)

lemma PTE2PA_aligned [simp]: "pgaligned (PTE2PA pte)"
  by (auto simp: pgaligned_bits PTE2PA_def intro!: bit_word_eqI simp: bit_simps)

lemma PTE2PA_PA2PTE:
  assumes "pgaligned pa" "pa < 2 ^ 56" "f < 2 ^ 10"
  shows "PTE2PA (PA2PTE pa OR f) = pa"
proof (rule bit_word_eqI)
  fix k assume "k < LENGTH(64)"
  have "bit f (k - 2) \<Longrightarrow> k < 12" using mask_lt_bit [OF assms(3)] by fastforce
  moreover have "bit pa k \<Longrightarrow> 12 \<le> k \<and> k < 56"
    using pgaligned_bit [OF assms(1)] mask_lt_bit [OF assms(2)] by blast
  ultimately show "bit (PTE2PA (PA2PTE pa OR f)) k = bit pa k"
    using \<open>k < LENGTH(64)\<close> by (auto simp: PTE2PA_def PA2PTE_def bit_simps)
qed

lemma PX_take_bit: "PX level va = take_bit 9 (drop_bit (PXSHIFT level) va)"
  by (simp add: PX_def take_bit_eq_mask mask_eq_exp_minus_1)

lemma PX_lt: "unat (PX level va) < 512"
  by (simp only: PX_take_bit unat_take_bit) simp

lemma bit_PX: "bit (PX level va) k \<longleftrightarrow> k < 9 \<and> bit va (PXSHIFT level + k)"
  by (simp add: PX_take_bit bit_simps)

lemma bit_PGROUNDDOWN: "bit (PGROUNDDOWN va) k \<longleftrightarrow> 12 \<le> k \<and> bit va k"
  by (simp only: PGROUNDDOWN_def mask12)
    (auto simp: bit_simps dest: bit_imp_le_length)

lemma PGROUNDDOWN_MAXVA: "PGROUNDDOWN va < MAXVA \<Longrightarrow> va < MAXVA"
proof -
  assume "PGROUNDDOWN va < MAXVA"
  then have "unat va - unat va mod 4096 < 0x4000000000"
    by (simp add: word_less_nat_alt unat_PGROUNDDOWN)
  moreover have "unat va - unat va mod 4096 = unat va div 4096 * 4096" by (rule minus_mod_eq_div_mult)
  ultimately show ?thesis by (simp add: word_less_nat_alt)
qed

lemma MAXVA_SV39: "va < MAXVA \<Longrightarrow> va < SV39"
  by (rule order.strict_trans [of _ MAXVA]) simp_all

text \<open>Two addresses of the 39-bit space lie in one page exactly when their three indices agree.\<close>

lemma PX_inject:
  assumes "va < SV39" "va' < SV39"
  shows "PX 2 va = PX 2 va' \<and> PX 1 va = PX 1 va' \<and> PX 0 va = PX 0 va' \<longleftrightarrow>
    PGROUNDDOWN va = PGROUNDDOWN va'" (is "?L \<longleftrightarrow> ?R")
proof
  assume L: ?L
  show ?R
  proof (rule bit_word_eqI)
    fix k assume "k < LENGTH(64)"
    have hi: "bit va k \<Longrightarrow> k < 39" "bit va' k \<Longrightarrow> k < 39"
      using mask_lt_bit [of va 39 k] mask_lt_bit [of va' 39 k] assms by simp_all
    have eq: "bit (PX l va) j = bit (PX l va') j" if "l \<le> 2" for l j
    proof -
      have "l = 0 \<or> l = 1 \<or> l = 2" using that by arith
      with L show ?thesis by auto
    qed
    consider "k < 12" | "39 \<le> k" | "12 \<le> k" "k < 21" | "21 \<le> k" "k < 30" | "30 \<le> k" "k < 39"
      by arith
    then show "bit (PGROUNDDOWN va) k = bit (PGROUNDDOWN va') k"
      using hi eq [of 0 "k - 12"] eq [of 1 "k - 21"] eq [of 2 "k - 30"]
      by cases (auto simp: bit_PGROUNDDOWN bit_PX PXSHIFT_def)
  qed
next
  assume ?R
  then have "bit va k = bit va' k" if "12 \<le> k" for k
    using that bit_PGROUNDDOWN by metis
  then have "PX l va = PX l va'" for l
    by (intro bit_word_eqI) (auto simp: bit_PX PXSHIFT_def)
  then show ?L by simp
qed

end
