(* ===== verification/Asm.thy ===== *)
theory Asm
  imports Layout
begin

text \<open>
  The assembly files of the kernel (trampoline.S, kernelvec.S, swtch.S, entry.S) as lists of RISC-V
  instructions with their effect on registers, control registers and memory. How the hardware
  translates an address under a page table is the argument \<open>tr\<close>: \<open>tr satp va\<close> is a physical address. A
  jump ends a list; its target is left in \<open>mpc\<close>, and a call names the address it returns to.
\<close>

section \<open>Machine\<close>

datatype reg = RA | SP | GP | TP | T0 | T1 | T2 | S0 | S1 | A0 | A1 | A2 | A3 | A4 | A5 | A6 | A7
  | S2 | S3 | S4 | S5 | S6 | S7 | S8 | S9 | S10 | S11 | T3 | T4 | T5 | T6

datatype csr = SATP | SSCRATCH | SEPC | SIP | SIE | MSTATUS | MEPC | MEDELEG | MIDELEG | MSCRATCH | MTVEC | MIE | MHARTID

record mach =
  regs :: "reg \<Rightarrow> u64"
  csrs :: "csr \<Rightarrow> u64"
  mem :: memory
  mpc :: u64

datatype instr =
    SD reg nat reg
  | LD reg nat reg
  | ADDI reg reg int
  | ADD reg reg reg
  | MUL reg reg reg
  | LI reg u64
  | CSRRW reg csr reg
  | CSRR reg csr
  | CSRW csr reg
  | SFENCE_VMA
  | JR reg
  | RET
  | SRET
  | MRET
  | CALL u64 u64

definition set_reg :: "reg \<Rightarrow> u64 \<Rightarrow> mach \<Rightarrow> mach" where
  "set_reg r v s = s\<lparr>regs := (regs s)(r := v)\<rparr>"

definition set_csr :: "csr \<Rightarrow> u64 \<Rightarrow> mach \<Rightarrow> mach" where
  "set_csr c v s = s\<lparr>csrs := (csrs s)(c := v)\<rparr>"

fun exec1 :: "(u64 \<Rightarrow> u64 \<Rightarrow> u64) \<Rightarrow> instr \<Rightarrow> mach \<Rightarrow> mach" where
  "exec1 tr (SD r off b) s = s\<lparr>mem := store64 (mem s) (tr (csrs s SATP) (regs s b + of_nat off)) (regs s r)\<rparr>"
| "exec1 tr (LD r off b) s = set_reg r (load64 (mem s) (tr (csrs s SATP) (regs s b + of_nat off))) s"
| "exec1 tr (ADDI d r i) s = set_reg d (regs s r + of_int i) s"
| "exec1 tr (ADD d r q) s = set_reg d (regs s r + regs s q) s"
| "exec1 tr (MUL d r q) s = set_reg d (regs s r * regs s q) s"
| "exec1 tr (LI d v) s = set_reg d v s"
| "exec1 tr (CSRRW d c r) s = (let old = csrs s c in set_reg d old (set_csr c (regs s r) s))"
| "exec1 tr (CSRR d c) s = set_reg d (csrs s c) s"
| "exec1 tr (CSRW c r) s = set_csr c (regs s r) s"
| "exec1 tr SFENCE_VMA s = s"
| "exec1 tr (JR r) s = s\<lparr>mpc := regs s r\<rparr>"
| "exec1 tr RET s = s\<lparr>mpc := regs s RA\<rparr>"
| "exec1 tr SRET s = s\<lparr>mpc := csrs s SEPC\<rparr>"
| "exec1 tr MRET s = s\<lparr>mpc := csrs s MEPC\<rparr>"
| "exec1 tr (CALL a ret) s = set_reg RA ret (s\<lparr>mpc := a\<rparr>)"

definition exec_code :: "(u64 \<Rightarrow> u64 \<Rightarrow> u64) \<Rightarrow> instr list \<Rightarrow> mach \<Rightarrow> mach" where
  "exec_code tr is s = fold (exec1 tr) is s"

definition saves :: "reg \<Rightarrow> (reg \<times> nat) list \<Rightarrow> instr list" where
  "saves b prs = map (\<lambda>(r, off). SD r off b) prs"

definition loads :: "reg \<Rightarrow> (reg \<times> nat) list \<Rightarrow> instr list" where
  "loads b prs = map (\<lambda>(r, off). LD r off b) prs"

section \<open>trampoline.S\<close>

text \<open>Where \<open>uservec\<close> saves the user registers in the trapframe, and \<open>userret\<close> finds them.\<close>

definition user_regs :: "(reg \<times> nat) list" where
  "user_regs =
    [(RA, 40), (SP, 48), (GP, 56), (TP, 64), (T0, 72), (T1, 80), (T2, 88), (S0, 96), (S1, 104), (A1, 120), (A2, 128),
     (A3, 136), (A4, 144), (A5, 152), (A6, 160), (A7, 168), (S2, 176), (S3, 184), (S4, 192), (S5, 200),
     (S6, 208), (S7, 216), (S8, 224), (S9, 232), (S10, 240), (S11, 248), (T3, 256), (T4, 264), (T5, 272), (T6, 280)]"

definition uservec_code :: "instr list" where
  "uservec_code = CSRRW A0 SSCRATCH A0 # saves A0 user_regs @
     [CSRR T0 SSCRATCH, SD T0 112 A0, LD SP 8 A0, LD TP 32 A0, LD T0 16 A0, LD T1 0 A0, CSRW SATP T1, SFENCE_VMA, JR T0]"

definition userret_code :: "instr list" where
  "userret_code = [CSRW SATP A1, SFENCE_VMA, LD T0 112 A0, CSRW SSCRATCH T0] @ loads A0 user_regs @ [CSRRW A0 SSCRATCH A0, SRET]"

section \<open>kernelvec.S\<close>

text \<open>The registers on the stack while \<open>kerneltrap\<close> runs; \<open>tp\<close> is saved but not restored.\<close>

definition kernel_regs :: "(reg \<times> nat) list" where
  "kernel_regs =
    [(RA, 0), (SP, 8), (GP, 16), (TP, 24), (T0, 32), (T1, 40), (T2, 48), (S0, 56), (S1, 64), (A0, 72), (A1, 80),
     (A2, 88), (A3, 96), (A4, 104), (A5, 112), (A6, 120), (A7, 128), (S2, 136), (S3, 144), (S4, 152), (S5, 160),
     (S6, 168), (S7, 176), (S8, 184), (S9, 192), (S10, 200), (S11, 208), (T3, 216), (T4, 224), (T5, 232), (T6, 240)]"

definition kernelvec_in :: "u64 \<Rightarrow> u64 \<Rightarrow> instr list" where
  "kernelvec_in kerneltrap ret = ADDI SP SP (- 256) # saves SP kernel_regs @ [CALL kerneltrap ret]"

definition kernelvec_out :: "instr list" where
  "kernelvec_out = loads SP (filter (\<lambda>(r, _). r \<noteq> TP) kernel_regs) @ [ADDI SP SP 256, SRET]"

definition timervec_code :: "instr list" where
  "timervec_code =
     [CSRRW A0 MSCRATCH A0, SD A1 0 A0, SD A2 8 A0, SD A3 16 A0,
      LD A1 32 A0, LD A2 40 A0, LD A3 0 A1, ADD A3 A3 A2, SD A3 0 A1,
      LI A1 2, CSRW SIP A1,
      LD A3 16 A0, LD A2 8 A0, LD A1 0 A0, CSRRW A0 MSCRATCH A0, MRET]"

section \<open>swtch.S and entry.S\<close>

definition context_regs :: "(reg \<times> nat) list" where
  "context_regs =
    [(RA, 0), (SP, 8), (S0, 16), (S1, 24), (S2, 32), (S3, 40), (S4, 48), (S5, 56), (S6, 64), (S7, 72), (S8, 80),
     (S9, 88), (S10, 96), (S11, 104)]"

definition swtch_code :: "instr list" where
  "swtch_code = saves A0 context_regs @ loads A1 context_regs @ [RET]"

definition entry_code :: "u64 \<Rightarrow> u64 \<Rightarrow> u64 \<Rightarrow> instr list" where
  "entry_code stack0 start spin =
     [LI SP stack0, LI A0 4096, CSRR A1 MHARTID, ADDI A1 A1 1, MUL A0 A0 A1, ADD SP SP A0, CALL start spin]"

section \<open>Saving and restoring a frame\<close>

definition frame_ok :: "(reg \<times> nat) list \<Rightarrow> bool" where
  "frame_ok prs \<longleftrightarrow> distinct (map fst prs) \<and> distinct (map snd prs) \<and> list_all (\<lambda>(r, off). 8 dvd off \<and> off < 4096) prs"

lemma frames_ok:
  "frame_ok user_regs" "frame_ok (user_regs @ [(A0, 112)])" "frame_ok kernel_regs"
  "frame_ok (filter (\<lambda>(r, _). r \<noteq> TP) kernel_regs)" "frame_ok context_regs"
  by (simp_all add: frame_ok_def user_regs_def kernel_regs_def context_regs_def)

lemma frame_other:
  assumes "i \<noteq> j" "8 dvd i" "8 dvd j" "i < 4096" "j < 4096"
  shows "load64 (store64 m (pa + of_nat i) v) (pa + of_nat j) = load64 m (pa + of_nat j)"
proof (rule load64_store64_other)
  fix x assume x: "in_range (pa + of_nat j) 8 x"
  let ?k = "unat (x - (pa + of_nat j))"
  have xe: "x - (pa + of_nat i) = of_nat ?k + of_nat j - of_nat i" by simp
  show "\<not> in_range (pa + of_nat i) 8 x"
  proof (cases "i < j")
    case True
    then have d: "8 \<le> j - i" using assms(2,3) by (metis dvd_diff_nat dvd_imp_le zero_less_diff)
    have e: "x - (pa + of_nat i) = of_nat (?k + (j - i))" using True by (simp add: of_nat_diff)
    have "unat (x - (pa + of_nat i)) = ?k + (j - i)" unfolding e by (rule unat_of_nat_u64) (use x assms(5) in simp)
    then show ?thesis using d by simp
  next
    case False
    then have lt: "j < i" using assms(1) by simp
    then have d: "8 \<le> i - j" using assms(2,3) by (metis dvd_diff_nat dvd_imp_le zero_less_diff)
    let ?n = "0x10000000000000000 + ?k - (i - j)"
    have "(of_nat ?n :: u64) = of_nat (0x10000000000000000 + ?k) - of_nat (i - j)"
      using assms(4) by (intro of_nat_diff) simp
    also have "\<dots> = of_nat ?k - of_nat (i - j)" by simp
    also have "\<dots> = x - (pa + of_nat i)" using lt by (simp add: of_nat_diff)
    finally have e: "x - (pa + of_nat i) = of_nat ?n" by simp
    have "unat (x - (pa + of_nat i)) = ?n" unfolding e by (rule unat_of_nat_u64) (use x d assms(4) in simp)
    then show ?thesis using x assms(4) by simp
  qed
qed

definition stored :: "(reg \<times> nat) list \<Rightarrow> (reg \<Rightarrow> u64) \<Rightarrow> u64 \<Rightarrow> memory \<Rightarrow> memory" where
  "stored prs R pa m = fold (\<lambda>(r, off) m. store64 m (pa + of_nat off) (R r)) prs m"

lemma stored_other:
  "list_all (\<lambda>(r, off). 8 dvd off \<and> off < 4096) prs \<Longrightarrow> j \<notin> snd ` set prs \<Longrightarrow> 8 dvd j \<Longrightarrow> j < 4096 \<Longrightarrow>
   load64 (stored prs R pa m) (pa + of_nat j) = load64 m (pa + of_nat j)"
proof (induction prs arbitrary: m)
  case (Cons p prs)
  obtain r i where p: "p = (r, i)" by force
  show ?case using Cons frame_other [of i j m pa "R r"] by (auto simp: p stored_def)
qed (simp add: stored_def)

lemma stored_outside:
  "\<forall>(r, off) \<in> set prs. off + 8 \<le> n \<Longrightarrow> (\<And>k. k < n \<Longrightarrow> pa + of_nat k \<noteq> x) \<Longrightarrow> stored prs R pa m x = m x"
proof (induction prs arbitrary: m)
  case (Cons p prs)
  obtain r i where p: "p = (r, i)" by force
  have "\<not> in_range (pa + of_nat i) 8 x"
  proof
    assume a: "in_range (pa + of_nat i) 8 x"
    let ?j = "unat (x - (pa + of_nat i))"
    have "pa + of_nat (i + ?j) = x" by simp
    moreover have "i + ?j < n" using a Cons.prems(1) by (simp add: p)
    ultimately show False using Cons.prems(2) by blast
  qed
  then have "store64 m (pa + of_nat i) (R r) x = m x" by (rule store64_apply_other)
  moreover have "stored (p # prs) R pa m x = stored prs R pa (store64 m (pa + of_nat i) (R r)) x" by (simp add: stored_def p)
  moreover have "stored prs R pa (store64 m (pa + of_nat i) (R r)) x = store64 m (pa + of_nat i) (R r) x"
    using Cons.IH [OF _ Cons.prems(2)] Cons.prems(1) by simp
  ultimately show ?case by simp
qed (simp add: stored_def)

lemma stored_load:
  "frame_ok prs \<Longrightarrow> (r, off) \<in> set prs \<Longrightarrow> load64 (stored prs R pa m) (pa + of_nat off) = R r"
proof (induction prs arbitrary: m)
  case (Cons p prs)
  obtain q i where p: "p = (q, i)" by force
  have f: "frame_ok prs" "i \<notin> snd ` set prs" "8 dvd i" "i < 4096" "list_all (\<lambda>(r, off). 8 dvd off \<and> off < 4096) prs"
    using Cons.prems(1) by (auto simp: frame_ok_def p)
  have st: "stored (p # prs) R pa m = stored prs R pa (store64 m (pa + of_nat i) (R q))" by (simp add: stored_def p)
  show ?case
  proof (cases "(r, off) = p")
    case True
    then show ?thesis unfolding st using stored_other [OF f(5,2,3,4)] by (simp add: p load64_store64_same)
  next
    case False
    then show ?thesis unfolding st using Cons.IH [OF f(1)] Cons.prems(2) by simp
  qed
qed simp

text \<open>A base register whose addresses \<open>b + off\<close> are mapped to the physical addresses \<open>pa + off\<close>.\<close>

definition mapped :: "(u64 \<Rightarrow> u64 \<Rightarrow> u64) \<Rightarrow> u64 \<Rightarrow> u64 \<Rightarrow> u64 \<Rightarrow> bool" where
  "mapped tr satp va pa \<longleftrightarrow> (\<forall>off < 4096. tr satp (va + of_nat off) = pa + of_nat off)"

lemma exec_saves:
  assumes "mapped tr (csrs s SATP) (regs s b) pa" "list_all (\<lambda>(r, off). 8 dvd off \<and> off < 4096) prs"
  shows "exec_code tr (saves b prs) s = s\<lparr>mem := stored prs (regs s) pa (mem s)\<rparr>"
  using assms
proof (induction prs arbitrary: s)
  case (Cons p prs)
  obtain r i where p: "p = (r, i)" by force
  let ?s = "s\<lparr>mem := store64 (mem s) (pa + of_nat i) (regs s r)\<rparr>"
  have "tr (csrs s SATP) (regs s b + of_nat i) = pa + of_nat i" using Cons.prems by (simp add: mapped_def p)
  then have "exec_code tr (saves b (p # prs)) s = exec_code tr (saves b prs) ?s" by (simp add: exec_code_def saves_def p)
  then show ?case using Cons.IH [of ?s] Cons.prems by (simp add: stored_def p)
qed (simp add: exec_code_def saves_def stored_def)

text \<open>Loading a frame; the base register may be among the registers loaded if its own value is stored.\<close>

lemma exec_loads:
  assumes "mapped tr (csrs s SATP) (regs s b) pa" "frame_ok prs"
    and "\<And>off. (b, off) \<in> set prs \<Longrightarrow> load64 (mem s) (pa + of_nat off) = regs s b"
  shows "exec_code tr (loads b prs) s =
    s\<lparr>regs := \<lambda>r. case map_of prs r of None \<Rightarrow> regs s r | Some off \<Rightarrow> load64 (mem s) (pa + of_nat off)\<rparr>"
  using assms
proof (induction prs arbitrary: s)
  case (Cons p prs)
  obtain r i where p: "p = (r, i)" by force
  have f: "frame_ok prs" "i < 4096" "r \<notin> fst ` set prs" using Cons.prems(2) by (auto simp: frame_ok_def p)
  let ?v = "load64 (mem s) (pa + of_nat i)"
  let ?s = "set_reg r ?v s"
  have "tr (csrs s SATP) (regs s b + of_nat i) = pa + of_nat i" using Cons.prems(1) f(2) by (simp add: mapped_def)
  then have e: "exec_code tr (loads b (p # prs)) s = exec_code tr (loads b prs) ?s" by (simp add: exec_code_def loads_def p)
  have b: "regs ?s b = regs s b" using Cons.prems(3) [of i] by (auto simp: set_reg_def p)
  have "exec_code tr (loads b prs) ?s =
      ?s\<lparr>regs := \<lambda>r. case map_of prs r of None \<Rightarrow> regs ?s r | Some off \<Rightarrow> load64 (mem ?s) (pa + of_nat off)\<rparr>"
  proof (rule Cons.IH [OF _ f(1)])
    show "mapped tr (csrs ?s SATP) (regs ?s b) pa" using Cons.prems(1) b by (simp add: set_reg_def)
    show "load64 (mem ?s) (pa + of_nat off) = regs ?s b" if "(b, off) \<in> set prs" for off
      using Cons.prems(3) [of off] that b by (simp add: set_reg_def)
  qed
  moreover have "map_of prs r = None" using f(3) by (simp add: map_of_eq_None_iff)
  ultimately show ?case unfolding e by (auto simp: set_reg_def p fun_eq_iff split: option.splits)
qed (simp add: exec_code_def loads_def)

lemma exec_code_simps [simp]:
  "exec_code tr [] s = s" "exec_code tr (i # is) s = exec_code tr is (exec1 tr i s)" "exec_code tr (is @ js) s = exec_code tr js (exec_code tr is s)"
  by (simp_all add: exec_code_def)

lemma frame_offsets: "frame_ok prs \<Longrightarrow> list_all (\<lambda>(r, off). 8 dvd off \<and> off < 4096) prs"
  by (simp add: frame_ok_def)

section \<open>Traps from user space\<close>

definition demo_mach :: mach where
  "demo_mach = \<lparr>regs = (\<lambda>r. if r = SP then 0x80003000 else if r = A0 then 0x80005000 else if r = A1 then 0x80006000 else 5),
     csrs = (\<lambda>c. if c = SSCRATCH then TRAPFRAME else if c = SEPC then 0x1234 else 0), mem = (\<lambda>a. ucast a), mpc = 0\<rparr>"

text \<open>Machine mode does not translate addresses.\<close>

definition bare :: "u64 \<Rightarrow> u64 \<Rightarrow> u64" where
  "bare satp va = va"

lemma mapped_bare [simp]: "mapped bare satp va va"
  by (simp add: mapped_def bare_def)

lemma uservec_effect:
  assumes "mapped tr (csrs s SATP) TRAPFRAME tf" "csrs s SSCRATCH = TRAPFRAME"
  shows "mem (exec_code tr uservec_code s) = stored (user_regs @ [(A0, 112)]) (regs s) tf (mem s)"
    "mpc (exec_code tr uservec_code s) = load64 (mem s) (tf + 16)" "csrs (exec_code tr uservec_code s) SATP = load64 (mem s) tf"
    "regs (exec_code tr uservec_code s) SP = load64 (mem s) (tf + 8)" "regs (exec_code tr uservec_code s) TP = load64 (mem s) (tf + 32)"
proof -
  let ?s = "exec1 tr (CSRRW A0 SSCRATCH A0) s"
  let ?m = "stored user_regs (regs ?s) tf (mem s)"
  have s: "csrs ?s SATP = csrs s SATP" "regs ?s A0 = TRAPFRAME" "mem ?s = mem s" "csrs ?s SSCRATCH = regs s A0"
    using assms(2) by (simp_all add: set_reg_def set_csr_def)
  have e: "exec_code tr (saves A0 user_regs) ?s = ?s\<lparr>mem := ?m\<rparr>"
    using exec_saves [of tr ?s A0 tf user_regs] assms(1) s frame_offsets [OF frames_ok(1)] by simp
  have tr: "tr (csrs s SATP) (TRAPFRAME + of_nat off) = tf + of_nat off" if "off < 4096" for off
    using assms(1) that by (simp add: mapped_def)
  have "stored user_regs (regs ?s) tf (mem s) = stored user_regs (regs s) tf (mem s)"
    unfolding stored_def user_regs_def by (simp add: set_reg_def set_csr_def)
  then have m: "store64 ?m (tf + 112) (regs s A0) = stored (user_regs @ [(A0, 112)]) (regs s) tf (mem s)"
    by (simp add: stored_def)
  have ld: "load64 (store64 ?m (tf + 112) (regs s A0)) (tf + of_nat off) = load64 (mem s) (tf + of_nat off)" if "off \<in> {0, 8, 16, 32}" for off
    unfolding m using that by (intro stored_other frame_offsets frames_ok) (auto simp: user_regs_def)
  have c: "exec_code tr uservec_code s = exec_code tr
      [CSRR T0 SSCRATCH, SD T0 112 A0, LD SP 8 A0, LD TP 32 A0, LD T0 16 A0, LD T1 0 A0, CSRW SATP T1, SFENCE_VMA, JR T0] (?s\<lparr>mem := ?m\<rparr>)"
    unfolding uservec_code_def using e by simp
  note t = tr [of 0, simplified] tr [of 8, simplified] tr [of 16, simplified] tr [of 32, simplified] tr [of 112, simplified]
  note l = ld [of 0, simplified] ld [of 8, simplified] ld [of 16, simplified] ld [of 32, simplified]
  show "mem (exec_code tr uservec_code s) = stored (user_regs @ [(A0, 112)]) (regs s) tf (mem s)"
    unfolding m [symmetric] c using s t by (simp add: set_reg_def set_csr_def)
  show "mpc (exec_code tr uservec_code s) = load64 (mem s) (tf + 16)" "csrs (exec_code tr uservec_code s) SATP = load64 (mem s) tf"
    "regs (exec_code tr uservec_code s) SP = load64 (mem s) (tf + 8)" "regs (exec_code tr uservec_code s) TP = load64 (mem s) (tf + 32)"
    unfolding c using s t l by (simp_all add: set_reg_def set_csr_def)
qed

lemma userret_effect:
  assumes "mapped tr (regs s A1) TRAPFRAME tf" "regs s A0 = TRAPFRAME"
  shows "regs (exec_code tr userret_code s) r =
      (if r = A0 then load64 (mem s) (tf + 112)
       else case map_of user_regs r of None \<Rightarrow> regs s r | Some off \<Rightarrow> load64 (mem s) (tf + of_nat off))"
    "mpc (exec_code tr userret_code s) = csrs s SEPC" "csrs (exec_code tr userret_code s) SSCRATCH = TRAPFRAME"
    "csrs (exec_code tr userret_code s) SATP = regs s A1"
proof -
  define p where p: "p = exec_code tr [CSRW SATP A1, SFENCE_VMA, LD T0 112 A0, CSRW SSCRATCH T0] s"
  have "tr (regs s A1) (TRAPFRAME + of_nat 112) = tf + of_nat 112" using assms(1) by (simp only: mapped_def)
  then have s: "csrs p SATP = regs s A1" "regs p A0 = TRAPFRAME" "mem p = mem s" "csrs p SSCRATCH = load64 (mem s) (tf + 112)"
    "csrs p SEPC = csrs s SEPC" "\<And>q. q \<noteq> T0 \<Longrightarrow> regs p q = regs s q"
    using assms(2) by (simp_all add: p set_reg_def set_csr_def)
  have nb: "(A0, off) \<notin> set user_regs" for off by (simp add: user_regs_def)
  define R where R: "R = (\<lambda>r. case map_of user_regs r of None \<Rightarrow> regs p r | Some off \<Rightarrow> load64 (mem s) (tf + of_nat off))"
  have e: "exec_code tr (loads A0 user_regs) p = p\<lparr>regs := R\<rparr>"
    using exec_loads [of tr p A0 tf user_regs] assms(1) s(1,2) frames_ok(1) nb by (simp add: R s(3) cong: option.case_cong)
  have c: "exec_code tr userret_code s = exec_code tr [CSRRW A0 SSCRATCH A0, SRET] (p\<lparr>regs := R\<rparr>)"
    unfolding userret_code_def exec_code_simps(3) p [symmetric] e ..
  have R0: "R A0 = TRAPFRAME" using s(2) by (simp add: R user_regs_def)
  have t0: "map_of user_regs T0 = Some 72" by (simp add: user_regs_def)
  have Rq: "R q = (case map_of user_regs q of None \<Rightarrow> regs s q | Some off \<Rightarrow> load64 (mem s) (tf + of_nat off))" if "q \<noteq> A0" for q
    using t0 s(6) [of q] by (cases "q = T0"; cases "map_of user_regs q") (simp_all add: R)
  show "regs (exec_code tr userret_code s) r =
      (if r = A0 then load64 (mem s) (tf + 112)
       else case map_of user_regs r of None \<Rightarrow> regs s r | Some off \<Rightarrow> load64 (mem s) (tf + of_nat off))"
    unfolding c using s(4) Rq [of r] by (simp add: set_reg_def set_csr_def)
  show "mpc (exec_code tr userret_code s) = csrs s SEPC" "csrs (exec_code tr userret_code s) SSCRATCH = TRAPFRAME"
    "csrs (exec_code tr userret_code s) SATP = regs s A1"
    unfolding c using s(1,5) R0 by (simp_all add: set_reg_def set_csr_def)
qed

lemma user_regs_cover: "r = A0 \<or> (\<exists>off. map_of user_regs r = Some off)"
  by (cases r) (simp_all add: user_regs_def)


definition demo_handler :: mach where
  "demo_handler = set_reg A0 TRAPFRAME (set_reg A1 0 (exec_code bare uservec_code demo_mach))"


section \<open>Traps from the kernel\<close>

lemma kernel_regs_cover: "r = TP \<or> (\<exists>off. map_of (filter (\<lambda>(r, _). r \<noteq> TP) kernel_regs) r = Some off \<and> (r, off) \<in> set kernel_regs)"
  by (cases r) (simp_all add: kernel_regs_def)

text \<open>
  An interrupt taken in the kernel is transparent. \<open>kernelvec\<close> calls \<open>kerneltrap\<close> below the interrupted stack; when that returns with its stack
  pointer and the 256 bytes of the frame intact, every register but \<open>tp\<close> is as it was, and execution
  continues at \<open>sepc\<close>; \<open>tp\<close> keeps the hart id of the hart that returns.
\<close>

lemma kernelvec_transparent:
  assumes s: "mapped tr (csrs s SATP) (regs s SP - 256) pa"
    and k: "regs k SP = regs s SP - 256" "mapped tr (csrs k SATP) (regs k SP) pa"
    and frame: "\<forall>off < 256. mem k (pa + of_nat off) = mem (exec_code tr (kernelvec_in kt ret) s) (pa + of_nat off)"
  shows "mpc (exec_code tr (kernelvec_in kt ret) s) = kt \<and> mpc (exec_code tr kernelvec_out k) = csrs k SEPC \<and>
    (\<forall>r. regs (exec_code tr kernelvec_out k) r = (if r = TP then regs k TP else regs s r))"
proof -
  let ?s = "exec1 tr (ADDI SP SP (- 256)) s"
  have s': "csrs ?s SATP = csrs s SATP" "regs ?s SP = regs s SP - 256" "mem ?s = mem s" "\<And>q. q \<noteq> SP \<Longrightarrow> regs ?s q = regs s q"
    by (simp_all add: set_reg_def)
  have e: "exec_code tr (saves SP kernel_regs) ?s = ?s\<lparr>mem := stored kernel_regs (regs ?s) pa (mem s)\<rparr>"
    using exec_saves [of tr ?s SP pa kernel_regs] s s' frame_offsets [OF frames_ok(3)] by simp
  have c: "exec_code tr (kernelvec_in kt ret) s = exec1 tr (CALL kt ret) (?s\<lparr>mem := stored kernel_regs (regs ?s) pa (mem s)\<rparr>)"
    unfolding kernelvec_in_def exec_code_simps e by simp
  have m: "mem (exec_code tr (kernelvec_in kt ret) s) = stored kernel_regs (regs ?s) pa (mem s)"
    "mpc (exec_code tr (kernelvec_in kt ret) s) = kt"
    unfolding c by (simp_all add: set_reg_def)
  have ld: "load64 (mem k) (pa + of_nat off) = regs ?s q" if "(q, off) \<in> set kernel_regs" for q off
  proof -
    have o: "off < 249" using that by (auto simp: kernel_regs_def)
    have "load64 (mem k) (pa + of_nat off) = load64 (mem (exec_code tr (kernelvec_in kt ret) s)) (pa + of_nat off)"
    proof (rule load64_cong)
      fix i :: nat assume "i < 8"
      then show "mem k (pa + of_nat off + of_nat i) = mem (exec_code tr (kernelvec_in kt ret) s) (pa + of_nat off + of_nat i)"
        using frame [rule_format, of "off + i"] o by (simp add: add.assoc)
    qed
    then show ?thesis unfolding m(1) using stored_load [OF frames_ok(3) that] by simp
  qed
  let ?L = "filter (\<lambda>(r, _). r \<noteq> TP) kernel_regs"
  have own: "load64 (mem k) (pa + of_nat off) = regs k SP" if "(SP, off) \<in> set ?L" for off
    using ld [of SP off] that s'(2) k(1) by auto
  have l: "exec_code tr (loads SP ?L) k =
      k\<lparr>regs := \<lambda>r. case map_of ?L r of None \<Rightarrow> regs k r | Some off \<Rightarrow> load64 (mem k) (pa + of_nat off)\<rparr>"
    by (rule exec_loads [OF k(2) frames_ok(4) own])
  have tp: "map_of ?L TP = None" by (auto simp: map_of_eq_None_iff)
  have R: "(case map_of ?L r of None \<Rightarrow> regs k r | Some off \<Rightarrow> load64 (mem k) (pa + of_nat off)) = (if r = TP then regs k TP else regs ?s r)" for r
    using kernel_regs_cover [of r] ld [of r] tp by auto
  have o: "exec_code tr kernelvec_out k = exec_code tr [ADDI SP SP 256, SRET] (k\<lparr>regs := \<lambda>r. if r = TP then regs k TP else regs ?s r\<rparr>)"
    unfolding kernelvec_out_def exec_code_simps(3) l R ..
  have "regs (exec_code tr kernelvec_out k) r = (if r = TP then regs k TP else regs s r)" for r
    unfolding o by (simp add: set_reg_def)
  moreover have "mpc (exec_code tr kernelvec_out k) = csrs k SEPC" unfolding o by (simp add: set_reg_def)
  ultimately show ?thesis using m(2) by blast
qed

theorem kernelvec_transparent_witness:
  "mpc (exec_code bare (kernelvec_in 0x800027AA 0x80005080) demo_mach) = 0x800027AA \<and>
   (\<forall>r. regs (exec_code bare kernelvec_out (exec_code bare (kernelvec_in 0x800027AA 0x80005080) demo_mach)) r = regs demo_mach r)"
proof -
  let ?k = "exec_code bare (kernelvec_in 0x800027AA 0x80005080) demo_mach"
  have k: "regs ?k SP = regs demo_mach SP - 256" "regs ?k TP = regs demo_mach TP"
    by (simp_all add: kernelvec_in_def saves_def kernel_regs_def set_reg_def)
  have "mapped bare (csrs ?k SATP) (regs ?k SP) (regs demo_mach SP - 256)" unfolding k(1) by simp
  from kernelvec_transparent [OF mapped_bare k(1) this, of "0x800027AA" "0x80005080"] show ?thesis using k(2) by simp
qed

section \<open>Context switches and clock interrupts\<close>

lemma swtch_effect:
  assumes "mapped tr (csrs s SATP) (regs s A0) old" "mapped tr (csrs s SATP) (regs s A1) new"
    and sep: "\<forall>i < 112. \<forall>j < 112. old + of_nat i \<noteq> new + of_nat j"
  shows "mem (exec_code tr swtch_code s) = stored context_regs (regs s) old (mem s)"
    "(r, off) \<in> set context_regs \<Longrightarrow> regs (exec_code tr swtch_code s) r = load64 (mem s) (new + of_nat off)"
    "mpc (exec_code tr swtch_code s) = load64 (mem s) new"
proof -
  define m where m: "m = stored context_regs (regs s) old (mem s)"
  have e: "exec_code tr (saves A0 context_regs) s = s\<lparr>mem := m\<rparr>"
    unfolding m by (rule exec_saves [OF assms(1) frame_offsets [OF frames_ok(5)]])
  have nb: "(A1, off) \<notin> set context_regs" for off by (simp add: context_regs_def)
  define R where R: "R = (\<lambda>r. case map_of context_regs r of None \<Rightarrow> regs s r | Some off \<Rightarrow> load64 m (new + of_nat off))"
  have l: "exec_code tr (loads A1 context_regs) (s\<lparr>mem := m\<rparr>) = s\<lparr>mem := m, regs := R\<rparr>"
    using exec_loads [of tr "s\<lparr>mem := m\<rparr>" A1 new context_regs] assms(2) frames_ok(5) nb by (simp add: R cong: option.case_cong)
  have c: "exec_code tr swtch_code s = s\<lparr>mem := m, regs := R, mpc := R RA\<rparr>"
    unfolding swtch_code_def exec_code_simps(3) e l by simp
  have old: "load64 m (new + of_nat off) = load64 (mem s) (new + of_nat off)" if "off + 7 < 112" for off
    unfolding m
  proof (rule load64_cong)
    fix i :: nat assume "i < 8"
    then have ne: "old + of_nat k \<noteq> new + of_nat off + of_nat i" if "k < 112" for k
      using sep [rule_format, of k "off + i"] that \<open>off + 7 < 112\<close> by (simp add: add.assoc)
    show "stored context_regs (regs s) old (mem s) (new + of_nat off + of_nat i) = mem s (new + of_nat off + of_nat i)"
      by (rule stored_outside [of _ 112]) (auto simp: context_regs_def ne)
  qed
  have R': "R r = load64 (mem s) (new + of_nat off)" if "(r, off) \<in> set context_regs" for r off
  proof -
    have "map_of context_regs r = Some off" using frames_ok(5) that by (simp add: frame_ok_def)
    moreover have "off + 7 < 112" using that by (auto simp: context_regs_def)
    ultimately show ?thesis by (simp add: R old)
  qed
  show "mem (exec_code tr swtch_code s) = stored context_regs (regs s) old (mem s)" by (simp add: c m)
  show "regs (exec_code tr swtch_code s) r = load64 (mem s) (new + of_nat off)" if "(r, off) \<in> set context_regs" by (simp add: c R' [OF that])
  have "(RA, 0) \<in> set context_regs" by (simp add: context_regs_def)
  then show "mpc (exec_code tr swtch_code s) = load64 (mem s) new" using R' [of RA 0] by (simp add: c)
qed


definition demo_back :: mach where
  "demo_back = set_reg A0 0x80006000 (set_reg A1 0x80005000 (exec_code bare swtch_code demo_mach))"


definition scratch_regs :: "(reg \<times> nat) list" where
  "scratch_regs = [(A1, 0), (A2, 8), (A3, 16)]"

lemma scratch_frame: "frame_ok scratch_regs" "frame_ok [(A3, 16), (A2, 8), (A1, 0)]"
  by (simp_all add: frame_ok_def scratch_regs_def)

text \<open>Two ranges of memory that have no byte in common.\<close>

definition disjoint_from :: "u64 \<Rightarrow> nat \<Rightarrow> u64 \<Rightarrow> nat \<Rightarrow> bool" where
  "disjoint_from a n b m \<longleftrightarrow> (\<forall>x. in_range a n x \<longrightarrow> \<not> in_range b m x)"

lemma in_range_inner:
  fixes a :: u64
  assumes "in_range (a + of_nat k) 8 x" "k + 8 \<le> n" "n < 2 ^ 64"
  shows "in_range a n x"
proof -
  let ?i = "unat (x - (a + of_nat k))"
  have e: "x - a = of_nat (k + ?i)" by simp
  have "unat (of_nat (k + ?i) :: u64) = k + ?i" by (rule unat_of_nat_u64) (use assms in simp)
  then show ?thesis unfolding e using assms by linarith
qed

lemma timervec_effect:
  assumes cmp: "load64 (mem s) (csrs s MSCRATCH + 32) = cmp" and iv: "load64 (mem s) (csrs s MSCRATCH + 40) = interval"
    and disjoint_from: "disjoint_from (csrs s MSCRATCH) 48 cmp 8"
  shows "exec_code bare timervec_code s =
    s\<lparr>mem := store64 (stored scratch_regs (regs s) (csrs s MSCRATCH) (mem s)) cmp (load64 (mem s) cmp + interval),
      csrs := (csrs s)(SIP := 2), mpc := csrs s MEPC\<rparr>"
proof -
  let ?sc = "csrs s MSCRATCH"
  define m where m: "m = stored scratch_regs (regs s) ?sc (mem s)"
  have m': "store64 (store64 (store64 (mem s) ?sc (regs s A1)) (?sc + 8) (regs s A2)) (?sc + 16) (regs s A3) = m"
    by (simp add: m stored_def scratch_regs_def)
  have ld: "load64 m ?sc = regs s A1" "load64 m (?sc + 8) = regs s A2" "load64 m (?sc + 16) = regs s A3"
    using stored_load [OF scratch_frame(1), of A1 0 "regs s" ?sc] stored_load [OF scratch_frame(1), of A2 8 "regs s" ?sc]
      stored_load [OF scratch_frame(1), of A3 16 "regs s" ?sc] by (simp_all add: m scratch_regs_def)
  have par: "load64 m (?sc + 32) = cmp" "load64 m (?sc + 40) = interval"
    using stored_other [OF frame_offsets [OF scratch_frame(1)], of 32 "regs s" ?sc] stored_other [OF frame_offsets [OF scratch_frame(1)], of 40 "regs s" ?sc]
      cmp iv by (simp_all add: m scratch_regs_def)
  have c: "load64 m cmp = load64 (mem s) cmp"
  proof (rule load64_same_mem)
    fix x assume "in_range cmp 8 x"
    then have n: "\<not> in_range ?sc 48 x" using disjoint_from unfolding disjoint_from_def by blast
    have "?sc + of_nat k \<noteq> x" if "k < 48" for k
      using n that unat_of_nat_u64 [of k] by auto
    then show "m x = mem s x" unfolding m by (intro stored_outside [of _ 48]) (auto simp: scratch_regs_def)
  qed
  have keep: "load64 (store64 m cmp v) (?sc + of_nat k) = load64 m (?sc + of_nat k)" if "k + 8 \<le> 48" for k v
  proof (rule load64_store64_other)
    fix x assume x: "in_range (?sc + of_nat k) 8 x"
    have "in_range ?sc 48 x" using in_range_inner [OF x that] by simp
    then show "\<not> in_range cmp 8 x" using disjoint_from unfolding disjoint_from_def by blast
  qed
  have bk: "load64 (store64 m cmp v) ?sc = regs s A1" "load64 (store64 m cmp v) (?sc + 8) = regs s A2"
    "load64 (store64 m cmp v) (?sc + 16) = regs s A3" for v
    using keep [of 0 v] keep [of 8 v] keep [of 16 v] ld by simp_all
  show ?thesis
    by (simp add: timervec_code_def set_reg_def set_csr_def bare_def m' ld par c bk m [symmetric] fun_eq_iff)
qed

end
