(* ===== verification/KString.thy ===== *)
theory KString
  imports Prelude
begin

text \<open>
  The kernel's byte and string routines (kernel/string.c) over byte memory. Pointers are 64-bit
  addresses; every routine takes the memory and returns the memory it leaves, or the value it
  computes. Loops that are bounded by a count are recursions on it; \<open>strlen\<close>, which runs until it
  meets a zero byte, is a partial function whose value \<open>None\<close> means that it does not return.
\<close>

section \<open>Definitions\<close>

text \<open>\<open>memset\<close>: the loop index \<open>i\<close> counts up to \<open>n\<close>; the int \<open>c\<close> is cut to a char.\<close>

function memset_loop :: "memory \<Rightarrow> u64 \<Rightarrow> u32 \<Rightarrow> nat \<Rightarrow> nat \<Rightarrow> memory" where
  "memset_loop m dst c i n =
     (if i < n then memset_loop (m(dst + of_nat i := ucast c)) dst c (i + 1) n else m)"
  by pat_completeness auto
termination
  by (relation "measure (\<lambda>(m, dst, c, i, n). n - i)") auto

declare memset_loop.simps [simp del]

definition memset :: "memory \<Rightarrow> u64 \<Rightarrow> u32 \<Rightarrow> u32 \<Rightarrow> memory" where
  "memset m dst c n = memset_loop m dst c 0 (unat n)"

text \<open>\<open>memcmp\<close>: the difference of the first two unsigned bytes that differ, 0 when none does.\<close>

fun memcmp_loop :: "memory \<Rightarrow> u64 \<Rightarrow> u64 \<Rightarrow> nat \<Rightarrow> int" where
  "memcmp_loop m s1 s2 0 = 0"
| "memcmp_loop m s1 s2 (Suc n) =
     (if m s1 \<noteq> m s2 then uint (m s1) - uint (m s2) else memcmp_loop m (s1 + 1) (s2 + 1) n)"

definition memcmp :: "memory \<Rightarrow> u64 \<Rightarrow> u64 \<Rightarrow> u32 \<Rightarrow> int" where
  "memcmp m s1 s2 n = memcmp_loop m s1 s2 (unat n)"

text \<open>\<open>memmove\<close>: backwards when the source starts below an overlapping destination.\<close>

fun copy_up :: "memory \<Rightarrow> u64 \<Rightarrow> u64 \<Rightarrow> nat \<Rightarrow> memory" where
  "copy_up m d s 0 = m"
| "copy_up m d s (Suc n) = copy_up (m(d := m s)) (d + 1) (s + 1) n"

fun copy_down :: "memory \<Rightarrow> u64 \<Rightarrow> u64 \<Rightarrow> nat \<Rightarrow> memory" where
  "copy_down m d s 0 = m"
| "copy_down m d s (Suc n) = copy_down (m(d - 1 := m (s - 1))) (d - 1) (s - 1) n"

definition memmove :: "memory \<Rightarrow> u64 \<Rightarrow> u64 \<Rightarrow> u32 \<Rightarrow> memory" where
  "memmove m dst src n =
     (if src < dst \<and> src + ucast n > dst
      then copy_down m (dst + ucast n) (src + ucast n) (unat n)
      else copy_up m dst src (unat n))"

definition memcpy :: "memory \<Rightarrow> u64 \<Rightarrow> u64 \<Rightarrow> u32 \<Rightarrow> memory" where
  "memcpy m dst src n = memmove m dst src n"

fun strncmp_loop :: "memory \<Rightarrow> u64 \<Rightarrow> u64 \<Rightarrow> nat \<Rightarrow> int" where
  "strncmp_loop m p q 0 = 0"
| "strncmp_loop m p q (Suc n) =
     (if m p \<noteq> 0 \<and> m p = m q then strncmp_loop m (p + 1) (q + 1) n
      else uint (m p) - uint (m q))"

definition strncmp :: "memory \<Rightarrow> u64 \<Rightarrow> u64 \<Rightarrow> u32 \<Rightarrow> int" where
  "strncmp m p q n = strncmp_loop m p q (unat n)"

text \<open>\<open>strncpy\<close>: copy up to and including a zero byte, then pad with zero bytes.\<close>

fun strncpy_pad :: "memory \<Rightarrow> u64 \<Rightarrow> nat \<Rightarrow> memory" where
  "strncpy_pad m s 0 = m"
| "strncpy_pad m s (Suc n) = strncpy_pad (m(s := 0)) (s + 1) n"

fun strncpy_loop :: "memory \<Rightarrow> u64 \<Rightarrow> u64 \<Rightarrow> nat \<Rightarrow> memory" where
  "strncpy_loop m s t 0 = m"
| "strncpy_loop m s t (Suc n) =
     (let c = m t; m' = m(s := c)
      in if c \<noteq> 0 then strncpy_loop m' (s + 1) (t + 1) n else strncpy_pad m' (s + 1) n)"

definition strncpy :: "memory \<Rightarrow> u64 \<Rightarrow> u64 \<Rightarrow> u32 \<Rightarrow> memory" where
  "strncpy m s t n = strncpy_loop m s t (nat (sint n))"

text \<open>\<open>safestrcpy\<close>: at most \<open>n - 1\<close> bytes, then always a zero byte.\<close>

fun safestrcpy_loop :: "memory \<Rightarrow> u64 \<Rightarrow> u64 \<Rightarrow> nat \<Rightarrow> memory" where
  "safestrcpy_loop m s t 0 = m"
| "safestrcpy_loop m s t (Suc n) =
     (if n > 0 then
        let c = m t; m' = m(s := c)
        in if c \<noteq> 0 then safestrcpy_loop m' (s + 1) (t + 1) n else m'(s + 1 := 0)
      else m(s := 0))"

definition safestrcpy :: "memory \<Rightarrow> u64 \<Rightarrow> u64 \<Rightarrow> u32 \<Rightarrow> memory" where
  "safestrcpy m s t n =
     (if sint n \<le> 0 then m else safestrcpy_loop m s t (nat (sint n)))"

partial_function (option) strlen_from :: "memory \<Rightarrow> u64 \<Rightarrow> nat \<Rightarrow> nat option" where
  "strlen_from m s n = (if m (s + of_nat n) = 0 then Some n else strlen_from m s (n + 1))"

definition strlen :: "memory \<Rightarrow> u64 \<Rightarrow> nat option" where
  "strlen m s = strlen_from m s 0"

text \<open>The C string at an address: its bytes up to, and without, the first zero byte.\<close>

definition cstring :: "memory \<Rightarrow> u64 \<Rightarrow> u8 list \<Rightarrow> bool" where
  "cstring m p xs \<longleftrightarrow> 0 \<notin> set xs \<and> read_bytes m p (length xs) = xs \<and> m (p + of_nat (length xs)) = 0"

section \<open>Byte routines\<close>

lemma memset_loop_apply:
  "i \<le> n \<Longrightarrow> n \<le> 18446744073709551616 \<Longrightarrow>
   memset_loop m dst c i n x = (if i \<le> unat (x - dst) \<and> unat (x - dst) < n then ucast c else m x)"
proof (induction m dst c i n rule: memset_loop.induct)
  case (1 m dst c i n)
  show ?case
  proof (cases "i < n")
    case True
    have "x = dst + of_nat i \<longleftrightarrow> unat (x - dst) = i"
      using True "1.prems" by (auto simp: unat_of_nat_u64 algebra_simps)
    moreover have "memset_loop (m(dst + of_nat i := ucast c)) dst c (i + 1) n x =
        (if i + 1 \<le> unat (x - dst) \<and> unat (x - dst) < n then ucast c
         else (m(dst + of_nat i := ucast c)) x)"
      by (rule "1.IH") (use True "1.prems" in auto)
    ultimately show ?thesis using True "1.prems" by (subst memset_loop.simps) auto
  next
    case False
    then show ?thesis using "1.prems" by (subst memset_loop.simps) auto
  qed
qed

lemma memset_apply [mem_simps]:
  "memset m dst c n x = (if in_range dst (unat n) x then ucast c else m x)"
  using less_imp_le [OF unat_u32_lt [of n]] by (simp add: memset_def memset_loop_apply)

lemma copy_up_apply:
  assumes "n \<le> 18446744073709551616"
    and "\<And>i j. j < i \<Longrightarrow> i < n \<Longrightarrow> s + of_nat i \<noteq> d + of_nat j"
  shows "copy_up m d s n x = (if in_range d n x then m (s + (x - d)) else m x)"
  using assms
proof (induction n arbitrary: m d s)
  case 0
  then show ?case by simp
next
  case (Suc n)
  have sep: "s + 1 + of_nat i \<noteq> d + 1 + of_nat j" if "j < i" "i < n" for i j
    using Suc.prems(2) [of "j + 1" "i + 1"] that by (simp add: algebra_simps)
  have IH: "copy_up m' (d + 1) (s + 1) n x =
      (if in_range (d + 1) n x then m' (s + 1 + (x - (d + 1))) else m' x)" for m'
    by (rule Suc.IH) (use Suc.prems(1) sep in auto)
  show ?case
  proof (cases "x = d")
    case True
    then show ?thesis using IH Suc.prems(1) unat_diff_self_Suc [of d] by simp
  next
    case False
    then have nz: "unat (x - d) \<noteq> 0" by (simp add: unat_eq_0)
    have "s + (x - d) \<noteq> d" if "unat (x - d) < Suc n"
      using Suc.prems(2) [of 0 "unat (x - d)"] nz that by simp
    then show ?thesis using IH False nz by (auto simp: unat_diff_Suc)
  qed
qed

lemma copy_down_apply:
  assumes "n \<le> 18446744073709551616"
    and "\<And>i j. i < j \<Longrightarrow> j < n \<Longrightarrow> s + of_nat i \<noteq> d + of_nat j"
  shows "copy_down m (d + of_nat n) (s + of_nat n) n x =
    (if in_range d n x then m (s + (x - d)) else m x)"
  using assms
proof (induction n arbitrary: m)
  case 0
  then show ?case by simp
next
  case (Suc n)
  let ?m = "m(d + of_nat n := m (s + of_nat n))"
  have IH: "copy_down ?m (d + of_nat n) (s + of_nat n) n x =
      (if in_range d n x then ?m (s + (x - d)) else ?m x)"
    by (rule Suc.IH) (use Suc.prems in auto)
  have top: "x = d + of_nat n \<longleftrightarrow> unat (x - d) = n"
    using Suc.prems(1) by (auto simp: unat_of_nat_u64 algebra_simps)
  have "s + (x - d) \<noteq> d + of_nat n" if "unat (x - d) < n"
    using Suc.prems(2) [of "unat (x - d)" n] that by simp
  then show ?case using IH top by (auto simp: algebra_simps)
qed

text \<open>
  Whatever the overlap of the two ranges, \<open>memmove\<close> leaves at the destination what the source
  held before the call.
\<close>

lemma of_nat_neq_below:
  assumes "unat (a :: u64) + i < 18446744073709551616" "unat b + j < 18446744073709551616"
    and "unat a + i \<noteq> unat b + j"
  shows "a + of_nat i \<noteq> b + of_nat j"
proof
  assume "a + of_nat i = b + of_nat j"
  then have "unat (a + of_nat i) = unat (b + of_nat j)" by simp
  then show False using assms by (simp add: unat_word_ariths unat_of_nat)
qed

lemma memmove_apply [mem_simps]:
  assumes "unat src + unat n \<le> 18446744073709551616" "unat dst + unat n \<le> 18446744073709551616"
  shows "memmove m dst src n x = (if in_range dst (unat n) x then m (src + (x - dst)) else m x)"
proof (cases "src < dst \<and> src + ucast n > dst")
  case True
  have "src + of_nat i \<noteq> dst + of_nat j" if "i < j" "j < unat n" for i j
    using that assms True [THEN conjunct1] by (intro of_nat_neq_below) (auto simp: word_less_nat_alt)
  then have "copy_down m (dst + of_nat (unat n)) (src + of_nat (unat n)) (unat n) x =
      (if in_range dst (unat n) x then m (src + (x - dst)) else m x)"
    using assms by (intro copy_down_apply) auto
  with True show ?thesis by (simp only: memmove_def ucast_u32_u64 if_True simp_thms)
next
  case False
  have "src + of_nat i \<noteq> dst + of_nat j" if "j < i" "i < unat n" for i j
  proof (cases "src < dst")
    case True
    then have lt: "unat src < unat dst" by (simp add: word_less_nat_alt)
    from True False have "unat (src + ucast n) \<le> unat dst" by (simp add: not_less flip: word_le_nat_alt)
    moreover have "unat (src + ucast n) = unat src + unat n"
      using lt assms by (subst unat_add_lem [THEN iffD1]) auto
    ultimately have "unat src + unat n \<le> unat dst" by simp
    then show ?thesis using that assms by (intro of_nat_neq_below) auto
  next
    case False
    then show ?thesis using that assms
      by (intro of_nat_neq_below) (auto simp: word_less_nat_alt)
  qed
  then have "copy_up m dst src (unat n) x =
      (if in_range dst (unat n) x then m (src + (x - dst)) else m x)"
    using assms by (intro copy_up_apply) auto
  with False show ?thesis by (simp only: memmove_def if_False)
qed

lemma memmove_write_bytes:
  assumes "unat src + unat n \<le> 18446744073709551616" "unat dst + unat n \<le> 18446744073709551616"
  shows "memmove m dst src n = write_bytes m dst (read_bytes m src (unat n))"
proof
  fix x
  show "memmove m dst src n x = write_bytes m dst (read_bytes m src (unat n)) x"
    using assms by (simp add: memmove_apply write_bytes_apply nth_read_bytes)
qed

lemma memcmp_loop_zero: "memcmp_loop m s1 s2 n = 0 \<longleftrightarrow> read_bytes m s1 n = read_bytes m s2 n"
  by (induction n arbitrary: s1 s2) (auto simp: word_uint_eq_iff)

lemma memcmp_zero: "memcmp m s1 s2 n = 0 \<longleftrightarrow> read_bytes m s1 (unat n) = read_bytes m s2 (unat n)"
  by (simp add: memcmp_def memcmp_loop_zero)

section \<open>String routines\<close>

lemma cstring_Nil [simp]: "cstring m p [] \<longleftrightarrow> m p = 0"
  by (simp add: cstring_def)

lemma cstring_Cons [simp]: "cstring m p (x # xs) \<longleftrightarrow> m p = x \<and> x \<noteq> 0 \<and> cstring m (p + 1) xs"
  by (auto simp: cstring_def algebra_simps)

lemma cstring_unique: "cstring m p xs \<Longrightarrow> cstring m p ys \<Longrightarrow> xs = ys"
proof (induction xs arbitrary: p ys)
  case Nil
  then show ?case by (cases ys) auto
next
  case (Cons x xs)
  then show ?case by (cases ys) auto
qed

lemma strlen_from_cstring: "cstring m (p + of_nat k) xs \<Longrightarrow> strlen_from m p k = Some (k + length xs)"
proof (induction xs arbitrary: k)
  case Nil
  then show ?case by (simp add: strlen_from.simps)
next
  case (Cons x xs)
  then have "strlen_from m p (k + 1) = Some (k + 1 + length xs)"
    by (intro Cons.IH) (simp add: algebra_simps)
  with Cons.prems show ?case by (subst strlen_from.simps) simp
qed

lemma strlen_cstring: "cstring m p xs \<Longrightarrow> strlen m p = Some (length xs)"
  using strlen_from_cstring [of m p 0] by (simp add: strlen_def)

lemma strlen_from_Some:
  assumes "strlen_from m p k = Some n"
  shows "\<exists>xs. cstring m (p + of_nat k) xs \<and> n = k + length xs"
proof (rule strlen_from.raw_induct [OF _ assms,
      where P = "\<lambda>m p k n. \<exists>xs. cstring m (p + of_nat k) xs \<and> n = k + length xs"])
  fix f m p k n
  assume IH: "\<And>m p k n. f m p k = Some n \<Longrightarrow> \<exists>xs. cstring m (p + of_nat k) xs \<and> n = k + length xs"
    and eq: "(if m (p + of_nat k) = 0 then Some k else f m p (k + 1)) = Some n"
  show "\<exists>xs. cstring m (p + of_nat k) xs \<and> n = k + length xs"
  proof (cases "m (p + of_nat k) = 0")
    case True
    with eq show ?thesis by (intro exI [of _ "[]"]) simp
  next
    case False
    with eq obtain xs where "cstring m (p + of_nat (k + 1)) xs" "n = k + 1 + length xs"
      using IH [of m p "k + 1" n] by auto
    with False show ?thesis
      by (intro exI [of _ "m (p + of_nat k) # xs"]) (simp add: algebra_simps)
  qed
qed

lemma strlen_Some: "strlen m p = Some n \<longleftrightarrow> (\<exists>xs. cstring m p xs \<and> n = length xs)"
  using strlen_from_Some [of m p 0 n] strlen_cstring by (auto simp: strlen_def)

lemma strncmp_loop_zero:
  "cstring m p xs \<Longrightarrow> cstring m q ys \<Longrightarrow> strncmp_loop m p q n = 0 \<longleftrightarrow> take n xs = take n ys"
proof (induction n arbitrary: p q xs ys)
  case 0
  then show ?case by simp
next
  case (Suc n)
  then show ?case by (cases xs; cases ys) (auto simp: word_uint_eq_iff)
qed

lemma strncmp_zero:
  "cstring m p xs \<Longrightarrow> cstring m q ys \<Longrightarrow>
   strncmp m p q n = 0 \<longleftrightarrow> take (unat n) xs = take (unat n) ys"
  by (simp add: strncmp_def strncmp_loop_zero)

lemma cstring_upd_other:
  "(\<And>i. i \<le> length xs \<Longrightarrow> p + of_nat i \<noteq> a) \<Longrightarrow> cstring (m(a := v)) p xs = cstring m p xs"
proof (induction xs arbitrary: p)
  case Nil
  from Nil [of 0] show ?case by simp
next
  case (Cons x xs)
  have "cstring (m(a := v)) (p + 1) xs = cstring m (p + 1) xs"
    by (rule Cons.IH) (use Cons.prems [of "Suc i" for i] in \<open>auto simp: algebra_simps\<close>)
  with Cons.prems [of 0] show ?case by (simp add: fun_upd_def)
qed

text \<open>Separate buffers: no byte of the string at \<open>t\<close> lies among the \<open>n\<close> bytes at \<open>s\<close>.\<close>

definition apart :: "u64 \<Rightarrow> nat \<Rightarrow> u64 \<Rightarrow> nat \<Rightarrow> bool" where
  "apart t k s n \<longleftrightarrow> (\<forall>i\<le>k. \<forall>j<n. t + of_nat i \<noteq> s + of_nat j)"

lemma apart_head: "apart t k s (Suc n) \<Longrightarrow> i \<le> k \<Longrightarrow> t + of_nat i \<noteq> s"
  by (force simp: apart_def)

lemma apart_tail: "apart t (Suc k) s (Suc n) \<Longrightarrow> apart (t + 1) k (s + 1) n"
  unfolding apart_def
proof (intro allI impI)
  fix i j
  assume *: "\<forall>i\<le>Suc k. \<forall>j<Suc n. t + of_nat i \<noteq> s + of_nat j" and "i \<le> k" "j < n"
  then have "t + of_nat (Suc i) \<noteq> s + of_nat (Suc j)" by blast
  then show "t + 1 + of_nat i \<noteq> s + 1 + of_nat j" by (simp add: algebra_simps)
qed

lemma strncpy_pad_write: "strncpy_pad m s n = write_bytes m s (replicate n 0)"
  by (induction n arbitrary: m s) auto

lemma strncpy_loop_write:
  assumes "cstring m t xs" "apart t (length xs) s n"
  shows "strncpy_loop m s t n = write_bytes m s (take n (xs @ replicate n 0))"
  using assms
proof (induction n arbitrary: m s t xs)
  case 0
  then show ?case by simp
next
  case (Suc n)
  show ?case
  proof (cases xs)
    case Nil
    with Suc.prems show ?thesis by (simp add: strncpy_pad_write)
  next
    case (Cons x xs')
    have "t + 1 + of_nat i \<noteq> s" if "i \<le> length xs'" for i
      using apart_head [OF Suc.prems(2), of "Suc i"] that Cons by (simp add: algebra_simps)
    then have "cstring (m(s := x)) (t + 1) xs'"
      using Suc.prems(1) Cons by (simp add: cstring_upd_other)
    moreover have "apart (t + 1) (length xs') (s + 1) n"
      using Suc.prems(2) Cons by (simp add: apart_tail)
    ultimately have "strncpy_loop (m(s := x)) (s + 1) (t + 1) n =
        write_bytes (m(s := x)) (s + 1) (take n (xs' @ replicate n 0))"
      by (rule Suc.IH)
    with Suc.prems(1) Cons show ?thesis
      by (simp add: Let_def min_absorb1 flip: replicate_Suc)
  qed
qed

text \<open>\<open>safestrcpy\<close> writes the string cut to \<open>n - 1\<close> bytes and one or two zero bytes.\<close>

definition safestr :: "u8 list \<Rightarrow> nat \<Rightarrow> u8 list" where
  "safestr xs n = (if length xs < n - 1 then xs @ [0, 0] else take (n - 1) xs @ [0])"

lemma length_safestr: "0 < n \<Longrightarrow> length (safestr xs n) \<le> n"
  by (auto simp: safestr_def)

lemma safestr_Cons: "safestr (x # xs) (Suc (Suc n)) = x # safestr xs (Suc n)"
  by (auto simp: safestr_def)

lemma safestrcpy_loop_write:
  assumes "cstring m t xs" "apart t (length xs) s n" "0 < n"
  shows "safestrcpy_loop m s t n = write_bytes m s (safestr xs n)"
  using assms
proof (induction n arbitrary: m s t xs)
  case 0
  then show ?case by simp
next
  case (Suc n)
  show ?case
  proof (cases n)
    case 0
    then show ?thesis by (simp add: safestr_def)
  next
    case n: (Suc k)
    show ?thesis
    proof (cases xs)
      case Nil
      with Suc.prems n show ?thesis by (simp add: safestr_def)
    next
      case (Cons x xs')
      have "t + 1 + of_nat i \<noteq> s" if "i \<le> length xs'" for i
        using apart_head [OF Suc.prems(2), of "Suc i"] that Cons by (simp add: algebra_simps)
      then have "cstring (m(s := x)) (t + 1) xs'"
        using Suc.prems(1) Cons by (simp add: cstring_upd_other)
      moreover have "apart (t + 1) (length xs') (s + 1) n"
        using Suc.prems(2) Cons by (simp add: apart_tail)
      ultimately have "safestrcpy_loop (m(s := x)) (s + 1) (t + 1) n =
          write_bytes (m(s := x)) (s + 1) (safestr xs' n)"
        by (rule Suc.IH) (simp add: n)
      with Suc.prems(1) Cons n show ?thesis by (simp add: Let_def safestr_Cons)
    qed
  qed
qed

lemma cstring_read_bytes:
  "cstring m p xs \<longleftrightarrow> 0 \<notin> set xs \<and> read_bytes m p (length xs + 1) = xs @ [0]"
proof (induction xs arbitrary: p)
  case (Cons x xs)
  then show ?case by auto
qed auto

lemma read_bytes_take: "k \<le> n \<Longrightarrow> read_bytes m p k = take k (read_bytes m p n)"
  by (rule nth_equalityI) (auto simp: nth_read_bytes)

lemma safestr_cstring:
  assumes "0 \<notin> set xs" "0 < n" "n \<le> 18446744073709551616"
  shows "cstring (write_bytes m s (safestr xs n)) s (take (n - 1) xs)"
proof -
  let ?b = "safestr xs n" and ?k = "length (take (n - 1) xs) + 1"
  have "read_bytes (write_bytes m s ?b) s (length ?b) = ?b"
    using length_safestr [OF assms(2), of xs] assms(3) by (intro read_write_bytes_same) auto
  moreover have "?k \<le> length ?b" "take ?k ?b = take (n - 1) xs @ [0]"
    using assms(2) by (auto simp: safestr_def)
  ultimately have "read_bytes (write_bytes m s ?b) s ?k = take (n - 1) xs @ [0]"
    using read_bytes_take [of ?k "length ?b"] by simp
  with assms(1) show ?thesis by (auto simp: cstring_read_bytes dest: in_set_takeD)
qed

end
