(* ===== verification/Kalloc.thy ===== *)
theory Kalloc
  imports KString Layout
begin

text \<open>
  The physical page allocator (kernel/kalloc.c). Its free list is threaded through the free pages
  themselves: the first eight bytes of a free page hold the address of the next one. The state is
  the byte memory, the list head \<open>kmem.freelist\<close> and the linker symbol \<open>end\<close>, which no operation
  changes. \<open>kmem.lock\<close> makes each list update one atomic step, which is how it appears here.
  Every higher layer of the kernel extends this record.
\<close>

section \<open>State and operations\<close>

record kmem =
  pmem :: memory
  freelist :: u64
  kend :: u64

text \<open>A page that \<open>kfree\<close> accepts: aligned, from \<open>end\<close> up to \<open>PHYSTOP\<close>.\<close>

definition managed :: "'a kmem_scheme \<Rightarrow> u64 \<Rightarrow> bool" where
  "managed s pa \<longleftrightarrow> \<not> (\<not> pgaligned pa \<or> pa < kend s \<or> pa \<ge> PHYSTOP)"

definition kfree :: "u64 \<Rightarrow> 'a kmem_scheme \<Rightarrow> 'a kmem_scheme result" where
  "kfree pa s =
     (if \<not> managed s pa then Panic ''kfree''
      else
        let m = memset (pmem s) pa 1 4096;
            m = store64 m pa (freelist s)
        in Ok (s\<lparr>pmem := m, freelist := pa\<rparr>))"

definition kalloc :: "'a kmem_scheme \<Rightarrow> u64 \<times> 'a kmem_scheme" where
  "kalloc s =
     (let r = freelist s
      in if r \<noteq> 0 then (r, s\<lparr>freelist := load64 (pmem s) r, pmem := memset (pmem s) r 5 4096\<rparr>)
         else (0, s))"

text \<open>\<open>freerange\<close>: the pointer \<open>p\<close> is a natural number, since C pointers do not wrap.\<close>

function freerange_loop :: "nat \<Rightarrow> nat \<Rightarrow> 'a kmem_scheme \<Rightarrow> 'a kmem_scheme result" where
  "freerange_loop p pa_end s =
     (if p + 4096 \<le> pa_end
      then andthen (kfree (of_nat p) s) (\<lambda>s. freerange_loop (p + 4096) pa_end s)
      else Ok s)"
  by pat_completeness auto
termination
  by (relation "measure (\<lambda>(p, e, s). e - p)") auto

declare freerange_loop.simps [simp del]

definition freerange :: "u64 \<Rightarrow> u64 \<Rightarrow> 'a kmem_scheme \<Rightarrow> 'a kmem_scheme result" where
  "freerange pa_start pa_end s = freerange_loop (unat (PGROUNDUP pa_start)) (unat pa_end) s"

definition kinit :: "'a kmem_scheme \<Rightarrow> 'a kmem_scheme result" where
  "kinit s = freerange (kend s) PHYSTOP s"

section \<open>The free list and its invariant\<close>

fun flist :: "memory \<Rightarrow> u64 \<Rightarrow> u64 list \<Rightarrow> bool" where
  "flist m p [] \<longleftrightarrow> p = 0"
| "flist m p (a # as) \<longleftrightarrow> p = a \<and> a \<noteq> 0 \<and> flist m (load64 m a) as"

text \<open>
  \<open>free_pages s xs\<close>: the free list of \<open>s\<close> consists of the pages \<open>xs\<close>, in list order; all are
  managed, none occurs twice.
\<close>

definition free_pages :: "'a kmem_scheme \<Rightarrow> u64 list \<Rightarrow> bool" where
  "free_pages s xs \<longleftrightarrow>
     flist (pmem s) (freelist s) xs \<and> distinct xs \<and> (\<forall>a\<in>set xs. managed s a)"

lemma managedD:
  "managed s pa \<Longrightarrow> pgaligned pa" "managed s pa \<Longrightarrow> pa < PHYSTOP" "managed s pa \<Longrightarrow> kend s \<le> pa"
  by (auto simp: managed_def not_le not_less)

lemma managed_cong: "kend s = kend t \<Longrightarrow> managed s = managed t"
  by (auto simp: managed_def fun_eq_iff)

lemma managed_update [simp]:
  "managed (s\<lparr>pmem := m\<rparr>) = managed s" "managed (s\<lparr>freelist := p\<rparr>) = managed s"
  by (rule managed_cong; simp)+

lemma flist_unique: "flist m p xs \<Longrightarrow> flist m p ys \<Longrightarrow> xs = ys"
proof (induction xs arbitrary: p ys)
  case Nil
  then show ?case by (cases ys) auto
next
  case (Cons a xs)
  then show ?case by (cases ys) auto
qed

lemma flist_frame:
  assumes "flist m p xs" "\<And>a x. a \<in> set xs \<Longrightarrow> PGROUNDDOWN x = a \<Longrightarrow> m' x = m x"
    and "\<And>a. a \<in> set xs \<Longrightarrow> pgaligned a"
  shows "flist m' p xs"
  using assms
proof (induction xs arbitrary: p)
  case Nil
  then show ?case by simp
next
  case (Cons a xs)
  have "load64 m' a = load64 m a"
  proof (rule load64_same_mem)
    fix x assume "in_range a 8 x"
    then have "PGROUNDDOWN x = a"
      using in_slot [of a 0 x] Cons.prems(3) [of a] by simp
    then show "m' x = m x" by (intro Cons.prems(2) [of a]) simp_all
  qed
  then show ?case using Cons by auto
qed

lemma free_pages_frame:
  assumes "free_pages s xs" "freelist t = freelist s" "kend t = kend s"
    and "\<And>x. PGROUNDDOWN x \<in> set xs \<Longrightarrow> pmem t x = pmem s x"
  shows "free_pages t xs"
proof -
  have "flist (pmem t) (freelist s) xs"
    by (rule flist_frame [of "pmem s"])
      (use assms in \<open>auto simp: free_pages_def dest: managedD(1)\<close>)
  with assms show ?thesis
    using managed_cong [of t s] by (auto simp: free_pages_def)
qed

lemma memset_page:
  "pgaligned pg \<Longrightarrow> memset m pg c 4096 x = (if PGROUNDDOWN x = pg then ucast c else m x)"
  by (simp add: memset_apply flip: in_page)

section \<open>What the operations do\<close>

lemma kalloc_empty: "free_pages s [] \<Longrightarrow> kalloc s = (0, s)"
  by (simp add: free_pages_def kalloc_def)

text \<open>Only the memory and the free list differ: what every operation on memory keeps.\<close>

definition mem_only :: "'a kmem_scheme \<Rightarrow> 'a kmem_scheme \<Rightarrow> bool" where
  "mem_only s t \<longleftrightarrow> kend t = kend s \<and> kmem.more t = kmem.more s"

lemma mem_only_eq: "mem_only s t \<Longrightarrow> t = s\<lparr>freelist := freelist t, pmem := pmem t\<rparr>"
  by (simp add: mem_only_def)

lemma mem_only_refl [simp]: "mem_only s s"
  by (simp add: mem_only_def)

lemma mem_only_trans [trans]: "mem_only s t \<Longrightarrow> mem_only t u \<Longrightarrow> mem_only s u"
  by (simp add: mem_only_def)

lemma mem_only_pmem [simp]: "mem_only s (t\<lparr>pmem := m\<rparr>) = mem_only s t"
  by (simp add: mem_only_def)

lemma mem_only_kend: "mem_only s t \<Longrightarrow> kend t = kend s"
  by (simp add: mem_only_def)

lemma kalloc_state: "kalloc s = (r, t) \<Longrightarrow> mem_only s t"
  by (auto simp: kalloc_def Let_def mem_only_def split: if_splits)

lemma kfree_state: "kfree pa s = Ok t \<Longrightarrow> mem_only s t"
  by (auto simp: kfree_def Let_def mem_only_def split: if_splits)

lemma kalloc_page:
  assumes "free_pages s (a # as)" "kalloc s = (r, t)"
  shows "r = a" "free_pages t as" "kend t = kend s"
    "pmem t x = (if PGROUNDDOWN x = a then 5 else pmem s x)"
proof -
  have a: "freelist s = a" "a \<noteq> 0" "managed s a" "a \<notin> set as"
    and as: "flist (pmem s) (load64 (pmem s) a) as" "distinct as" "\<forall>b\<in>set as. managed s b"
    using assms(1) by (auto simp: free_pages_def)
  have t: "t = s\<lparr>freelist := load64 (pmem s) a, pmem := memset (pmem s) a 5 4096\<rparr>" and r: "r = a"
    using assms(2) a by (auto simp: kalloc_def)
  show "r = a" by (rule r)
  show "kend t = kend s" by (simp add: t)
  show px: "pmem t x = (if PGROUNDDOWN x = a then 5 else pmem s x)" for x
    using managedD(1) [OF a(3)] by (simp add: t memset_page)
  have "free_pages (s\<lparr>freelist := load64 (pmem s) a\<rparr>) as"
    using as by (simp add: free_pages_def)
  then show "free_pages t as"
    by (rule free_pages_frame) (use a(4) px in \<open>auto simp: t\<close>)
qed

lemma kfree_ok:
  assumes "free_pages s as" "managed s pa" "pa \<noteq> 0" "pa \<notin> set as"
  shows "\<exists>t. kfree pa s = Ok t \<and> free_pages t (pa # as) \<and> mem_only s t
    \<and> (\<forall>x. PGROUNDDOWN x \<noteq> pa \<longrightarrow> pmem t x = pmem s x)"
proof -
  let ?m = "store64 (memset (pmem s) pa 1 4096) pa (freelist s)"
  let ?t = "s\<lparr>pmem := ?m, freelist := pa\<rparr>"
  have al: "pgaligned pa" using assms(2) by (rule managedD)
  have frame: "?m x = pmem s x" if "PGROUNDDOWN x \<noteq> pa" for x
    using that store64_slot_other_page [OF al, of 0] by (simp add: memset_page al)
  have "free_pages (s\<lparr>pmem := ?m\<rparr>) as"
    by (rule free_pages_frame [OF assms(1)]) (use assms(4) in \<open>auto intro!: frame\<close>)
  then have "free_pages ?t (pa # as)"
    using assms(2-4) by (simp add: free_pages_def load64_store64_same)
  moreover have "kfree pa s = Ok ?t" using assms(2) by (simp add: kfree_def Let_def)
  ultimately show ?thesis using frame kfree_state by (intro exI [of _ ?t]) auto
qed

lemma kfree_panic: "kfree pa s = Panic ''kfree'' \<longleftrightarrow> \<not> managed s pa"
  by (simp add: kfree_def Let_def)

section \<open>Initialisation\<close>

lemma managed_of_nat:
  assumes "unat (kend s) \<le> 4096 * k" "4096 * k < unat PHYSTOP"
  shows "managed s (of_nat (4096 * k))"
proof -
  have "unat (of_nat (4096 * k) :: u64) = 4096 * k"
    using assms(2) by (intro unat_of_nat_u64) simp
  then show ?thesis
    using assms by (simp add: managed_def pgaligned_unat word_less_nat_alt word_le_nat_alt)
qed

lemma freerange_loop_ok:
  assumes "unat (kend s) \<le> 4096 * k" "0 < k" "e \<le> unat PHYSTOP"
    and "free_pages s as" "\<forall>a\<in>set as. unat a < 4096 * k"
  shows "\<exists>t. freerange_loop (4096 * k) e s = Ok t \<and> kend t = kend s
    \<and> free_pages t (rev (map (\<lambda>i. of_nat (4096 * i)) [k..<e div 4096]) @ as)"
  using assms
proof (induction "e div 4096 - k" arbitrary: k s as)
  case 0
  then have "\<not> 4096 * k + 4096 \<le> e" by linarith
  with 0 show ?case by (subst freerange_loop.simps) simp
next
  case (Suc n)
  let ?pa = "of_nat (4096 * k) :: u64"
  have k: "k < e div 4096" "4096 * k + 4096 \<le> e" using Suc.hyps(2) by linarith+
  then have lt: "4096 * k < unat PHYSTOP" using Suc.prems(3) by linarith
  have pa: "unat ?pa = 4096 * k"
    using lt by (intro unat_of_nat_u64) simp
  have "managed s ?pa" "?pa \<noteq> 0" "?pa \<notin> set as"
    using managed_of_nat [OF Suc.prems(1) lt] Suc.prems(2,5) pa by (fastforce dest: bspec)+
  then obtain t where t: "kfree ?pa s = Ok t" "free_pages t (?pa # as)" "kend t = kend s"
    using kfree_ok [OF Suc.prems(4)] mem_only_kend by blast
  have "\<exists>t'. freerange_loop (4096 * Suc k) e t = Ok t' \<and> kend t' = kend t
    \<and> free_pages t' (rev (map (\<lambda>i. of_nat (4096 * i)) [Suc k..<e div 4096]) @ ?pa # as)"
    using Suc.hyps(2) Suc.prems t pa by (intro Suc.hyps(1)) auto
  then show ?case
    using k t by (subst freerange_loop.simps) (simp add: upt_rec [of k] add.commute)
qed

lemma managed_pages:
  assumes "kend s \<le> PHYSTOP"
  shows "set (map (\<lambda>i. of_nat (4096 * i)) [(unat (kend s) + 4095) div 4096..<unat PHYSTOP div 4096])
    = {pa. managed s pa}" (is "set (map ?f ?r) = _")
proof (intro set_eqI iffI)
  fix pa assume "pa \<in> set (map ?f ?r)"
  then obtain i where i: "pa = of_nat (4096 * i)" "i \<in> set ?r" by auto
  have "unat (kend s) \<le> 4096 * i" "4096 * i < unat PHYSTOP" using i(2) by (simp; linarith)+
  from managed_of_nat [OF this] show "pa \<in> {pa. managed s pa}" using i(1) by simp
next
  fix pa assume "pa \<in> {pa. managed s pa}"
  then have m: "managed s pa" by simp
  obtain i where i: "unat pa = 4096 * i"
    using managedD(1) [OF m] by (auto simp: pgaligned_unat mod_eq_0_iff_dvd)
  have "unat (kend s) \<le> 4096 * i" "4096 * i < unat PHYSTOP"
    using managedD(2,3) [OF m] i by (simp_all add: word_less_nat_alt word_le_nat_alt)
  then have "i \<in> set ?r" by (simp; linarith)
  moreover have "pa = of_nat (4096 * i)" by (simp flip: i)
  ultimately show "pa \<in> set (map ?f ?r)" by auto
qed

lemma kinit_free_pages:
  assumes "freelist s = 0" "KERNBASE \<le> kend s" "kend s \<le> PHYSTOP"
  obtains t xs where "kinit s = Ok t" "free_pages t xs" "set xs = {pa. managed s pa}" "kend t = kend s"
proof -
  let ?k = "(unat (kend s) + 4095) div 4096"
  have le: "unat KERNBASE \<le> unat (kend s)" "unat (kend s) \<le> unat PHYSTOP"
    using assms(2,3) by (simp_all only: word_le_nat_alt)
  have up: "unat (PGROUNDUP (kend s)) = 4096 * ?k"
    using le by (subst unat_PGROUNDUP) simp_all
  have "free_pages s []" using assms(1) by (simp add: free_pages_def)
  moreover have "unat (kend s) \<le> 4096 * ?k" "0 < ?k" using le by (linarith, simp)
  ultimately obtain t where t: "freerange_loop (4096 * ?k) (unat PHYSTOP) s = Ok t" "kend t = kend s"
      "free_pages t (rev (map (\<lambda>i. of_nat (4096 * i)) [?k..<unat PHYSTOP div 4096]) @ [])"
    using freerange_loop_ok [of s ?k "unat PHYSTOP" "[]"] by auto
  show thesis
  proof (rule that [OF _ t(3) _ t(2)])
    show "kinit s = Ok t" using t(1) by (simp only: kinit_def freerange_def up)
    show "set (rev (map (\<lambda>i. of_nat (4096 * i)) [?k..<unat PHYSTOP div 4096]) @ []) = {pa. managed s pa}"
      using managed_pages [OF assms(3)] by simp
  qed
qed

section \<open>The allocator's contract\<close>

text \<open>
  What the clients of the allocator (page tables, user memory, pipes, kernel stacks) rely on. The
  abstract state is the list of available pages.
\<close>

locale page_allocator =
  fixes alloc :: "'s \<Rightarrow> u64 \<times> 's"
    and free :: "u64 \<Rightarrow> 's \<Rightarrow> 's result"
    and avail :: "'s \<Rightarrow> u64 list \<Rightarrow> bool"
    and usable :: "'s \<Rightarrow> u64 \<Rightarrow> bool"
    and mem :: "'s \<Rightarrow> memory"
  assumes avail_unique: "avail s xs \<Longrightarrow> avail s ys \<Longrightarrow> xs = ys"
    and avail_pages: "avail s xs \<Longrightarrow> distinct xs \<and> (\<forall>a\<in>set xs. usable s a \<and> a \<noteq> 0 \<and> pgaligned a)"
    and alloc_none: "avail s [] \<Longrightarrow> alloc s = (0, s)"
    and alloc_some: "avail s (a # as) \<Longrightarrow> \<exists>t. alloc s = (a, t) \<and> avail t as \<and> usable t = usable s
      \<and> (\<forall>x. PGROUNDDOWN x \<noteq> a \<longrightarrow> mem t x = mem s x)"
    and free_ok: "avail s as \<Longrightarrow> usable s a \<Longrightarrow> a \<noteq> 0 \<Longrightarrow> a \<notin> set as \<Longrightarrow>
      \<exists>t. free a s = Ok t \<and> avail t (a # as) \<and> usable t = usable s
        \<and> (\<forall>x. PGROUNDDOWN x \<noteq> a \<longrightarrow> mem t x = mem s x)"
begin

lemma alloc_cases:
  assumes "avail s xs" "alloc s = (r, t)"
  obtains (none) "xs = []" "r = 0" "t = s"
  | (some) as where "xs = r # as" "r \<noteq> 0" "usable s r" "r \<notin> set as" "avail t as" "usable t = usable s"
      "\<And>x. PGROUNDDOWN x \<noteq> r \<Longrightarrow> mem t x = mem s x"
proof (cases xs)
  case Nil
  with assms alloc_none [of s] show thesis by (auto intro: none)
next
  case (Cons a as)
  with assms alloc_some [of s a as] avail_pages [of s xs] show thesis
    by (intro some [of as]) auto
qed

text \<open>Two live allocations never share a page.\<close>

lemma alloc_distinct:
  assumes "avail s xs" "alloc s = (a, t)" "alloc t = (b, u)" "a \<noteq> 0" "b \<noteq> 0"
  shows "a \<noteq> b"
  using assms(1,2)
proof (cases rule: alloc_cases)
  case (some as)
  from some(5) assms(3) show ?thesis
    using some(4) assms(5) by (cases rule: alloc_cases) auto
qed (use assms in simp)

text \<open>An allocated page can be given back, after which the same pages are available as before.\<close>

lemma alloc_free:
  assumes "avail s xs" "alloc s = (a, t)" "a \<noteq> 0"
  shows "\<exists>u. free a t = Ok u \<and> avail u xs \<and> (\<forall>x. PGROUNDDOWN x \<noteq> a \<longrightarrow> mem u x = mem s x)"
  using assms(1,2)
proof (cases rule: alloc_cases)
  case (some as)
  then show ?thesis using free_ok [of t as a] by auto
qed (use assms in simp)

text \<open>A freed page is the next one to be handed out.\<close>

lemma free_alloc:
  assumes "avail s xs" "usable s a" "a \<noteq> 0" "a \<notin> set xs"
  shows "\<exists>t u. free a s = Ok t \<and> alloc t = (a, u) \<and> avail u xs"
  using free_ok [OF assms] alloc_some by blast

end

lemma free_pages_nonzero: "free_pages s xs \<Longrightarrow> 0 \<notin> set xs"
proof -
  have "flist m p xs \<Longrightarrow> 0 \<notin> set xs" for m p by (induction xs arbitrary: p) auto
  then show "free_pages s xs \<Longrightarrow> 0 \<notin> set xs" by (auto simp: free_pages_def)
qed

interpretation kpages: page_allocator kalloc kfree free_pages managed pmem
proof
  fix s :: "'a kmem_scheme" and xs ys a as
  show "free_pages s xs \<Longrightarrow> free_pages s ys \<Longrightarrow> xs = ys"
    by (auto simp: free_pages_def intro: flist_unique)
  show "free_pages s xs \<Longrightarrow> distinct xs \<and> (\<forall>a\<in>set xs. managed s a \<and> a \<noteq> 0 \<and> pgaligned a)"
    using free_pages_nonzero [of s xs] by (auto simp: free_pages_def dest: managedD(1))
  show "free_pages s [] \<Longrightarrow> kalloc s = (0, s)" by (rule kalloc_empty)
  show "free_pages s (a # as) \<Longrightarrow> \<exists>t. kalloc s = (a, t) \<and> free_pages t as \<and> managed t = managed s
      \<and> (\<forall>x. PGROUNDDOWN x \<noteq> a \<longrightarrow> pmem t x = pmem s x)"
    using kalloc_page [of s a as "fst (kalloc s)" "snd (kalloc s)"] managed_cong
    by (intro exI [of _ "snd (kalloc s)"]) (auto simp: prod_eq_iff)
  show "free_pages s as \<Longrightarrow> managed s a \<Longrightarrow> a \<noteq> 0 \<Longrightarrow> a \<notin> set as \<Longrightarrow>
      \<exists>t. kfree a s = Ok t \<and> free_pages t (a # as) \<and> managed t = managed s
        \<and> (\<forall>x. PGROUNDDOWN x \<noteq> a \<longrightarrow> pmem t x = pmem s x)"
    using kfree_ok [of s as a] mem_only_kend managed_cong by blast
qed

section \<open>Properties\<close>

text \<open>
  C30. At boot, \<open>kinit\<close> succeeds and puts exactly the page-aligned addresses from \<open>end\<close> up to
  \<open>PHYSTOP\<close> on the free list, each once, wherever the linker placed \<open>end\<close> in RAM.
\<close>

theorem kinit_frees_all_of_ram:
  assumes "freelist s = 0" "KERNBASE \<le> kend s" "kend s \<le> PHYSTOP"
  shows "\<exists>t xs. kinit s = Ok t \<and> free_pages t xs \<and> set xs = {pa. pgaligned pa \<and> kend s \<le> pa \<and> pa < PHYSTOP}"
proof -
  obtain t xs where t: "kinit s = Ok t" "free_pages t xs" "set xs = {pa. managed s pa}"
    using kinit_free_pages [OF assms] .
  moreover have "{pa. managed s pa} = {pa. pgaligned pa \<and> kend s \<le> pa \<and> pa < PHYSTOP}"
    by (auto simp: managed_def)
  ultimately show ?thesis by auto
qed

theorem kinit_frees_all_of_ram_witness:
  "\<exists>t xs. kinit \<lparr>pmem = (\<lambda>_. 0), freelist = 0, kend = 0x80027020\<rparr> = Ok t \<and> free_pages t xs
    \<and> set xs = {pa. pgaligned pa \<and> 0x80027020 \<le> pa \<and> pa < PHYSTOP}"
  using kinit_frees_all_of_ram [of "\<lparr>pmem = (\<lambda>_. 0), freelist = 0, kend = 0x80027020\<rparr>"] by simp

text \<open>
  C31. While pages are free, \<open>kalloc\<close> hands out one of them and takes it off the list; the page is
  in managed RAM, its bytes are filled with 5, no other byte of memory changes, and \<open>kfree\<close> of that
  page succeeds and restores the free list. With no free page the result is the null pointer.
\<close>

theorem kalloc_contract:
  assumes "free_pages s xs"
  shows "case xs of
      [] \<Rightarrow> kalloc s = (0, s)
    | a # as \<Rightarrow> \<exists>t u. kalloc s = (a, t) \<and> managed s a \<and> a \<notin> set as \<and> free_pages t as
        \<and> (\<forall>x. pmem t x = (if PGROUNDDOWN x = a then 5 else pmem s x))
        \<and> kfree a t = Ok u \<and> free_pages u xs"
proof (cases xs)
  case Nil
  with assms kalloc_empty show ?thesis by auto
next
  case (Cons a as)
  obtain r t where rt: "kalloc s = (r, t)" by fastforce
  note page = kalloc_page [OF assms [unfolded Cons] rt]
  have a: "a \<noteq> 0" "managed s a" "a \<notin> set as"
    using kpages.avail_pages [OF assms] Cons by auto
  obtain u where "kfree a t = Ok u" "free_pages u xs"
    using kpages.alloc_free [OF assms rt] page(1) a(1) by auto
  with Cons rt page a show ?thesis by auto
qed

definition two_pages :: kmem where
  "two_pages = \<lparr>pmem = store64 (\<lambda>_. 0) 0x87FFE000 0x87FFF000, freelist = 0x87FFE000, kend = 0x80027020\<rparr>"

lemma two_pages_free: "free_pages two_pages [0x87FFE000, 0x87FFF000]"
proof -
  have "load64 (store64 (\<lambda>_. 0) 0x87FFE000 0x87FFF000) 0x87FFE000 = 0x87FFF000"
    by (rule load64_store64_same)
  moreover have "load64 (store64 (\<lambda>_. 0) 0x87FFE000 0x87FFF000) 0x87FFF000 = 0"
    using load64_slot_store64 [of "0x87FFE000" 0 "0x87FFF000" 0 "\<lambda>_. 0" "0x87FFF000"]
    by (simp add: pgaligned_def load64_zero)
  ultimately show ?thesis
    by (simp add: free_pages_def two_pages_def managed_def pgaligned_def)
qed

theorem kalloc_contract_witness:
  "\<exists>t u. kalloc two_pages = (0x87FFE000, t) \<and> free_pages t [0x87FFF000]
    \<and> kfree 0x87FFE000 t = Ok u \<and> free_pages u [0x87FFE000, 0x87FFF000]"
  using kalloc_contract [OF two_pages_free] by auto

text \<open>
  C32. \<open>kfree\<close> panics exactly on an address that is unaligned, below \<open>end\<close> or not below \<open>PHYSTOP\<close>;
  any other page that is not already free becomes the head of the free list, and only the bytes of
  that page change.
\<close>

theorem kfree_contract:
  assumes "free_pages s xs" "pa \<notin> set xs" "0 < kend s"
  shows "if pgaligned pa \<and> kend s \<le> pa \<and> pa < PHYSTOP
    then \<exists>t. kfree pa s = Ok t \<and> free_pages t (pa # xs) \<and> (\<forall>x. PGROUNDDOWN x \<noteq> pa \<longrightarrow> pmem t x = pmem s x)
    else kfree pa s = Panic ''kfree''"
proof (cases "managed s pa")
  case True
  with assms(3) have "pa \<noteq> 0" by (auto simp: managed_def not_less)
  with True assms kpages.free_ok [of s xs pa] show ?thesis
    by (auto simp: managed_def)
next
  case False
  then show ?thesis using kfree_panic [of pa s] by (auto simp: managed_def)
qed

theorem kfree_contract_witness:
  "(\<exists>t. kfree 0x87FFD000 two_pages = Ok t \<and> free_pages t [0x87FFD000, 0x87FFE000, 0x87FFF000])
   \<and> kfree 0x88000000 two_pages = Panic ''kfree''"
proof -
  have "kend two_pages = 0x80027020" by (simp add: two_pages_def)
  then show ?thesis
    using kfree_contract [OF two_pages_free, of "0x87FFD000"]
      kfree_contract [OF two_pages_free, of "0x88000000"]
    by (auto simp: pgaligned_def)
qed

end
