(* ===== verification/Vm.thy ===== *)
theory Vm
  imports Kalloc "HOL-Library.Multiset"
begin

text \<open>
  Page tables and user memory (kernel/vm.c). A page table is a tree of pages inside the byte
  memory, three levels deep, exactly as the hardware walks it; the operations read and write its
  64-bit entries with \<open>load64\<close> and \<open>store64\<close>. Pointers to entries are addresses. The abstraction
  used by the lemmas is \<open>leaf_slot\<close> (where the entry of a virtual address lives), \<open>leaf_pte\<close>
  (its value, zero when an upper level is missing) and \<open>pt_pages\<close> (the pages of the tree).
\<close>

section \<open>Operations\<close>

record vmem = kmem +
  kernel_pagetable :: u64
  etext :: u64
  trampoline :: u64

fun walk_level :: "nat \<Rightarrow> u64 \<Rightarrow> u64 \<Rightarrow> bool \<Rightarrow> 'a kmem_scheme \<Rightarrow> u64 \<times> 'a kmem_scheme" where
  "walk_level 0 pagetable va alloc s = (slot pagetable (unat (PX 0 va)), s)"
| "walk_level (Suc level) pagetable va alloc s =
     (let pte = slot pagetable (unat (PX (Suc level) va));
          e = load64 (pmem s) pte
      in if e AND PTE_V \<noteq> 0 then walk_level level (PTE2PA e) va alloc s
         else if \<not> alloc then (0, s)
         else case kalloc s of (pg, s) \<Rightarrow>
           if pg = 0 then (0, s)
           else let m = memset (pmem s) pg 0 4096;
                    m = store64 m pte (PA2PTE pg OR PTE_V)
                in walk_level level pg va alloc (s\<lparr>pmem := m\<rparr>))"

definition walk :: "u64 \<Rightarrow> u64 \<Rightarrow> bool \<Rightarrow> 'a kmem_scheme \<Rightarrow> (u64 \<times> 'a kmem_scheme) result" where
  "walk pagetable va alloc s =
     (if va \<ge> MAXVA then Panic ''walk'' else Ok (walk_level 2 pagetable va alloc s))"

lemma walk_Ok_lt: "walk pagetable va alloc s = Ok r \<Longrightarrow> va < MAXVA"
  by (auto simp: walk_def split: if_splits)

definition walkaddr :: "u64 \<Rightarrow> u64 \<Rightarrow> 'a kmem_scheme \<Rightarrow> u64" where
  "walkaddr pagetable va s =
     (if va \<ge> MAXVA then 0
      else
        let pte = fst (walk_level 2 pagetable va False s);
            e = load64 (pmem s) pte
        in if pte = 0 then 0
           else if e AND PTE_V = 0 then 0
           else if e AND PTE_U = 0 then 0
           else PTE2PA e)"

lemma va_step: "a < MAXVA \<Longrightarrow> 2 ^ 64 - unat (a + PGSIZE) < 2 ^ 64 - unat a"
  by (simp add: word_less_nat_alt unat_word_ariths)

function mappages_loop ::
  "u64 \<Rightarrow> u64 \<Rightarrow> u64 \<Rightarrow> u64 \<Rightarrow> u64 \<Rightarrow> 'a kmem_scheme \<Rightarrow> (int \<times> 'a kmem_scheme) result" where
  "mappages_loop pagetable a lastva pa perm s =
     andthen (walk pagetable a True s) (\<lambda>(pte, s).
       if pte = 0 then Ok (-1, s)
       else if load64 (pmem s) pte AND PTE_V \<noteq> 0 then Panic ''remap''
       else
         let s = s\<lparr>pmem := store64 (pmem s) pte (PA2PTE pa OR perm OR PTE_V)\<rparr>
         in if a = lastva then Ok (0, s)
            else mappages_loop pagetable (a + PGSIZE) lastva (pa + PGSIZE) perm s)"
  by pat_completeness auto
termination
proof (relation "measure (\<lambda>(pt, a, lastva, pa, perm, s). 2 ^ 64 - unat a)", goal_cases)
  case (2 pagetable a lastva pa perm s r pte s' s'')
  then have "a < MAXVA" by (auto dest: walk_Ok_lt)
  then show ?case using va_step by simp
qed simp

declare mappages_loop.simps [simp del]

definition mappages ::
  "u64 \<Rightarrow> u64 \<Rightarrow> u64 \<Rightarrow> u64 \<Rightarrow> u64 \<Rightarrow> 'a kmem_scheme \<Rightarrow> (int \<times> 'a kmem_scheme) result" where
  "mappages pagetable va sz pa perm s =
     mappages_loop pagetable (PGROUNDDOWN va) (PGROUNDDOWN (va + sz - 1)) pa perm s"

definition kvmmap :: "u64 \<Rightarrow> u64 \<Rightarrow> u64 \<Rightarrow> u64 \<Rightarrow> 'a vmem_scheme \<Rightarrow> 'a vmem_scheme result" where
  "kvmmap va pa sz perm s =
     andthen (mappages (kernel_pagetable s) va sz pa perm s) (\<lambda>(r, s).
       if r \<noteq> 0 then Panic ''kvmmap'' else Ok s)"

definition kvmpa :: "u64 \<Rightarrow> 'a vmem_scheme \<Rightarrow> u64 result" where
  "kvmpa va s =
     (let off = va mod PGSIZE
      in andthen (walk (kernel_pagetable s) va False s) (\<lambda>(pte, s).
        if pte = 0 then Panic ''kvmpa''
        else if load64 (pmem s) pte AND PTE_V = 0 then Panic ''kvmpa''
        else Ok (PTE2PA (load64 (pmem s) pte) + off)))"

abbreviation UART0 :: u64 where "UART0 \<equiv> 0x10000000"
abbreviation VIRTIO0 :: u64 where "VIRTIO0 \<equiv> 0x10001000"
abbreviation CLINT :: u64 where "CLINT \<equiv> 0x2000000"
abbreviation PLIC :: u64 where "PLIC \<equiv> 0x0c000000"

definition kvminit :: "'a vmem_scheme \<Rightarrow> 'a vmem_scheme result" where
  "kvminit s =
     (case kalloc s of (pt, s) \<Rightarrow>
      let s = s\<lparr>kernel_pagetable := pt\<rparr>;
          s = s\<lparr>pmem := memset (pmem s) pt 0 4096\<rparr>
      in andthen (kvmmap UART0 UART0 PGSIZE (PTE_R OR PTE_W) s) (\<lambda>s.
         andthen (kvmmap VIRTIO0 VIRTIO0 PGSIZE (PTE_R OR PTE_W) s) (\<lambda>s.
         andthen (kvmmap CLINT CLINT 0x10000 (PTE_R OR PTE_W) s) (\<lambda>s.
         andthen (kvmmap PLIC PLIC 0x400000 (PTE_R OR PTE_W) s) (\<lambda>s.
         andthen (kvmmap KERNBASE KERNBASE (etext s - KERNBASE) (PTE_R OR PTE_X) s) (\<lambda>s.
         andthen (kvmmap (etext s) (etext s) (PHYSTOP - etext s) (PTE_R OR PTE_W) s) (\<lambda>s.
           kvmmap TRAMPOLINE (trampoline s) PGSIZE (PTE_R OR PTE_X) s)))))))"

function uvmunmap_loop :: "u64 \<Rightarrow> u64 \<Rightarrow> u64 \<Rightarrow> bool \<Rightarrow> 'a kmem_scheme \<Rightarrow> 'a kmem_scheme result" where
  "uvmunmap_loop pagetable a a_end do_free s =
     (if a < a_end then
        andthen (walk pagetable a False s) (\<lambda>(pte, s).
          let e = load64 (pmem s) pte
          in if pte = 0 then Panic ''uvmunmap: walk''
             else if e AND PTE_V = 0 then Panic ''uvmunmap: not mapped''
             else if PTE_FLAGS e = PTE_V then Panic ''uvmunmap: not a leaf''
             else
               andthen (if do_free then kfree (PTE2PA e) s else Ok s) (\<lambda>s.
                 uvmunmap_loop pagetable (a + PGSIZE) a_end do_free
                   (s\<lparr>pmem := store64 (pmem s) pte 0\<rparr>)))
      else Ok s)"
  by pat_completeness auto
termination
proof (relation "measure (\<lambda>(pt, a, e, f, s). 2 ^ 64 - unat a)", goal_cases)
  case (2 pagetable a a_end do_free s r pte s' e s'')
  then have "a < MAXVA" by (auto dest: walk_Ok_lt)
  then show ?case using va_step by simp
qed simp

declare uvmunmap_loop.simps [simp del]

definition uvmunmap :: "u64 \<Rightarrow> u64 \<Rightarrow> u64 \<Rightarrow> bool \<Rightarrow> 'a kmem_scheme \<Rightarrow> 'a kmem_scheme result" where
  "uvmunmap pagetable va npages do_free s =
     (if va mod PGSIZE \<noteq> 0 then Panic ''uvmunmap: not aligned''
      else uvmunmap_loop pagetable va (va + npages * PGSIZE) do_free s)"

definition uvmcreate :: "'a kmem_scheme \<Rightarrow> u64 \<times> 'a kmem_scheme" where
  "uvmcreate s =
     (case kalloc s of (pagetable, s) \<Rightarrow>
        if pagetable = 0 then (0, s)
        else (pagetable, s\<lparr>pmem := memset (pmem s) pagetable 0 4096\<rparr>))"

text \<open>The bytes of \<open>src\<close> are the first process's boot code, passed by value.\<close>

definition uvminit :: "u64 \<Rightarrow> u8 list \<Rightarrow> u32 \<Rightarrow> 'a kmem_scheme \<Rightarrow> 'a kmem_scheme result" where
  "uvminit pagetable src sz s =
     (if sz \<ge> 4096 then Panic ''inituvm: more than a page''
      else case kalloc s of (mem, s) \<Rightarrow>
        andthen (mappages pagetable 0 PGSIZE mem (PTE_W OR PTE_R OR PTE_X OR PTE_U)
          (s\<lparr>pmem := memset (pmem s) mem 0 4096\<rparr>)) (\<lambda>(r, s).
          Ok (s\<lparr>pmem := write_bytes (pmem s) mem (take (unat sz) src)\<rparr>)))"

definition uvmdealloc :: "u64 \<Rightarrow> u64 \<Rightarrow> u64 \<Rightarrow> 'a kmem_scheme \<Rightarrow> (u64 \<times> 'a kmem_scheme) result" where
  "uvmdealloc pagetable oldsz newsz s =
     (if newsz \<ge> oldsz then Ok (oldsz, s)
      else if PGROUNDUP newsz < PGROUNDUP oldsz then
        let npages = (ucast ((PGROUNDUP oldsz - PGROUNDUP newsz) div PGSIZE) :: u32)
        in andthen (uvmunmap pagetable (PGROUNDUP newsz) (scast npages) True s) (\<lambda>s. Ok (newsz, s))
      else Ok (newsz, s))"

lemma mappages_Ok_lt:
  assumes "mappages pagetable va sz pa perm s = Ok r"
  shows "va < MAXVA"
proof -
  from assms have "PGROUNDDOWN va < MAXVA"
    unfolding mappages_def by (subst (asm) mappages_loop.simps) (auto dest: walk_Ok_lt)
  then show ?thesis by (rule PGROUNDDOWN_MAXVA)
qed

function uvmalloc_loop ::
  "u64 \<Rightarrow> u64 \<Rightarrow> u64 \<Rightarrow> u64 \<Rightarrow> 'a kmem_scheme \<Rightarrow> (u64 \<times> 'a kmem_scheme) result" where
  "uvmalloc_loop pagetable oldsz newsz a s =
     (if a < newsz then
        case kalloc s of (mem, s) \<Rightarrow>
          if mem = 0 then
            andthen (uvmdealloc pagetable a oldsz s) (\<lambda>(_, s). Ok (0, s))
          else
            andthen (mappages pagetable a PGSIZE mem (PTE_W OR PTE_X OR PTE_R OR PTE_U)
              (s\<lparr>pmem := memset (pmem s) mem 0 4096\<rparr>)) (\<lambda>(r, s).
              if r \<noteq> 0 then
                andthen (kfree mem s) (\<lambda>s.
                  andthen (uvmdealloc pagetable a oldsz s) (\<lambda>(_, s). Ok (0, s)))
              else uvmalloc_loop pagetable oldsz newsz (a + PGSIZE) s)
      else Ok (newsz, s))"
  by pat_completeness auto
termination
proof (relation "measure (\<lambda>(pt, oldsz, newsz, a, s). 2 ^ 64 - unat a)", goal_cases)
  case (2 pagetable oldsz newsz a s mem s' r s'')
  then have "a < MAXVA" by (auto dest: mappages_Ok_lt)
  then show ?case using va_step by simp
qed simp

declare uvmalloc_loop.simps [simp del]

definition uvmalloc :: "u64 \<Rightarrow> u64 \<Rightarrow> u64 \<Rightarrow> 'a kmem_scheme \<Rightarrow> (u64 \<times> 'a kmem_scheme) result" where
  "uvmalloc pagetable oldsz newsz s =
     (if newsz < oldsz then Ok (oldsz, s)
      else uvmalloc_loop pagetable (PGROUNDUP oldsz) newsz (PGROUNDUP oldsz) s)"

text \<open>
  \<open>freewalk\<close> recurses to the depth of the tree; the C code has no bound, here the recursion has
  one level of fuel per level of the table.
\<close>

fun freewalk_fuel :: "nat \<Rightarrow> u64 \<Rightarrow> 'a kmem_scheme \<Rightarrow> 'a kmem_scheme result"
  and freewalk_loop :: "nat \<Rightarrow> u64 \<Rightarrow> nat list \<Rightarrow> 'a kmem_scheme \<Rightarrow> 'a kmem_scheme result" where
  "freewalk_fuel 0 pagetable s = Undef ''freewalk: recursion''"
| "freewalk_fuel (Suc n) pagetable s =
     andthen (freewalk_loop n pagetable [0..<512] s) (\<lambda>s. kfree pagetable s)"
| "freewalk_loop n pagetable [] s = Ok s"
| "freewalk_loop n pagetable (i # is) s =
     (let pte = load64 (pmem s) (slot pagetable i)
      in if pte AND PTE_V \<noteq> 0 \<and> pte AND (PTE_R OR PTE_W OR PTE_X) = 0 then
           andthen (freewalk_fuel n (PTE2PA pte) s) (\<lambda>s.
             freewalk_loop n pagetable is (s\<lparr>pmem := store64 (pmem s) (slot pagetable i) 0\<rparr>))
         else if pte AND PTE_V \<noteq> 0 then Panic ''freewalk: leaf''
         else freewalk_loop n pagetable is s)"

definition freewalk :: "u64 \<Rightarrow> 'a kmem_scheme \<Rightarrow> 'a kmem_scheme result" where
  "freewalk pagetable s = freewalk_fuel 3 pagetable s"

definition uvmfree :: "u64 \<Rightarrow> u64 \<Rightarrow> 'a kmem_scheme \<Rightarrow> 'a kmem_scheme result" where
  "uvmfree pagetable sz s =
     andthen (if sz > 0 then uvmunmap pagetable 0 (PGROUNDUP sz div PGSIZE) True s else Ok s) (\<lambda>s.
       freewalk pagetable s)"

function uvmcopy_loop :: "u64 \<Rightarrow> u64 \<Rightarrow> u64 \<Rightarrow> u64 \<Rightarrow> 'a kmem_scheme \<Rightarrow> (int \<times> 'a kmem_scheme) result" where
  "uvmcopy_loop old new sz i s =
     (if i < sz then
        andthen (walk old i False s) (\<lambda>(pte, s).
          let e = load64 (pmem s) pte
          in if pte = 0 then Panic ''uvmcopy: pte should exist''
             else if e AND PTE_V = 0 then Panic ''uvmcopy: page not present''
             else case kalloc s of (mem, s) \<Rightarrow>
               if mem = 0 then
                 andthen (uvmunmap new 0 (i div PGSIZE) True s) (\<lambda>s. Ok (-1, s))
               else
                 andthen (mappages new i PGSIZE mem (PTE_FLAGS e)
                   (s\<lparr>pmem := memmove (pmem s) mem (PTE2PA e) 4096\<rparr>)) (\<lambda>(r, s).
                   if r \<noteq> 0 then
                     andthen (kfree mem s) (\<lambda>s.
                       andthen (uvmunmap new 0 (i div PGSIZE) True s) (\<lambda>s. Ok (-1, s)))
                   else uvmcopy_loop old new sz (i + PGSIZE) s))
      else Ok (0, s))"
  by pat_completeness auto
termination
proof (relation "measure (\<lambda>(old, new, sz, i, s). 2 ^ 64 - unat i)", goal_cases)
  case (2 old new sz i s r pte s' e mem s'' r' t)
  then have "i < MAXVA" by (auto dest: walk_Ok_lt)
  then show ?case using va_step by simp
qed simp

declare uvmcopy_loop.simps [simp del]

definition uvmcopy :: "u64 \<Rightarrow> u64 \<Rightarrow> u64 \<Rightarrow> 'a kmem_scheme \<Rightarrow> (int \<times> 'a kmem_scheme) result" where
  "uvmcopy old new sz s = uvmcopy_loop old new sz 0 s"

definition uvmclear :: "u64 \<Rightarrow> u64 \<Rightarrow> 'a kmem_scheme \<Rightarrow> 'a kmem_scheme result" where
  "uvmclear pagetable va s =
     andthen (walk pagetable va False s) (\<lambda>(pte, s).
       if pte = 0 then Panic ''uvmclear''
       else Ok (s\<lparr>pmem := store64 (pmem s) pte (load64 (pmem s) pte AND NOT PTE_U)\<rparr>))"

text \<open>
  The copy loops. Each round copies at least one byte, so they end: \<open>va - PGROUNDDOWN va\<close> is less
  than a page.
\<close>

definition chunk :: "u64 \<Rightarrow> u64 \<Rightarrow> u64" where
  "chunk va len = (let n = PGSIZE - (va - PGROUNDDOWN va) in if n > len then len else n)"

lemma unat_chunk: "unat (chunk va len) = min (4096 - unat va mod 4096) (unat len)"
proof -
  have "unat (va - PGROUNDDOWN va) = unat va mod 4096"
    by (simp add: PGROUNDDOWN_alt unat_mod)
  moreover have "unat va mod 4096 < 4096" by simp
  ultimately have "unat (PGSIZE - (va - PGROUNDDOWN va)) = 4096 - unat va mod 4096"
    by (subst unat_sub) (simp_all add: word_le_nat_alt)
  then show ?thesis by (auto simp: chunk_def Let_def word_less_nat_alt min_def)
qed

lemma chunk_less: "0 < len \<Longrightarrow> unat (len - chunk va len) < unat len"
proof -
  assume "0 < len"
  then have "0 < unat (chunk va len)" "unat (chunk va len) \<le> unat len"
    by (simp_all add: unat_chunk unat_gt_0 word_neq_0_conv)
  then show ?thesis by (subst unat_sub) (simp_all add: word_le_nat_alt)
qed

function copyout :: "u64 \<Rightarrow> u64 \<Rightarrow> u64 \<Rightarrow> u64 \<Rightarrow> 'a kmem_scheme \<Rightarrow> int \<times> 'a kmem_scheme" where
  "copyout pagetable dstva src len s =
     (if len > 0 then
        let va0 = PGROUNDDOWN dstva;
            pa0 = walkaddr pagetable va0 s
        in if pa0 = 0 then (-1, s)
           else
             let n = chunk dstva len;
                 s = s\<lparr>pmem := memmove (pmem s) (pa0 + (dstva - va0)) src (ucast n)\<rparr>
             in copyout pagetable (va0 + PGSIZE) (src + n) (len - n) s
      else (0, s))"
  by pat_completeness auto
termination
  by (relation "measure (\<lambda>(pt, d, src, len, s). unat len)") (simp_all add: chunk_less)

function copyin :: "u64 \<Rightarrow> u64 \<Rightarrow> u64 \<Rightarrow> u64 \<Rightarrow> 'a kmem_scheme \<Rightarrow> int \<times> 'a kmem_scheme" where
  "copyin pagetable dst srcva len s =
     (if len > 0 then
        let va0 = PGROUNDDOWN srcva;
            pa0 = walkaddr pagetable va0 s
        in if pa0 = 0 then (-1, s)
           else
             let n = chunk srcva len;
                 s = s\<lparr>pmem := memmove (pmem s) dst (pa0 + (srcva - va0)) (ucast n)\<rparr>
             in copyin pagetable (dst + n) (va0 + PGSIZE) (len - n) s
      else (0, s))"
  by pat_completeness auto
termination
  by (relation "measure (\<lambda>(pt, d, src, len, s). unat len)") (simp_all add: chunk_less)

text \<open>
  The inner loop of \<open>copyinstr\<close>: at most \<open>n\<close> bytes from \<open>p\<close>; the result is \<open>got_null\<close>, the memory
  and the advanced \<open>dst\<close>.
\<close>

fun copyinstr_page :: "nat \<Rightarrow> memory \<Rightarrow> u64 \<Rightarrow> u64 \<Rightarrow> bool \<times> memory \<times> u64" where
  "copyinstr_page 0 m dst p = (False, m, dst)"
| "copyinstr_page (Suc n) m dst p =
     (if m p = 0 then (True, m(dst := 0), dst)
      else copyinstr_page n (m(dst := m p)) (dst + 1) (p + 1))"

function copyinstr :: "u64 \<Rightarrow> u64 \<Rightarrow> u64 \<Rightarrow> u64 \<Rightarrow> 'a kmem_scheme \<Rightarrow> int \<times> 'a kmem_scheme" where
  "copyinstr pagetable dst srcva maxlen s =
     (if maxlen > 0 then
        let va0 = PGROUNDDOWN srcva;
            pa0 = walkaddr pagetable va0 s
        in if pa0 = 0 then (-1, s)
           else
             let n = chunk srcva maxlen
             in case copyinstr_page (unat n) (pmem s) dst (pa0 + (srcva - va0)) of
                  (got_null, m, dst) \<Rightarrow>
                    let s = s\<lparr>pmem := m\<rparr>
                    in if got_null then (0, s)
                       else copyinstr pagetable dst (va0 + PGSIZE) (maxlen - n) s
      else (-1, s))"
  by pat_completeness auto
termination
  by (relation "measure (\<lambda>(pt, d, src, len, s). unat len)") (simp_all add: chunk_less)

declare copyout.simps [simp del] copyin.simps [simp del] copyinstr.simps [simp del]

end
