(* ===== verification/PageTable.thy ===== *)
theory PageTable
  imports Vm
begin

text \<open>
  The page-table tree as a data structure: which pages it occupies, where the entry of a virtual
  address lives and what it holds, and how \<open>walk\<close>, \<open>mappages\<close>, \<open>uvmunmap\<close> and \<open>freewalk\<close> change
  it. Everything is stated for a subtree of any level, so that the proofs are inductions on the
  level; the whole table is level 2.
\<close>

section \<open>Abstraction\<close>

definition child :: "memory \<Rightarrow> u64 \<Rightarrow> nat \<Rightarrow> u64" where
  "child m pt i = load64 m (slot pt i)"

fun pt_pages :: "memory \<Rightarrow> nat \<Rightarrow> u64 \<Rightarrow> u64 list" where
  "pt_pages m 0 pt = [pt]"
| "pt_pages m (Suc l) pt =
     pt # concat (map (\<lambda>i. if child m pt i AND PTE_V \<noteq> 0 then pt_pages m l (PTE2PA (child m pt i)) else []) [0..<512])"

text \<open>Upper-level entries carry no access rights: that is how \<open>freewalk\<close> tells them from leaves.\<close>

fun pt_inner :: "memory \<Rightarrow> nat \<Rightarrow> u64 \<Rightarrow> bool" where
  "pt_inner m 0 pt \<longleftrightarrow> True"
| "pt_inner m (Suc l) pt \<longleftrightarrow> (\<forall>i<512. child m pt i AND PTE_V \<noteq> 0 \<longrightarrow>
     child m pt i AND (PTE_R OR PTE_W OR PTE_X) = 0 \<and> pt_inner m l (PTE2PA (child m pt i)))"

declare pt_inner.simps(2) [simp del]

fun leaf_slot :: "memory \<Rightarrow> nat \<Rightarrow> u64 \<Rightarrow> u64 \<Rightarrow> u64 option" where
  "leaf_slot m 0 pt va = Some (slot pt (unat (PX 0 va)))"
| "leaf_slot m (Suc l) pt va =
     (let e = child m pt (unat (PX (Suc l) va))
      in if e AND PTE_V \<noteq> 0 then leaf_slot m l (PTE2PA e) va else None)"

definition leaf_pte_at :: "memory \<Rightarrow> nat \<Rightarrow> u64 \<Rightarrow> u64 \<Rightarrow> u64" where
  "leaf_pte_at m l pt va = (case leaf_slot m l pt va of None \<Rightarrow> 0 | Some a \<Rightarrow> load64 m a)"

abbreviation leaf_pte :: "memory \<Rightarrow> u64 \<Rightarrow> u64 \<Rightarrow> u64" where
  "leaf_pte m root va \<equiv> leaf_pte_at m 2 root va"

definition sub_pages :: "memory \<Rightarrow> nat \<Rightarrow> u64 \<Rightarrow> nat \<Rightarrow> u64 list" where
  "sub_pages m l pt i = (if child m pt i AND PTE_V \<noteq> 0 then pt_pages m l (PTE2PA (child m pt i)) else [])"

lemma pt_pages_Suc: "pt_pages m (Suc l) pt = pt # concat (map (sub_pages m l pt) [0..<512])"
  by (simp add: sub_pages_def fun_eq_iff cong: map_cong)

declare pt_pages.simps(2) [simp del]

lemma leaf_pte_at_0 [simp]: "leaf_pte_at m 0 pt va = child m pt (unat (PX 0 va))"
  by (simp add: leaf_pte_at_def child_def)

lemma leaf_pte_at_Suc [simp]:
  "leaf_pte_at m (Suc l) pt va =
     (let e = child m pt (unat (PX (Suc l) va))
      in if e AND PTE_V \<noteq> 0 then leaf_pte_at m l (PTE2PA e) va else 0)"
  by (simp add: leaf_pte_at_def Let_def)

lemma root_in_pages [simp]: "pt \<in> set (pt_pages m l pt)"
  by (cases l) (simp_all add: pt_pages_Suc)

lemma pages_aligned: "pgaligned pt \<Longrightarrow> p \<in> set (pt_pages m l pt) \<Longrightarrow> pgaligned p"
proof (induction l arbitrary: pt)
  case (Suc l)
  from Suc.prems(2) consider "p = pt" | i where "p \<in> set (pt_pages m l (PTE2PA (child m pt i)))"
    by (auto simp: pt_pages_Suc sub_pages_def split: if_splits)
  then show ?case using Suc.IH Suc.prems(1) PTE2PA_aligned by cases blast+
qed simp

lemma mset_concat_upt:
  "mset (concat (map f [0..<n])) = (\<Sum>i<n. mset (f i))"
  by (induction n) (auto simp: lessThan_Suc)

lemma distinct_concat_upt:
  assumes "distinct (concat (map f [0..<n]))" "i < n"
  shows "distinct (f i)" "j < n \<Longrightarrow> i \<noteq> j \<Longrightarrow> set (f i) \<inter> set (f j) = {}"
  using assms by (induction n) (fastforce simp: less_Suc_eq)+

lemma distinct_pages_Suc:
  assumes "distinct (pt_pages m (Suc l) pt)" "i < 512"
  shows "distinct (sub_pages m l pt i)" "pt \<notin> set (sub_pages m l pt i)"
    "set (sub_pages m l pt i) \<subseteq> set (pt_pages m (Suc l) pt)"
    "j < 512 \<Longrightarrow> i \<noteq> j \<Longrightarrow> set (sub_pages m l pt i) \<inter> set (sub_pages m l pt j) = {}"
  using assms distinct_concat_upt [of "sub_pages m l pt" 512 i] by (auto simp: pt_pages_Suc)

section \<open>Framing\<close>

text \<open>A subtree only depends on the bytes of its own pages.\<close>

lemma child_cong:
  assumes "pgaligned pt" "i < 512" "\<And>x. PGROUNDDOWN x = pt \<Longrightarrow> m' x = m x"
  shows "child m' pt i = child m pt i"
  unfolding child_def by (rule load64_same_mem) (use assms in \<open>auto simp: in_slot\<close>)

lemma tree_frame:
  assumes "pgaligned pt" "\<And>x. PGROUNDDOWN x \<in> set (pt_pages m l pt) \<Longrightarrow> m' x = m x"
  shows "pt_pages m' l pt = pt_pages m l pt \<and> leaf_slot m' l pt va = leaf_slot m l pt va
    \<and> leaf_pte_at m' l pt va = leaf_pte_at m l pt va \<and> pt_inner m' l pt = pt_inner m l pt"
  using assms
proof (induction l arbitrary: pt)
  case 0
  then show ?case
    using child_cong [of pt "unat (PX 0 va)" m' m] by (simp add: PX_lt)
next
  case (Suc l)
  have c: "child m' pt i = child m pt i" if "i < 512" for i
    using that Suc.prems by (intro child_cong) auto
  have sub: "x \<in> set (sub_pages m l pt i) \<Longrightarrow> x \<in> set (pt_pages m (Suc l) pt)" if "i < 512" for i x
    using that by (auto simp: pt_pages_Suc)
  have IH: "pt_pages m' l p = pt_pages m l p \<and> leaf_slot m' l p va = leaf_slot m l p va
    \<and> leaf_pte_at m' l p va = leaf_pte_at m l p va \<and> pt_inner m' l p = pt_inner m l p"
    if "i < 512" "child m pt i AND PTE_V \<noteq> 0" "p = PTE2PA (child m pt i)" for i p
    using that sub [of i] Suc.prems(2) by (intro Suc.IH) (auto simp: sub_pages_def)
  have "sub_pages m' l pt i = sub_pages m l pt i" if "i < 512" for i
    using IH that c by (simp add: sub_pages_def)
  then have "map (sub_pages m' l pt) [0..<512] = map (sub_pages m l pt) [0..<512]"
    by (intro map_cong) auto
  then have "pt_pages m' (Suc l) pt = pt_pages m (Suc l) pt" by (simp only: pt_pages_Suc)
  moreover have "pt_inner m' (Suc l) pt = pt_inner m (Suc l) pt" using IH c by (auto simp: pt_inner.simps(2))
  ultimately show ?case using IH [of "unat (PX (Suc l) va)" "PTE2PA (child m pt (unat (PX (Suc l) va)))"] c
    by (simp add: PX_lt Let_def)
qed

lemmas pt_pages_frame = tree_frame [THEN conjunct1]
lemmas leaf_slot_frame = tree_frame [THEN conjunct2, THEN conjunct1]
lemmas leaf_pte_frame = tree_frame [THEN conjunct2, THEN conjunct2, THEN conjunct1]
lemmas pt_inner_frame = tree_frame [THEN conjunct2, THEN conjunct2, THEN conjunct2]

section \<open>Growing the tree\<close>

text \<open>
  \<open>pt_grow m m' l pt new\<close>: from \<open>m\<close> to \<open>m'\<close> the tree gained the pages \<open>new\<close>, every translation
  stayed as it was, and no byte outside the tree and the new pages changed.
\<close>

definition pt_grow :: "memory \<Rightarrow> memory \<Rightarrow> nat \<Rightarrow> u64 \<Rightarrow> u64 list \<Rightarrow> bool" where
  "pt_grow m m' l pt new \<longleftrightarrow>
     mset (pt_pages m' l pt) = mset (pt_pages m l pt) + mset new
     \<and> (\<forall>x. PGROUNDDOWN x \<notin> set (pt_pages m l pt) \<union> set new \<longrightarrow> m' x = m x)
     \<and> (\<forall>va. leaf_pte_at m' l pt va = leaf_pte_at m l pt va)
     \<and> (pt_inner m l pt \<longrightarrow> pt_inner m' l pt)"

lemma pt_grow_refl [simp]: "pt_grow m m l pt []"
  by (simp add: pt_grow_def)

lemma pt_grow_pages: "pt_grow m m' l pt new \<Longrightarrow> set (pt_pages m' l pt) = set (pt_pages m l pt) \<union> set new"
  unfolding pt_grow_def by (metis set_mset_mset set_mset_union)

lemma pt_grow_distinct:
  assumes "pt_grow m m' l pt new" "distinct (pt_pages m l pt)" "distinct new"
    "set new \<inter> set (pt_pages m l pt) = {}"
  shows "distinct (pt_pages m' l pt)"
proof -
  have "mset (pt_pages m' l pt) = mset (pt_pages m l pt @ new)"
    using assms(1) by (simp add: pt_grow_def)
  then have "distinct (pt_pages m' l pt) = distinct (pt_pages m l pt @ new)"
    by (rule mset_eq_imp_distinct_iff)
  then show ?thesis using assms by auto
qed

lemma pt_grow_trans:
  assumes "pt_grow m m1 l pt xs" "pt_grow m1 m2 l pt ys"
  shows "pt_grow m m2 l pt (xs @ ys)"
  using assms pt_grow_pages [OF assms(1)] unfolding pt_grow_def by (auto simp: ac_simps)

lemma pt_grow_lift:
  assumes al: "pgaligned pt" and dist: "distinct (pt_pages m (Suc l) pt)" and i: "i < 512"
    and valid: "child m pt i AND PTE_V \<noteq> 0"
    and grow: "pt_grow m m' l (PTE2PA (child m pt i)) new"
    and new: "set new \<inter> set (pt_pages m (Suc l) pt) = {}"
  shows "pt_grow m m' (Suc l) pt new" "child m' pt j = (if j < 512 then child m pt j else child m' pt j)"
proof -
  note dist' = distinct_pages_Suc [OF dist]
  have subi: "sub_pages m l pt i = pt_pages m l (PTE2PA (child m pt i))"
    using valid by (simp add: sub_pages_def)
  have frame: "m' x = m x" if "PGROUNDDOWN x \<notin> set (sub_pages m l pt i) \<union> set new" for x
    using grow that by (simp add: pt_grow_def subi)
  have ptnew: "pt \<notin> set new" using new by auto
  have c: "child m' pt j = child m pt j" if "j < 512" for j
    using that al dist'(2) [OF i] ptnew by (intro child_cong) (auto intro!: frame)
  then show "child m' pt j = (if j < 512 then child m pt j else child m' pt j)" by simp
  have other: "pt_pages m' l p = pt_pages m l p" "leaf_pte_at m' l p va = leaf_pte_at m l p va"
    "pt_inner m' l p = pt_inner m l p"
    if "j < 512" "j \<noteq> i" "child m pt j AND PTE_V \<noteq> 0" "p = PTE2PA (child m pt j)" for j p va
  proof -
    have "m' x = m x" if "PGROUNDDOWN x \<in> set (pt_pages m l p)" for x
    proof (rule frame)
      have "PGROUNDDOWN x \<in> set (sub_pages m l pt j)"
        using that \<open>child m pt j AND PTE_V \<noteq> 0\<close> \<open>p = _\<close> by (simp add: sub_pages_def)
      then show "PGROUNDDOWN x \<notin> set (sub_pages m l pt i) \<union> set new"
        using dist'(3,4) [OF \<open>j < 512\<close>] i \<open>j \<noteq> i\<close> new by blast
    qed
    then show "pt_pages m' l p = pt_pages m l p" "leaf_pte_at m' l p va = leaf_pte_at m l p va"
      "pt_inner m' l p = pt_inner m l p"
      using that(4) by (auto intro!: pt_pages_frame leaf_pte_frame pt_inner_frame)
  qed
  have subs: "mset (sub_pages m' l pt j) = mset (sub_pages m l pt j) + (if j = i then mset new else {#})"
    if "j < 512" for j
    using that c other(1) [OF that] grow valid by (auto simp: sub_pages_def pt_grow_def)
  have "(\<Sum>j<512. mset (sub_pages m' l pt j)) = (\<Sum>j<512. mset (sub_pages m l pt j)) + mset new"
    using i by (simp add: subs sum.distrib)
  moreover have "leaf_pte_at m' (Suc l) pt va = leaf_pte_at m (Suc l) pt va" for va
    using c other(2) grow by (cases "unat (PX (Suc l) va) = i") (auto simp: PX_lt pt_grow_def Let_def)
  moreover have "m' x = m x" if "PGROUNDDOWN x \<notin> set (pt_pages m (Suc l) pt) \<union> set new" for x
    using that dist'(3) [OF i] by (intro frame) blast
  moreover have "pt_inner m' (Suc l) pt" if "pt_inner m (Suc l) pt"
    unfolding pt_inner.simps
  proof (intro allI impI)
    fix j assume j: "j < 512" "child m' pt j AND PTE_V \<noteq> 0"
    with that c have "child m pt j AND (PTE_R OR PTE_W OR PTE_X) = 0 \<and> pt_inner m l (PTE2PA (child m pt j))"
      by (simp add: pt_inner.simps(2))
    then show "child m' pt j AND (PTE_R OR PTE_W OR PTE_X) = 0 \<and> pt_inner m' l (PTE2PA (child m' pt j))"
      using j c [OF j(1)] other(3) [OF j(1)] grow by (cases "j = i") (simp_all add: pt_grow_def)
  qed
  ultimately show "pt_grow m m' (Suc l) pt new"
    by (simp add: pt_grow_def pt_pages_Suc mset_concat_upt del: leaf_pte_at_Suc mset_concat)
qed

text \<open>An all-zero page is an empty table.\<close>

lemma pte_valid_or: "(e OR PTE_V) AND PTE_V \<noteq> 0" for e :: u64
proof -
  have "bit ((e OR PTE_V) AND PTE_V) 0" by (simp add: bit_simps)
  then show ?thesis by auto
qed

lemma PA2PTE_no_rights: "(PA2PTE pa OR PTE_V) AND (PTE_R OR PTE_W OR PTE_X) = 0"
proof -
  have "bit (14 :: u64) n \<Longrightarrow> 0 < n \<and> n < 4" for n
    using mask_lt_bit [of "14 :: u64" 4 n] by (cases n) simp_all
  then show ?thesis by (fastforce intro!: bit_word_eqI simp: PA2PTE_def bit_simps)
qed

lemma child_zero:
  assumes "pgaligned pg" "i < 512" "\<And>x. PGROUNDDOWN x = pg \<Longrightarrow> m x = 0"
  shows "child m pg i = 0"
  unfolding child_def by (rule load64_zero) (use assms in \<open>auto simp: in_slot\<close>)

lemma empty_table:
  assumes "pgaligned pg" "\<And>x. PGROUNDDOWN x = pg \<Longrightarrow> m x = 0"
  shows "pt_pages m l pg = [pg]" "leaf_pte_at m l pg va = 0" "pt_inner m l pg"
proof -
  have c: "child m pg i = 0" if "i < 512" for i using child_zero assms that by blast
  have "map (sub_pages m k pg) [0..<512] = map (\<lambda>_. []) [0..<512]" for k
    by (intro map_cong) (auto simp: c sub_pages_def)
  then have "concat (map (sub_pages m k pg) [0..<512]) = []" for k by (simp only: concat_eq_Nil_conv) auto
  then show "pt_pages m l pg = [pg]" by (cases l) (simp_all add: pt_pages_Suc)
  show "leaf_pte_at m l pg va = 0" by (cases l) (simp_all add: c PX_lt Let_def)
  show "pt_inner m l pg" by (cases l) (simp_all add: c pt_inner.simps(2))
qed

lemma link_new_page:
  assumes al: "pgaligned pt" and dist: "distinct (pt_pages m (Suc l) pt)" and i: "i < 512"
    and inval: "child m pt i AND PTE_V = 0"
    and pg: "ram_page pg" "pg \<notin> set (pt_pages m (Suc l) pt)"
    and mz: "\<And>x. PGROUNDDOWN x \<noteq> pg \<Longrightarrow> mz x = m x"
    and m': "m' = store64 (memset mz pg 0 4096) (slot pt i) (PA2PTE pg OR PTE_V)"
  shows "child m' pt i AND PTE_V \<noteq> 0" "PTE2PA (child m' pt i) = pg" "pt_pages m' l pg = [pg]"
    "pt_grow m m' (Suc l) pt [pg]"
proof -
  note dist' = distinct_pages_Suc [OF dist]
  have pgal: "pgaligned pg" "pg < 2 ^ 56"
    using pg(1) by (auto intro: order.strict_trans)
  have ne: "pg \<noteq> pt" using pg(2) by auto
  have frame: "m' x = m x" if "PGROUNDDOWN x \<noteq> pt" "PGROUNDDOWN x \<noteq> pg" for x
    using that mz [of x] by (simp add: m' store64_slot_other_page al i memset_page pgal)
  have zero: "m' x = 0" if "PGROUNDDOWN x = pg" for x
    using that ne by (simp add: m' store64_slot_other_page al i memset_page pgal)
  have c: "child m' pt j = (if j = i then PA2PTE pg OR PTE_V else child m pt j)" if "j < 512" for j
  proof -
    have "child (memset mz pg 0 4096) pt j = child m pt j"
      using ne by (intro child_cong) (auto simp: al that memset_page pgal mz)
    then show ?thesis using al i that by (simp add: m' child_def load64_slot_store64)
  qed
  show v: "child m' pt i AND PTE_V \<noteq> 0" using c i pte_valid_or by simp
  show p: "PTE2PA (child m' pt i) = pg" using c i pgal by (simp add: PTE2PA_PA2PTE)
  show e: "pt_pages m' l pg = [pg]" using empty_table(1) pgal(1) zero by blast
  have other: "pt_pages m' l p = pt_pages m l p" "leaf_pte_at m' l p va = leaf_pte_at m l p va"
    "pt_inner m' l p = pt_inner m l p"
    if "j < 512" "j \<noteq> i" "child m pt j AND PTE_V \<noteq> 0" "p = PTE2PA (child m pt j)" for j p va
  proof -
    have "set (sub_pages m l pt j) = set (pt_pages m l p)" using that by (simp add: sub_pages_def)
    then have "m' x = m x" if "PGROUNDDOWN x \<in> set (pt_pages m l p)" for x
      using that dist'(2,3) [OF \<open>j < 512\<close>] pg(2) by (intro frame) auto
    then show "pt_pages m' l p = pt_pages m l p" "leaf_pte_at m' l p va = leaf_pte_at m l p va"
      "pt_inner m' l p = pt_inner m l p"
      using that(4) by (auto intro!: pt_pages_frame leaf_pte_frame pt_inner_frame)
  qed
  have subs: "mset (sub_pages m' l pt j) = mset (sub_pages m l pt j) + (if j = i then mset [pg] else {#})"
    if "j < 512" for j
  proof (cases "j = i")
    case True
    with v p e inval show ?thesis by (simp add: sub_pages_def)
  next
    case False
    with that c other(1) [OF that] show ?thesis by (simp add: sub_pages_def)
  qed
  have "(\<Sum>j<512. mset (sub_pages m' l pt j)) = (\<Sum>j<512. mset (sub_pages m l pt j)) + mset [pg]"
    using i by (simp add: subs sum.distrib)
  moreover have "leaf_pte_at m' (Suc l) pt va = leaf_pte_at m (Suc l) pt va" for va
  proof (cases "unat (PX (Suc l) va) = i")
    case True
    with p inval i empty_table(2) [OF pgal(1) zero] show ?thesis by (simp add: Let_def)
  next
    case False
    with c other(2) show ?thesis by (auto simp: PX_lt Let_def)
  qed
  moreover have "m' x = m x" if "PGROUNDDOWN x \<notin> set (pt_pages m (Suc l) pt) \<union> set [pg]" for x
    using that by (intro frame) auto
  moreover have "pt_inner m' (Suc l) pt" if "pt_inner m (Suc l) pt"
    unfolding pt_inner.simps
  proof (intro allI impI)
    fix j assume j: "j < 512" "child m' pt j AND PTE_V \<noteq> 0"
    show "child m' pt j AND (PTE_R OR PTE_W OR PTE_X) = 0 \<and> pt_inner m' l (PTE2PA (child m' pt j))"
      using that j c [OF j(1)] other(3) [OF j(1)] p PA2PTE_no_rights empty_table(3) [OF pgal(1) zero]
      by (cases "j = i") (simp_all add: pt_inner.simps(2))
  qed
  ultimately show "pt_grow m m' (Suc l) pt [pg]"
    by (simp add: pt_grow_def pt_pages_Suc mset_concat_upt del: leaf_pte_at_Suc mset_concat)
qed

section \<open>walk\<close>

lemma walk_level_lookup:
  "walk_level l pt va False s = ((case leaf_slot (pmem s) l pt va of None \<Rightarrow> 0 | Some a \<Rightarrow> a), s)"
  by (induction l arbitrary: pt) (simp_all add: child_def Let_def)

lemma leaf_slot_in_tree:
  "leaf_slot m l pt va = Some a \<Longrightarrow> \<exists>p\<in>set (pt_pages m l pt). a = slot p (unat (PX 0 va))"
proof (induction l arbitrary: pt)
  case (Suc l)
  let ?i = "unat (PX (Suc l) va)"
  have v: "child m pt ?i AND PTE_V \<noteq> 0" "leaf_slot m l (PTE2PA (child m pt ?i)) va = Some a"
    using Suc.prems by (auto simp: Let_def split: if_splits)
  then obtain p where "p \<in> set (pt_pages m l (PTE2PA (child m pt ?i)))" "a = slot p (unat (PX 0 va))"
    using Suc.IH by blast
  moreover have "set (pt_pages m l (PTE2PA (child m pt ?i))) \<subseteq> set (pt_pages m (Suc l) pt)"
    using v(1) PX_lt [of "Suc l" va] by (auto simp: pt_pages_Suc sub_pages_def)
  ultimately show ?case by blast
qed simp

text \<open>What a completed \<open>walk\<close> with \<open>alloc\<close> has done, starting from the free list \<open>xs\<close>.\<close>

definition walked :: "nat \<Rightarrow> nat \<Rightarrow> u64 \<Rightarrow> u64 \<Rightarrow> 'a kmem_scheme \<Rightarrow> u64 list \<Rightarrow> u64 \<Rightarrow> 'a kmem_scheme \<Rightarrow> bool" where
  "walked n l pt va s xs r t \<longleftrightarrow> (\<exists>new ys. xs = new @ ys \<and> length new \<le> n \<and> free_pages t ys \<and> kend t = kend s
    \<and> mem_only s t
    \<and> pt_grow (pmem s) (pmem t) l pt new
    \<and> (if r = 0 then ys = [] else leaf_slot (pmem t) l pt va = Some r))"

definition pt_wf :: "nat \<Rightarrow> u64 \<Rightarrow> 'a kmem_scheme \<Rightarrow> u64 list \<Rightarrow> bool" where
  "pt_wf l pt s xs \<longleftrightarrow> pgaligned pt \<and> pt_inner (pmem s) l pt \<and> distinct (pt_pages (pmem s) l pt)
    \<and> 0 \<notin> set (pt_pages (pmem s) l pt) \<and> free_pages s xs \<and> set (pt_pages (pmem s) l pt) \<inter> set xs = {}"

lemma pt_wf_child:
  assumes "pt_wf (Suc l) pt s xs" "i < 512" "child (pmem s) pt i AND PTE_V \<noteq> 0"
  shows "pt_wf l (PTE2PA (child (pmem s) pt i)) s xs"
proof -
  have "pt_pages (pmem s) l (PTE2PA (child (pmem s) pt i)) = sub_pages (pmem s) l pt i"
    using assms(3) by (simp add: sub_pages_def)
  then show ?thesis
    using assms distinct_pages_Suc [of "pmem s" l pt i] unfolding pt_wf_def pt_inner.simps by auto
qed

lemma walked_descend:
  assumes wf: "pt_wf (Suc l) pt s xs" and v: "child (pmem s) pt (unat (PX (Suc l) va)) AND PTE_V \<noteq> 0"
    and w: "walked n l (PTE2PA (child (pmem s) pt (unat (PX (Suc l) va)))) va s xs r t"
  shows "walked n (Suc l) pt va s xs r t"
proof -
  let ?i = "unat (PX (Suc l) va)" and ?m = "pmem s"
  let ?e = "child ?m pt ?i"
  obtain new ys where w: "xs = new @ ys" "free_pages t ys" "kend t = kend s"
      "mem_only s t" "pt_grow ?m (pmem t) l (PTE2PA ?e) new"
      "if r = 0 then ys = [] else leaf_slot (pmem t) l (PTE2PA ?e) va = Some r" "length new \<le> n"
    using w unfolding walked_def by blast
  have disj: "set new \<inter> set (pt_pages ?m (Suc l) pt) = {}" using w(1) wf by (auto simp: pt_wf_def)
  have wf': "pgaligned pt" "distinct (pt_pages ?m (Suc l) pt)" using wf by (auto simp: pt_wf_def)
  note lift = pt_grow_lift [OF wf' PX_lt v w(5) disj]
  have "child (pmem t) pt ?i = ?e" using lift(2) [of ?i] PX_lt by simp
  with lift(1) w v show ?thesis
    unfolding walked_def by (intro exI [of _ new] exI [of _ ys]) (auto simp: Let_def)
qed

lemma walked_mono: "walked n l pt va s xs r t \<Longrightarrow> n \<le> k \<Longrightarrow> walked k l pt va s xs r t"
  unfolding walked_def using le_trans by blast

text \<open>The state after \<open>walk\<close> has linked a fresh page at index \<open>i\<close>.\<close>

lemma walk_new_page:
  assumes wf: "pt_wf (Suc l) pt s (pg # as)" and ka: "kalloc s = (pg, s1)" and i: "i < 512"
    and inval: "child (pmem s) pt i AND PTE_V = 0"
    and s': "s' = s1\<lparr>pmem := store64 (memset (pmem s1) pg 0 4096) (slot pt i) (PA2PTE pg OR PTE_V)\<rparr>"
  shows "child (pmem s') pt i AND PTE_V \<noteq> 0" "PTE2PA (child (pmem s') pt i) = pg"
    "pt_grow (pmem s) (pmem s') (Suc l) pt [pg]" "pt_wf (Suc l) pt s' as"
    "kend s' = kend s" "mem_only s s'"
proof -
  let ?m = "pmem s" and ?m' = "pmem s'"
  have wf': "pgaligned pt" "distinct (pt_pages ?m (Suc l) pt)" "free_pages s (pg # as)"
    "0 \<notin> set (pt_pages ?m (Suc l) pt)" "set (pt_pages ?m (Suc l) pt) \<inter> set (pg # as) = {}"
    using wf by (auto simp: pt_wf_def)
  note page = kalloc_page [OF wf'(3) ka]
  have pg: "ram_page pg" "pg \<notin> set (pt_pages ?m (Suc l) pt)" "pg \<notin> set as" "distinct as" "pg \<noteq> 0"
    using wf'(5) kpages.avail_pages [OF wf'(3)] managedD(2) by auto
  have m': "?m' = store64 (memset (pmem s1) pg 0 4096) (slot pt i) (PA2PTE pg OR PTE_V)"
    by (simp add: s')
  have other: "PGROUNDDOWN x \<noteq> pg \<Longrightarrow> pmem s1 x = ?m x" for x using page(4) by simp
  note link = link_new_page [where m = ?m and m' = ?m' and mz = "pmem s1", OF wf'(1,2) i inval pg(1,2)]
  show "child ?m' pt i AND PTE_V \<noteq> 0" using other m' by (rule link(1))
  show "PTE2PA (child ?m' pt i) = pg" using other m' by (rule link(2))
  have g: "pt_grow ?m ?m' (Suc l) pt [pg]" using other m' by (rule link(4))
  then show "pt_grow ?m ?m' (Suc l) pt [pg]" .
  show k: "kend s' = kend s" "mem_only s s'"
    using page(3) kalloc_state [OF ka] by (simp_all add: s')
  have ptas: "pt \<notin> set as" using wf'(5) root_in_pages [of pt ?m "Suc l"] by fastforce
  have "free_pages s' as"
  proof (rule free_pages_frame [OF page(2)])
    fix x assume "PGROUNDDOWN x \<in> set as"
    then have "PGROUNDDOWN x \<noteq> pt" "PGROUNDDOWN x \<noteq> pg"
      using ptas pg(3) by auto
    then show "pmem s' x = pmem s1 x"
      using wf'(1) pg(1) i by (simp add: s' store64_slot_other_page memset_page)
  qed (simp_all add: s')
  moreover have "set (pt_pages ?m' (Suc l) pt) = insert pg (set (pt_pages ?m (Suc l) pt))"
    using pt_grow_pages [OF g] by auto
  moreover have "distinct (pt_pages ?m' (Suc l) pt)"
    using pt_grow_distinct [OF g wf'(2)] pg(2) by simp
  ultimately show "pt_wf (Suc l) pt s' as"
    using wf wf'(1,4,5) pg(3,5) g unfolding pt_wf_def pt_grow_def by simp
qed

lemma walk_level_alloc:
  assumes "pt_wf l pt s xs" "walk_level l pt va True s = (r, t)"
  shows "walked l l pt va s xs r t"
  using assms
proof (induction l arbitrary: pt s xs)
  case 0
  have "r \<noteq> 0" using slot_nonzero [of pt "unat (PX 0 va)"] 0 PX_lt by (auto simp: pt_wf_def)
  then show ?case using 0 unfolding walked_def
    by (intro exI [of _ "[]"] exI [of _ xs]) (auto simp: pt_wf_def)
next
  case (Suc l)
  let ?i = "unat (PX (Suc l) va)"
  show ?case
  proof (cases "child (pmem s) pt ?i AND PTE_V \<noteq> 0")
    case True
    then have "walk_level l (PTE2PA (child (pmem s) pt ?i)) va True s = (r, t)"
      using Suc.prems(2) by (simp add: child_def)
    from walked_descend [OF Suc.prems(1) True Suc.IH [OF pt_wf_child [OF Suc.prems(1) PX_lt True] this]]
    show ?thesis by (rule walked_mono) simp
  next
    case False
    then have inval: "child (pmem s) pt ?i AND PTE_V = 0" by simp
    obtain pg s1 where ka: "kalloc s = (pg, s1)" by fastforce
    have free: "free_pages s xs" using Suc.prems(1) by (simp add: pt_wf_def)
    from free ka show ?thesis
    proof (cases rule: kpages.alloc_cases)
      case none
      then show ?thesis using Suc.prems inval ka unfolding walked_def
        by (intro exI [of _ "[]"]) (auto simp: child_def Let_def pt_wf_def)
    next
      case (some as)
      define s' where "s' = s1\<lparr>pmem := store64 (memset (pmem s1) pg 0 4096) (slot pt ?i) (PA2PTE pg OR PTE_V)\<rparr>"
      note new = walk_new_page [OF Suc.prems(1) [unfolded some(1)] ka PX_lt inval s'_def]
      have "walk_level l pg va True s' = (r, t)"
        using Suc.prems(2) inval ka some(2) by (simp add: child_def Let_def s'_def)
      moreover have "pt_wf l pg s' as" using pt_wf_child [OF new(4) PX_lt new(1)] new(2) by simp
      ultimately have "walked l l pg va s' as r t" by (intro Suc.IH)
      then have "walked l (Suc l) pt va s' as r t"
        using new(2) by (intro walked_descend [OF new(4,1)]) simp
      then obtain nw ys where w: "as = nw @ ys" "free_pages t ys" "kend t = kend s'"
          "mem_only s' t" "pt_grow (pmem s') (pmem t) (Suc l) pt nw"
          "if r = 0 then ys = [] else leaf_slot (pmem t) (Suc l) pt va = Some r" "length nw \<le> l"
        unfolding walked_def by blast
      have "mem_only s t"
        using new(6) w(4) by (rule mem_only_trans)
      moreover have "pt_grow (pmem s) (pmem t) (Suc l) pt (pg # nw)"
        using pt_grow_trans [OF new(3) w(5)] by simp
      ultimately show ?thesis using w some new(5)
        unfolding walked_def by (intro exI [of _ "pg # nw"] exI [of _ ys]) simp
    qed
  qed
qed

section \<open>Writing leaf entries\<close>

text \<open>
  Storing to the leaf entry of \<open>va\<close> changes the translation of the addresses with the same indices
  and nothing else.
\<close>

fun same_idx :: "nat \<Rightarrow> u64 \<Rightarrow> u64 \<Rightarrow> bool" where
  "same_idx 0 va va' \<longleftrightarrow> unat (PX 0 va) = unat (PX 0 va')"
| "same_idx (Suc l) va va' \<longleftrightarrow> unat (PX (Suc l) va) = unat (PX (Suc l) va') \<and> same_idx l va va'"

lemma same_idx_page: "va < SV39 \<Longrightarrow> va' < SV39 \<Longrightarrow> same_idx 2 va va' \<longleftrightarrow> PGROUNDDOWN va = PGROUNDDOWN va'"
  using PX_inject [of va va'] by (auto simp: numeral_2_eq_2 word_unat_eq_iff)

lemma leaf_store:
  assumes "pgaligned pt" "distinct (pt_pages m l pt)" "leaf_slot m l pt va = Some a"
    and "m' = store64 m a v"
  shows "pt_pages m' l pt = pt_pages m l pt \<and> pt_inner m' l pt = pt_inner m l pt
    \<and> leaf_slot m' l pt va' = leaf_slot m l pt va'
    \<and> leaf_pte_at m' l pt va' = (if same_idx l va' va then v else leaf_pte_at m l pt va')"
  using assms
proof (induction l arbitrary: pt)
  case 0
  then show ?case
    by (auto simp: child_def load64_slot_store64 PX_lt)
next
  case (Suc l)
  let ?i = "unat (PX (Suc l) va)" and ?j = "unat (PX (Suc l) va')"
  note dist' = distinct_pages_Suc [OF Suc.prems(2)]
  have v: "child m pt ?i AND PTE_V \<noteq> 0" "leaf_slot m l (PTE2PA (child m pt ?i)) va = Some a"
    using Suc.prems(3) by (auto simp: Let_def split: if_splits)
  then have subi: "sub_pages m l pt ?i = pt_pages m l (PTE2PA (child m pt ?i))"
    by (simp add: sub_pages_def)
  obtain p where p: "p \<in> set (sub_pages m l pt ?i)" "a = slot p (unat (PX 0 va))"
    using leaf_slot_in_tree [OF v(2)] subi by auto
  have pal: "pgaligned p" using p(1) pages_aligned PTE2PA_aligned unfolding subi by blast
  have frame: "m' x = m x" if "PGROUNDDOWN x \<noteq> p" for x
    using that by (simp add: Suc.prems(4) p(2) store64_slot_other_page pal PX_lt)
  have "pt \<noteq> p" using p(1) dist'(2) [OF PX_lt] by auto
  then have c: "child m' pt j = child m pt j" if "j < 512" for j
    using that Suc.prems(1) by (intro child_cong) (auto intro!: frame)
  have IH: "pt_pages m' l q = pt_pages m l q \<and> pt_inner m' l q = pt_inner m l q \<and> leaf_slot m' l q va' = leaf_slot m l q va'
      \<and> leaf_pte_at m' l q va' = (if same_idx l va' va then v else leaf_pte_at m l q va')"
    if "q = PTE2PA (child m pt ?i)" for q
    using v(2) Suc.prems(4) dist'(1) [OF PX_lt, of "Suc l" va] subi that by (intro Suc.IH) auto
  have other: "pt_pages m' l q = pt_pages m l q \<and> leaf_slot m' l q va' = leaf_slot m l q va'
      \<and> leaf_pte_at m' l q va' = leaf_pte_at m l q va' \<and> pt_inner m' l q = pt_inner m l q"
    if "j < 512" "j \<noteq> ?i" "child m pt j AND PTE_V \<noteq> 0" "q = PTE2PA (child m pt j)" for j q
  proof (rule tree_frame)
    fix x assume "PGROUNDDOWN x \<in> set (pt_pages m l q)"
    then have "PGROUNDDOWN x \<in> set (sub_pages m l pt j)" using that by (simp add: sub_pages_def)
    then show "m' x = m x"
      using dist'(4) [OF that(1) PX_lt that(2)] p(1) by (intro frame) blast
  qed (simp add: that(4))
  have "sub_pages m' l pt j = sub_pages m l pt j" if "j < 512" for j
    using that c IH other [of j] by (cases "j = ?i") (simp_all add: sub_pages_def)
  then have "map (sub_pages m' l pt) [0..<512] = map (sub_pages m l pt) [0..<512]"
    by (intro map_cong) auto
  then have "pt_pages m' (Suc l) pt = pt_pages m (Suc l) pt" by (simp only: pt_pages_Suc)
  moreover have "pt_inner m' l (PTE2PA (child m pt j)) = pt_inner m l (PTE2PA (child m pt j))"
    if "j < 512" "child m pt j AND PTE_V \<noteq> 0" for j
    using that IH other [of j] by (cases "j = ?i") blast+
  then have "pt_inner m' (Suc l) pt = pt_inner m (Suc l) pt" using c by (auto simp: pt_inner.simps(2))
  ultimately have pages: "pt_pages m' (Suc l) pt = pt_pages m (Suc l) pt \<and> pt_inner m' (Suc l) pt = pt_inner m (Suc l) pt"
    by blast
  show ?case
  proof (cases "?j = ?i")
    case True
    with c [OF PX_lt, of "Suc l" va] v(1) IH pages show ?thesis by (simp add: Let_def)
  next
    case False
    with c [OF PX_lt, of "Suc l" va'] other [OF PX_lt False] pages show ?thesis
      by (simp add: Let_def)
  qed
qed

section \<open>Steps of a whole table\<close>

abbreviation table :: "u64 \<Rightarrow> 'a kmem_scheme \<Rightarrow> u64 list \<Rightarrow> bool" where
  "table pt s xs \<equiv> pt_wf 2 pt s xs"

abbreviation table_pages :: "'a kmem_scheme \<Rightarrow> u64 \<Rightarrow> u64 list" where
  "table_pages s pt \<equiv> pt_pages (pmem s) 2 pt"

text \<open>
  From \<open>s\<close> with free list \<open>xs\<close> to \<open>t\<close> with free list \<open>ys\<close>: the table may have taken pages from the
  front of the free list, and memory changed only in pages the table owns.
\<close>

definition pt_step :: "u64 \<Rightarrow> 'a kmem_scheme \<Rightarrow> u64 list \<Rightarrow> 'a kmem_scheme \<Rightarrow> u64 list \<Rightarrow> bool" where
  "pt_step pt s xs t ys \<longleftrightarrow> mem_only s t \<and> table pt t ys
     \<and> (\<exists>new. xs = new @ ys \<and> set (table_pages t pt) = set (table_pages s pt) \<union> set new
       \<and> (\<forall>x. PGROUNDDOWN x \<notin> set (table_pages s pt) \<union> set new \<longrightarrow> pmem t x = pmem s x))"

lemma pt_step_refl: "table pt s xs \<Longrightarrow> pt_step pt s xs s xs"
  by (auto simp: pt_step_def)

lemma pt_step_trans:
  assumes "pt_step pt s xs t ys" "pt_step pt t ys u zs"
  shows "pt_step pt s xs u zs"
proof -
  obtain a where a: "xs = a @ ys" "set (table_pages t pt) = set (table_pages s pt) \<union> set a"
      "\<And>x. PGROUNDDOWN x \<notin> set (table_pages s pt) \<union> set a \<Longrightarrow> pmem t x = pmem s x"
    using assms(1) unfolding pt_step_def by blast
  obtain b where b: "ys = b @ zs" "set (table_pages u pt) = set (table_pages t pt) \<union> set b"
      "\<And>x. PGROUNDDOWN x \<notin> set (table_pages t pt) \<union> set b \<Longrightarrow> pmem u x = pmem t x"
    using assms(2) unfolding pt_step_def by blast
  have "pmem u x = pmem s x" if "PGROUNDDOWN x \<notin> set (table_pages s pt) \<union> set (a @ b)" for x
    using that a(2) a(3) [of x] b(3) [of x] by simp
  moreover have "mem_only s u" using assms mem_only_trans by (auto simp: pt_step_def)
  ultimately show ?thesis
    using assms(2) a(1,2) b(1,2) unfolding pt_step_def by (intro conjI exI [of _ "a @ b"]) auto
qed

text \<open>A table survives every change of memory outside its pages.\<close>

lemma table_frame:
  assumes "table pt s xs" "free_pages t ys" "set (table_pages s pt) \<inter> set ys = {}"
    and "\<And>x. PGROUNDDOWN x \<in> set (table_pages s pt) \<Longrightarrow> pmem t x = pmem s x"
  shows "table pt t ys" "table_pages t pt = table_pages s pt" "leaf_pte (pmem t) pt va = leaf_pte (pmem s) pt va"
proof -
  have al: "pgaligned pt" using assms(1) by (simp add: pt_wf_def)
  show p: "table_pages t pt = table_pages s pt" using al assms(4) by (rule pt_pages_frame)
  show "leaf_pte (pmem t) pt va = leaf_pte (pmem s) pt va" using al assms(4) by (rule leaf_pte_frame)
  have "pt_inner (pmem t) 2 pt = pt_inner (pmem s) 2 pt" using al assms(4) by (rule pt_inner_frame)
  then show "table pt t ys" using assms(1-3) p by (simp add: pt_wf_def)
qed

lemma walk_step:
  assumes wf: "table pt s xs" and w: "walk pt va True s = Ok (pte, t)"
  shows "\<exists>ys. pt_step pt s xs t ys \<and> (\<forall>va'. leaf_pte (pmem t) pt va' = leaf_pte (pmem s) pt va')
    \<and> length xs \<le> length ys + 2
    \<and> (if pte = 0 then ys = [] else leaf_slot (pmem t) 2 pt va = Some pte)"
proof -
  have "walked 2 2 pt va s xs pte t"
    using w walk_level_alloc [OF wf] by (auto simp: walk_def split: if_splits)
  then obtain new ys where w: "xs = new @ ys" "free_pages t ys" "mem_only s t"
      "pt_grow (pmem s) (pmem t) 2 pt new" "if pte = 0 then ys = [] else leaf_slot (pmem t) 2 pt va = Some pte"
      "length new \<le> 2"
    unfolding walked_def by auto
  have d: "distinct xs" "0 \<notin> set xs"
    using wf free_pages_nonzero by (auto simp: pt_wf_def free_pages_def)
  have pages: "set (table_pages t pt) = set (table_pages s pt) \<union> set new"
    using w(4) by (rule pt_grow_pages)
  have "distinct (table_pages t pt)"
    using wf w(1) d by (intro pt_grow_distinct [OF w(4)]) (auto simp: pt_wf_def)
  moreover have "pt_inner (pmem t) 2 pt" using wf w(4) by (simp add: pt_wf_def pt_grow_def)
  ultimately have "table pt t ys" using wf w(1,2) d pages by (auto simp: pt_wf_def)
  then show ?thesis
    using w pages unfolding pt_step_def pt_grow_def by auto
qed

lemma leaf_store_step:
  assumes wf: "table pt s xs" and sl: "leaf_slot (pmem s) 2 pt va = Some pte" and va: "va < SV39"
    and t: "t = s\<lparr>pmem := store64 (pmem s) pte v\<rparr>"
  shows "pt_step pt s xs t xs" "table_pages t pt = table_pages s pt"
    "va' < SV39 \<Longrightarrow> leaf_pte (pmem t) pt va' =
      (if PGROUNDDOWN va' = PGROUNDDOWN va then v else leaf_pte (pmem s) pt va')"
    "leaf_slot (pmem t) 2 pt va' = leaf_slot (pmem s) 2 pt va'"
proof -
  have wf': "pgaligned pt" "distinct (table_pages s pt)" using wf by (simp_all add: pt_wf_def)
  have tm: "pmem t = store64 (pmem s) pte v" by (simp add: t)
  note ls = leaf_store [OF wf' sl tm]
  show pages: "table_pages t pt = table_pages s pt" using ls by blast
  show "leaf_slot (pmem t) 2 pt va' = leaf_slot (pmem s) 2 pt va'" using ls by blast
  show "leaf_pte (pmem t) pt va' =
      (if PGROUNDDOWN va' = PGROUNDDOWN va then v else leaf_pte (pmem s) pt va')" if "va' < SV39"
    using ls [of va'] same_idx_page [OF that, of va] va by simp
  obtain p where p: "p \<in> set (table_pages s pt)" "pte = slot p (unat (PX 0 va))"
    using leaf_slot_in_tree [OF sl] by blast
  have pal: "pgaligned p" using pages_aligned [OF wf'(1) p(1)] .
  have frame: "pmem t x = pmem s x" if "PGROUNDDOWN x \<notin> set (table_pages s pt)" for x
    using that p(1) by (subst tm, subst p(2), intro store64_slot_other_page) (auto simp: pal PX_lt)
  have free: "free_pages s xs" "set (table_pages s pt) \<inter> set xs = {}"
    using wf by (simp_all add: pt_wf_def)
  have "free_pages t xs"
    using free by (intro free_pages_frame [OF free(1)] frame) (auto simp: t)
  moreover have "pt_inner (pmem t) 2 pt" using wf ls by (simp add: pt_wf_def)
  ultimately show "pt_step pt s xs t xs"
    using wf frame pages unfolding pt_step_def pt_wf_def by (auto simp: t)
qed

section \<open>mappages\<close>

text \<open>
  The entries of the table after the \<open>k\<close> bytes from the page \<open>a\<close> on have been mapped to consecutive
  physical pages from \<open>pa\<close>.
\<close>

definition mapped :: "memory \<Rightarrow> u64 \<Rightarrow> u64 \<Rightarrow> u64 \<Rightarrow> u64 \<Rightarrow> nat \<Rightarrow> u64 \<Rightarrow> u64" where
  "mapped m pt a pa perm k va =
     (let d = PGROUNDDOWN va - a
      in if unat d < k then PA2PTE (pa + d) OR perm OR PTE_V else leaf_pte m pt va)"

lemma aligned_diff_cases:
  fixes d :: u64
  assumes "pgaligned d" "k \<le> 2 ^ 40"
  shows "unat (d - PGSIZE) < k \<longleftrightarrow> d \<noteq> 0 \<and> unat d < k + 4096"
proof (cases "d = 0")
  case True
  then show ?thesis using assms(2) by simp
next
  case False
  obtain q where q: "unat d = 4096 * q" using assms(1) by (auto simp: pgaligned_unat mod_eq_0_iff_dvd)
  moreover have "q \<noteq> 0" using False q by (metis mult_0_right unat_eq_zero)
  ultimately have "unat (d - PGSIZE) = unat d - 4096" by (subst unat_sub) (simp_all add: word_le_nat_alt)
  then show ?thesis using False q \<open>q \<noteq> 0\<close> by auto
qed

lemma pgaligned_add_iff: "pgaligned b \<Longrightarrow> pgaligned (a + b) \<longleftrightarrow> pgaligned a"
proof -
  assume b: "pgaligned b"
  have "unat (a + b) mod 4096 = (unat a + unat b) mod 4096"
    by (simp add: unat_word_ariths mod_mod_cancel)
  with b show ?thesis by (simp add: pgaligned_unat mod_eq_0_iff_dvd dvd_add_left_iff)
qed

lemma pgaligned_diff: "pgaligned a \<Longrightarrow> pgaligned b \<Longrightarrow> pgaligned (a - b)"
  using pgaligned_add_iff [of b "a - b"] by simp

lemma mapped_Suc:
  assumes "pgaligned a" "k \<le> 2 ^ 40"
    and "leaf_pte m' pt va = (if PGROUNDDOWN va = a then PA2PTE pa OR perm OR PTE_V else leaf_pte m pt va)"
  shows "mapped m' pt (a + PGSIZE) (pa + PGSIZE) perm k va = mapped m pt a pa perm (k + 4096) va"
proof -
  let ?d = "PGROUNDDOWN va - a"
  have e: "PGROUNDDOWN va - (a + PGSIZE) = ?d - PGSIZE" "pa + PGSIZE + (?d - PGSIZE) = pa + ?d" by simp_all
  have "unat (?d - PGSIZE) < k \<longleftrightarrow> ?d \<noteq> 0 \<and> unat ?d < k + 4096"
    using assms(1,2) by (intro aligned_diff_cases pgaligned_diff) simp_all
  then show ?thesis
    unfolding mapped_def Let_def e by (auto simp: assms(3))
qed

lemma mapped_0 [simp]: "mapped m pt a pa perm 0 va = leaf_pte m pt va"
  by (simp add: mapped_def)

lemma page_succ_le:
  assumes "pgaligned a" "pgaligned b" "a < b"
  shows "a + PGSIZE \<le> b" "unat (b - a) = unat (b - (a + PGSIZE)) + 4096"
proof -
  obtain i j where ij: "unat a = 4096 * i" "unat b = 4096 * j"
    using assms(1,2) by (metis pgaligned_unat mod_0_imp_dvd dvd_def)
  have "i < j" using assms(3) ij by (simp add: word_less_nat_alt)
  then have le: "unat a + 4096 \<le> unat b" using ij by linarith
  then have "unat a + 4096 < 18446744073709551616" using unat_u64_lt [of b] by linarith
  then have u: "unat (a + PGSIZE) = unat a + 4096" by (simp add: unat_word_ariths)
  then show "a + PGSIZE \<le> b" using le by (simp add: word_le_nat_alt)
  then show "unat (b - a) = unat (b - (a + PGSIZE)) + 4096"
    using assms(3) u le by (simp add: unat_sub order.strict_implies_order)
qed

lemma mappages_page:
  assumes wf: "table pt s xs" and a: "pgaligned a" "a < MAXVA" and unm: "leaf_pte (pmem s) pt a AND PTE_V = 0"
  obtains (fail) t where "mappages_loop pt a lastva pa perm s = Ok (-1, t)" "pt_step pt s xs t []"
      "\<And>va. leaf_pte (pmem t) pt va = leaf_pte (pmem s) pt va" "length xs \<le> 2"
  | (ok) t ys where "mappages_loop pt a lastva pa perm s =
        (if a = lastva then Ok (0, t) else mappages_loop pt (a + PGSIZE) lastva (pa + PGSIZE) perm t)"
      "pt_step pt s xs t ys" "\<And>va. va < SV39 \<Longrightarrow> leaf_pte (pmem t) pt va =
        (if PGROUNDDOWN va = a then PA2PTE pa OR perm OR PTE_V else leaf_pte (pmem s) pt va)"
proof -
  obtain pte s1 where w: "walk pt a True s = Ok (pte, s1)"
    using a(2) by (cases "walk_level 2 pt a True s") (simp add: walk_def not_le)
  obtain ys where ys: "pt_step pt s xs s1 ys" "\<And>va. leaf_pte (pmem s1) pt va = leaf_pte (pmem s) pt va"
      "if pte = 0 then ys = [] else leaf_slot (pmem s1) 2 pt a = Some pte" "length xs \<le> length ys + 2"
    using walk_step [OF wf w] by auto
  show thesis
  proof (cases "pte = 0")
    case True
    then show thesis using ys w by (intro fail [of s1]) (simp_all add: mappages_loop.simps [of pt a])
  next
    case False
    then have sl: "leaf_slot (pmem s1) 2 pt a = Some pte" using ys(3) by simp
    have "leaf_pte (pmem s1) pt a = load64 (pmem s1) pte" by (simp add: leaf_pte_at_def sl)
    then have u: "load64 (pmem s1) pte AND PTE_V = 0" using unm ys(2) by simp
    let ?t = "s1\<lparr>pmem := store64 (pmem s1) pte (PA2PTE pa OR perm OR PTE_V)\<rparr>"
    have tab: "table pt s1 ys" using ys(1) by (simp add: pt_step_def)
    note st = leaf_store_step [OF tab sl MAXVA_SV39 [OF a(2)] refl [of ?t]]
    show thesis
    proof (rule ok)
      show "mappages_loop pt a lastva pa perm s =
          (if a = lastva then Ok (0, ?t) else mappages_loop pt (a + PGSIZE) lastva (pa + PGSIZE) perm ?t)"
        by (subst mappages_loop.simps) (simp add: w False u)
      show "pt_step pt s xs ?t ys" using ys(1) st(1) by (rule pt_step_trans)
      show "leaf_pte (pmem ?t) pt va = (if PGROUNDDOWN va = a then PA2PTE pa OR perm OR PTE_V
          else leaf_pte (pmem s) pt va)" if "va < SV39" for va
        using st(3) [OF that] ys(2) a(1) by (simp add: PGROUNDDOWN_id)
    qed
  qed
qed

text \<open>The result of \<open>mappages_loop\<close> on a range that is not mapped yet.\<close>

definition mappages_post ::
  "u64 \<Rightarrow> 'a kmem_scheme \<Rightarrow> u64 list \<Rightarrow> u64 \<Rightarrow> u64 \<Rightarrow> u64 \<Rightarrow> u64 \<Rightarrow> (int \<times> 'a kmem_scheme) result \<Rightarrow> bool" where
  "mappages_post pt s xs a lastva pa perm res \<longleftrightarrow> (\<exists>r t ys k. res = Ok (r, t) \<and> pt_step pt s xs t ys
     \<and> (\<forall>va<SV39. leaf_pte (pmem t) pt va = mapped (pmem s) pt a pa perm k va)
     \<and> (if r = 0 then k = unat (lastva - a) + 4096 else r = -1 \<and> ys = [] \<and> k \<le> unat (lastva - a)))"

lemma mappages_post_Suc:
  assumes al: "pgaligned a" "pgaligned lastva" and lt: "a < lastva" "lastva < MAXVA"
    and st: "pt_step pt s xs t ys"
    and leaf: "\<And>va. va < SV39 \<Longrightarrow> leaf_pte (pmem t) pt va =
        (if PGROUNDDOWN va = a then PA2PTE pa OR perm OR PTE_V else leaf_pte (pmem s) pt va)"
    and post: "mappages_post pt t ys (a + PGSIZE) lastva (pa + PGSIZE) perm res"
  shows "mappages_post pt s xs a lastva pa perm res"
proof -
  obtain r t' zs k where IH: "res = Ok (r, t') \<and> pt_step pt t ys t' zs
      \<and> (\<forall>va<SV39. leaf_pte (pmem t') pt va = mapped (pmem t) pt (a + PGSIZE) (pa + PGSIZE) perm k va)
      \<and> (if r = 0 then k = unat (lastva - (a + PGSIZE)) + 4096
         else r = -1 \<and> zs = [] \<and> k \<le> unat (lastva - (a + PGSIZE)))"
    using post unfolding mappages_post_def by (elim exE)
  note succ = page_succ_le [OF al lt(1)]
  have "unat (lastva - a) \<le> 2 ^ 38"
    using lt by (subst unat_sub) (simp_all add: word_less_nat_alt word_le_nat_alt)
  then have k: "k \<le> 2 ^ 40" using IH succ(2) by (simp split: if_splits)
  have "leaf_pte (pmem t') pt va = mapped (pmem s) pt a pa perm (k + 4096) va" if "va < SV39" for va
    using IH that mapped_Suc [OF al(1) k leaf [OF that]] by simp
  moreover have "pt_step pt s xs t' zs" using st IH by (blast intro: pt_step_trans)
  ultimately show ?thesis using IH succ(2) unfolding mappages_post_def
    by (intro exI [of _ r] exI [of _ t'] exI [of _ zs] exI [of _ "k + 4096"]) (simp split: if_splits)
qed

lemma mappages_loop_ok:
  assumes "table pt s xs" "pgaligned a" "pgaligned lastva" "a \<le> lastva" "lastva < MAXVA"
    and "\<And>va. va < SV39 \<Longrightarrow> a \<le> PGROUNDDOWN va \<Longrightarrow> PGROUNDDOWN va \<le> lastva \<Longrightarrow> leaf_pte (pmem s) pt va AND PTE_V = 0"
  shows "mappages_post pt s xs a lastva pa perm (mappages_loop pt a lastva pa perm s)"
  using assms
proof (induction "unat (lastva - a)" arbitrary: a pa s xs rule: less_induct)
  case less
  have a: "a < MAXVA" using less.prems(4,5) by simp
  have unm: "leaf_pte (pmem s) pt a AND PTE_V = 0"
    using less.prems(2,4) less.prems(6) [OF MAXVA_SV39 [OF a]] by (simp add: PGROUNDDOWN_id)
  from less.prems(1,2) a unm show ?case
  proof (cases rule: mappages_page [where lastva = lastva and pa = pa and perm = perm])
    case (fail t)
    then show ?thesis unfolding mappages_post_def
      by (intro exI [of _ "-1"] exI [of _ t] exI [of _ "[]"] exI [of _ 0]) simp
  next
    case (ok t ys)
    show ?thesis
    proof (cases "a = lastva")
      case True
      have "leaf_pte (pmem t) pt va = mapped (pmem s) pt a pa perm 4096 va" if "va < SV39" for va
        using mapped_Suc [OF less.prems(2) _ ok(3) [OF that], of 0] by simp
      with True ok(1,2) show ?thesis unfolding mappages_post_def
        by (intro exI [of _ 0] exI [of _ t] exI [of _ ys] exI [of _ 4096]) simp
    next
      case False
      then have lt: "a < lastva" using less.prems(4) by simp
      note succ = page_succ_le [OF less.prems(2,3) lt]
      have "mappages_post pt t ys (a + PGSIZE) lastva (pa + PGSIZE) perm
        (mappages_loop pt (a + PGSIZE) lastva (pa + PGSIZE) perm t)"
      proof (rule less.hyps)
        show "unat (lastva - (a + PGSIZE)) < unat (lastva - a)" using succ(2) by simp
        show "table pt t ys" using ok(2) by (simp add: pt_step_def)
        show "pgaligned (a + PGSIZE)" using less.prems(2) by (subst pgaligned_add_iff) (simp_all add: pgaligned_def)
        show "a + PGSIZE \<le> lastva" by (rule succ(1))
        fix va assume va: "va < SV39" "a + PGSIZE \<le> PGROUNDDOWN va" "PGROUNDDOWN va \<le> lastva"
        have "a < a + PGSIZE" using a by (simp add: word_less_nat_alt unat_word_ariths)
        then have "a < PGROUNDDOWN va" using va(2) by (rule order.strict_trans2)
        then have "a \<le> PGROUNDDOWN va" "PGROUNDDOWN va \<noteq> a" by auto
        then show "leaf_pte (pmem t) pt va AND PTE_V = 0"
          using va(3) less.prems(6) [OF va(1)] ok(3) [OF va(1)] by simp
      qed (use less.prems(3,5) in auto)
      then have "mappages_post pt t ys (a + PGSIZE) lastva (pa + PGSIZE) perm (mappages_loop pt a lastva pa perm s)"
        using ok(1) False by simp
      then show ?thesis by (intro mappages_post_Suc [OF less.prems(2,3) lt less.prems(5) ok(2)] ok(3))
    qed
  qed
qed

section \<open>uvmunmap\<close>

text \<open>The \<open>n\<close> pages from \<open>a\<close> on, their entries, and the physical pages behind them.\<close>

abbreviation vpage :: "u64 \<Rightarrow> nat \<Rightarrow> u64" where
  "vpage a i \<equiv> a + PGSIZE * of_nat i"

definition upages :: "memory \<Rightarrow> u64 \<Rightarrow> u64 \<Rightarrow> nat \<Rightarrow> u64 list" where
  "upages m pt a n = map (\<lambda>i. PTE2PA (leaf_pte m pt (vpage a i))) [0..<n]"

definition leaf_ok :: "u64 \<Rightarrow> bool" where
  "leaf_ok e \<longleftrightarrow> e AND PTE_V \<noteq> 0 \<and> PTE_FLAGS e \<noteq> PTE_V"

definition leaves_ok :: "memory \<Rightarrow> u64 \<Rightarrow> u64 \<Rightarrow> nat \<Rightarrow> bool" where
  "leaves_ok m pt a n \<longleftrightarrow> (\<forall>i<n. leaf_ok (leaf_pte m pt (vpage a i)))"

text \<open>Pages that can be given back: managed, each once, neither free nor part of the table.\<close>

definition returnable :: "'a kmem_scheme \<Rightarrow> u64 \<Rightarrow> u64 list \<Rightarrow> u64 list \<Rightarrow> bool" where
  "returnable s pt xs ps \<longleftrightarrow> distinct ps \<and> (\<forall>p\<in>set ps. managed s p \<and> p \<noteq> 0)
     \<and> set ps \<inter> set xs = {} \<and> set ps \<inter> set (table_pages s pt) = {}"

lemma upages_0 [simp]: "upages m pt a 0 = []"
  by (simp add: upages_def)

lemma upages_Suc: "upages m pt a (Suc n) = PTE2PA (leaf_pte m pt a) # upages m pt (a + PGSIZE) n"
proof -
  have "[0..<Suc n] = 0 # map Suc [0..<n]" by (simp add: upt_conv_Cons map_Suc_upt)
  then show ?thesis by (simp add: upages_def o_def algebra_simps)
qed

lemma upages_snoc: "upages m pt a (Suc n) = upages m pt a n @ [PTE2PA (leaf_pte m pt (vpage a n))]"
  by (simp add: upages_def)

lemma leaves_ok_Suc: "leaves_ok m pt a (Suc n) \<longleftrightarrow> leaf_ok (leaf_pte m pt a) \<and> leaves_ok m pt (a + PGSIZE) n"
  by (simp add: leaves_ok_def All_less_Suc2 algebra_simps)

lemma upages_cong:
  assumes "\<And>i. i < n \<Longrightarrow> leaf_pte m' pt (vpage a i) = leaf_pte m pt (vpage a i)"
  shows "upages m' pt a n = upages m pt a n" "leaves_ok m' pt a n = leaves_ok m pt a n"
  using assms by (auto simp: upages_def leaves_ok_def)

lemma unat_vpage:
  assumes "unat a + 4096 * n \<le> 0x4000000000" "i \<le> n"
  shows "unat (vpage a i) = unat a + 4096 * i"
proof -
  have "4096 * i \<le> 4096 * n" using assms(2) by simp
  then have "unat a + 4096 * i < 0x10000000000000000" "i < 0x10000000000000000"
    using assms(1) by linarith+
  then show ?thesis by (simp add: unat_word_ariths unat_of_nat_u64)
qed

lemma pgaligned_vpage: "pgaligned a \<Longrightarrow> pgaligned (vpage a i)"
proof (induction i)
  case (Suc i)
  have "vpage a (Suc i) = vpage a i + PGSIZE" by (simp add: algebra_simps)
  moreover have "pgaligned PGSIZE" by (simp add: pgaligned_def)
  ultimately show ?case using Suc by (metis pgaligned_add_iff)
qed simp

lemma unmap_page:
  assumes tab: "table pt s xs" and a: "pgaligned a" "a < MAXVA" "a < a_end"
    and e: "leaf_ok (leaf_pte (pmem s) pt a)"
    and ret: "do_free \<Longrightarrow> returnable s pt xs [PTE2PA (leaf_pte (pmem s) pt a)]"
  obtains t where "uvmunmap_loop pt a a_end do_free s = uvmunmap_loop pt (a + PGSIZE) a_end do_free t"
    "mem_only s t" "table pt t (if do_free then PTE2PA (leaf_pte (pmem s) pt a) # xs else xs)"
    "table_pages t pt = table_pages s pt"
    "\<And>va. va < SV39 \<Longrightarrow> leaf_pte (pmem t) pt va = (if PGROUNDDOWN va = a then 0 else leaf_pte (pmem s) pt va)"
    "\<And>x. PGROUNDDOWN x \<notin> set (table_pages s pt) \<Longrightarrow> (do_free \<Longrightarrow> PGROUNDDOWN x \<noteq> PTE2PA (leaf_pte (pmem s) pt a))
       \<Longrightarrow> pmem t x = pmem s x"
proof -
  let ?e = "leaf_pte (pmem s) pt a"
  have "?e \<noteq> 0" using e by (auto simp: leaf_ok_def)
  then obtain pte where pte: "leaf_slot (pmem s) 2 pt a = Some pte" "?e = load64 (pmem s) pte"
    by (auto simp: leaf_pte_at_def split: option.splits)
  obtain p where p: "p \<in> set (table_pages s pt)" "pte = slot p (unat (PX 0 a))"
    using leaf_slot_in_tree [OF pte(1)] by blast
  have wf: "pgaligned pt" "0 \<notin> set (table_pages s pt)" "free_pages s xs" "set (table_pages s pt) \<inter> set xs = {}"
    using tab by (auto simp: pt_wf_def)
  have "p \<noteq> 0" using p(1) wf(2) by auto
  then have "pte \<noteq> 0" using slot_nonzero [OF pages_aligned [OF wf(1) p(1)] PX_lt] p(2) by simp
  have w: "walk pt a False s = Ok (pte, s)" using a(2) by (simp add: walk_def walk_level_lookup pte(1) not_le)
  let ?ys = "if do_free then PTE2PA ?e # xs else xs"
  obtain t1 where t1: "(if do_free then kfree (PTE2PA ?e) s else Ok s) = Ok t1" "mem_only s t1"
      "free_pages t1 ?ys" "\<And>x. (do_free \<Longrightarrow> PGROUNDDOWN x \<noteq> PTE2PA ?e) \<Longrightarrow> pmem t1 x = pmem s x"
  proof (cases do_free)
    case True
    from ret [OF True] have "managed s (PTE2PA ?e)" "PTE2PA ?e \<noteq> 0" "PTE2PA ?e \<notin> set xs"
      by (auto simp: returnable_def)
    from kfree_ok [OF wf(3) this] obtain t1 where t1: "kfree (PTE2PA ?e) s = Ok t1"
        "free_pages t1 (PTE2PA ?e # xs)" "\<And>x. PGROUNDDOWN x \<noteq> PTE2PA ?e \<Longrightarrow> pmem t1 x = pmem s x"
      by blast
    show thesis
      by (rule that [of t1]) (use True t1 kfree_state [OF t1(1)] in simp_all)
  next
    case False
    show thesis by (rule that [of s]) (use False wf(3) in simp_all)
  qed
  have disj: "do_free \<Longrightarrow> PTE2PA ?e \<notin> set (table_pages s pt)" using ret by (auto simp: returnable_def)
  have same: "pmem t1 x = pmem s x" if "PGROUNDDOWN x \<in> set (table_pages s pt)" for x
    using that disj by (intro t1(4)) auto
  have "set (table_pages s pt) \<inter> set ?ys = {}" using wf(4) disj by auto
  note fr' = table_frame [OF tab t1(3) this]
  have fr: "table pt t1 ?ys" "table_pages t1 pt = table_pages s pt"
    "\<And>va. leaf_pte (pmem t1) pt va = leaf_pte (pmem s) pt va"
    by (rule fr', erule same)+
  have "leaf_slot (pmem t1) 2 pt a = leaf_slot (pmem s) 2 pt a"
    using wf(1) same by (rule leaf_slot_frame)
  then have sl: "leaf_slot (pmem t1) 2 pt a = Some pte" using pte(1) by simp
  let ?t = "t1\<lparr>pmem := store64 (pmem t1) pte 0\<rparr>"
  note st = leaf_store_step [OF fr(1) sl MAXVA_SV39 [OF a(2)] refl [of ?t]]
  show thesis
  proof (rule that [of ?t])
    show "uvmunmap_loop pt a a_end do_free s = uvmunmap_loop pt (a + PGSIZE) a_end do_free ?t"
      using e a(3) \<open>pte \<noteq> 0\<close> t1(1) [unfolded pte(2)] by (subst uvmunmap_loop.simps) (simp add: w leaf_ok_def pte(2))
    show "table pt ?t ?ys" using st(1) by (simp add: pt_step_def)
    show "table_pages ?t pt = table_pages s pt" using st(2) fr(2) by simp
    show "leaf_pte (pmem ?t) pt va = (if PGROUNDDOWN va = a then 0 else leaf_pte (pmem s) pt va)"
      if "va < SV39" for va
      using st(3) [OF that] fr(3) a(1) by (simp add: PGROUNDDOWN_id)
    show "pmem ?t x = pmem s x" if "PGROUNDDOWN x \<notin> set (table_pages s pt)"
      "do_free \<Longrightarrow> PGROUNDDOWN x \<noteq> PTE2PA ?e" for x
      using that st(1) fr(2) t1(4) [of x] by (auto simp: pt_step_def)
  qed (use t1(2) in simp)
qed

definition unmap_post ::
  "u64 \<Rightarrow> 'a kmem_scheme \<Rightarrow> u64 list \<Rightarrow> u64 \<Rightarrow> nat \<Rightarrow> bool \<Rightarrow> 'a kmem_scheme \<Rightarrow> bool" where
  "unmap_post pt s xs a n do_free t \<longleftrightarrow>
     mem_only s t \<and> table_pages t pt = table_pages s pt
     \<and> table pt t (if do_free then rev (upages (pmem s) pt a n) @ xs else xs)
     \<and> (\<forall>va<SV39. leaf_pte (pmem t) pt va = (if unat (PGROUNDDOWN va - a) < 4096 * n then 0 else leaf_pte (pmem s) pt va))
     \<and> (\<forall>x. PGROUNDDOWN x \<notin> set (table_pages s pt) \<and> (do_free \<longrightarrow> PGROUNDDOWN x \<notin> set (upages (pmem s) pt a n))
          \<longrightarrow> pmem t x = pmem s x)"

lemma returnable_Cons:
  assumes "returnable s pt xs (p # ps)" "mem_only s t" "table_pages t pt = table_pages s pt"
  shows "returnable s pt xs [p]" "returnable t pt (p # xs) ps"
  using assms managed_cong [OF mem_only_kend [OF assms(2)]] by (auto simp: returnable_def)

lemma vpage_lt:
  assumes "unat a + 4096 * n \<le> 0x4000000000" "i < n"
  shows "vpage a i < MAXVA"
proof -
  have "4096 * i < 4096 * n" using assms(2) by simp
  then show ?thesis
    using unat_vpage [OF assms(1), of i] assms by (simp add: word_less_nat_alt)
qed

lemma vpage_inj:
  assumes "unat a + 4096 * n \<le> 0x4000000000" "i \<le> n" "j \<le> n"
  shows "vpage a i = vpage a j \<longleftrightarrow> i = j"
  using unat_vpage [OF assms(1,2)] unat_vpage [OF assms(1,3)] by (auto simp: word_unat_eq_iff)

lemma uvmunmap_loop_ok:
  assumes "table pt s xs" "pgaligned a" "unat a + 4096 * n \<le> 0x4000000000" "leaves_ok (pmem s) pt a n"
    and "do_free \<Longrightarrow> returnable s pt xs (upages (pmem s) pt a n)"
  shows "\<exists>t. uvmunmap_loop pt a (vpage a n) do_free s = Ok t \<and> unmap_post pt s xs a n do_free t"
  using assms
proof (induction n arbitrary: a s xs)
  case 0
  then show ?case by (intro exI [of _ s]) (simp add: uvmunmap_loop.simps [of pt a] unmap_post_def)
next
  case (Suc n)
  let ?p = "PTE2PA (leaf_pte (pmem s) pt a)" and ?ps = "upages (pmem s) pt (a + PGSIZE) n"
  let ?e = "vpage a (Suc n)"
  have e: "?e = vpage (a + PGSIZE) n" by (simp add: algebra_simps)
  have a: "a < MAXVA" "a < ?e"
    using vpage_lt [OF Suc.prems(3), of 0] unat_vpage [OF Suc.prems(3), of "Suc n"]
    by (simp_all add: word_less_nat_alt)
  have ok: "leaf_ok (leaf_pte (pmem s) pt a)" using Suc.prems(4) by (simp add: leaves_ok_Suc)
  have ret: "do_free \<Longrightarrow> returnable s pt xs (?p # ?ps)" using Suc.prems(5) by (simp add: upages_Suc)
  have ret1: "do_free \<Longrightarrow> returnable s pt xs [?p]" using ret by (auto simp: returnable_def)
  from unmap_page [OF Suc.prems(1,2) a ok ret1] obtain t where
    t: "uvmunmap_loop pt a ?e do_free s = uvmunmap_loop pt (a + PGSIZE) ?e do_free t"
      "mem_only s t" "table pt t (if do_free then ?p # xs else xs)" "table_pages t pt = table_pages s pt"
      "\<And>va. va < SV39 \<Longrightarrow> leaf_pte (pmem t) pt va = (if PGROUNDDOWN va = a then 0 else leaf_pte (pmem s) pt va)"
      "\<And>x. PGROUNDDOWN x \<notin> set (table_pages s pt) \<Longrightarrow> (do_free \<Longrightarrow> PGROUNDDOWN x \<noteq> ?p) \<Longrightarrow> pmem t x = pmem s x"
    by blast
  have al: "pgaligned (a + PGSIZE)"
    using Suc.prems(2) by (subst pgaligned_add_iff) (simp_all add: pgaligned_def)
  have ua: "unat (a + PGSIZE) = unat a + 4096" using unat_vpage [OF Suc.prems(3), of 1] by simp
  have leaf: "leaf_pte (pmem t) pt (vpage (a + PGSIZE) i) = leaf_pte (pmem s) pt (vpage (a + PGSIZE) i)" if "i < n" for i
  proof -
    define v where "v = vpage a (Suc i)"
    have v: "vpage (a + PGSIZE) i = v" by (simp add: v_def algebra_simps)
    have "v < SV39" unfolding v_def using that by (intro MAXVA_SV39 vpage_lt [OF Suc.prems(3)]) simp
    moreover have "v \<noteq> vpage a 0" unfolding v_def using that by (subst vpage_inj [OF Suc.prems(3)]) simp_all
    moreover have "PGROUNDDOWN v = v"
      unfolding v_def by (intro PGROUNDDOWN_id pgaligned_vpage Suc.prems(2))
    ultimately show ?thesis using t(5) [of v] unfolding v by simp
  qed
  note same = upages_cong [OF leaf]
  have "\<exists>u. uvmunmap_loop pt (a + PGSIZE) (vpage (a + PGSIZE) n) do_free t = Ok u
    \<and> unmap_post pt t (if do_free then ?p # xs else xs) (a + PGSIZE) n do_free u"
  proof (rule Suc.IH [OF t(3) al])
    show "unat (a + PGSIZE) + 4096 * n \<le> 0x4000000000" using ua Suc.prems(3) by simp
    show "leaves_ok (pmem t) pt (a + PGSIZE) n" using Suc.prems(4) same by (simp add: leaves_ok_Suc)
    show "returnable t pt (if do_free then ?p # xs else xs) (upages (pmem t) pt (a + PGSIZE) n)" if do_free
      using returnable_Cons(2) [OF ret [OF that] t(2,4)] that same by simp
  qed
  then obtain u where u: "uvmunmap_loop pt (a + PGSIZE) ?e do_free t = Ok u"
      "unmap_post pt t (if do_free then ?p # xs else xs) (a + PGSIZE) n do_free u"
    unfolding e by blast
  have upg: "upages (pmem t) pt (a + PGSIZE) n = ?ps" using same by simp
  have "leaf_pte (pmem u) pt va = (if unat (PGROUNDDOWN va - a) < 4096 * Suc n then 0 else leaf_pte (pmem s) pt va)"
    if "va < SV39" for va
  proof -
    let ?d = "PGROUNDDOWN va - a"
    have d: "pgaligned ?d" using Suc.prems(2) by (intro pgaligned_diff) simp_all
    have eq: "PGROUNDDOWN va - (a + PGSIZE) = ?d - PGSIZE" by simp
    have "unat (PGROUNDDOWN va - (a + PGSIZE)) < 4096 * n \<longleftrightarrow> ?d \<noteq> 0 \<and> unat ?d < 4096 * n + 4096"
      unfolding eq using Suc.prems(3) by (intro aligned_diff_cases [OF d]) simp
    then show ?thesis using u(2) t(5) [OF that] that by (auto simp: unmap_post_def)
  qed
  moreover have "pmem u x = pmem s x"
    if "PGROUNDDOWN x \<notin> set (table_pages s pt)" "do_free \<longrightarrow> PGROUNDDOWN x \<notin> set (?p # ?ps)" for x
  proof -
    have "pmem u x = pmem t x" using u(2) that t(4) upg by (auto simp: unmap_post_def)
    also have "\<dots> = pmem s x" using that by (intro t(6)) auto
    finally show ?thesis .
  qed
  ultimately have "unmap_post pt s xs a (Suc n) do_free u"
    using u(2) t(2,4) upg mem_only_trans unfolding unmap_post_def upages_Suc
    by (intro conjI) (auto split: if_splits)
  with t(1) u(1) show ?case by auto
qed

section \<open>A concrete table\<close>

text \<open>An empty root page and four free pages, for the witnesses.\<close>

fun link_pages :: "u64 list \<Rightarrow> memory" where
  "link_pages [] = (\<lambda>_. 0)"
| "link_pages (p # ps) = store64 (link_pages ps) p (case ps of [] \<Rightarrow> 0 | q # _ \<Rightarrow> q)"

lemma link_pages_other:
  "\<forall>p\<in>set ps. pgaligned p \<Longrightarrow> PGROUNDDOWN x \<notin> set ps \<Longrightarrow> link_pages ps x = 0"
proof (induction ps)
  case (Cons p ps)
  then show ?case using store64_slot_other_page [of p 0 x] by simp
qed simp

lemma link_pages_flist:
  "\<forall>p\<in>set ps. pgaligned p \<and> p \<noteq> 0 \<Longrightarrow> distinct ps \<Longrightarrow>
   flist (link_pages ps) (case ps of [] \<Rightarrow> 0 | q # _ \<Rightarrow> q) ps"
proof (induction ps)
  case (Cons p ps)
  have "flist (link_pages (p # ps)) (case ps of [] \<Rightarrow> 0 | q # _ \<Rightarrow> q) ps"
  proof (rule flist_frame)
    show "flist (link_pages ps) (case ps of [] \<Rightarrow> 0 | q # _ \<Rightarrow> q) ps" using Cons by simp
    show "link_pages (p # ps) x = link_pages ps x" if "a \<in> set ps" "PGROUNDDOWN x = a" for a x
      using that Cons.prems store64_slot_other_page [of p 0 x] by auto
    show "pgaligned a" if "a \<in> set ps" for a using that Cons.prems by simp
  qed
  then show ?case using Cons.prems by (simp add: load64_store64_same)
qed simp

abbreviation demo_root :: u64 where "demo_root \<equiv> 0x87FF0000"
abbreviation demo_free :: "u64 list" where "demo_free \<equiv> [0x87FF1000, 0x87FF2000, 0x87FF3000, 0x87FF4000]"

definition demo_kmem :: kmem where
  "demo_kmem = \<lparr>pmem = link_pages demo_free, freelist = 0x87FF1000, kend = 0x80027020\<rparr>"

lemma demo_free_pages: "free_pages demo_kmem demo_free"
  using link_pages_flist [of demo_free]
  by (simp add: free_pages_def demo_kmem_def managed_def pgaligned_def)

lemma demo_empty: "table_pages demo_kmem demo_root = [demo_root]" "leaf_pte (pmem demo_kmem) demo_root va = 0"
  "pt_inner (pmem demo_kmem) 2 demo_root"
proof -
  have "pmem demo_kmem x = 0" if "PGROUNDDOWN x = demo_root" for x
    using link_pages_other [of demo_free x] that by (simp add: demo_kmem_def pgaligned_def)
  moreover have "pgaligned demo_root" by (simp add: pgaligned_def)
  ultimately show "table_pages demo_kmem demo_root = [demo_root]" "leaf_pte (pmem demo_kmem) demo_root va = 0"
    "pt_inner (pmem demo_kmem) 2 demo_root"
    using empty_table by blast+
qed

lemma demo_table: "table demo_root demo_kmem demo_free"
  using demo_free_pages demo_empty by (simp add: pt_wf_def pgaligned_def)

section \<open>Properties\<close>

text \<open>
  \<open>walk\<close> with \<open>alloc\<close> on an address below \<open>MAXVA\<close> always returns; every translation of the table
  is the same before and after, whatever page-table pages it had to allocate; it returns null only
  when no page is left; otherwise it returns the address of the entry, and memory outside the table
  and the pages taken from the free list is untouched.
\<close>

lemma walk_keeps_translations:
  assumes "table pt s xs" "va < MAXVA"
  shows "\<exists>pte t new ys. walk pt va True s = Ok (pte, t) \<and> xs = new @ ys \<and> table pt t ys
    \<and> (\<forall>va'. leaf_pte (pmem t) pt va' = leaf_pte (pmem s) pt va')
    \<and> (if pte = 0 then ys = [] else leaf_pte (pmem t) pt va = load64 (pmem t) pte)
    \<and> (\<forall>x. PGROUNDDOWN x \<notin> set (table_pages s pt) \<union> set new \<longrightarrow> pmem t x = pmem s x)"
proof -
  obtain pte t where w: "walk pt va True s = Ok (pte, t)"
    using assms(2) by (cases "walk_level 2 pt va True s") (simp add: walk_def not_le)
  obtain ys where ys: "pt_step pt s xs t ys" "\<forall>va'. leaf_pte (pmem t) pt va' = leaf_pte (pmem s) pt va'"
      "if pte = 0 then ys = [] else leaf_slot (pmem t) 2 pt va = Some pte"
    using walk_step [OF assms(1) w] by auto
  obtain new where new: "xs = new @ ys"
      "\<forall>x. PGROUNDDOWN x \<notin> set (table_pages s pt) \<union> set new \<longrightarrow> pmem t x = pmem s x"
    using ys(1) unfolding pt_step_def by blast
  have "table pt t ys" using ys(1) by (simp add: pt_step_def)
  moreover have "if pte = 0 then ys = [] else leaf_pte (pmem t) pt va = load64 (pmem t) pte"
    using ys(3) by (simp add: leaf_pte_at_def)
  ultimately show ?thesis using w new ys(2) by blast
qed

theorem walk_keeps_translations_witness:
  "\<exists>pte t new ys. walk demo_root 0x1000 True demo_kmem = Ok (pte, t) \<and> demo_free = new @ ys \<and> table demo_root t ys
    \<and> (\<forall>va'. leaf_pte (pmem t) demo_root va' = leaf_pte (pmem demo_kmem) demo_root va')"
  using walk_keeps_translations [OF demo_table, of "0x1000"] by auto

text \<open>
  C7. \<open>mappages\<close> on a range of unmapped pages below \<open>MAXVA\<close> never panics. On success each page of the
  range is mapped to the next physical page with the given permissions and every other translation
  is unchanged; on failure no page is left and the pages mapped so far form a prefix of the range.
\<close>

theorem mappages_maps_range:
  assumes "table pt s xs" "0 < sz" "unat va + unat sz \<le> unat MAXVA"
    and "\<forall>a<MAXVA. PGROUNDDOWN va \<le> PGROUNDDOWN a \<and> PGROUNDDOWN a \<le> PGROUNDDOWN (va + sz - 1) \<longrightarrow>
      leaf_pte (pmem s) pt a AND PTE_V = 0"
  shows "\<exists>r t ys k. mappages pt va sz pa perm s = Ok (r, t) \<and> table pt t ys
    \<and> (\<forall>a<MAXVA. leaf_pte (pmem t) pt a =
        (let d = PGROUNDDOWN a - PGROUNDDOWN va
         in if unat d < k then PA2PTE (pa + d) OR perm OR PTE_V else leaf_pte (pmem s) pt a))
    \<and> (if r = 0 then k = unat (PGROUNDDOWN (va + sz - 1) - PGROUNDDOWN va) + 4096
       else r = -1 \<and> ys = [] \<and> k \<le> unat (PGROUNDDOWN (va + sz - 1) - PGROUNDDOWN va))"
proof -
  let ?a = "PGROUNDDOWN va" and ?l = "PGROUNDDOWN (va + sz - 1)"
  have "0 < unat sz" using assms(2) by (simp add: unat_gt_0 word_neq_0_conv)
  then have u: "unat (va + sz - 1) = unat va + unat sz - 1"
    using assms(3) by (simp add: unat_word_ariths unat_sub_if' add_diff_assoc)
  have lt: "?l < MAXVA"
    using u assms(3) \<open>0 < unat sz\<close> by (simp add: word_less_nat_alt unat_PGROUNDDOWN)
  have le: "?a \<le> ?l"
    using u \<open>0 < unat sz\<close> div_le_mono [of "unat va" "unat va + unat sz - 1" 4096]
    by (simp add: word_le_nat_alt unat_PGROUNDDOWN minus_mod_eq_div_mult)
  have unm: "leaf_pte (pmem s) pt a AND PTE_V = 0" if "?a \<le> PGROUNDDOWN a" "PGROUNDDOWN a \<le> ?l" for a
  proof -
    have "PGROUNDDOWN a < MAXVA" using that(2) lt by (rule order.strict_trans1)
    then have "a < MAXVA" by (rule PGROUNDDOWN_MAXVA)
    with assms(4) that show ?thesis by blast
  qed
  have "mappages_post pt s xs ?a ?l pa perm (mappages_loop pt ?a ?l pa perm s)"
    using assms(1) le lt unm by (intro mappages_loop_ok) simp_all
  then obtain r t ys k where p: "mappages_loop pt ?a ?l pa perm s = Ok (r, t) \<and> pt_step pt s xs t ys
     \<and> (\<forall>va<SV39. leaf_pte (pmem t) pt va = mapped (pmem s) pt ?a pa perm k va)
     \<and> (if r = 0 then k = unat (?l - ?a) + 4096 else r = -1 \<and> ys = [] \<and> k \<le> unat (?l - ?a))"
    unfolding mappages_post_def by (elim exE)
  then have "\<forall>a<MAXVA. leaf_pte (pmem t) pt a = mapped (pmem s) pt ?a pa perm k a" "table pt t ys"
    using MAXVA_SV39 by (blast, simp add: pt_step_def)
  with p show ?thesis unfolding mappages_def mapped_def by blast
qed

theorem mappages_maps_range_witness:
  "\<exists>r t ys k. mappages demo_root 0x1800 0x2000 0x80100000 PTE_R demo_kmem = Ok (r, t) \<and> table demo_root t ys
    \<and> (\<forall>a<MAXVA. leaf_pte (pmem t) demo_root a =
        (let d = PGROUNDDOWN a - PGROUNDDOWN 0x1800
         in if unat d < k then PA2PTE (0x80100000 + d) OR PTE_R OR PTE_V else leaf_pte (pmem demo_kmem) demo_root a))"
proof -
  have "\<forall>a<MAXVA. PGROUNDDOWN 0x1800 \<le> PGROUNDDOWN a \<and> PGROUNDDOWN a \<le> PGROUNDDOWN (0x1800 + 0x2000 - 1) \<longrightarrow>
      leaf_pte (pmem demo_kmem) demo_root a AND PTE_V = 0"
    by (simp add: demo_empty)
  from mappages_maps_range [OF demo_table _ _ this, of "0x80100000" PTE_R] show ?thesis by auto
qed

text \<open>
  C9. \<open>uvmunmap\<close> with \<open>do_free\<close> on \<open>n\<close> mapped pages whose physical pages it owns never panics: it
  clears exactly those entries, puts exactly their physical pages on the free list, keeps the
  table's own pages, and changes no other byte of memory.
\<close>

theorem uvmunmap_frees_range:
  assumes "table pt s xs" "pgaligned va" "unat va + 4096 * n \<le> unat MAXVA" "leaves_ok (pmem s) pt va n"
    and "returnable s pt xs (upages (pmem s) pt va n)"
  shows "\<exists>t. uvmunmap pt va (of_nat n) True s = Ok t \<and> table_pages t pt = table_pages s pt
    \<and> free_pages t (rev (upages (pmem s) pt va n) @ xs)
    \<and> (\<forall>a<MAXVA. leaf_pte (pmem t) pt a =
        (if unat (PGROUNDDOWN a - va) < 4096 * n then 0 else leaf_pte (pmem s) pt a))
    \<and> (\<forall>x. PGROUNDDOWN x \<notin> set (table_pages s pt) \<union> set (upages (pmem s) pt va n) \<longrightarrow> pmem t x = pmem s x)"
proof -
  have b: "unat va + 4096 * n \<le> 0x4000000000" using assms(3) by simp
  obtain t where t: "uvmunmap_loop pt va (vpage va n) True s = Ok t" "unmap_post pt s xs va n True t"
    using uvmunmap_loop_ok [OF assms(1,2) b assms(4), of True] assms(5) by blast
  have "uvmunmap pt va (of_nat n) True s = Ok t"
    using assms(2) t(1) by (simp add: uvmunmap_def pgaligned_def mult.commute)
  moreover have "\<forall>a<MAXVA. leaf_pte (pmem t) pt a =
      (if unat (PGROUNDDOWN a - va) < 4096 * n then 0 else leaf_pte (pmem s) pt a)"
    using t(2) MAXVA_SV39 unfolding unmap_post_def by blast
  ultimately show ?thesis using t(2) by (auto simp: unmap_post_def pt_wf_def)
qed

lemma demo_mapped:
  "\<exists>(s :: kmem) xs. table demo_root s xs \<and> kend s = 0x80027020
    \<and> set (table_pages s demo_root) \<union> set xs = insert demo_root (set demo_free)
    \<and> (\<forall>va<SV39. leaf_pte (pmem s) demo_root va =
      (if PGROUNDDOWN va = 0x1000 then PA2PTE 0x87FF7000 OR perm OR PTE_V else 0))"
proof (rule mappages_page [OF demo_table, of "0x1000" "0x1000" "0x87FF7000" perm])
  show "pgaligned 0x1000" by (simp add: pgaligned_def)
  show "leaf_pte (pmem demo_kmem) demo_root 0x1000 AND PTE_V = 0" by (simp add: demo_empty)
next
  fix t ys
  assume st: "pt_step demo_root demo_kmem demo_free t ys"
    and leaf: "\<And>va. va < SV39 \<Longrightarrow> leaf_pte (pmem t) demo_root va =
      (if PGROUNDDOWN va = 0x1000 then PA2PTE 0x87FF7000 OR perm OR PTE_V else leaf_pte (pmem demo_kmem) demo_root va)"
  have "\<forall>va<SV39. leaf_pte (pmem t) demo_root va =
      (if PGROUNDDOWN va = 0x1000 then PA2PTE 0x87FF7000 OR perm OR PTE_V else 0)"
    using leaf by (simp add: demo_empty)
  moreover have "set (table_pages t demo_root) \<union> set ys = insert demo_root (set demo_free)"
  proof -
    obtain new where "demo_free = new @ ys" "set (table_pages t demo_root) = {demo_root} \<union> set new"
      using st by (auto simp: pt_step_def demo_empty)
    moreover from this(1) have "set new \<union> set ys = set demo_free" by (metis set_append)
    ultimately show ?thesis by auto
  qed
  moreover have "kend t = 0x80027020"
    using mem_only_kend [of demo_kmem t] st by (simp add: pt_step_def demo_kmem_def)
  moreover have "table demo_root t ys" using st by (simp add: pt_step_def)
  ultimately show ?thesis by blast
qed simp_all

theorem uvmunmap_frees_range_witness:
  "\<exists>(s :: kmem) xs t. leaf_pte (pmem s) demo_root 0x1000 = PA2PTE 0x87FF7000 OR PTE_R OR PTE_V
    \<and> uvmunmap demo_root 0x1000 (of_nat 1) True s = Ok t \<and> free_pages t (0x87FF7000 # xs)"
proof -
  obtain s :: kmem and xs where s: "table demo_root s xs" "kend s = 0x80027020"
      "set (table_pages s demo_root) \<union> set xs = insert demo_root (set demo_free)"
      and leaf: "\<forall>va<SV39. leaf_pte (pmem s) demo_root va =
        (if PGROUNDDOWN va = 0x1000 then PA2PTE 0x87FF7000 OR PTE_R OR PTE_V else 0)"
    using demo_mapped [of PTE_R] by blast
  have s3: "0x87FF7000 \<notin> set (table_pages s demo_root) \<union> set xs" unfolding s(3) by simp
  have s4: "leaf_pte (pmem s) demo_root 0x1000 = PA2PTE 0x87FF7000 OR PTE_R OR PTE_V"
    using leaf by (simp add: PGROUNDDOWN_id pgaligned_def)
  have pa: "PTE2PA (PA2PTE 0x87FF7000 OR PTE_R OR PTE_V) = 0x87FF7000"
    by (simp add: PTE2PA_def PA2PTE_def)
  have up: "upages (pmem s) demo_root 0x1000 1 = [0x87FF7000]" using s4 pa by (simp add: upages_def)
  have "leaves_ok (pmem s) demo_root 0x1000 1"
    using s4 by (simp add: leaves_ok_def leaf_ok_def PTE_FLAGS_def PA2PTE_def)
  moreover have "returnable s demo_root xs (upages (pmem s) demo_root 0x1000 1)"
    unfolding up using s(2) s3 by (simp add: returnable_def managed_def pgaligned_def)
  moreover have "pgaligned 0x1000" "unat (0x1000 :: u64) + 4096 * 1 \<le> unat MAXVA" by (simp_all add: pgaligned_def)
  ultimately obtain t where "uvmunmap demo_root 0x1000 (of_nat 1) True s = Ok t" "free_pages t (rev [0x87FF7000] @ xs)"
    using uvmunmap_frees_range [OF s(1), of "0x1000" 1] unfolding up by blast
  then show ?thesis using s4 by auto
qed

end
