(* ===== verification/UserMem.thy ===== *)
theory UserMem
  imports PageTable
begin

text \<open>
  User memory as the kernel sees it: the byte at a virtual address of a page table (\<open>vbyte\<close>), the
  copy routines against it, and the operations that grow, shrink, duplicate and free an address
  space (kernel/vm.c). Kernel objects that the other theories keep in records rather than in the
  byte memory (buffers, pipes, the console) are copied by value with \<open>copyin_buf\<close> and
  \<open>copyout_buf\<close>; they are shown equal to the pointer versions.
\<close>

section \<open>Virtual bytes\<close>

definition user_leaf :: "u64 \<Rightarrow> bool" where
  "user_leaf e \<longleftrightarrow> e AND PTE_V \<noteq> 0 \<and> e AND PTE_U \<noteq> 0 \<and> PTE2PA e \<noteq> 0"

definition vaddr :: "memory \<Rightarrow> u64 \<Rightarrow> u64 \<Rightarrow> u64 option" where
  "vaddr m pt va =
     (let e = leaf_pte m pt va
      in if va < MAXVA \<and> user_leaf e then Some (PTE2PA e + (va - PGROUNDDOWN va)) else None)"

definition vbyte :: "memory \<Rightarrow> u64 \<Rightarrow> u64 \<Rightarrow> u8 option" where
  "vbyte m pt va = map_option m (vaddr m pt va)"

definition vrange :: "memory \<Rightarrow> u64 \<Rightarrow> u64 \<Rightarrow> nat \<Rightarrow> u8 option list" where
  "vrange m pt va n = map (\<lambda>i. vbyte m pt (va + of_nat i)) [0..<n]"

lemma length_vrange [simp]: "length (vrange m pt va n) = n"
  by (simp add: vrange_def)

lemma nth_vrange: "i < n \<Longrightarrow> vrange m pt va n ! i = vbyte m pt (va + of_nat i)"
  by (simp add: vrange_def)

lemma vrange_append: "vrange m pt va (n + k) = vrange m pt va n @ vrange m pt (va + of_nat n) k"
  by (rule nth_equalityI) (auto simp: nth_vrange nth_append of_nat_diff algebra_simps)

subsection \<open>Offsets within a page\<close>

definition pgoff :: "u64 \<Rightarrow> u64" where
  "pgoff va = va - PGROUNDDOWN va"

lemma unat_pgoff: "unat (pgoff va) = unat va mod 4096"
  by (simp add: pgoff_def PGROUNDDOWN_alt unat_mod)

lemma pgoff_split: "va = PGROUNDDOWN va + pgoff va"
  by (simp add: pgoff_def)

lemma page_add: "pgaligned pg \<Longrightarrow> unat d < 4096 \<Longrightarrow> PGROUNDDOWN (pg + d) = pg"
  using in_page [of pg "pg + d"] by simp

lemma same_page:
  assumes "unat va mod 4096 + i < 4096"
  shows "PGROUNDDOWN (va + of_nat i) = PGROUNDDOWN va" "pgoff (va + of_nat i) = pgoff va + of_nat i"
proof -
  have "unat (of_nat i :: u64) = i" using assms by (intro unat_of_nat_u64) simp
  then have "unat (pgoff va + of_nat i) < 4096"
    using assms by (simp add: unat_word_ariths unat_pgoff)
  then have "PGROUNDDOWN (PGROUNDDOWN va + (pgoff va + of_nat i)) = PGROUNDDOWN va"
    by (intro page_add) simp_all
  moreover have "va + of_nat i = PGROUNDDOWN va + (pgoff va + of_nat i)"
    by (simp add: pgoff_def)
  ultimately show "PGROUNDDOWN (va + of_nat i) = PGROUNDDOWN va" by metis
  then show "pgoff (va + of_nat i) = pgoff va + of_nat i" by (simp add: pgoff_def)
qed

lemma leaf_pte_page:
  assumes "PGROUNDDOWN va' = PGROUNDDOWN va"
  shows "leaf_pte m pt va' = leaf_pte m pt va"
proof -
  have "bit va' k = bit va k" if "12 \<le> k" for k
    using that assms bit_PGROUNDDOWN by metis
  then have px: "PX l va' = PX l va" for l
    by (intro bit_word_eqI) (auto simp: bit_PX PXSHIFT_def)
  have "leaf_slot m l pt va' = leaf_slot m l pt va" for l
    by (induction l arbitrary: pt) (simp_all add: px Let_def)
  then show ?thesis by (simp add: leaf_pte_at_def)
qed

lemma MAXVA_page: "PGROUNDDOWN va < MAXVA \<longleftrightarrow> va < MAXVA"
proof -
  have "unat va - unat va mod 4096 < 0x4000000000 \<longleftrightarrow> unat va < 0x4000000000"
    unfolding minus_mod_eq_div_mult by (auto simp: less_eq_div_iff_mult_less_eq)
  then show ?thesis by (simp add: word_less_nat_alt unat_PGROUNDDOWN)
qed

lemma walkaddr_leaf:
  assumes "table pt s xs"
  shows "walkaddr pt va s =
    (let e = leaf_pte (pmem s) pt va in if va < MAXVA \<and> user_leaf e then PTE2PA e else 0)"
proof (cases "leaf_slot (pmem s) 2 pt va")
  case None
  then show ?thesis by (simp add: walkaddr_def walk_level_lookup leaf_pte_at_def user_leaf_def)
next
  case (Some a)
  obtain p where p: "p \<in> set (table_pages s pt)" "a = slot p (unat (PX 0 va))"
    using leaf_slot_in_tree [OF Some] by blast
  have wf: "pgaligned pt" "0 \<notin> set (table_pages s pt)" using assms by (auto simp: pt_wf_def)
  have "p \<noteq> 0" using p(1) wf(2) by auto
  then have "a \<noteq> 0" using slot_nonzero [OF pages_aligned [OF wf(1) p(1)] PX_lt] p(2) by simp
  with Some show ?thesis
    by (auto simp: walkaddr_def walk_level_lookup leaf_pte_at_def user_leaf_def Let_def not_le)
qed

lemma walkaddr_page:
  assumes "table pt s xs"
  shows "walkaddr pt (PGROUNDDOWN va) s = (case vaddr (pmem s) pt va of None \<Rightarrow> 0 | Some a \<Rightarrow> a - pgoff va)"
    "walkaddr pt (PGROUNDDOWN va) s \<noteq> 0 \<longleftrightarrow> vaddr (pmem s) pt va \<noteq> None"
proof -
  have "leaf_pte (pmem s) pt (PGROUNDDOWN va) = leaf_pte (pmem s) pt va"
    by (rule leaf_pte_page) (simp add: PGROUNDDOWN_id)
  then show "walkaddr pt (PGROUNDDOWN va) s = (case vaddr (pmem s) pt va of None \<Rightarrow> 0 | Some a \<Rightarrow> a - pgoff va)"
    "walkaddr pt (PGROUNDDOWN va) s \<noteq> 0 \<longleftrightarrow> vaddr (pmem s) pt va \<noteq> None"
    using walkaddr_leaf [OF assms, of "PGROUNDDOWN va"]
    by (auto simp: vaddr_def Let_def MAXVA_page pgoff_def user_leaf_def)
qed

lemma vaddr_chunk:
  assumes "vaddr m pt va = Some a" "unat va mod 4096 + i < 4096"
  shows "vaddr m pt (va + of_nat i) = Some (a + of_nat i)" "PGROUNDDOWN (a + of_nat i) = PTE2PA (leaf_pte m pt va)"
proof -
  note same = same_page [OF assms(2)]
  have leaf: "leaf_pte m pt (va + of_nat i) = leaf_pte m pt va" by (rule leaf_pte_page [OF same(1)])
  have a: "va < MAXVA" "user_leaf (leaf_pte m pt va)" "a = PTE2PA (leaf_pte m pt va) + pgoff va"
    using assms(1) by (auto simp: vaddr_def Let_def pgoff_def split: if_splits)
  have "va + of_nat i < MAXVA" using a(1) MAXVA_page [of va] MAXVA_page [of "va + of_nat i"] same(1) by simp
  then show "vaddr m pt (va + of_nat i) = Some (a + of_nat i)"
    using a(2,3) leaf same by (simp add: vaddr_def Let_def pgoff_def algebra_simps)
  have "unat (of_nat i :: u64) = i" using assms(2) by (intro unat_of_nat_u64) simp
  then have "unat (pgoff va + of_nat i) < 4096"
    using assms(2) by (simp add: unat_word_ariths unat_pgoff)
  then show "PGROUNDDOWN (a + of_nat i) = PTE2PA (leaf_pte m pt va)"
    using page_add [of "PTE2PA (leaf_pte m pt va)" "pgoff va + of_nat i"] a(3) by (simp add: add.assoc)
qed

section \<open>Copies by value\<close>

function copyin_buf :: "u64 \<Rightarrow> u64 \<Rightarrow> u64 \<Rightarrow> 'a kmem_scheme \<Rightarrow> int \<times> u8 list" where
  "copyin_buf pagetable srcva len s =
     (if len > 0 then
        let va0 = PGROUNDDOWN srcva;
            pa0 = walkaddr pagetable va0 s
        in if pa0 = 0 then (-1, [])
           else
             let n = chunk srcva len
             in case copyin_buf pagetable (va0 + PGSIZE) (len - n) s of (r, bs) \<Rightarrow>
                  (r, read_bytes (pmem s) (pa0 + (srcva - va0)) (unat n) @ bs)
      else (0, []))"
  by pat_completeness auto
termination
  by (relation "measure (\<lambda>(pt, src, len, s). unat len)") (simp_all add: chunk_less)

function copyout_buf :: "u64 \<Rightarrow> u64 \<Rightarrow> u8 list \<Rightarrow> 'a kmem_scheme \<Rightarrow> int \<times> 'a kmem_scheme" where
  "copyout_buf pagetable dstva src s =
     (if src \<noteq> [] then
        let va0 = PGROUNDDOWN dstva;
            pa0 = walkaddr pagetable va0 s
        in if pa0 = 0 then (-1, s)
           else
             let n = 4096 - unat (dstva - va0);
                 s = s\<lparr>pmem := write_bytes (pmem s) (pa0 + (dstva - va0)) (take n src)\<rparr>
             in copyout_buf pagetable (va0 + PGSIZE) (drop n src) s
      else (0, s))"
  by pat_completeness auto
termination
proof (relation "measure (\<lambda>(pt, d, src, s). length src)", goal_cases)
  case (2 pagetable dstva src s va0 pa0 n s')
  have "unat (dstva - va0) < 4096" using 2 unat_pgoff [of dstva] by (simp add: pgoff_def)
  with 2 show ?case by (simp add: length_greater_0_conv [symmetric] del: length_greater_0_conv)
qed simp

declare copyin_buf.simps [simp del] copyout_buf.simps [simp del]

text \<open>The arithmetic of one round of the copy loops.\<close>

lemma chunk_cases:
  assumes "0 < len"
  obtains (last) "chunk va len = len" "unat va mod 4096 + unat len \<le> 4096"
  | (more) "unat (chunk va len) = 4096 - unat va mod 4096" "PGROUNDDOWN va + PGSIZE = va + chunk va len"
      "unat (len - chunk va len) = unat len - unat (chunk va len)" "unat (chunk va len) < unat len"
proof (cases "unat va mod 4096 + unat len \<le> 4096")
  case True
  then have "unat (chunk va len) = unat len" by (simp add: unat_chunk)
  then show thesis using True by (intro last) (simp_all add: word_unat_eq_iff)
next
  case False
  then have c: "unat (chunk va len) = 4096 - unat va mod 4096" "unat (chunk va len) < unat len"
    by (simp_all add: unat_chunk)
  have "unat va mod 4096 < 4096" by simp
  then have "unat (chunk va len) = unat (PGSIZE - pgoff va)"
    using c(1) unat_pgoff [of va] by (subst unat_sub) (simp_all add: word_le_nat_alt)
  then have "chunk va len = PGSIZE - pgoff va" by (simp add: word_unat_eq_iff)
  then have "PGROUNDDOWN va + PGSIZE = va + chunk va len" by (simp add: pgoff_def)
  moreover have "unat (len - chunk va len) = unat len - unat (chunk va len)"
    using c(2) by (subst unat_sub) (simp_all add: word_le_nat_alt)
  ultimately show thesis using c by (intro more)
qed

lemma vrange_chunk:
  assumes "vaddr m pt va = Some a" "unat va mod 4096 + n \<le> 4096"
  shows "vrange m pt va n = map Some (read_bytes m a n)"
proof (rule nth_equalityI)
  fix i assume "i < length (vrange m pt va n)"
  then have "i < n" "unat va mod 4096 + i < 4096" using assms(2) by auto
  then show "vrange m pt va n ! i = map Some (read_bytes m a n) ! i"
    using vaddr_chunk(1) [OF assms(1)] by (simp add: nth_vrange nth_read_bytes vbyte_def)
qed simp

text \<open>
  \<open>copyin_buf\<close> returns 0 with all bytes exactly when every byte of the range is readable; otherwise
  it returns \<open>-1\<close> with the bytes in front of the first page that is not.
\<close>

definition copied :: "u8 option list \<Rightarrow> int \<Rightarrow> u8 list \<Rightarrow> bool" where
  "copied vs r bs \<longleftrightarrow>
     (if r = 0 then vs = map Some bs
      else r = -1 \<and> length bs < length vs \<and> take (length bs) vs = map Some bs \<and> vs ! length bs = None)"

lemma copied_append:
  assumes "copied vs r bs"
  shows "copied (map Some us @ vs) r (us @ bs)"
  using assms by (auto simp: copied_def nth_append split: if_splits)

lemma copyin_buf_copied:
  assumes "table pt s xs"
  shows "copied (vrange (pmem s) pt srcva (unat len)) (fst (copyin_buf pt srcva len s)) (snd (copyin_buf pt srcva len s))"
proof (induction "unat len" arbitrary: srcva len rule: less_induct)
  case less
  let ?m = "pmem s"
  show ?case
  proof (cases "len > 0")
    case False
    then have "len = 0" by (metis word_neq_0_conv)
    then show ?thesis by (simp add: copyin_buf.simps [of pt srcva] copied_def vrange_def)
  next
    case True
    note wa = walkaddr_page [OF assms, of srcva]
    show ?thesis
    proof (cases "vaddr ?m pt srcva")
      case None
      then have "walkaddr pt (PGROUNDDOWN srcva) s = 0" using wa by simp
      moreover have "vrange ?m pt srcva (unat len) ! 0 = None" "0 < unat len"
        using None True by (simp_all add: nth_vrange unat_gt_0 vbyte_def word_neq_0_conv)
      ultimately show ?thesis using True
        by (simp add: copyin_buf.simps [of pt srcva] copied_def)
    next
      case (Some a)
      let ?n = "chunk srcva len"
      have pa: "walkaddr pt (PGROUNDDOWN srcva) s \<noteq> 0" "walkaddr pt (PGROUNDDOWN srcva) s + (srcva - PGROUNDDOWN srcva) = a"
        using wa Some by (simp_all add: pgoff_def)
      define rest where "rest = copyin_buf pt (PGROUNDDOWN srcva + PGSIZE) (len - ?n) s"
      have eq: "copyin_buf pt srcva len s = (fst rest, read_bytes ?m a (unat ?n) @ snd rest)"
        using True pa by (subst copyin_buf.simps) (simp add: rest_def Let_def split_beta)
      from True show ?thesis
      proof (cases rule: chunk_cases [where va = srcva])
        case last
        have "rest = (0, [])" unfolding rest_def last(1) by (simp add: copyin_buf.simps)
        then show ?thesis using vrange_chunk [OF Some last(2)] last(1)
          unfolding eq by (simp add: copied_def)
      next
        case more
        have "copied (vrange ?m pt (PGROUNDDOWN srcva + PGSIZE) (unat (len - ?n))) (fst rest) (snd rest)"
          unfolding rest_def by (rule less) (rule chunk_less [OF True])
        moreover have "vrange ?m pt srcva (unat len) = map Some (read_bytes ?m a (unat ?n)) @
            vrange ?m pt (PGROUNDDOWN srcva + PGSIZE) (unat (len - ?n))"
        proof -
          have "unat len = unat ?n + unat (len - ?n)" using more(3,4) by simp
          then have "vrange ?m pt srcva (unat len) = vrange ?m pt srcva (unat ?n) @ vrange ?m pt (srcva + ?n) (unat (len - ?n))"
            using vrange_append [of ?m pt srcva "unat ?n" "unat (len - ?n)"] by (simp only: of_nat_unat ucast_id)
          moreover have "vrange ?m pt srcva (unat ?n) = map Some (read_bytes ?m a (unat ?n))"
            using more(1) by (intro vrange_chunk [OF Some]) simp
          ultimately show ?thesis by (simp only: more(2))
        qed
        ultimately show ?thesis unfolding eq by (simp add: copied_append)
      qed
    qed
  qed
qed

section \<open>Writing user memory\<close>

text \<open>
  What makes user pages safe to write: they are neither free nor part of the table, and no two
  virtual pages share one.
\<close>

definition user_inj :: "memory \<Rightarrow> u64 \<Rightarrow> bool" where
  "user_inj m pt \<longleftrightarrow> (\<forall>va va'. va < MAXVA \<longrightarrow> va' < MAXVA \<longrightarrow> user_leaf (leaf_pte m pt va) \<longrightarrow>
     user_leaf (leaf_pte m pt va') \<longrightarrow> PTE2PA (leaf_pte m pt va) = PTE2PA (leaf_pte m pt va') \<longrightarrow>
     PGROUNDDOWN va = PGROUNDDOWN va')"

definition usep :: "u64 \<Rightarrow> 'a kmem_scheme \<Rightarrow> u64 list \<Rightarrow> bool" where
  "usep pt s xs \<longleftrightarrow> table pt s xs \<and> user_inj (pmem s) pt
     \<and> (\<forall>va<MAXVA. user_leaf (leaf_pte (pmem s) pt va) \<longrightarrow>
          PTE2PA (leaf_pte (pmem s) pt va) \<notin> set (table_pages s pt) \<union> set xs)"

lemma user_inj_cong: "(\<And>va. leaf_pte m' pt va = leaf_pte m pt va) \<Longrightarrow> user_inj m' pt = user_inj m pt"
  by (simp only: user_inj_def)

lemma vaddr_SomeD:
  assumes "vaddr m pt va = Some a"
  shows "va < MAXVA" "user_leaf (leaf_pte m pt va)" "PGROUNDDOWN a = PTE2PA (leaf_pte m pt va)"
    "a = PTE2PA (leaf_pte m pt va) + pgoff va"
proof -
  show "va < MAXVA" "user_leaf (leaf_pte m pt va)" and a: "a = PTE2PA (leaf_pte m pt va) + pgoff va"
    using assms by (auto simp: vaddr_def Let_def pgoff_def split: if_splits)
  show "PGROUNDDOWN a = PTE2PA (leaf_pte m pt va)"
    unfolding a by (intro page_add) (simp_all add: unat_pgoff)
qed

lemma usep_inj:
  assumes "usep pt s xs" "va < MAXVA" "va' < MAXVA" "user_leaf (leaf_pte (pmem s) pt va)"
    "user_leaf (leaf_pte (pmem s) pt va')" "PTE2PA (leaf_pte (pmem s) pt va) = PTE2PA (leaf_pte (pmem s) pt va')"
  shows "PGROUNDDOWN va = PGROUNDDOWN va'"
proof -
  have "user_inj (pmem s) pt" using assms(1) by (simp add: usep_def)
  from this [unfolded user_inj_def, rule_format, OF assms(2-6)] show ?thesis .
qed

lemma vaddr_inj:
  assumes "usep pt s xs" "vaddr (pmem s) pt va = Some a" "vaddr (pmem s) pt va' = Some a"
  shows "va = va'"
proof -
  note d = vaddr_SomeD [OF assms(2)] and d' = vaddr_SomeD [OF assms(3)]
  have eq: "PTE2PA (leaf_pte (pmem s) pt va) = PTE2PA (leaf_pte (pmem s) pt va')" using d(3) d'(3) by simp
  have off: "pgoff va = pgoff va'" using d(4) d'(4) eq by simp
  have pg: "PGROUNDDOWN va = PGROUNDDOWN va'"
    by (rule usep_inj [OF assms(1) d(1) d'(1) d(2) d'(2) eq])
  have "va = PGROUNDDOWN va + pgoff va" by (rule pgoff_split)
  also have "\<dots> = PGROUNDDOWN va' + pgoff va'" by (simp only: off pg)
  also have "\<dots> = va'" by (rule pgoff_split [symmetric])
  finally show ?thesis .
qed

lemma usep_write:
  assumes us: "usep pt s xs" and w: "\<And>x. m' x \<noteq> pmem s x \<Longrightarrow> \<exists>va. vaddr (pmem s) pt va = Some x"
  shows "usep pt (s\<lparr>pmem := m'\<rparr>) xs" "leaf_pte m' pt va = leaf_pte (pmem s) pt va" "vaddr m' pt va = vaddr (pmem s) pt va"
    "pt_pages m' 2 pt = table_pages s pt"
proof -
  have tab: "table pt s xs" using us by (simp add: usep_def)
  have same: "m' x = pmem s x" if "PGROUNDDOWN x \<in> set (table_pages s pt) \<union> set xs" for x
  proof (rule ccontr)
    assume "m' x \<noteq> pmem s x"
    then obtain va where "vaddr (pmem s) pt va = Some x" using w by blast
    then have "va < MAXVA" "user_leaf (leaf_pte (pmem s) pt va)" "PGROUNDDOWN x = PTE2PA (leaf_pte (pmem s) pt va)"
      by (rule vaddr_SomeD)+
    with that us show False by (simp add: usep_def)
  qed
  let ?t = "s\<lparr>pmem := m'\<rparr>"
  have free: "free_pages ?t xs"
  proof (rule free_pages_frame [of s xs])
    show "free_pages s xs" using tab by (simp add: pt_wf_def)
    show "pmem ?t x = pmem s x" if "PGROUNDDOWN x \<in> set xs" for x using that same [of x] by simp
  qed simp_all
  have disj: "set (table_pages s pt) \<inter> set xs = {}" using tab by (simp add: pt_wf_def)
  have same': "pmem ?t x = pmem s x" if "PGROUNDDOWN x \<in> set (table_pages s pt)" for x
    using that same [of x] by simp
  have fr: "table pt ?t xs" "table_pages ?t pt = table_pages s pt"
      "\<And>va. leaf_pte (pmem ?t) pt va = leaf_pte (pmem s) pt va"
    by (rule table_frame [OF tab free disj], erule same')+
  show leaf: "leaf_pte m' pt va = leaf_pte (pmem s) pt va" for va using fr(3) by simp
  show "vaddr m' pt va = vaddr (pmem s) pt va" by (simp add: vaddr_def leaf)
  show pages: "pt_pages m' 2 pt = table_pages s pt" using fr(2) by simp
  show "usep pt (s\<lparr>pmem := m'\<rparr>) xs" using us fr(1) user_inj_cong [OF leaf] by (simp add: usep_def leaf pages)
qed

text \<open>The effect of writing the first \<open>k\<close> bytes of \<open>bs\<close> at the virtual address \<open>va\<close>.\<close>

definition vwritten :: "memory \<Rightarrow> u64 \<Rightarrow> u64 \<Rightarrow> u8 list \<Rightarrow> nat \<Rightarrow> memory \<Rightarrow> bool" where
  "vwritten m pt va bs k m' \<longleftrightarrow>
     (\<forall>i<k. \<exists>a. vaddr m pt (va + of_nat i) = Some a \<and> m' a = bs ! i)
     \<and> (\<forall>x. (\<forall>i<k. vaddr m pt (va + of_nat i) \<noteq> Some x) \<longrightarrow> m' x = m x)"

lemma vwritten_usep:
  assumes "usep pt s xs" "vwritten (pmem s) pt va bs k m'"
  shows "usep pt (s\<lparr>pmem := m'\<rparr>) xs" "leaf_pte m' pt va' = leaf_pte (pmem s) pt va'"
    "vaddr m' pt va' = vaddr (pmem s) pt va'" "pt_pages m' 2 pt = table_pages s pt"
proof -
  have w: "\<exists>va. vaddr (pmem s) pt va = Some x" if "m' x \<noteq> pmem s x" for x
    using assms(2) [unfolded vwritten_def, THEN conjunct2, rule_format, of x] that by auto
  show "usep pt (s\<lparr>pmem := m'\<rparr>) xs" using assms(1) w by (rule usep_write(1))
  show "leaf_pte m' pt va' = leaf_pte (pmem s) pt va'" using assms(1) w by (rule usep_write(2))
  show "vaddr m' pt va' = vaddr (pmem s) pt va'" using assms(1) w by (rule usep_write(3))
  show "pt_pages m' 2 pt = table_pages s pt" using assms(1) w by (rule usep_write(4))
qed

lemma of_nat_u64_eq_iff:
  "i < 0x10000000000000000 \<Longrightarrow> j < 0x10000000000000000 \<Longrightarrow> (of_nat i :: u64) = of_nat j \<longleftrightarrow> i = j"
  by (metis unat_of_nat_u64)

lemma vwritten_append:
  assumes us: "usep pt s xs" and w1: "vwritten (pmem s) pt va bs n m1"
    and w2: "vwritten m1 pt (va + of_nat n) (drop n bs) k m2"
    and len: "n + k \<le> length bs" "length bs < 0x10000000000000000"
  shows "vwritten (pmem s) pt va bs (n + k) m2"
proof -
  have va: "vaddr m1 pt va' = vaddr (pmem s) pt va'" for va' by (rule vwritten_usep(3) [OF us w1])
  have w2a: "\<exists>a. vaddr (pmem s) pt (va + of_nat (n + j)) = Some a \<and> m2 a = bs ! (n + j)" if "j < k" for j
    using w2 that len(1) by (auto simp: vwritten_def va add.assoc)
  have w2b: "m2 x = m1 x" if "\<And>j. j < k \<Longrightarrow> vaddr (pmem s) pt (va + of_nat (n + j)) \<noteq> Some x" for x
    using w2 that by (auto simp: vwritten_def va add.assoc)
  have w1a: "\<exists>a. vaddr (pmem s) pt (va + of_nat i) = Some a \<and> m1 a = bs ! i" if "i < n" for i
    using w1 that by (simp add: vwritten_def)
  have w1b: "m1 x = pmem s x" if "\<And>i. i < n \<Longrightarrow> vaddr (pmem s) pt (va + of_nat i) \<noteq> Some x" for x
    using w1 that by (simp add: vwritten_def)
  show ?thesis unfolding vwritten_def
  proof (intro conjI allI impI)
    fix i assume i: "i < n + k"
    show "\<exists>a. vaddr (pmem s) pt (va + of_nat i) = Some a \<and> m2 a = bs ! i"
    proof (cases "i < n")
      case True
      then obtain a where a: "vaddr (pmem s) pt (va + of_nat i) = Some a" "m1 a = bs ! i" using w1a by blast
      have "vaddr (pmem s) pt (va + of_nat (n + j)) \<noteq> Some a" if "j < k" for j
      proof
        assume "vaddr (pmem s) pt (va + of_nat (n + j)) = Some a"
        from vaddr_inj [OF us a(1) this] have "(of_nat i :: u64) = of_nat (n + j)" by simp
        moreover have "i < 0x10000000000000000" "n + j < 0x10000000000000000" using i len that by linarith+
        ultimately have "i = n + j" using of_nat_u64_eq_iff by blast
        with True show False by simp
      qed
      then have "m2 a = m1 a" by (rule w2b)
      with a show ?thesis by simp
    next
      case False
      then show ?thesis using w2a [of "i - n"] i by simp
    qed
  next
    fix x assume x: "\<forall>i<n + k. vaddr (pmem s) pt (va + of_nat i) \<noteq> Some x"
    have "m2 x = m1 x"
    proof (rule w2b)
      fix j assume "j < k"
      then show "vaddr (pmem s) pt (va + of_nat (n + j)) \<noteq> Some x" using x by (simp del: of_nat_add)
    qed
    also have "\<dots> = pmem s x" using x by (intro w1b) simp
    finally show "m2 x = pmem s x" .
  qed
qed

lemma vwritten_chunk:
  assumes "vaddr m pt va = Some a" "unat va mod 4096 + n \<le> 4096" "n \<le> length bs"
  shows "vwritten m pt va bs n (write_bytes m a (take n bs))"
proof -
  let ?w = "take n bs"
  have len: "length ?w = n" "n \<le> 4096" using assms(2,3) by simp_all
  then have wb: "write_bytes m a ?w x = (if in_range a n x then bs ! unat (x - a) else m x)" for x
    using write_bytes_apply [of ?w m a x] by simp
  have va: "vaddr m pt (va + of_nat i) = Some (a + of_nat i)" if "i < n" for i
    using assms(2) that by (intro vaddr_chunk(1) [OF assms(1)]) simp
  have u: "unat (of_nat i :: u64) = i" if "i < n" for i
    using that len(2) by (intro unat_of_nat_u64) simp
  show ?thesis unfolding vwritten_def
  proof (intro conjI allI impI)
    fix i assume "i < n"
    then show "\<exists>c. vaddr m pt (va + of_nat i) = Some c \<and> write_bytes m a ?w c = bs ! i"
      using va u by (simp add: wb)
  next
    fix x assume x: "\<forall>i<n. vaddr m pt (va + of_nat i) \<noteq> Some x"
    have "\<not> in_range a n x"
    proof
      assume r: "in_range a n x"
      then have "vaddr m pt (va + of_nat (unat (x - a))) = Some x" using va [of "unat (x - a)"] by simp
      with x r show False by blast
    qed
    then show "write_bytes m a ?w x = m x" by (simp add: wb)
  qed
qed

lemma copyout_buf_written:
  assumes "usep pt s xs" "length src < 0x10000000000000000"
  shows "\<exists>r m' k. copyout_buf pt dstva src s = (r, s\<lparr>pmem := m'\<rparr>) \<and> vwritten (pmem s) pt dstva src k m'
    \<and> (if r = 0 then k = length src
       else r = -1 \<and> k < length src \<and> vaddr (pmem s) pt (dstva + of_nat k) = None)"
  using assms
proof (induction "length src" arbitrary: dstva src s rule: less_induct)
  case less
  show ?case
  proof (cases "src = []")
    case True
    then show ?thesis by (intro exI [of _ 0] exI [of _ "pmem s"])
        (simp add: copyout_buf.simps [of pt dstva] vwritten_def)
  next
    case False
    have tab: "table pt s xs" using less.prems(1) by (simp add: usep_def)
    note wa = walkaddr_page [OF tab, of dstva]
    show ?thesis
    proof (cases "vaddr (pmem s) pt dstva")
      case None
      then have "walkaddr pt (PGROUNDDOWN dstva) s = 0" using wa by simp
      then show ?thesis using False None
        by (intro exI [of _ "-1"] exI [of _ "pmem s"] exI [of _ 0])
          (simp add: copyout_buf.simps [of pt dstva] vwritten_def)
    next
      case (Some a)
      define n where "n = 4096 - unat dstva mod 4096"
      define m1 where "m1 = write_bytes (pmem s) a (take n src)"
      let ?s1 = "s\<lparr>pmem := m1\<rparr>" and ?k = "min n (length src)"
      have n: "0 < n" "unat dstva mod 4096 + n = 4096" using mod_less_divisor [of 4096 "unat dstva"] by (simp_all add: n_def)
      have eq: "copyout_buf pt dstva src s = copyout_buf pt (PGROUNDDOWN dstva + PGSIZE) (drop n src) ?s1"
        using False wa Some unat_pgoff [of dstva]
        by (subst copyout_buf.simps) (simp add: pgoff_def m1_def n_def Let_def)
      have w1: "vwritten (pmem s) pt dstva src ?k m1"
      proof -
        have "take n src = take ?k src" by (cases "n \<le> length src") simp_all
        then show ?thesis unfolding m1_def using n by (simp only:) (intro vwritten_chunk [OF Some]; simp)
      qed
      have us1: "usep pt ?s1 xs" by (rule vwritten_usep(1) [OF less.prems(1) w1])
      have nxt: "PGROUNDDOWN dstva + PGSIZE = dstva + of_nat n"
      proof -
        have "pgoff dstva + of_nat n = of_nat (unat (pgoff dstva) + n)" by simp
        also have "\<dots> = PGSIZE" using n(2) by (simp add: unat_pgoff del: of_nat_add of_nat_unat)
        finally show ?thesis by (simp add: pgoff_def algebra_simps)
      qed
      have "\<exists>r m' k. copyout_buf pt (PGROUNDDOWN dstva + PGSIZE) (drop n src) ?s1 = (r, ?s1\<lparr>pmem := m'\<rparr>)
        \<and> vwritten (pmem ?s1) pt (PGROUNDDOWN dstva + PGSIZE) (drop n src) k m'
        \<and> (if r = 0 then k = length (drop n src)
           else r = -1 \<and> k < length (drop n src) \<and> vaddr (pmem ?s1) pt (PGROUNDDOWN dstva + PGSIZE + of_nat k) = None)"
        using less.prems(2) n(1) False by (intro less.hyps us1) simp_all
      then obtain r m' k where IH: "copyout_buf pt dstva src s = (r, ?s1\<lparr>pmem := m'\<rparr>)
        \<and> vwritten (pmem ?s1) pt (dstva + of_nat n) (drop n src) k m'
        \<and> (if r = 0 then k = length (drop n src)
           else r = -1 \<and> k < length (drop n src) \<and> vaddr (pmem ?s1) pt (dstva + of_nat n + of_nat k) = None)"
        unfolding eq nxt by (elim exE)
      then have IH1: "copyout_buf pt dstva src s = (r, s\<lparr>pmem := m'\<rparr>)"
          "vwritten m1 pt (dstva + of_nat n) (drop n src) k m'"
        and IH2: "r = 0 \<Longrightarrow> k = length src - n" "r \<noteq> 0 \<Longrightarrow> r = -1" "r \<noteq> 0 \<Longrightarrow> n + k < length src"
          "r \<noteq> 0 \<Longrightarrow> vaddr m1 pt (dstva + of_nat n + of_nat k) = None"
        by (simp_all add: less_diff_conv add.commute)
      have va: "vaddr m1 pt va' = vaddr (pmem s) pt va'" for va' by (rule vwritten_usep(3) [OF less.prems(1) w1])
      show ?thesis
      proof (cases "n < length src")
        case True
        then have w1': "vwritten (pmem s) pt dstva src n m1" using w1 by simp
        have "n + k \<le> length src" using IH2 True by (cases "r = 0") simp_all
        from vwritten_append [OF less.prems(1) w1' IH1(2) this less.prems(2)]
        have "vwritten (pmem s) pt dstva src (n + k) m'" .
        moreover have "if r = 0 then n + k = length src
            else r = -1 \<and> n + k < length src \<and> vaddr (pmem s) pt (dstva + of_nat (n + k)) = None"
          using IH2 True va by (cases "r = 0") (simp_all add: add.assoc)
        ultimately show ?thesis using IH1(1) by blast
      next
        case False
        then have "r = 0" "k = 0" using IH2 by (cases "r = 0"; simp)+
        then have "m' = m1" using IH1(2) by (auto simp: vwritten_def)
        then show ?thesis using w1 False IH1(1) \<open>r = 0\<close>
          by (intro exI [of _ 0] exI [of _ m1] exI [of _ "length src"]) simp
      qed
    qed
  qed
qed

section \<open>The pointer versions\<close>

lemma read_bytes_split: "read_bytes m a (n + k) = read_bytes m a n @ read_bytes m (a + of_nat n) k"
  by (rule nth_equalityI) (auto simp: nth_read_bytes nth_append of_nat_diff algebra_simps)

lemma write_bytes_append: "write_bytes m a (xs @ ys) = write_bytes (write_bytes m a xs) (a + of_nat (length xs)) ys"
  by (induction xs arbitrary: m a) (simp_all add: algebra_simps)

lemma unat_ucast_chunk: "unat (ucast (chunk va len) :: u32) = unat (chunk va len)"
proof -
  have "unat (chunk va len) \<le> 4096" by (simp add: unat_chunk)
  then show ?thesis by (simp add: unsigned_ucast_eq take_bit_nat_eq_self)
qed

lemma memmove_chunk:
  assumes "vaddr m pt va = Some a" "unat p + unat (chunk va len) \<le> 0x10000000000000000"
  shows "memmove m' a p (ucast (chunk va len)) = write_bytes m' a (read_bytes m' p (unat (chunk va len)))"
    "memmove m' p a (ucast (chunk va len)) = write_bytes m' p (read_bytes m' a (unat (chunk va len)))"
proof -
  note d = vaddr_SomeD [OF assms(1)]
  have "unat a = unat (PTE2PA (leaf_pte m pt va)) + unat va mod 4096"
  proof -
    have "unat (PTE2PA (leaf_pte m pt va)) \<le> 18446744073709547520"
      by (rule pgaligned_unat_le) simp
    moreover have "unat va mod 4096 < 4096" by simp
    ultimately show ?thesis unfolding d(4) by (simp add: unat_word_ariths unat_pgoff)
  qed
  moreover have "unat (PTE2PA (leaf_pte m pt va)) \<le> 18446744073709547520"
    by (rule pgaligned_unat_le) simp
  moreover have "unat va mod 4096 + unat (chunk va len) \<le> 4096"
    using mod_less_divisor [of 4096 "unat va"] by (simp add: unat_chunk)
  ultimately have a: "unat a + unat (chunk va len) \<le> 0x10000000000000000" by linarith
  show "memmove m' a p (ucast (chunk va len)) = write_bytes m' a (read_bytes m' p (unat (chunk va len)))"
    using memmove_write_bytes [of p "ucast (chunk va len)" a] a assms(2) by (simp add: unat_ucast_chunk)
  show "memmove m' p a (ucast (chunk va len)) = write_bytes m' p (read_bytes m' a (unat (chunk va len)))"
    using memmove_write_bytes [of a "ucast (chunk va len)" p] a assms(2) by (simp add: unat_ucast_chunk)
qed

text \<open>A kernel buffer apart from the user's memory.\<close>

definition kbuf :: "u64 \<Rightarrow> 'a kmem_scheme \<Rightarrow> u64 \<Rightarrow> nat \<Rightarrow> bool" where
  "kbuf pt s p n \<longleftrightarrow> unat p + n \<le> 0x10000000000000000
     \<and> (\<forall>i<n. \<forall>va. vaddr (pmem s) pt va \<noteq> Some (p + of_nat i))"

lemma kbuf_drop:
  assumes "kbuf pt s p (n + k)" "0 < k"
  shows "kbuf pt s p n" "kbuf pt s (p + of_nat n) k"
proof -
  have b: "unat p + (n + k) \<le> 0x10000000000000000"
    and d: "\<And>i va. i < n + k \<Longrightarrow> vaddr (pmem s) pt va \<noteq> Some (p + of_nat i)"
    using assms(1) by (auto simp: kbuf_def)
  show "kbuf pt s p n" using b d by (simp add: kbuf_def)
  have "n < 0x10000000000000000" using b assms(2) by linarith
  then have u: "unat (p + of_nat n) = unat p + n" using b assms(2) by (simp add: unat_word_ariths unat_of_nat_u64)
  moreover have "vaddr (pmem s) pt va \<noteq> Some (p + of_nat n + of_nat i)" if "i < k" for i va
    using d [of "n + i" va] that by (simp add: add.assoc)
  ultimately show "kbuf pt s (p + of_nat n) k" using b by (simp add: kbuf_def)
qed

lemma kbuf_rest:
  assumes "kbuf pt s p (unat len)" "chunk va len \<le> len" "\<And>va. vaddr (pmem t) pt va = vaddr (pmem s) pt va"
  shows "kbuf pt t (p + chunk va len) (unat (len - chunk va len))"
proof (cases "unat (len - chunk va len) = 0")
  case True
  then show ?thesis by (simp add: kbuf_def unat_u64_lt less_imp_le)
next
  case False
  have "unat len = unat (chunk va len) + unat (len - chunk va len)"
    using assms(2) by (simp add: unat_sub word_le_nat_alt)
  then have "kbuf pt s (p + of_nat (unat (chunk va len))) (unat (len - chunk va len))"
    using assms(1) False by (intro kbuf_drop(2)) simp_all
  then show ?thesis by (simp add: kbuf_def assms(3))
qed

lemma copyout_round:
  assumes "table pt s xs" "0 < len" "vaddr (pmem s) pt dstva = Some a"
  shows "copyout pt dstva src len s = copyout pt (PGROUNDDOWN dstva + PGSIZE) (src + chunk dstva len)
    (len - chunk dstva len) (s\<lparr>pmem := memmove (pmem s) a src (ucast (chunk dstva len))\<rparr>)"
  using walkaddr_page [OF assms(1), of dstva] assms(2,3)
  by (subst copyout.simps) (simp add: pgoff_def Let_def)

lemma copyout_buf_round:
  assumes "table pt s xs" "src \<noteq> []" "vaddr (pmem s) pt dstva = Some a"
    and "c = min (4096 - unat dstva mod 4096) (length src)"
  shows "copyout_buf pt dstva src s = copyout_buf pt (PGROUNDDOWN dstva + PGSIZE) (drop c src)
    (s\<lparr>pmem := write_bytes (pmem s) a (take c src)\<rparr>)"
proof -
  let ?n = "4096 - unat dstva mod 4096"
  have "take ?n src = take c src" "drop ?n src = drop c src"
    using assms(4) by (cases "?n \<le> length src"; simp)+
  then show ?thesis
    using walkaddr_page [OF assms(1), of dstva] unat_pgoff [of dstva] assms(2,3)
    by (subst copyout_buf.simps) (simp add: pgoff_def Let_def)
qed

lemma copyout_by_value:
  assumes "usep pt s xs" "kbuf pt s src (unat len)"
  shows "copyout pt dstva src len s = copyout_buf pt dstva (read_bytes (pmem s) src (unat len)) s"
  using assms
proof (induction "unat len" arbitrary: dstva src len s rule: less_induct)
  case less
  show ?case
  proof (cases "len > 0")
    case False
    then have "len = 0" by (metis word_neq_0_conv)
    then show ?thesis by (simp add: copyout.simps [of pt dstva] copyout_buf.simps [of pt dstva])
  next
    case True
    have pos: "0 < unat len" using True by (simp add: unat_gt_0 word_neq_0_conv)
    have tab: "table pt s xs" using less.prems(1) by (simp add: usep_def)
    note wa = walkaddr_page [OF tab, of dstva]
    let ?n = "chunk dstva len" and ?bs = "read_bytes (pmem s) src (unat len)"
    have ne: "?bs \<noteq> []" using pos by (metis length_read_bytes length_greater_0_conv)
    show ?thesis
    proof (cases "vaddr (pmem s) pt dstva")
      case None
      then have "walkaddr pt (PGROUNDDOWN dstva) s = 0" using wa by simp
      then show ?thesis using True ne by (simp add: copyout.simps [of pt dstva] copyout_buf.simps [of pt dstva])
    next
      case (Some a)
      have pa: "walkaddr pt (PGROUNDDOWN dstva) s \<noteq> 0"
          "walkaddr pt (PGROUNDDOWN dstva) s + (dstva - PGROUNDDOWN dstva) = a"
        using wa Some by (simp_all add: pgoff_def)
      define c where "c = unat ?n"
      have c: "c \<le> unat len" "unat dstva mod 4096 + c \<le> 4096" "0 < c"
        using mod_less_divisor [of 4096 "unat dstva"] pos by (simp_all add: c_def unat_chunk)
      have len: "unat (len - ?n) = unat len - c" "of_nat c = ?n"
        using c(1) by (simp_all add: c_def unat_sub word_le_nat_alt)
      let ?m1 = "write_bytes (pmem s) a (read_bytes (pmem s) src c)"
      let ?s1 = "s\<lparr>pmem := ?m1\<rparr>"
      have split: "?bs = read_bytes (pmem s) src c @ read_bytes (pmem s) (src + ?n) (unat (len - ?n))"
        using read_bytes_split [of "pmem s" src c "unat len - c"] c(1) len by simp
      have w1: "vwritten (pmem s) pt dstva ?bs c ?m1"
        using vwritten_chunk [OF Some c(2), of ?bs] c(1) split by simp
      have rest: "read_bytes ?m1 (src + ?n) (unat (len - ?n)) = read_bytes (pmem s) (src + ?n) (unat (len - ?n))"
      proof (rule read_bytes_cong)
        fix i assume "i < unat (len - ?n)"
        then have "c + i < unat len" using len(1) by simp
        then have "vaddr (pmem s) pt va \<noteq> Some (src + of_nat (c + i))" for va
          using less.prems(2) by (simp add: kbuf_def del: of_nat_add)
        then have "?m1 (src + of_nat (c + i)) = pmem s (src + of_nat (c + i))"
          using w1 by (simp add: vwritten_def del: of_nat_add)
        then show "?m1 (src + ?n + of_nat i) = pmem s (src + ?n + of_nat i)" using len(2) by (simp add: add.assoc)
      qed
      have us1: "usep pt ?s1 xs" by (rule vwritten_usep(1) [OF less.prems(1) w1])
      have kb1: "kbuf pt ?s1 (src + ?n) (unat (len - ?n))"
        using c(1) vwritten_usep(3) [OF less.prems(1) w1]
        by (intro kbuf_rest [OF less.prems(2)]) (simp_all add: c_def word_le_nat_alt)
      have "unat src + c \<le> 0x10000000000000000" using less.prems(2) c(1) by (simp add: kbuf_def)
      then have "copyout pt dstva src len s = copyout pt (PGROUNDDOWN dstva + PGSIZE) (src + ?n) (len - ?n) ?s1"
        using copyout_round [OF tab True Some] memmove_chunk(1) [OF Some, of src len] by (simp add: c_def)
      also have "\<dots> = copyout_buf pt (PGROUNDDOWN dstva + PGSIZE) (read_bytes (pmem ?s1) (src + ?n) (unat (len - ?n))) ?s1"
        by (rule less.hyps [OF chunk_less [OF True] us1 kb1])
      also have "\<dots> = copyout_buf pt dstva ?bs s"
      proof -
        have "c = min (4096 - unat dstva mod 4096) (length ?bs)" by (simp add: c_def unat_chunk)
        note round = copyout_buf_round [OF tab ne Some this]
        have "take c ?bs = read_bytes (pmem s) src c"
          "drop c ?bs = read_bytes (pmem s) (src + ?n) (unat (len - ?n))"
          by (subst split, simp)+
        moreover have "pmem ?s1 = ?m1" by simp
        ultimately show ?thesis by (simp only: round rest)
      qed
      finally show ?thesis .
    qed
  qed
qed

lemma copied_unique:
  assumes "copied vs r bs" "copied vs r' bs'"
  shows "r = r' \<and> bs = bs'"
proof -
  have first: "length bs = length bs'"
    if "length bs < length vs" "take (length bs) vs = map Some bs" "vs ! length bs = None"
      "length bs' < length vs" "take (length bs') vs = map Some bs'" "vs ! length bs' = None" for bs bs' :: "u8 list"
  proof -
    have some: "i < length cs \<Longrightarrow> vs ! i \<noteq> None" if "take (length cs) vs = map Some cs" for i and cs :: "u8 list"
      using that by (metis length_map nth_map nth_take option.distinct(1))
    from some [OF that(2), of "length bs'"] some [OF that(5), of "length bs"] that show ?thesis
      by (meson linorder_neqE_nat)
  qed
  have none: "vs ! length cs \<noteq> None" if "vs = map Some ds" "length cs < length vs" for cs ds :: "u8 list"
    using that by simp
  show ?thesis
  proof (cases "r = 0"; cases "r' = 0")
    assume "r \<noteq> 0" "r' \<noteq> 0"
    then have c: "r = -1" "r' = -1" "length bs < length vs" "take (length bs) vs = map Some bs" "vs ! length bs = None"
        "length bs' < length vs" "take (length bs') vs = map Some bs'" "vs ! length bs' = None"
      using assms by (simp_all add: copied_def)
    have l: "length bs = length bs'" by (rule first [OF c(3-8)])
    have "map Some bs = take (length bs) vs" by (rule c(4) [symmetric])
    also have "\<dots> = take (length bs') vs" by (simp only: l)
    also have "\<dots> = map Some bs'" by (rule c(7))
    finally show ?thesis using c(1,2) by (simp add: inj_map_eq_map)
  next
    assume "r = 0" "r' \<noteq> 0"
    then show ?thesis using assms none [of bs bs'] by (auto simp: copied_def)
  next
    assume "r \<noteq> 0" "r' = 0"
    then show ?thesis using assms by (auto simp: copied_def)
  next
    assume "r = 0" "r' = 0"
    then show ?thesis using assms by (simp add: copied_def inj_map_eq_map)
  qed
qed

lemma copyin_buf_vrange:
  assumes "table pt s xs" "table pt t ys" "vrange (pmem t) pt va (unat len) = vrange (pmem s) pt va (unat len)"
  shows "copyin_buf pt va len t = copyin_buf pt va len s"
  using copied_unique [OF copyin_buf_copied [OF assms(2), of va len, unfolded assms(3)] copyin_buf_copied [OF assms(1)]]
  by (simp add: prod_eq_iff)

text \<open>A kernel buffer that can be written: apart from user pages, page tables and free pages.\<close>

definition kbufw :: "u64 \<Rightarrow> 'a kmem_scheme \<Rightarrow> u64 list \<Rightarrow> u64 \<Rightarrow> nat \<Rightarrow> bool" where
  "kbufw pt s xs p n \<longleftrightarrow> kbuf pt s p n \<and> (\<forall>i<n. PGROUNDDOWN (p + of_nat i) \<notin> set (table_pages s pt) \<union> set xs)"

lemma kbufw_write:
  assumes tab: "table pt s xs" and kb: "kbufw pt s xs p (length bs)"
  shows "table pt (s\<lparr>pmem := write_bytes (pmem s) p bs\<rparr>) xs"
    "vaddr (write_bytes (pmem s) p bs) pt va = vaddr (pmem s) pt va"
    "vbyte (write_bytes (pmem s) p bs) pt va = vbyte (pmem s) pt va"
    "table_pages (s\<lparr>pmem := write_bytes (pmem s) p bs\<rparr>) pt = table_pages s pt"
proof -
  let ?m = "write_bytes (pmem s) p bs" and ?t = "s\<lparr>pmem := write_bytes (pmem s) p bs\<rparr>"
  have len: "length bs \<le> 18446744073709551616" using kb by (simp add: kbufw_def kbuf_def)
  have off: "?m x = pmem s x" if "\<And>i. i < length bs \<Longrightarrow> x \<noteq> p + of_nat i" for x
  proof -
    have "\<not> in_range p (length bs) x"
    proof
      assume "in_range p (length bs) x"
      from that [OF this] show False by simp
    qed
    then show ?thesis by (simp add: write_bytes_apply [OF len])
  qed
  have same: "?m x = pmem s x" if "PGROUNDDOWN x \<in> set (table_pages s pt) \<union> set xs" for x
  proof (rule off)
    fix i assume "i < length bs"
    then show "x \<noteq> p + of_nat i" using kb that unfolding kbufw_def by metis
  qed
  have free: "free_pages ?t xs"
  proof (rule free_pages_frame [of s xs])
    show "free_pages s xs" using tab by (simp add: pt_wf_def)
    show "pmem ?t x = pmem s x" if "PGROUNDDOWN x \<in> set xs" for x using that same [of x] by simp
  qed simp_all
  have disj: "set (table_pages s pt) \<inter> set xs = {}" using tab by (simp add: pt_wf_def)
  have same': "pmem ?t x = pmem s x" if "PGROUNDDOWN x \<in> set (table_pages s pt)" for x
    using that same [of x] by simp
  have fr: "table pt ?t xs" "table_pages ?t pt = table_pages s pt"
      "\<And>va. leaf_pte (pmem ?t) pt va = leaf_pte (pmem s) pt va"
    by (rule table_frame [OF tab free disj], erule same')+
  show "table pt ?t xs" "table_pages ?t pt = table_pages s pt" by (rule fr(1,2))+
  show va: "vaddr ?m pt va = vaddr (pmem s) pt va" for va using fr(3) by (simp add: vaddr_def)
  show "vbyte ?m pt va = vbyte (pmem s) pt va"
  proof (cases "vaddr (pmem s) pt va")
    case (Some a)
    have "?m a = pmem s a"
    proof (rule off)
      fix i assume "i < length bs"
      then show "a \<noteq> p + of_nat i" using kb Some unfolding kbufw_def kbuf_def by metis
    qed
    then show ?thesis using Some by (simp add: vbyte_def va)
  qed (simp add: vbyte_def va)
qed

lemma copyin_by_value:
  assumes "table pt s xs" "kbufw pt s xs dst (unat len)"
  shows "copyin pt dst srcva len s = (case copyin_buf pt srcva len s of (r, bs) \<Rightarrow>
    (r, s\<lparr>pmem := write_bytes (pmem s) dst bs\<rparr>))"
  using assms
proof (induction "unat len" arbitrary: dst srcva len s rule: less_induct)
  case less
  show ?case
  proof (cases "len > 0")
    case False
    then have "len = 0" by (metis word_neq_0_conv)
    then show ?thesis by (simp add: copyin.simps [of pt dst] copyin_buf.simps [of pt srcva])
  next
    case True
    note wa = walkaddr_page [OF less.prems(1), of srcva]
    show ?thesis
    proof (cases "vaddr (pmem s) pt srcva")
      case None
      then have "walkaddr pt (PGROUNDDOWN srcva) s = 0" using wa by simp
      then show ?thesis using True by (simp add: copyin.simps [of pt dst] copyin_buf.simps [of pt srcva])
    next
      case (Some a)
      let ?n = "chunk srcva len" and ?va = "PGROUNDDOWN srcva + PGSIZE"
      have pa: "walkaddr pt (PGROUNDDOWN srcva) s \<noteq> 0"
          "walkaddr pt (PGROUNDDOWN srcva) s + (srcva - PGROUNDDOWN srcva) = a"
        using wa Some by (simp_all add: pgoff_def)
      define c where "c = unat ?n"
      have c: "c \<le> unat len" by (simp add: c_def unat_chunk)
      have len: "unat (len - ?n) = unat len - c" "of_nat c = ?n"
        using c by (simp_all add: c_def unat_sub word_le_nat_alt)
      define bs where "bs = read_bytes (pmem s) a c"
      let ?s1 = "s\<lparr>pmem := write_bytes (pmem s) dst bs\<rparr>"
      have kb: "unat dst + unat len \<le> 0x10000000000000000" using less.prems(2) by (simp add: kbufw_def kbuf_def)
      have kb0: "kbufw pt s xs dst (length bs)" using less.prems(2) c by (simp add: kbufw_def kbuf_def bs_def)
      note w = kbufw_write [OF less.prems(1) kb0]
      have "copyin pt dst srcva len s = copyin pt (dst + ?n) ?va (len - ?n)
          (s\<lparr>pmem := memmove (pmem s) dst a (ucast ?n)\<rparr>)"
        using True pa by (subst copyin.simps) (simp add: Let_def)
      also have "memmove (pmem s) dst a (ucast ?n) = write_bytes (pmem s) dst bs"
        using memmove_chunk(2) [OF Some, of dst len] kb c by (simp add: bs_def c_def)
      finally have step: "copyin pt dst srcva len s = copyin pt (dst + ?n) ?va (len - ?n) ?s1" .
      have kb1: "kbufw pt ?s1 xs (dst + ?n) (unat (len - ?n))"
        unfolding kbufw_def
      proof (intro conjI allI impI)
        show "kbuf pt ?s1 (dst + ?n) (unat (len - ?n))"
          using less.prems(2) c w(2) by (intro kbuf_rest [of pt s]) (simp_all add: kbufw_def c_def word_le_nat_alt)
        fix i assume "i < unat (len - ?n)"
        then have "c + i < unat len" using len(1) by simp
        then have "PGROUNDDOWN (dst + of_nat (c + i)) \<notin> set (table_pages s pt) \<union> set xs"
          using less.prems(2) unfolding kbufw_def by blast
        moreover have "dst + of_nat (c + i) = dst + ?n + of_nat i" using len(2) by simp
        ultimately show "PGROUNDDOWN (dst + ?n + of_nat i) \<notin> set (table_pages ?s1 pt) \<union> set xs"
          unfolding w(4) by (simp only: not_False_eq_True)
      qed
      have "vrange (pmem ?s1) pt ?va (unat (len - ?n)) = vrange (pmem s) pt ?va (unat (len - ?n))"
        using w(3) by (simp add: vrange_def)
      then have rest: "copyin_buf pt ?va (len - ?n) ?s1 = copyin_buf pt ?va (len - ?n) s"
        by (rule copyin_buf_vrange [OF less.prems(1) w(1)])
      obtain r cs where rc: "copyin_buf pt ?va (len - ?n) s = (r, cs)" by fastforce
      have "copyin_buf pt srcva len s = (r, bs @ cs)"
        using True pa rc by (subst copyin_buf.simps) (simp add: Let_def bs_def c_def)
      moreover have "copyin pt (dst + ?n) ?va (len - ?n) ?s1 =
          (r, ?s1\<lparr>pmem := write_bytes (pmem ?s1) (dst + ?n) cs\<rparr>)"
        using less.hyps [OF chunk_less [OF True] w(1) kb1] rest rc by simp
      ultimately show ?thesis
        using step len(2) by (simp add: write_bytes_append bs_def)
    qed
  qed
qed

section \<open>Properties\<close>

lemma vwritten_vrange:
  assumes "usep pt s xs" "vwritten (pmem s) pt va bs (length bs) m'"
  shows "vrange m' pt va (length bs) = map Some bs"
proof (rule nth_equalityI)
  fix i assume "i < length (vrange m' pt va (length bs))"
  then have i: "i < length bs" by simp
  then obtain a where "vaddr (pmem s) pt (va + of_nat i) = Some a" "m' a = bs ! i"
    using assms(2) unfolding vwritten_def by blast
  then show "vrange m' pt va (length bs) ! i = map Some bs ! i"
    using i vwritten_usep(3) [OF assms] by (simp add: nth_vrange vbyte_def)
qed simp

text \<open>
  C10. What \<open>copyout\<close> stores, \<open>copyin\<close> reads back: if copying a kernel buffer of any length to a user
  address succeeds, copying the same range back into any writable kernel buffer succeeds and delivers
  the same bytes.
\<close>

theorem copyout_copyin:
  assumes "usep pt s xs" "kbuf pt s src (unat len)" "copyout pt va src len s = (0, t)"
    and "kbufw pt t xs dst (unat len)"
  shows "copyin pt dst va len t = (0, t\<lparr>pmem := write_bytes (pmem t) dst (read_bytes (pmem s) src (unat len))\<rparr>)"
proof -
  let ?bs = "read_bytes (pmem s) src (unat len)"
  have "length ?bs < 0x10000000000000000" using unat_u64_lt [of len] by simp
  from copyout_buf_written [OF assms(1) this, of va] copyout_by_value [OF assms(1,2), of va] assms(3)
  obtain m' where t: "t = s\<lparr>pmem := m'\<rparr>" and w: "vwritten (pmem s) pt va ?bs (length ?bs) m'"
    by (auto split: if_splits)
  have "usep pt t xs" using vwritten_usep(1) [OF assms(1) w] by (simp add: t)
  then have tab: "table pt t xs" by (simp add: usep_def)
  have "copied (map Some ?bs) 0 ?bs" by (simp add: copied_def)
  moreover have "vrange (pmem t) pt va (unat len) = map Some ?bs"
    using vwritten_vrange [OF assms(1) w] by (simp add: t)
  ultimately have "copyin_buf pt va len t = (0, ?bs)"
    using copied_unique copyin_buf_copied [OF tab, of va len] by (metis prod.collapse)
  then show ?thesis using copyin_by_value [OF tab assms(4)] by simp
qed

text \<open>
  C11. The bytes \<open>copyin\<close> returns are exactly the user's: it succeeds iff every byte of the range is
  mapped for the user, and fails with \<open>-1\<close> at the first byte that is not; the page table, the user's
  memory and everything outside the destination buffer stay as they were.
\<close>

theorem copyin_reads_user_memory:
  assumes "table pt s xs" "kbufw pt s xs dst (unat len)"
  shows "\<exists>r bs. copyin pt dst srcva len s = (r, s\<lparr>pmem := write_bytes (pmem s) dst bs\<rparr>)
    \<and> (if r = 0 then map Some bs = vrange (pmem s) pt srcva (unat len)
       else r = -1 \<and> length bs < unat len \<and> map Some bs = take (length bs) (vrange (pmem s) pt srcva (unat len))
         \<and> vbyte (pmem s) pt (srcva + of_nat (length bs)) = None)"
proof -
  obtain r bs where rb: "copyin_buf pt srcva len s = (r, bs)" by fastforce
  then have "copied (vrange (pmem s) pt srcva (unat len)) r bs"
    using copyin_buf_copied [OF assms(1), of srcva len] by simp
  then have "if r = 0 then map Some bs = vrange (pmem s) pt srcva (unat len)
       else r = -1 \<and> length bs < unat len \<and> map Some bs = take (length bs) (vrange (pmem s) pt srcva (unat len))
         \<and> vbyte (pmem s) pt (srcva + of_nat (length bs)) = None"
    by (auto simp: copied_def nth_vrange split: if_splits)
  moreover have "copyin pt dst srcva len s = (r, s\<lparr>pmem := write_bytes (pmem s) dst bs\<rparr>)"
    using copyin_by_value [OF assms] rb by simp
  ultimately show ?thesis by blast
qed

lemma demo_user:
  "\<exists>(s :: kmem) xs. usep demo_root s xs \<and> set (table_pages s demo_root) \<union> set xs = insert demo_root (set demo_free)
    \<and> (\<forall>va. vaddr (pmem s) demo_root va =
        (if PGROUNDDOWN va = 0x1000 then Some (0x87FF7000 + pgoff va) else None))"
proof -
  let ?e = "PA2PTE 0x87FF7000 OR (PTE_R OR PTE_W OR PTE_U) OR PTE_V"
  obtain s :: kmem and xs where s: "table demo_root s xs"
      "set (table_pages s demo_root) \<union> set xs = insert demo_root (set demo_free)"
      and leaf: "\<forall>va<SV39. leaf_pte (pmem s) demo_root va = (if PGROUNDDOWN va = 0x1000 then ?e else 0)"
    using demo_mapped [of "PTE_R OR PTE_W OR PTE_U"] by blast
  have e: "PTE2PA ?e = 0x87FF7000" "user_leaf ?e"
    by (simp_all add: PTE2PA_def PA2PTE_def user_leaf_def)
  have ul: "user_leaf (leaf_pte (pmem s) demo_root va) \<longleftrightarrow> PGROUNDDOWN va = 0x1000" if "va < MAXVA" for va
    using leaf e MAXVA_SV39 [OF that] by (simp add: user_leaf_def)
  have pa: "PTE2PA (leaf_pte (pmem s) demo_root va) = 0x87FF7000" if "va < MAXVA" "PGROUNDDOWN va = 0x1000" for va
    using leaf e MAXVA_SV39 [OF that(1)] that(2) by simp
  have small: "va < MAXVA" if "PGROUNDDOWN va = 0x1000" for va
    by (rule PGROUNDDOWN_MAXVA) (simp add: that)
  have "usep demo_root s xs"
    unfolding usep_def user_inj_def
  proof (intro conjI allI impI)
    show "table demo_root s xs" by (rule s(1))
    show "PGROUNDDOWN va = PGROUNDDOWN va'" if "va < MAXVA" "va' < MAXVA"
      "user_leaf (leaf_pte (pmem s) demo_root va)" "user_leaf (leaf_pte (pmem s) demo_root va')" for va va'
      using that ul by simp
    show "PTE2PA (leaf_pte (pmem s) demo_root va) \<notin> set (table_pages s demo_root) \<union> set xs"
      if "va < MAXVA" "user_leaf (leaf_pte (pmem s) demo_root va)" for va
      unfolding s(2) using that pa ul by simp
  qed
  moreover have "vaddr (pmem s) demo_root va = (if PGROUNDDOWN va = 0x1000 then Some (0x87FF7000 + pgoff va) else None)" for va
    using ul [of va] pa [of va] small [of va] by (auto simp: vaddr_def Let_def pgoff_def)
  ultimately show ?thesis using s(2) by blast
qed

text \<open>The kernel addresses \<open>0x80010000\<close> and \<open>0x80020000\<close> are apart from the demonstration state's user page.\<close>

lemma demo_kbuf:
  assumes "\<forall>va. vaddr (pmem s) demo_root va = (if PGROUNDDOWN va = 0x1000 then Some (0x87FF7000 + pgoff va) else None)"
    and "set (table_pages s demo_root) \<union> set xs = insert demo_root (set demo_free)" "p = 0x80010000 \<or> p = 0x80020000"
  shows "kbufw demo_root s xs p 16"
proof -
  have pg: "PGROUNDDOWN (p + of_nat i) = p" if "i < 16" for i
    using assms(3) that by (intro page_add) (auto simp: pgaligned_def unat_of_nat_u64)
  have "vaddr (pmem s) demo_root va \<noteq> Some (p + of_nat i)" if "i < 16" for i va
  proof
    assume "vaddr (pmem s) demo_root va = Some (p + of_nat i)"
    then have "p + of_nat i = 0x87FF7000 + pgoff va" using assms(1) by (simp split: if_splits)
    moreover have "PGROUNDDOWN (0x87FF7000 + pgoff va) = 0x87FF7000"
      by (intro page_add) (simp_all add: pgaligned_def unat_pgoff)
    ultimately show False using pg [OF that] assms(3) by auto
  qed
  then show ?thesis unfolding kbufw_def kbuf_def assms(2) using pg assms(3) by auto
qed

theorem copyin_reads_user_memory_witness:
  "\<exists>(s :: kmem) r bs. copyin demo_root 0x80010000 0x1100 16 s = (r, s\<lparr>pmem := write_bytes (pmem s) 0x80010000 bs\<rparr>)
    \<and> (if r = 0 then map Some bs = vrange (pmem s) demo_root 0x1100 (unat (16 :: u64)) else r = -1)"
proof -
  obtain s :: kmem and xs where s: "usep demo_root s xs"
      "set (table_pages s demo_root) \<union> set xs = insert demo_root (set demo_free)"
      "\<forall>va. vaddr (pmem s) demo_root va = (if PGROUNDDOWN va = 0x1000 then Some (0x87FF7000 + pgoff va) else None)"
    using demo_user by blast
  have "table demo_root s xs" using s(1) by (simp add: usep_def)
  moreover have "kbufw demo_root s xs 0x80010000 (unat (16 :: u64))" using demo_kbuf [OF s(3,2)] by simp
  ultimately show ?thesis
    using copyin_reads_user_memory [of demo_root s xs "0x80010000" 16 "0x1100"] by (auto split: if_splits)
qed

theorem copyout_copyin_witness:
  "\<exists>(s :: kmem) t. copyout demo_root 0x1100 0x80010000 16 s = (0, t)
    \<and> copyin demo_root 0x80020000 0x1100 16 t =
        (0, t\<lparr>pmem := write_bytes (pmem t) 0x80020000 (read_bytes (pmem s) 0x80010000 16)\<rparr>)"
proof -
  obtain s :: kmem and xs where s: "usep demo_root s xs"
      "set (table_pages s demo_root) \<union> set xs = insert demo_root (set demo_free)"
      "\<forall>va. vaddr (pmem s) demo_root va = (if PGROUNDDOWN va = 0x1000 then Some (0x87FF7000 + pgoff va) else None)"
    using demo_user by blast
  let ?bs = "read_bytes (pmem s) 0x80010000 16"
  have kb: "kbuf demo_root s 0x80010000 (unat (16 :: u64))"
    using demo_kbuf [OF s(3,2)] by (simp add: kbufw_def)
  have val: "copyout demo_root 0x1100 0x80010000 16 s = copyout_buf demo_root 0x1100 ?bs s"
    using copyout_by_value [OF s(1) kb, of "0x1100"] by simp
  obtain r m' k where w: "copyout_buf demo_root 0x1100 ?bs s = (r, s\<lparr>pmem := m'\<rparr>)"
      "vwritten (pmem s) demo_root 0x1100 ?bs k m'"
      "if r = 0 then k = length ?bs
       else r = -1 \<and> k < length ?bs \<and> vaddr (pmem s) demo_root (0x1100 + of_nat k) = None"
    using copyout_buf_written [OF s(1), of ?bs "0x1100"] by auto
  have "PGROUNDDOWN (0x1100 + of_nat k) = 0x1000" if "k < 16"
    using page_add [of "0x1000" "0x100 + of_nat k"] that
    by (simp add: pgaligned_def unat_word_ariths unat_of_nat_u64)
  then have r: "r = 0" using w(3) s(3) by (auto split: if_splits)
  let ?t = "s\<lparr>pmem := m'\<rparr>"
  have va: "vaddr (pmem ?t) demo_root va = vaddr (pmem s) demo_root va" for va
    using vwritten_usep(3) [OF s(1) w(2)] by simp
  have "table_pages ?t demo_root = table_pages s demo_root" using vwritten_usep(4) [OF s(1) w(2)] by simp
  with s(2,3) va have "kbufw demo_root ?t xs 0x80020000 (unat (16 :: u64))"
    using demo_kbuf [of ?t xs "0x80020000"] by simp
  moreover have "copyout demo_root 0x1100 0x80010000 16 s = (0, ?t)" using val w(1) r by simp
  ultimately have "copyin demo_root 0x80020000 0x1100 16 ?t =
      (0, ?t\<lparr>pmem := write_bytes (pmem ?t) 0x80020000 (read_bytes (pmem s) 0x80010000 (unat (16 :: u64)))\<rparr>)"
    by (intro copyout_copyin [OF s(1) kb])
  moreover have "unat (16 :: u64) = 16" by simp
  ultimately show ?thesis using val w(1) r by metis
qed

end
