(* ===== verification/VmFrame.thy ===== *)
theory VmFrame
  imports UserMem
begin

text \<open>
  Frame conditions of the memory operations: whatever they do to memory and the free list, every
  other part of the kernel state is as before. The theories above state these once for each
  operation and rely on them whenever a process, file or buffer operation calls into vm.c.
\<close>

named_theorems mem_frame

lemma mem_onlyE:
  assumes "mem_only s t"
  obtains f m where "t = s\<lparr>freelist := f, pmem := m\<rparr>"
  using mem_only_eq [OF assms] by blast

lemma mem_only_pmemI [intro]: "mem_only s (s\<lparr>pmem := m\<rparr>)"
  by simp

lemmas [mem_frame] = kalloc_state kfree_state

lemma walk_level_mem_only [mem_frame]:
  "walk_level l pt va alloc s = (r, t) \<Longrightarrow> mem_only s t"
proof (induction l arbitrary: pt s)
  case (Suc l)
  let ?e = "load64 (pmem s) (slot pt (unat (PX (Suc l) va)))"
  obtain pg s1 where ka: "kalloc s = (pg, s1)" by fastforce
  have s1: "mem_only s s1" using ka by (rule kalloc_state)
  show ?case
  proof (cases "?e AND PTE_V \<noteq> 0 \<or> \<not> alloc \<or> pg = 0")
    case True
    then show ?thesis using Suc ka s1 by (auto simp: Let_def split: if_splits)
  next
    case False
    then have "walk_level l pg va alloc
        (s1\<lparr>pmem := store64 (memset (pmem s1) pg 0 4096) (slot pt (unat (PX (Suc l) va))) (PA2PTE pg OR PTE_V)\<rparr>) = (r, t)"
      using Suc.prems ka by (simp add: Let_def)
    from Suc.IH [OF this] have "mem_only s1 t" by (simp add: mem_only_def)
    with s1 show ?thesis by (rule mem_only_trans)
  qed
qed simp

lemma walk_mem_only [mem_frame]: "walk pt va alloc s = Ok (r, t) \<Longrightarrow> mem_only s t"
  by (auto simp: walk_def split: if_splits intro: walk_level_mem_only)

lemma mappages_loop_mem_only:
  "mappages_loop pt a l pa perm s = Ok (r, t) \<Longrightarrow> mem_only s t"
proof (induction "2 ^ 64 - unat a" arbitrary: a pa s rule: less_induct)
  case less
  from less.prems obtain pte s1 where w: "walk pt a True s = Ok (pte, s1)"
    by (subst (asm) mappages_loop.simps) (auto split: prod.splits)
  have s1: "mem_only s s1" using w by (rule walk_mem_only)
  let ?s2 = "s1\<lparr>pmem := store64 (pmem s1) pte (PA2PTE pa OR perm OR PTE_V)\<rparr>"
  consider "t = s1" | "t = ?s2" | "mappages_loop pt (a + PGSIZE) l (pa + PGSIZE) perm ?s2 = Ok (r, t)"
    using less.prems w by (subst (asm) mappages_loop.simps) (auto simp: Let_def split: if_splits)
  then show ?case
  proof cases
    case 3
    from less.hyps [OF va_step [OF walk_Ok_lt [OF w]] this] have "mem_only s1 t"
      by (simp add: mem_only_def)
    with s1 show ?thesis by (rule mem_only_trans)
  qed (use s1 in simp_all)
qed

lemma mappages_mem_only [mem_frame]: "mappages pt va sz pa perm s = Ok (r, t) \<Longrightarrow> mem_only s t"
  unfolding mappages_def by (rule mappages_loop_mem_only)

lemma uvmunmap_loop_mem_only:
  "uvmunmap_loop pt a e do_free s = Ok t \<Longrightarrow> mem_only s t"
proof (induction "2 ^ 64 - unat a" arbitrary: a s rule: less_induct)
  case less
  show ?case
  proof (cases "a < e")
    case False
    then show ?thesis using less.prems by (subst (asm) uvmunmap_loop.simps) simp
  next
    case True
    from less.prems True obtain pte s1 s2 where w: "walk pt a False s = Ok (pte, s1)"
        "(if do_free then kfree (PTE2PA (load64 (pmem s1) pte)) s1 else Ok s1) = Ok s2"
        "uvmunmap_loop pt (a + PGSIZE) e do_free (s2\<lparr>pmem := store64 (pmem s2) pte 0\<rparr>) = Ok t"
      by (subst (asm) uvmunmap_loop.simps) (auto simp: Let_def split: if_splits prod.splits)
    have "mem_only s s1" using w(1) by (rule walk_mem_only)
    also have "mem_only s1 s2" using w(2) kfree_state by (auto split: if_splits)
    also have "mem_only s2 t"
      using less.hyps [OF va_step [OF walk_Ok_lt [OF w(1)]] w(3)] by (simp add: mem_only_def)
    finally show ?thesis .
  qed
qed

lemma uvmunmap_mem_only [mem_frame]: "uvmunmap pt va n do_free s = Ok t \<Longrightarrow> mem_only s t"
  by (auto simp: uvmunmap_def split: if_splits intro: uvmunmap_loop_mem_only)

lemma uvmcreate_mem_only [mem_frame]: "uvmcreate s = (r, t) \<Longrightarrow> mem_only s t"
  by (auto simp: uvmcreate_def split: prod.splits if_splits dest: kalloc_state)

lemma uvmdealloc_mem_only [mem_frame]: "uvmdealloc pt oldsz newsz s = Ok (r, t) \<Longrightarrow> mem_only s t"
  by (auto simp: uvmdealloc_def Let_def split: if_splits intro: uvmunmap_mem_only)

lemma uvmalloc_loop_mem_only:
  "uvmalloc_loop pt oldsz newsz a s = Ok (r, t) \<Longrightarrow> mem_only s t"
proof (induction "2 ^ 64 - unat a" arbitrary: a s rule: less_induct)
  case less
  obtain mem s1 where ka: "kalloc s = (mem, s1)" by fastforce
  have s1: "mem_only s s1" using ka by (rule kalloc_state)
  let ?s2 = "s1\<lparr>pmem := memset (pmem s1) mem 0 4096\<rparr>"
  show ?case
  proof (cases "a < newsz \<and> mem \<noteq> 0")
    case False
    then show ?thesis using less.prems ka s1 uvmdealloc_mem_only mem_only_trans
      by (subst (asm) uvmalloc_loop.simps) (fastforce split: if_splits)
  next
    case True
    from less.prems True ka obtain r' s3 where m: "mappages pt a PGSIZE mem (PTE_W OR PTE_X OR PTE_R OR PTE_U) ?s2 = Ok (r', s3)"
      by (subst (asm) uvmalloc_loop.simps) (auto split: if_splits prod.splits)
    have s3: "mem_only s s3"
      using mem_only_trans [OF s1] mappages_mem_only [OF m] by (simp add: mem_only_def)
    show ?thesis
    proof (cases "r' = 0")
      case True
      then have "uvmalloc_loop pt oldsz newsz (a + PGSIZE) s3 = Ok (r, t)"
        using less.prems \<open>a < newsz \<and> mem \<noteq> 0\<close> ka m by (subst (asm) uvmalloc_loop.simps) simp
      from less.hyps [OF va_step [OF mappages_Ok_lt [OF m]] this] show ?thesis
        using mem_only_trans [OF s3] by blast
    next
      case False
      then obtain s4 r'' where "kfree mem s3 = Ok s4" "uvmdealloc pt a oldsz s4 = Ok (r'', t)"
        using less.prems \<open>a < newsz \<and> mem \<noteq> 0\<close> ka m by (subst (asm) uvmalloc_loop.simps) auto
      then have "mem_only s3 s4" "mem_only s4 t" by (auto intro: kfree_state uvmdealloc_mem_only)
      then show ?thesis using s3 by (auto intro: mem_only_trans)
    qed
  qed
qed

lemma uvmalloc_mem_only [mem_frame]: "uvmalloc pt oldsz newsz s = Ok (r, t) \<Longrightarrow> mem_only s t"
  by (auto simp: uvmalloc_def split: if_splits intro: uvmalloc_loop_mem_only)

lemma freewalk_fuel_mem_only:
  "freewalk_fuel n pt s = Ok t \<Longrightarrow> mem_only s t" "freewalk_loop n pt is s = Ok t \<Longrightarrow> mem_only s t"
proof (induction n pt s and n pt "is" s arbitrary: t and t rule: freewalk_fuel_freewalk_loop.induct)
  case (4 n pt i "is" s)
  let ?e = "load64 (pmem s) (slot pt i)"
  show ?case
  proof (cases "?e AND PTE_V \<noteq> 0 \<and> ?e AND (PTE_R OR PTE_W OR PTE_X) = 0")
    case True
    with "4.prems" obtain s1 where s1: "freewalk_fuel n (PTE2PA ?e) s = Ok s1"
        "freewalk_loop n pt is (s1\<lparr>pmem := store64 (pmem s1) (slot pt i) 0\<rparr>) = Ok t"
      by (auto simp: Let_def)
    have "mem_only s s1" using "4.IH"(1) [OF refl True s1(1)] .
    moreover have "mem_only s1 t" using "4.IH"(2) [OF refl True s1] by (simp add: mem_only_def)
    ultimately show ?thesis by (rule mem_only_trans)
  next
    case False
    then show ?thesis using "4.IH"(3) [OF refl False] "4.prems" by (auto simp: Let_def split: if_splits)
  qed
qed (auto intro: mem_only_trans kfree_state)

lemma freewalk_mem_only [mem_frame]: "freewalk pt s = Ok t \<Longrightarrow> mem_only s t"
  unfolding freewalk_def by (rule freewalk_fuel_mem_only)

lemma uvmfree_mem_only [mem_frame]: "uvmfree pt sz s = Ok t \<Longrightarrow> mem_only s t"
  unfolding uvmfree_def
  by (auto split: if_splits intro: mem_only_trans freewalk_mem_only uvmunmap_mem_only)

lemma uvmcopy_loop_mem_only:
  "uvmcopy_loop old new sz i s = Ok (r, t) \<Longrightarrow> mem_only s t"
proof (induction "2 ^ 64 - unat i" arbitrary: i s rule: less_induct)
  case less
  show ?case
  proof (cases "i < sz")
    case False
    then show ?thesis using less.prems by (subst (asm) uvmcopy_loop.simps) simp
  next
    case True
    with less.prems obtain pte s0 where w: "walk old i False s = Ok (pte, s0)"
      by (subst (asm) uvmcopy_loop.simps) (auto split: prod.splits)
    obtain mem s1 where ka: "kalloc s0 = (mem, s1)" by fastforce
    have s1: "mem_only s s1" using walk_mem_only [OF w] kalloc_state [OF ka] by (rule mem_only_trans)
    let ?e = "load64 (pmem s0) pte"
    let ?s2 = "s1\<lparr>pmem := memmove (pmem s1) mem (PTE2PA ?e) 4096\<rparr>"
    show ?thesis
    proof (cases "mem = 0")
      case True
      with less.prems \<open>i < sz\<close> w ka obtain s3 where "uvmunmap new 0 (i div PGSIZE) True s1 = Ok s3" "t = s3"
        by (subst (asm) uvmcopy_loop.simps) (auto simp: Let_def split: if_splits)
      then show ?thesis using s1 uvmunmap_mem_only mem_only_trans by blast
    next
      case False
      with less.prems \<open>i < sz\<close> w ka obtain r' s3 where m: "mappages new i PGSIZE mem (PTE_FLAGS ?e) ?s2 = Ok (r', s3)"
        by (subst (asm) uvmcopy_loop.simps) (auto simp: Let_def split: if_splits prod.splits)
      have s3: "mem_only s s3" using mem_only_trans [OF s1] mappages_mem_only [OF m] by (simp add: mem_only_def)
      show ?thesis
      proof (cases "r' = 0")
        case True
        then have "uvmcopy_loop old new sz (i + PGSIZE) s3 = Ok (r, t)"
          using less.prems \<open>i < sz\<close> \<open>mem \<noteq> 0\<close> w ka m
          by (subst (asm) uvmcopy_loop.simps) (simp add: Let_def split: if_splits)
        from less.hyps [OF va_step [OF walk_Ok_lt [OF w]] this] show ?thesis
          using mem_only_trans [OF s3] by blast
      next
        case False
        then obtain s4 where "kfree mem s3 = Ok s4" "uvmunmap new 0 (i div PGSIZE) True s4 = Ok t"
          using less.prems \<open>i < sz\<close> \<open>mem \<noteq> 0\<close> w ka m
          by (subst (asm) uvmcopy_loop.simps) (auto simp: Let_def split: if_splits)
        then have "mem_only s3 s4" "mem_only s4 t" by (auto intro: kfree_state uvmunmap_mem_only)
        then show ?thesis using s3 by (auto intro: mem_only_trans)
      qed
    qed
  qed
qed

lemma uvmcopy_mem_only [mem_frame]: "uvmcopy old new sz s = Ok (r, t) \<Longrightarrow> mem_only s t"
  unfolding uvmcopy_def by (rule uvmcopy_loop_mem_only)

lemma copyout_buf_mem_only [mem_frame]: "copyout_buf pt va bs s = (r, t) \<Longrightarrow> mem_only s t"
proof (induction "length bs" arbitrary: va bs s rule: less_induct)
  case less
  show ?case
  proof (cases "bs \<noteq> [] \<and> walkaddr pt (PGROUNDDOWN va) s \<noteq> 0")
    case False
    then show ?thesis using less.prems by (subst (asm) copyout_buf.simps) (auto simp: Let_def split: if_splits)
  next
    case True
    let ?n = "4096 - unat (va - PGROUNDDOWN va)"
    have "unat (va - PGROUNDDOWN va) < 4096" using unat_pgoff [of va] by (simp add: pgoff_def)
    moreover have "0 < length bs" using True by simp
    ultimately have "length (drop ?n bs) < length bs" unfolding length_drop by linarith
    moreover have "copyout_buf pt (PGROUNDDOWN va + PGSIZE) (drop ?n bs)
        (s\<lparr>pmem := write_bytes (pmem s) (walkaddr pt (PGROUNDDOWN va) s + (va - PGROUNDDOWN va)) (take ?n bs)\<rparr>) = (r, t)"
      using less.prems True by (subst (asm) copyout_buf.simps) (simp add: Let_def)
    ultimately show ?thesis using less.hyps by (fastforce simp: mem_only_def)
  qed
qed

lemma uvminit_mem_only [mem_frame]: "uvminit pt src sz s = Ok t \<Longrightarrow> mem_only s t"
  unfolding uvminit_def
  by (auto split: if_splits prod.splits dest!: kalloc_state mappages_mem_only simp: mem_only_def)

lemma uvmclear_mem_only [mem_frame]: "uvmclear pt va s = Ok t \<Longrightarrow> mem_only s t"
  unfolding uvmclear_def by (auto split: if_splits dest!: walk_mem_only)

lemma kvmmap_mem_only [mem_frame]: "kvmmap va pa sz perm s = Ok t \<Longrightarrow> mem_only s t"
  unfolding kvmmap_def by (auto split: if_splits dest!: mappages_mem_only)

end
