(* ===== verification/Proc.thy ===== *)
theory Proc
  imports VmFrame
begin

text \<open>
  The process table (kernel/proc.c, kernel/proc.h). Pointers to \<open>struct proc\<close> are indices into the
  table, the null pointer is \<open>None\<close>. Each section under \<open>p->lock\<close> or \<open>pid_lock\<close> is one atomic step.
  \<open>sched()\<close> and \<open>swtch()\<close> hand the processor over: a function that sleeps ends in the outcome
  \<open>Sleep\<close> with the channel, and \<open>scheduler\<close> takes the execution of a process up to its next call of
  \<open>sched\<close> as a parameter. \<open>fork\<close>, \<open>exit\<close> and \<open>userinit\<close>, which also work on open files, are in the
  theory of process lifetimes.
\<close>

section \<open>State\<close>

datatype procstate = UNUSED | SLEEPING | RUNNABLE | RUNNING | ZOMBIE

record proc =
  p_state :: procstate
  p_parent :: "nat option"
  p_chan :: chan
  p_killed :: int
  p_xstate :: int
  p_pid :: int
  p_kstack :: u64
  p_sz :: u64
  p_pagetable :: u64
  p_trapframe :: u64
  p_ra :: u64
  p_sp :: u64
  p_ofile :: "nat option list"
  p_cwd :: "nat option"
  p_name :: "u8 list"

record ptab = vmem +
  procs :: "proc list"
  nextpid :: int
  cur :: "nat option"
  initproc :: "nat option"
  forkret :: u64

abbreviation (input) NPROC :: nat where "NPROC \<equiv> 64"
abbreviation (input) NOFILE :: nat where "NOFILE \<equiv> 16"

definition KSTACK :: "nat \<Rightarrow> u64" where
  "KSTACK p = TRAMPOLINE - of_nat (p + 1) * 2 * PGSIZE"

definition upd_proc :: "nat \<Rightarrow> (proc \<Rightarrow> proc) \<Rightarrow> 'a ptab_scheme \<Rightarrow> 'a ptab_scheme" where
  "upd_proc i f s = s\<lparr>procs := (procs s)[i := f (procs s ! i)]\<rparr>"

definition with_proc :: "'a ptab_scheme \<Rightarrow> (nat \<Rightarrow> 'b result) \<Rightarrow> 'b result" where
  "with_proc s f = (case cur s of None \<Rightarrow> Undef ''myproc'' | Some p \<Rightarrow> f p)"

section \<open>Operations\<close>

fun procinit_loop :: "nat list \<Rightarrow> 'a ptab_scheme \<Rightarrow> 'a ptab_scheme result" where
  "procinit_loop [] s = Ok s"
| "procinit_loop (p # ps) s =
     (case kalloc s of (pa, s) \<Rightarrow>
        if pa = 0 then Panic ''kalloc''
        else
          let va = KSTACK p
          in andthen (kvmmap va pa PGSIZE (PTE_R OR PTE_W) s) (\<lambda>s.
               procinit_loop ps (upd_proc p (\<lambda>q. q\<lparr>p_kstack := va\<rparr>) s)))"

definition procinit :: "'a ptab_scheme \<Rightarrow> 'a ptab_scheme result" where
  "procinit s = procinit_loop [0..<NPROC] s"

definition allocpid :: "'a ptab_scheme \<Rightarrow> int \<times> 'a ptab_scheme" where
  "allocpid s = (nextpid s, s\<lparr>nextpid := nextpid s + 1\<rparr>)"

text \<open>The argument is the address of the process's trapframe page.\<close>

definition proc_pagetable :: "u64 \<Rightarrow> 'a vmem_scheme \<Rightarrow> (u64 \<times> 'a vmem_scheme) result" where
  "proc_pagetable trapframe s =
     (case uvmcreate s of (pagetable, s) \<Rightarrow>
        if pagetable = 0 then Ok (0, s)
        else
          andthen (mappages pagetable TRAMPOLINE PGSIZE (trampoline s) (PTE_R OR PTE_X) s) (\<lambda>(r, s).
            if r < 0 then andthen (uvmfree pagetable 0 s) (\<lambda>s. Ok (0, s))
            else
              andthen (mappages pagetable TRAPFRAME PGSIZE trapframe (PTE_R OR PTE_W) s) (\<lambda>(r, s).
                if r < 0 then
                  andthen (uvmunmap pagetable TRAMPOLINE 1 False s) (\<lambda>s.
                    andthen (uvmfree pagetable 0 s) (\<lambda>s. Ok (0, s)))
                else Ok (pagetable, s))))"

definition proc_freepagetable :: "u64 \<Rightarrow> u64 \<Rightarrow> 'a vmem_scheme \<Rightarrow> 'a vmem_scheme result" where
  "proc_freepagetable pagetable sz s =
     andthen (uvmunmap pagetable TRAMPOLINE 1 False s) (\<lambda>s.
       andthen (uvmunmap pagetable TRAPFRAME 1 False s) (\<lambda>s.
         uvmfree pagetable sz s))"

definition freeproc :: "nat \<Rightarrow> 'a ptab_scheme \<Rightarrow> 'a ptab_scheme result" where
  "freeproc i s =
     (let p = procs s ! i
      in andthen (if p_trapframe p \<noteq> 0 then kfree (p_trapframe p) s else Ok s) (\<lambda>s.
         andthen (if p_pagetable p \<noteq> 0 then proc_freepagetable (p_pagetable p) (p_sz p) s else Ok s) (\<lambda>s.
           Ok (upd_proc i (\<lambda>p. p\<lparr>p_trapframe := 0, p_pagetable := 0, p_sz := 0, p_pid := 0, p_parent := None,
             p_name := (p_name p)[0 := 0], p_chan := ChanNone, p_killed := 0, p_xstate := 0,
             p_state := UNUSED\<rparr>) s))))"

definition find_unused :: "proc list \<Rightarrow> nat option" where
  "find_unused ps = find (\<lambda>i. p_state (ps ! i) = UNUSED) [0..<NPROC]"

definition allocproc :: "'a ptab_scheme \<Rightarrow> (nat option \<times> 'a ptab_scheme) result" where
  "allocproc s =
     (case find_unused (procs s) of
        None \<Rightarrow> Ok (None, s)
      | Some i \<Rightarrow>
          (case allocpid s of (pid, s) \<Rightarrow>
           let s = upd_proc i (\<lambda>p. p\<lparr>p_pid := pid\<rparr>) s
           in case kalloc s of (tf, s) \<Rightarrow>
             let s = upd_proc i (\<lambda>p. p\<lparr>p_trapframe := tf\<rparr>) s
             in if tf = 0 then Ok (None, s)
                else
                  andthen (proc_pagetable tf s) (\<lambda>(pt, s).
                    let s = upd_proc i (\<lambda>p. p\<lparr>p_pagetable := pt\<rparr>) s
                    in if pt = 0 then andthen (freeproc i s) (\<lambda>s. Ok (None, s))
                       else Ok (Some i, upd_proc i (\<lambda>p. p\<lparr>p_ra := forkret s, p_sp := p_kstack p + PGSIZE\<rparr>) s))))"

text \<open>The size is held in a 32-bit \<open>uint\<close> and \<open>sz + n\<close> is computed at that width.\<close>

definition growproc :: "int \<Rightarrow> 'a ptab_scheme \<Rightarrow> (int \<times> 'a ptab_scheme) result" where
  "growproc n s =
     with_proc s (\<lambda>p.
       let pt = p_pagetable (procs s ! p);
           sz = (ucast (p_sz (procs s ! p)) :: u32);
           done = (\<lambda>sz s. Ok (0, upd_proc p (\<lambda>q. q\<lparr>p_sz := ucast (sz :: u32)\<rparr>) s))
       in if n > 0 then
            andthen (uvmalloc pt (ucast sz) (ucast (sz + of_int n)) s) (\<lambda>(r, s).
              if (ucast r :: u32) = 0 then Ok (-1, s) else done (ucast r) s)
          else if n < 0 then
            andthen (uvmdealloc pt (ucast sz) (ucast (sz + of_int n)) s) (\<lambda>(r, s). done (ucast r) s)
          else done sz s)"

definition reparent :: "nat \<Rightarrow> 'a ptab_scheme \<Rightarrow> 'a ptab_scheme" where
  "reparent p s =
     s\<lparr>procs := map (\<lambda>pp. if p_parent pp = Some p then pp\<lparr>p_parent := initproc s\<rparr> else pp) (procs s)\<rparr>"

definition sleep :: "chan \<Rightarrow> 'a ptab_scheme \<Rightarrow> 'a ptab_scheme result" where
  "sleep chan s = with_proc s (\<lambda>p. Ok (upd_proc p (\<lambda>q. q\<lparr>p_chan := chan, p_state := SLEEPING\<rparr>) s))"

text \<open>What \<open>sleep\<close> does when the process runs again.\<close>

definition sleep_return :: "'a ptab_scheme \<Rightarrow> 'a ptab_scheme result" where
  "sleep_return s = with_proc s (\<lambda>p. Ok (upd_proc p (\<lambda>q. q\<lparr>p_chan := ChanNone\<rparr>) s))"

definition wakeup :: "chan \<Rightarrow> 'a ptab_scheme \<Rightarrow> 'a ptab_scheme" where
  "wakeup chan s =
     s\<lparr>procs := map (\<lambda>p. if p_state p = SLEEPING \<and> p_chan p = chan then p\<lparr>p_state := RUNNABLE\<rparr> else p) (procs s)\<rparr>"

definition wakeup1 :: "nat \<Rightarrow> 'a ptab_scheme \<Rightarrow> 'a ptab_scheme" where
  "wakeup1 i s =
     (if p_chan (procs s ! i) = ChanProc i \<and> p_state (procs s ! i) = SLEEPING
      then upd_proc i (\<lambda>p. p\<lparr>p_state := RUNNABLE\<rparr>) s else s)"

text \<open>The part of \<open>wait\<close> that scans the table: the children of \<open>p\<close>, and the first zombie among them.\<close>

definition children :: "proc list \<Rightarrow> nat \<Rightarrow> nat list" where
  "children ps p = filter (\<lambda>i. p_parent (ps ! i) = Some p) [0..<NPROC]"

definition wait :: "u64 \<Rightarrow> 'a ptab_scheme \<Rightarrow> (int \<times> 'a ptab_scheme) result" where
  "wait addr s =
     with_proc s (\<lambda>p.
       case find (\<lambda>i. p_state (procs s ! i) = ZOMBIE) (children (procs s) p) of
         Some np \<Rightarrow>
           let pid = p_pid (procs s ! np);
               x = le_encode 4 (word_of_int (p_xstate (procs s ! np)) :: u32)
           in (case (if addr \<noteq> 0 then copyout_buf (p_pagetable (procs s ! p)) addr x s else (0, s)) of (r, s) \<Rightarrow>
               if r < 0 then Ok (-1, s)
               else andthen (freeproc np s) (\<lambda>s. Ok (pid, s)))
       | None \<Rightarrow>
           if children (procs s) p = [] \<or> p_killed (procs s ! p) \<noteq> 0 then Ok (-1, s)
           else Sleep (ChanProc p))"

definition kill :: "int \<Rightarrow> 'a ptab_scheme \<Rightarrow> int \<times> 'a ptab_scheme" where
  "kill pid s =
     (case find (\<lambda>i. p_pid (procs s ! i) = pid) [0..<NPROC] of
        None \<Rightarrow> (-1, s)
      | Some i \<Rightarrow>
          (0, upd_proc i (\<lambda>p. p\<lparr>p_killed := 1, p_state := if p_state p = SLEEPING then RUNNABLE else p_state p\<rparr>) s))"

definition yield :: "'a ptab_scheme \<Rightarrow> 'a ptab_scheme result" where
  "yield s = with_proc s (\<lambda>p. Ok (upd_proc p (\<lambda>q. q\<lparr>p_state := RUNNABLE\<rparr>) s))"

text \<open>
  One pass of \<open>scheduler\<close> over the table. \<open>run p\<close> is what process \<open>p\<close> and everything it triggers do to
  the kernel state from its resumption in \<open>swtch\<close> until it switches back.
\<close>

definition scheduler_visit :: "(nat \<Rightarrow> 'a ptab_scheme \<Rightarrow> 'a ptab_scheme) \<Rightarrow> nat \<Rightarrow> 'a ptab_scheme \<Rightarrow> 'a ptab_scheme" where
  "scheduler_visit run i s =
     (if p_state (procs s ! i) = RUNNABLE
      then (run i (upd_proc i (\<lambda>p. p\<lparr>p_state := RUNNING\<rparr>) s\<lparr>cur := Some i\<rparr>))\<lparr>cur := None\<rparr>
      else s)"

definition scheduler_pass :: "(nat \<Rightarrow> 'a ptab_scheme \<Rightarrow> 'a ptab_scheme) \<Rightarrow> 'a ptab_scheme \<Rightarrow> 'a ptab_scheme" where
  "scheduler_pass run s = fold (scheduler_visit run) [0..<NPROC] s"

text \<open>\<open>either_copyout\<close> and \<open>either_copyin\<close>, by value on the kernel side that is not an address.\<close>

definition either_copyout :: "bool \<Rightarrow> u64 \<Rightarrow> u8 list \<Rightarrow> 'a ptab_scheme \<Rightarrow> (int \<times> 'a ptab_scheme) result" where
  "either_copyout user_dst dst src s =
     with_proc s (\<lambda>p.
       if user_dst then Ok (copyout_buf (p_pagetable (procs s ! p)) dst src s)
       else Ok (0, s\<lparr>pmem := write_bytes (pmem s) dst src\<rparr>))"

definition either_copyin :: "bool \<Rightarrow> u64 \<Rightarrow> u64 \<Rightarrow> 'a ptab_scheme \<Rightarrow> (int \<times> u8 list) result" where
  "either_copyin user_src src len s =
     with_proc s (\<lambda>p.
       if user_src then Ok (copyin_buf (p_pagetable (procs s ! p)) src len s)
       else Ok (0, read_bytes (pmem s) src (unat len)))"

end
