(* ===== verification/Virtio.thy ===== *)
theory Virtio
  imports Proc
begin

text \<open>
  The virtio disk driver (kernel/virtio_disk.c). The three areas shared with the device are fields of
  the state: the descriptor table, the available ring, which the driver fills, and the used ring,
  which the device fills. \<open>virtio_disk_rw\<close> sleeps twice, so it is split there: \<open>virtio_submit\<close> is its body
  up to the second sleep, \<open>virtio_finish\<close> what it does once the request is complete. The device
  registers that \<open>virtio_disk_init\<close> reads are an argument of it.
\<close>

section \<open>State\<close>

record vringdesc =
  vd_addr :: u64
  vd_len :: u32
  vd_flags :: u16
  vd_next :: u16

record blk_outhdr =
  oh_type :: u32
  oh_reserved :: u32
  oh_sector :: u64

record vdst = ptab +
  v_desc :: "vringdesc list"
  v_avail_idx :: u16
  v_avail :: "u16 list"
  v_used_id :: u16
  v_elems :: "u32 list"
  v_free :: "bool list"
  v_used_idx :: u16
  v_info_b :: "nat option list"
  v_info_status :: "u8 list"
  v_hdr :: "blk_outhdr list"
  v_busy :: "nat \<Rightarrow> bool"
  v_regs :: "(u64 \<times> u32) list"

abbreviation (input) NUM :: nat where "NUM \<equiv> 8"
abbreviation (input) VRING_DESC_F_NEXT :: u16 where "VRING_DESC_F_NEXT \<equiv> 1"
abbreviation (input) VRING_DESC_F_WRITE :: u16 where "VRING_DESC_F_WRITE \<equiv> 2"

text \<open>\<open>v_hdr\<close> holds the request header \<open>buf0\<close> of the chain that starts at a descriptor, \<open>v_busy\<close> the
  field \<open>disk\<close> of each buffer, and \<open>v_regs\<close> the register writes in order.\<close>

section \<open>Operations\<close>

definition vreg :: "u64 \<Rightarrow> u32 \<Rightarrow> 'a vdst_scheme \<Rightarrow> 'a vdst_scheme" where
  "vreg r v s = s\<lparr>v_regs := v_regs s @ [(r, v)]\<rparr>"

definition virtio_disk_init :: "(u64 \<Rightarrow> u32) \<Rightarrow> u64 \<Rightarrow> 'a vdst_scheme \<Rightarrow> 'a vdst_scheme result" where
  "virtio_disk_init R pages s =
     (if R 0x000 \<noteq> 0x74726976 \<or> R 0x004 \<noteq> 1 \<or> R 0x008 \<noteq> 2 \<or> R 0x00c \<noteq> 0x554d4551
      then Panic ''could not find virtio disk''
      else
        let features = R 0x010 AND NOT (push_bit 5 1) AND NOT (push_bit 7 1) AND NOT (push_bit 11 1)
                         AND NOT (push_bit 12 1) AND NOT (push_bit 27 1) AND NOT (push_bit 29 1) AND NOT (push_bit 28 1);
            s = vreg 0x070 3 (vreg 0x070 1 s);
            s = vreg 0x020 features s;
            s = vreg 0x070 15 (vreg 0x070 11 s);
            s = vreg 0x030 0 (vreg 0x028 4096 s);
            mx = R 0x034
        in if mx = 0 then Panic ''virtio disk has no queue 0''
           else if mx < of_nat NUM then Panic ''virtio disk max queue too short''
           else
             let s = vreg 0x040 (ucast (drop_bit 12 pages)) (vreg 0x038 (of_nat NUM) s)
             in Ok (s\<lparr>v_desc := replicate NUM \<lparr>vd_addr = 0, vd_len = 0, vd_flags = 0, vd_next = 0\<rparr>,
                      v_avail_idx := 0, v_avail := replicate NUM 0, v_used_id := 0, v_elems := replicate NUM 0,
                      v_free := replicate NUM True\<rparr>))"

definition alloc_desc :: "'a vdst_scheme \<Rightarrow> nat option \<times> 'a vdst_scheme" where
  "alloc_desc s =
     (case find (\<lambda>i. v_free s ! i) [0..<NUM] of
        None \<Rightarrow> (None, s)
      | Some i \<Rightarrow> (Some i, s\<lparr>v_free := (v_free s)[i := False]\<rparr>))"

definition free_desc :: "nat \<Rightarrow> 'a vdst_scheme \<Rightarrow> 'a vdst_scheme result" where
  "free_desc i s =
     (if i \<ge> NUM then Panic ''virtio_disk_intr 1''
      else if v_free s ! i then Panic ''virtio_disk_intr 2''
      else Ok (wakeup ChanDiskFree (s\<lparr>v_desc := (v_desc s)[i := (v_desc s ! i)\<lparr>vd_addr := 0\<rparr>],
                                      v_free := (v_free s)[i := True]\<rparr>)))"

definition used_descs :: "bool list \<Rightarrow> nat" where
  "used_descs free = card {i. i < length free \<and> \<not> free ! i}"

lemma used_descs_free: "i < length free \<Longrightarrow> \<not> free ! i \<Longrightarrow> used_descs (free[i := True]) < used_descs free"
  unfolding used_descs_def by (rule psubset_card_mono) (auto simp: nth_list_update)

text \<open>\<open>free_desc\<close> panics on a descriptor that is already free, so the loop ends on any chain.\<close>

function free_chain :: "nat \<Rightarrow> 'a vdst_scheme \<Rightarrow> 'a vdst_scheme result" where
  "free_chain i s =
     (if length (v_free s) \<noteq> NUM then Undef ''free_chain''
      else andthen (free_desc i s) (\<lambda>s.
        if vd_flags (v_desc s ! i) AND VRING_DESC_F_NEXT \<noteq> 0 then free_chain (unat (vd_next (v_desc s ! i))) s
        else Ok s))"
  by pat_completeness auto
termination
  by (relation "measure (\<lambda>(i, s). used_descs (v_free s))")
    (auto simp: free_desc_def wakeup_def used_descs_free split: if_splits)

declare free_chain.simps [simp del]

fun free_descs :: "nat list \<Rightarrow> 'a vdst_scheme \<Rightarrow> 'a vdst_scheme result" where
  "free_descs [] s = Ok s"
| "free_descs (i # is) s = andthen (free_desc i s) (\<lambda>s. free_descs is s)"

fun alloc_descs :: "nat \<Rightarrow> nat list \<Rightarrow> 'a vdst_scheme \<Rightarrow> (nat list option \<times> 'a vdst_scheme) result" where
  "alloc_descs 0 idx s = Ok (Some idx, s)"
| "alloc_descs (Suc k) idx s =
     (case alloc_desc s of
        (Some i, s) \<Rightarrow> alloc_descs k (idx @ [i]) s
      | (None, s) \<Rightarrow> andthen (free_descs idx s) (\<lambda>s. Ok (None, s)))"

definition alloc3_desc :: "'a vdst_scheme \<Rightarrow> (nat list option \<times> 'a vdst_scheme) result" where
  "alloc3_desc s = alloc_descs 3 [] s"

text \<open>
  The buffer \<open>b\<close> holds block \<open>blockno\<close> and its data is at \<open>data\<close>; \<open>buf0\<close> is the physical address of the
  header on the kernel stack and \<open>status_at i\<close> the address of \<open>disk.info[i].status\<close>.
\<close>

definition virtio_submit :: "nat \<Rightarrow> u32 \<Rightarrow> u64 \<Rightarrow> bool \<Rightarrow> u64 \<Rightarrow> (nat \<Rightarrow> u64) \<Rightarrow> 'a vdst_scheme \<Rightarrow>
    (nat \<times> 'a vdst_scheme) result" where
  "virtio_submit b blockno data write buf0 status_at s =
     (let sector = (ucast (blockno * 2) :: u64)
      in andthen (alloc3_desc s) (\<lambda>(r, s).
           case r of
             None \<Rightarrow> Sleep ChanDiskFree
           | Some idx \<Rightarrow>
               let i0 = idx ! 0; i1 = idx ! 1; i2 = idx ! 2;
                   hdr = \<lparr>oh_type = (if write then 1 else 0), oh_reserved = 0, oh_sector = sector\<rparr>;
                   d = v_desc s;
                   d = d[i0 := \<lparr>vd_addr = buf0, vd_len = 16, vd_flags = VRING_DESC_F_NEXT, vd_next = of_nat i1\<rparr>];
                   d = d[i1 := \<lparr>vd_addr = data, vd_len = 1024,
                         vd_flags = (if write then 0 else VRING_DESC_F_WRITE) OR VRING_DESC_F_NEXT, vd_next = of_nat i2\<rparr>];
                   d = d[i2 := \<lparr>vd_addr = status_at i0, vd_len = 1, vd_flags = VRING_DESC_F_WRITE, vd_next = 0\<rparr>]
               in Ok (i0, vreg 0x050 0 (s\<lparr>v_hdr := (v_hdr s)[i0 := hdr], v_desc := d,
                     v_info_status := (v_info_status s)[i0 := 0], v_busy := (v_busy s)(b := True),
                     v_info_b := (v_info_b s)[i0 := Some b],
                     v_avail := (v_avail s)[unat (v_avail_idx s) mod NUM := of_nat i0],
                     v_avail_idx := v_avail_idx s + 1\<rparr>))))"

definition virtio_finish :: "nat \<Rightarrow> nat \<Rightarrow> 'a vdst_scheme \<Rightarrow> 'a vdst_scheme result" where
  "virtio_finish b i0 s =
     (if v_busy s b then Sleep (ChanBuf b)
      else free_chain i0 (s\<lparr>v_info_b := (v_info_b s)[i0 := None]\<rparr>))"

text \<open>\<open>isr\<close> is the value of the interrupt status register.\<close>

lemma ring_distance:
  "a < 8 \<Longrightarrow> v < 8 \<Longrightarrow> a \<noteq> v \<Longrightarrow> (v + (8 - (a + 1) mod 8)) mod 8 < (v + (8 - a)) mod (8 :: nat)"
  by (cases "a = 7"; cases "v < a") (auto simp: mod_if)

function virtio_intr_loop :: "'a vdst_scheme \<Rightarrow> 'a vdst_scheme result" where
  "virtio_intr_loop s =
     (if unat (v_used_idx s) mod NUM \<noteq> unat (v_used_id s) mod NUM then
        if unat (v_used_idx s) \<ge> NUM then Undef ''virtio_disk_intr: used_idx''
        else
          let i = unat (v_elems s ! unat (v_used_idx s))
          in if i \<ge> NUM then Undef ''virtio_disk_intr: id''
             else if v_info_status s ! i \<noteq> 0 then Panic ''virtio_disk_intr status''
             else case v_info_b s ! i of
               None \<Rightarrow> Undef ''virtio_disk_intr: null buf''
             | Some b \<Rightarrow>
                 virtio_intr_loop ((wakeup (ChanBuf b) (s\<lparr>v_busy := (v_busy s)(b := False)\<rparr>))
                   \<lparr>v_used_idx := (v_used_idx s + 1) mod 8\<rparr>)
      else Ok s)"
  by pat_completeness auto
termination
proof (relation "measure (\<lambda>s. (unat (v_used_id s) mod NUM + (NUM - unat (v_used_idx s))) mod NUM)")
  fix s :: "'a vdst_scheme" and x i b
  assume ne: "unat (v_used_idx s) mod NUM \<noteq> unat (v_used_id s) mod NUM" and lt: "\<not> NUM \<le> unat (v_used_idx s)"
  let ?a = "unat (v_used_idx s)" and ?u = "unat (v_used_id s)"
  have "unat ((v_used_idx s + 1) mod 8) = (?a + 1) mod NUM"
    using lt by (subst unat_mod_distrib) (simp add: unat_word_ariths)
  moreover have "(?u mod NUM + (NUM - (?a + 1) mod NUM)) mod NUM < (?u mod NUM + (NUM - ?a)) mod NUM"
    by (rule ring_distance) (use ne lt in auto)
  ultimately show "((wakeup (ChanBuf b) (s\<lparr>v_busy := (v_busy s)(b := False)\<rparr>))\<lparr>v_used_idx := (v_used_idx s + 1) mod 8\<rparr>, s)
    \<in> measure (\<lambda>s. (unat (v_used_id s) mod NUM + (NUM - unat (v_used_idx s))) mod NUM)"
    by (simp only: in_measure wakeup_def vdst.select_convs vdst.surjective vdst.update_convs ptab.select_convs) simp
qed simp

declare virtio_intr_loop.simps [simp del]

definition virtio_disk_intr :: "u32 \<Rightarrow> 'a vdst_scheme \<Rightarrow> 'a vdst_scheme result" where
  "virtio_disk_intr isr s = andthen (virtio_intr_loop s) (\<lambda>s. Ok (vreg 0x064 (isr AND 3) s))"

end
 
