(* ===== verification/Sleeplock.thy ===== *)
theory Sleeplock
  imports Virtio
begin

text \<open>
  Sleep locks (kernel/sleeplock.c). The inner spin lock makes each body one atomic step. A lock is
  a record; its owner keeps it in a field, and names it by the channel that stands for its address.
  \<open>acquiresleep\<close> on a held lock ends in \<open>Sleep\<close> on that channel: the loop of the code tries again
  after each wakeup.
\<close>

record sleeplock =
  sl_locked :: bool
  sl_pid :: int

definition initsleeplock :: sleeplock where
  "initsleeplock = \<lparr>sl_locked = False, sl_pid = 0\<rparr>"

definition acquiresleep :: "chan \<Rightarrow> sleeplock \<Rightarrow> 'a ptab_scheme \<Rightarrow> sleeplock result" where
  "acquiresleep lk l s =
     (if sl_locked l then Sleep lk
      else with_proc s (\<lambda>p. Ok \<lparr>sl_locked = True, sl_pid = p_pid (procs s ! p)\<rparr>))"

definition releasesleep :: "chan \<Rightarrow> sleeplock \<Rightarrow> 'a ptab_scheme \<Rightarrow> sleeplock \<times> 'a ptab_scheme" where
  "releasesleep lk l s = (\<lparr>sl_locked = False, sl_pid = 0\<rparr>, wakeup lk s)"

definition holdingsleep :: "sleeplock \<Rightarrow> 'a ptab_scheme \<Rightarrow> bool result" where
  "holdingsleep l s =
     (if sl_locked l then with_proc s (\<lambda>p. Ok (sl_pid l = p_pid (procs s ! p))) else Ok False)"

end
