(* ===== verification/Bio.thy ===== *)
theory Bio
  imports Sleeplock
begin

text \<open>
  The buffer cache (kernel/bio.c) over the disk. Buffers are named by their index in \<open>bcache.buf\<close>;
  the doubly linked list through \<open>bcache.head\<close> is the list of indices from \<open>head.next\<close> (most recently
  used) to \<open>head.prev\<close>. The disk maps block numbers to blocks, and \<open>virtio_disk_rw\<close> is the completed
  transfer of one block, in either direction; like the driver, it looks at the block number only.
  The field \<open>dwrites\<close> records the block writes that reached the disk, in order: the disk after a
  crash is the initial disk with some prefix of them.
\<close>

section \<open>State\<close>

type_synonym block = "u8 list"

record buf =
  b_valid :: bool
  b_dev :: u32
  b_blockno :: u32
  b_lock :: sleeplock
  b_refcnt :: u32
  b_data :: block

record bcache = vdst +
  disk :: "u32 \<Rightarrow> block"
  dwrites :: "(u32 \<times> block) list"
  bufs :: "buf list"
  lru :: "nat list"

abbreviation (input) NBUF :: nat where "NBUF \<equiv> 30"
abbreviation (input) BSIZE :: nat where "BSIZE \<equiv> 1024"

definition upd_buf :: "nat \<Rightarrow> (buf \<Rightarrow> buf) \<Rightarrow> 'a bcache_scheme \<Rightarrow> 'a bcache_scheme" where
  "upd_buf i f s = s\<lparr>bufs := (bufs s)[i := f (bufs s ! i)]\<rparr>"

abbreviation set_data :: "nat \<Rightarrow> block \<Rightarrow> 'a bcache_scheme \<Rightarrow> 'a bcache_scheme" where
  "set_data i d \<equiv> upd_buf i (\<lambda>b. b\<lparr>b_data := d\<rparr>)"

section \<open>Operations\<close>

definition binit :: "'a bcache_scheme \<Rightarrow> 'a bcache_scheme" where
  "binit s =
     fold (\<lambda>b s. (upd_buf b (\<lambda>x. x\<lparr>b_lock := initsleeplock\<rparr>) s)\<lparr>lru := b # lru s\<rparr>) [0..<NBUF] (s\<lparr>lru := []\<rparr>)"

definition virtio_disk_rw :: "nat \<Rightarrow> bool \<Rightarrow> 'a bcache_scheme \<Rightarrow> 'a bcache_scheme" where
  "virtio_disk_rw i wr s =
     (let n = b_blockno (bufs s ! i); d = b_data (bufs s ! i)
      in if wr then s\<lparr>disk := (disk s)(n := d), dwrites := dwrites s @ [(n, d)]\<rparr>
         else set_data i (disk s n) s)"

definition lock_buf :: "nat \<Rightarrow> 'a bcache_scheme \<Rightarrow> 'a bcache_scheme result" where
  "lock_buf i s =
     andthen (acquiresleep (ChanBufLock i) (b_lock (bufs s ! i)) s) (\<lambda>l.
       Ok (upd_buf i (\<lambda>b. b\<lparr>b_lock := l\<rparr>) s))"

definition bget :: "u32 \<Rightarrow> u32 \<Rightarrow> 'a bcache_scheme \<Rightarrow> (nat \<times> 'a bcache_scheme) result" where
  "bget dev blockno s =
     (case find (\<lambda>i. b_dev (bufs s ! i) = dev \<and> b_blockno (bufs s ! i) = blockno) (lru s) of
        Some i \<Rightarrow>
          andthen (lock_buf i (upd_buf i (\<lambda>b. b\<lparr>b_refcnt := b_refcnt b + 1\<rparr>) s)) (\<lambda>s. Ok (i, s))
      | None \<Rightarrow>
          (case find (\<lambda>i. b_refcnt (bufs s ! i) = 0) (rev (lru s)) of
             Some i \<Rightarrow>
               andthen (lock_buf i (upd_buf i (\<lambda>b. b\<lparr>b_dev := dev, b_blockno := blockno, b_valid := False,
                 b_refcnt := 1\<rparr>) s)) (\<lambda>s. Ok (i, s))
           | None \<Rightarrow> Panic ''bget: no buffers''))"

definition bread :: "u32 \<Rightarrow> u32 \<Rightarrow> 'a bcache_scheme \<Rightarrow> (nat \<times> 'a bcache_scheme) result" where
  "bread dev blockno s =
     andthen (bget dev blockno s) (\<lambda>(i, s).
       if \<not> b_valid (bufs s ! i)
       then Ok (i, upd_buf i (\<lambda>b. b\<lparr>b_valid := True\<rparr>) (virtio_disk_rw i False s))
       else Ok (i, s))"

definition bwrite :: "nat \<Rightarrow> 'a bcache_scheme \<Rightarrow> 'a bcache_scheme result" where
  "bwrite i s =
     andthen (holdingsleep (b_lock (bufs s ! i)) s) (\<lambda>h.
       if \<not> h then Panic ''bwrite'' else Ok (virtio_disk_rw i True s))"

definition brelse :: "nat \<Rightarrow> 'a bcache_scheme \<Rightarrow> 'a bcache_scheme result" where
  "brelse i s =
     andthen (holdingsleep (b_lock (bufs s ! i)) s) (\<lambda>h.
       if \<not> h then Panic ''brelse''
       else
         (case releasesleep (ChanBufLock i) (b_lock (bufs s ! i)) s of (l, s) \<Rightarrow>
          let s = upd_buf i (\<lambda>b. b\<lparr>b_lock := l\<rparr>) s;
              s = upd_buf i (\<lambda>b. b\<lparr>b_refcnt := b_refcnt b - 1\<rparr>) s
          in if b_refcnt (bufs s ! i) = 0 then Ok (s\<lparr>lru := i # remove1 i (lru s)\<rparr>) else Ok s))"

definition bpin :: "nat \<Rightarrow> 'a bcache_scheme \<Rightarrow> 'a bcache_scheme" where
  "bpin i s = upd_buf i (\<lambda>b. b\<lparr>b_refcnt := b_refcnt b + 1\<rparr>) s"

definition bunpin :: "nat \<Rightarrow> 'a bcache_scheme \<Rightarrow> 'a bcache_scheme" where
  "bunpin i s = upd_buf i (\<lambda>b. b\<lparr>b_refcnt := b_refcnt b - 1\<rparr>) s"

end
