(* ===== verification/Log.thy ===== *)
theory Log
  imports Bio
begin

text \<open>
  The redo log (kernel/log.c). The in-memory header \<open>log.lh\<close> is a count and an array of block numbers;
  its on-disk form is the first \<open>4 + 4 * 30\<close> bytes of the header block. Each section under \<open>log.lock\<close>
  is one atomic step.
\<close>

section \<open>State\<close>

record logheader =
  lh_n :: int
  lh_block :: "u32 list"

record logst = bcache +
  log_start :: u32
  log_size :: int
  log_outstanding :: int
  log_committing :: bool
  log_dev :: u32
  log_lh :: logheader

record superblock =
  sb_magic :: u32
  sb_size :: u32
  sb_nblocks :: u32
  sb_ninodes :: u32
  sb_nlog :: u32
  sb_logstart :: u32
  sb_inodestart :: u32
  sb_bmapstart :: u32

abbreviation (input) LOGSIZE :: nat where "LOGSIZE \<equiv> 30"
abbreviation (input) MAXOPBLOCKS :: nat where "MAXOPBLOCKS \<equiv> 10"

section \<open>Words in a block\<close>

text \<open>A block read and written as the C structures that the code casts its bytes to.\<close>

definition get_bytes :: "nat \<Rightarrow> nat \<Rightarrow> block \<Rightarrow> u8 list" where
  "get_bytes off n d = take n (drop off d)"

definition put_bytes :: "nat \<Rightarrow> u8 list \<Rightarrow> block \<Rightarrow> block" where
  "put_bytes off xs d = take off d @ xs @ drop (off + length xs) d"

definition get32 :: "nat \<Rightarrow> block \<Rightarrow> u32" where
  "get32 off d = le_decode (get_bytes off 4 d)"

definition put32 :: "nat \<Rightarrow> u32 \<Rightarrow> block \<Rightarrow> block" where
  "put32 off w d = put_bytes off (le_encode 4 w) d"

definition get16 :: "nat \<Rightarrow> block \<Rightarrow> u16" where
  "get16 off d = le_decode (get_bytes off 2 d)"

definition put16 :: "nat \<Rightarrow> u16 \<Rightarrow> block \<Rightarrow> block" where
  "put16 off w d = put_bytes off (le_encode 2 w) d"

named_theorems block_simps \<open>reading a block after a write to it\<close>

lemma length_put_bytes [simp]: "off + length xs \<le> length d \<Longrightarrow> length (put_bytes off xs d) = length d"
  by (simp add: put_bytes_def)

lemma length_put32 [simp]: "off + 4 \<le> length d \<Longrightarrow> length (put32 off w d) = length d"
  by (simp add: put32_def)

lemma length_get_bytes [simp]: "off + n \<le> length d \<Longrightarrow> length (get_bytes off n d) = n"
  by (simp add: get_bytes_def)

lemma nth_put_bytes:
  "off + length xs \<le> length d \<Longrightarrow> i < length d \<Longrightarrow>
   put_bytes off xs d ! i = (if off \<le> i \<and> i < off + length xs then xs ! (i - off) else d ! i)"
  by (auto simp: put_bytes_def nth_append min_def)

lemma nth_get_bytes: "off + n \<le> length d \<Longrightarrow> i < n \<Longrightarrow> get_bytes off n d ! i = d ! (off + i)"
  by (simp add: get_bytes_def)

lemma get_put_bytes_same [block_simps]:
  "off + length xs \<le> length d \<Longrightarrow> get_bytes off (length xs) (put_bytes off xs d) = xs"
  by (rule nth_equalityI) (simp_all add: nth_get_bytes nth_put_bytes)

lemma get_put_bytes_other [block_simps]:
  "off + length xs \<le> length d \<Longrightarrow> off' + n \<le> length d \<Longrightarrow> off' + n \<le> off \<or> off + length xs \<le> off' \<Longrightarrow>
   get_bytes off' n (put_bytes off xs d) = get_bytes off' n d"
  by (rule nth_equalityI) (auto simp: nth_get_bytes nth_put_bytes)

lemma get_put_bytes_within:
  "off + length xs \<le> length d \<Longrightarrow> off \<le> off' \<Longrightarrow> off' + n \<le> off + length xs \<Longrightarrow>
   get_bytes off' n (put_bytes off xs d) = get_bytes (off' - off) n xs"
  by (rule nth_equalityI) (auto simp: nth_get_bytes nth_put_bytes)

lemma put_bytes_twice: "off + length xs \<le> length d \<Longrightarrow> length ys = length xs \<Longrightarrow>
   put_bytes off ys (put_bytes off xs d) = put_bytes off ys d"
  by (simp add: put_bytes_def)

lemma get32_put32_same [block_simps]: "off + 4 \<le> length d \<Longrightarrow> get32 off (put32 off w d) = w"
  using get_put_bytes_same [of off "le_encode 4 w" d] by (simp add: get32_def put32_def)

lemma get32_put32_other [block_simps]:
  "off + 4 \<le> length d \<Longrightarrow> off' + 4 \<le> length d \<Longrightarrow> off' + 4 \<le> off \<or> off + 4 \<le> off' \<Longrightarrow>
   get32 off' (put32 off w d) = get32 off' d"
  by (simp add: get32_def put32_def get_put_bytes_other)

section \<open>Operations\<close>

definition set_lh_n :: "int \<Rightarrow> 'a logst_scheme \<Rightarrow> 'a logst_scheme" where
  "set_lh_n n s = s\<lparr>log_lh := (log_lh s)\<lparr>lh_n := n\<rparr>\<rparr>"

fun install_trans_loop :: "nat list \<Rightarrow> 'a logst_scheme \<Rightarrow> 'a logst_scheme result" where
  "install_trans_loop [] s = Ok s"
| "install_trans_loop (tail # ts) s =
     andthen (bread (log_dev s) (log_start s + of_nat tail + 1) s) (\<lambda>(lbuf, s).
     andthen (bread (log_dev s) (lh_block (log_lh s) ! tail) s) (\<lambda>(dbuf, s).
     andthen (bwrite dbuf (set_data dbuf (b_data (bufs s ! lbuf)) s)) (\<lambda>s.
     andthen (brelse lbuf (bunpin dbuf s)) (\<lambda>s.
     andthen (brelse dbuf s) (\<lambda>s.
       install_trans_loop ts s)))))"

definition install_trans :: "'a logst_scheme \<Rightarrow> 'a logst_scheme result" where
  "install_trans s = install_trans_loop [0..<nat (lh_n (log_lh s))] s"

text \<open>A count of more than 30 read from the disk would run over the end of the array.\<close>

definition read_head :: "'a logst_scheme \<Rightarrow> 'a logst_scheme result" where
  "read_head s =
     andthen (bread (log_dev s) (log_start s) s) (\<lambda>(buf, s).
       let d = b_data (bufs s ! buf); n = sint (get32 0 d)
       in if n > int LOGSIZE then Undef ''read_head''
          else brelse buf (s\<lparr>log_lh := \<lparr>lh_n = n,
            lh_block = map (\<lambda>i. get32 (4 + 4 * i) d) [0..<nat n] @ drop (nat n) (lh_block (log_lh s))\<rparr>\<rparr>))"

definition head_data :: "logheader \<Rightarrow> block \<Rightarrow> block" where
  "head_data lh d =
     fold (\<lambda>i d. put32 (4 + 4 * i) (lh_block lh ! i) d) [0..<nat (lh_n lh)] (put32 0 (word_of_int (lh_n lh)) d)"

lemma head_fold:
  "4 + 4 * n \<le> length d \<Longrightarrow> length (fold (\<lambda>i d. put32 (4 + 4 * i) (bs ! i) d) [0..<n] d) = length d \<and>
   (\<forall>off. off + 4 \<le> 4 \<longrightarrow> get32 off (fold (\<lambda>i d. put32 (4 + 4 * i) (bs ! i) d) [0..<n] d) = get32 off d) \<and>
   (\<forall>j < n. get32 (4 + 4 * j) (fold (\<lambda>i d. put32 (4 + 4 * i) (bs ! i) d) [0..<n] d) = bs ! j)"
proof (induction n)
  case (Suc n)
  then show ?case by (auto simp: block_simps less_Suc_eq)
qed simp

text \<open>The header that \<open>read_head\<close> finds in a block.\<close>

definition head_blocks :: "block \<Rightarrow> u32 list" where
  "head_blocks d = map (\<lambda>i. get32 (4 + 4 * i) d) [0..<nat (sint (get32 0 d))]"

lemma length_head_data:
  assumes "length d = BSIZE" "lh_n lh \<le> 30" shows "length (head_data lh d) = BSIZE"
  using head_fold [of "nat (lh_n lh)" "put32 0 (word_of_int (lh_n lh)) d" "lh_block lh"] assms
  by (simp add: head_data_def)

lemma sint_word_of_int_small: "0 \<le> n \<Longrightarrow> n \<le> 30 \<Longrightarrow> sint (word_of_int n :: u32) = n"
  by (simp add: signed_of_int signed_take_bit_int_eq_self)

lemma head_blocks_head_data:
  assumes "length d = BSIZE" "0 \<le> lh_n lh" "lh_n lh \<le> 30" "nat (lh_n lh) \<le> length (lh_block lh)"
  shows "head_blocks (head_data lh d) = take (nat (lh_n lh)) (lh_block lh)"
    "sint (get32 0 (head_data lh d)) = lh_n lh"
proof -
  let ?n = "nat (lh_n lh)"
  have b: "4 + 4 * ?n \<le> length (put32 0 (word_of_int (lh_n lh)) d)" using assms by simp
  note f = head_fold [OF b, of "lh_block lh", folded head_data_def]
  have "get32 0 (head_data lh d) = word_of_int (lh_n lh)"
    using f assms(1) by (simp add: head_data_def block_simps)
  then show n: "sint (get32 0 (head_data lh d)) = lh_n lh" using assms by (simp add: sint_word_of_int_small)
  show "head_blocks (head_data lh d) = take ?n (lh_block lh)"
    unfolding head_blocks_def n
    by (rule nth_equalityI) (use f assms in \<open>simp_all add: head_data_def\<close>)
qed

definition write_head :: "'a logst_scheme \<Rightarrow> 'a logst_scheme result" where
  "write_head s =
     andthen (bread (log_dev s) (log_start s) s) (\<lambda>(buf, s).
     andthen (bwrite buf (set_data buf (head_data (log_lh s) (b_data (bufs s ! buf))) s)) (\<lambda>s.
       brelse buf s))"

definition recover_from_log :: "'a logst_scheme \<Rightarrow> 'a logst_scheme result" where
  "recover_from_log s =
     andthen (read_head s) (\<lambda>s.
     andthen (install_trans s) (\<lambda>s.
       write_head (set_lh_n 0 s)))"

definition initlog :: "u32 \<Rightarrow> superblock \<Rightarrow> 'a logst_scheme \<Rightarrow> 'a logst_scheme result" where
  "initlog dev sb s =
     (if 4 + 4 * LOGSIZE \<ge> BSIZE then Panic ''initlog: too big logheader''
      else recover_from_log (s\<lparr>log_start := sb_logstart sb, log_size := sint (sb_nlog sb), log_dev := dev\<rparr>))"

definition begin_op :: "'a logst_scheme \<Rightarrow> 'a logst_scheme result" where
  "begin_op s =
     (if log_committing s then Sleep ChanLog
      else if lh_n (log_lh s) + (log_outstanding s + 1) * int MAXOPBLOCKS > int LOGSIZE then Sleep ChanLog
      else Ok (s\<lparr>log_outstanding := log_outstanding s + 1\<rparr>))"

fun write_log_loop :: "nat list \<Rightarrow> 'a logst_scheme \<Rightarrow> 'a logst_scheme result" where
  "write_log_loop [] s = Ok s"
| "write_log_loop (tail # ts) s =
     andthen (bread (log_dev s) (log_start s + of_nat tail + 1) s) (\<lambda>(to, s).
     andthen (bread (log_dev s) (lh_block (log_lh s) ! tail) s) (\<lambda>(from, s).
     andthen (bwrite to (set_data to (b_data (bufs s ! from)) s)) (\<lambda>s.
     andthen (brelse from s) (\<lambda>s.
     andthen (brelse to s) (\<lambda>s.
       write_log_loop ts s)))))"

definition write_log :: "'a logst_scheme \<Rightarrow> 'a logst_scheme result" where
  "write_log s = write_log_loop [0..<nat (lh_n (log_lh s))] s"

definition commit :: "'a logst_scheme \<Rightarrow> 'a logst_scheme result" where
  "commit s =
     (if lh_n (log_lh s) > 0 then
        andthen (write_log s) (\<lambda>s.
        andthen (write_head s) (\<lambda>s.
        andthen (install_trans s) (\<lambda>s.
          write_head (set_lh_n 0 s))))
      else Ok s)"

definition end_op :: "'a logst_scheme \<Rightarrow> 'a logst_scheme result" where
  "end_op s =
     (let s = s\<lparr>log_outstanding := log_outstanding s - 1\<rparr>
      in if log_committing s then Panic ''log.committing''
         else if log_outstanding s = 0 then
           andthen (commit (s\<lparr>log_committing := True\<rparr>)) (\<lambda>s.
             Ok (wakeup ChanLog (s\<lparr>log_committing := False\<rparr>)))
         else Ok (wakeup ChanLog s))"

fun absorb :: "u32 \<Rightarrow> u32 list \<Rightarrow> nat" where
  "absorb b [] = 0"
| "absorb b (x # xs) = (if x = b then 0 else Suc (absorb b xs))"

definition log_write :: "nat \<Rightarrow> 'a logst_scheme \<Rightarrow> 'a logst_scheme result" where
  "log_write b s =
     (let lh = log_lh s; n = lh_n lh; blockno = b_blockno (bufs s ! b)
      in if n \<ge> int LOGSIZE \<or> n \<ge> log_size s - 1 then Panic ''too big a transaction''
         else if log_outstanding s < 1 then Panic ''log_write outside of trans''
         else
           let i = absorb blockno (take (nat n) (lh_block lh));
               s = s\<lparr>log_lh := lh\<lparr>lh_block := (lh_block lh)[i := blockno]\<rparr>\<rparr>
           in if int i = n then Ok (set_lh_n (n + 1) (bpin b s)) else Ok s)"

end
