(* ===== verification/Fs.thy ===== *)
theory Fs
  imports Log
begin

text \<open>
  The file system (kernel/fs.c, kernel/fs.h): block allocator, inodes, directories and path names.
  Inode pointers are indices into \<open>icache.inode\<close>; the null pointer is \<open>None\<close>. A \<open>struct dinode\<close> is 64
  bytes of an inode block, a \<open>struct dirent\<close> 16 bytes of a directory's content. C strings in kernel
  buffers are byte lists without the terminating zero byte.
\<close>

section \<open>State\<close>

record inode =
  i_dev :: u32
  i_inum :: u32
  i_ref :: int
  i_lock :: sleeplock
  i_valid :: bool
  i_type :: u16
  i_major :: u16
  i_minor :: u16
  i_nlink :: u16
  i_size :: u32
  i_addrs :: "u32 list"

record fsst = logst +
  sb :: superblock
  icache :: "inode list"

record dinode =
  d_type :: u16
  d_major :: u16
  d_minor :: u16
  d_nlink :: u16
  d_size :: u32
  d_addrs :: "u32 list"

record dirent =
  de_inum :: u16
  de_name :: "u8 list"

abbreviation (input) NINODE :: nat where "NINODE \<equiv> 50"
abbreviation (input) ROOTDEV :: u32 where "ROOTDEV \<equiv> 1"
abbreviation (input) ROOTINO :: u32 where "ROOTINO \<equiv> 1"
abbreviation (input) FSMAGIC :: u32 where "FSMAGIC \<equiv> 0x10203040"
abbreviation (input) NDIRECT :: nat where "NDIRECT \<equiv> 12"
abbreviation (input) NINDIRECT :: nat where "NINDIRECT \<equiv> 256"
abbreviation (input) MAXFILE :: nat where "MAXFILE \<equiv> 268"
abbreviation (input) IPB :: nat where "IPB \<equiv> 16"
abbreviation (input) BPB :: nat where "BPB \<equiv> 8192"
abbreviation (input) DIRSIZ :: nat where "DIRSIZ \<equiv> 14"
abbreviation (input) T_DIR :: u16 where "T_DIR \<equiv> 1"
abbreviation (input) T_FILE :: u16 where "T_FILE \<equiv> 2"
abbreviation (input) T_DEVICE :: u16 where "T_DEVICE \<equiv> 3"

definition IBLOCK :: "u32 \<Rightarrow> superblock \<Rightarrow> u32" where
  "IBLOCK i sp = i div 16 + sb_inodestart sp"

definition BBLOCK :: "u32 \<Rightarrow> superblock \<Rightarrow> u32" where
  "BBLOCK b sp = b div 8192 + sb_bmapstart sp"

definition upd_inode :: "nat \<Rightarrow> (inode \<Rightarrow> inode) \<Rightarrow> 'a fsst_scheme \<Rightarrow> 'a fsst_scheme" where
  "upd_inode i f s = s\<lparr>icache := (icache s)[i := f (icache s ! i)]\<rparr>"

section \<open>Layout of the on-disk structures\<close>

definition decode_sb :: "block \<Rightarrow> superblock" where
  "decode_sb d = \<lparr>sb_magic = get32 0 d, sb_size = get32 4 d, sb_nblocks = get32 8 d, sb_ninodes = get32 12 d,
     sb_nlog = get32 16 d, sb_logstart = get32 20 d, sb_inodestart = get32 24 d, sb_bmapstart = get32 28 d\<rparr>"

definition get_dinode :: "nat \<Rightarrow> block \<Rightarrow> dinode" where
  "get_dinode k d =
     (let o' = 64 * k
      in \<lparr>d_type = get16 o' d, d_major = get16 (o' + 2) d, d_minor = get16 (o' + 4) d, d_nlink = get16 (o' + 6) d,
          d_size = get32 (o' + 8) d, d_addrs = map (\<lambda>j. get32 (o' + 12 + 4 * j) d) [0..<NDIRECT + 1]\<rparr>)"

definition encode_dinode :: "dinode \<Rightarrow> u8 list" where
  "encode_dinode di =
     le_encode 2 (d_type di) @ le_encode 2 (d_major di) @ le_encode 2 (d_minor di) @ le_encode 2 (d_nlink di) @
     le_encode 4 (d_size di) @ concat (map (le_encode 4) (d_addrs di))"

definition put_dinode :: "nat \<Rightarrow> dinode \<Rightarrow> block \<Rightarrow> block" where
  "put_dinode k di d = put_bytes (64 * k) (encode_dinode di) d"

definition decode_dirent :: "u8 list \<Rightarrow> dirent" where
  "decode_dirent bs = \<lparr>de_inum = le_decode (take 2 bs), de_name = take DIRSIZ (drop 2 bs)\<rparr>"

definition encode_dirent :: "dirent \<Rightarrow> u8 list" where
  "encode_dirent de = le_encode 2 (de_inum de) @ de_name de"

section \<open>Super block and block allocator\<close>

definition readsb :: "u32 \<Rightarrow> 'a fsst_scheme \<Rightarrow> 'a fsst_scheme result" where
  "readsb dev s =
     andthen (bread dev 1 s) (\<lambda>(bp, s).
       brelse bp (s\<lparr>sb := decode_sb (b_data (bufs s ! bp))\<rparr>))"

definition fsinit :: "u32 \<Rightarrow> 'a fsst_scheme \<Rightarrow> 'a fsst_scheme result" where
  "fsinit dev s =
     andthen (readsb dev s) (\<lambda>s.
       if sb_magic (sb s) \<noteq> FSMAGIC then Panic ''invalid file system'' else initlog dev (sb s) s)"

definition bzero :: "u32 \<Rightarrow> u32 \<Rightarrow> 'a fsst_scheme \<Rightarrow> 'a fsst_scheme result" where
  "bzero dev bno s =
     andthen (bread dev bno s) (\<lambda>(bp, s).
     andthen (log_write bp (set_data bp (replicate BSIZE 0) s)) (\<lambda>s.
       brelse bp s))"

text \<open>The inner loop of \<open>balloc\<close>: the first clear bit of a bitmap block among those below \<open>sb.size\<close>.\<close>

function balloc_scan :: "block \<Rightarrow> nat \<Rightarrow> nat \<Rightarrow> nat \<Rightarrow> nat option" where
  "balloc_scan d b bi sz =
     (if bi < BPB \<and> b + bi < sz
      then if bit (d ! (bi div 8)) (bi mod 8) then balloc_scan d b (bi + 1) sz else Some bi
      else None)"
  by pat_completeness auto
termination
  by (relation "measure (\<lambda>(d, b, bi, sz). BPB - bi)") auto

declare balloc_scan.simps [simp del]

definition set_bitmap :: "nat \<Rightarrow> block \<Rightarrow> block" where
  "set_bitmap bi d = d[bi div 8 := d ! (bi div 8) OR push_bit (bi mod 8) 1]"

definition clear_bitmap :: "nat \<Rightarrow> block \<Rightarrow> block" where
  "clear_bitmap bi d = d[bi div 8 := d ! (bi div 8) AND NOT (push_bit (bi mod 8) 1)]"

function balloc_loop :: "u32 \<Rightarrow> nat \<Rightarrow> nat \<Rightarrow> 'a fsst_scheme \<Rightarrow> (u32 \<times> 'a fsst_scheme) result" where
  "balloc_loop dev b sz s =
     (if b < sz then
        andthen (bread dev (BBLOCK (of_nat b) (sb s)) s) (\<lambda>(bp, s).
          case balloc_scan (b_data (bufs s ! bp)) b 0 sz of
            Some bi \<Rightarrow>
              andthen (log_write bp (set_data bp (set_bitmap bi (b_data (bufs s ! bp))) s)) (\<lambda>s.
              andthen (brelse bp s) (\<lambda>s.
              andthen (bzero dev (of_nat (b + bi)) s) (\<lambda>s.
                Ok (of_nat (b + bi), s))))
          | None \<Rightarrow> andthen (brelse bp s) (\<lambda>s. balloc_loop dev (b + BPB) sz s))
      else Panic ''balloc: out of blocks'')"
  by pat_completeness auto
termination
  by (relation "measure (\<lambda>(dev, b, sz, s). sz - b)") auto

declare balloc_loop.simps [simp del]

definition balloc :: "u32 \<Rightarrow> 'a fsst_scheme \<Rightarrow> (u32 \<times> 'a fsst_scheme) result" where
  "balloc dev s = balloc_loop dev 0 (unat (sb_size (sb s))) s"

definition bfree :: "u32 \<Rightarrow> u32 \<Rightarrow> 'a fsst_scheme \<Rightarrow> 'a fsst_scheme result" where
  "bfree dev b s =
     andthen (bread dev (BBLOCK b (sb s)) s) (\<lambda>(bp, s).
       let bi = unat b mod BPB; d = b_data (bufs s ! bp)
       in if \<not> bit (d ! (bi div 8)) (bi mod 8) then Panic ''freeing free block''
          else andthen (log_write bp (set_data bp (clear_bitmap bi d) s)) (\<lambda>s. brelse bp s))"

section \<open>Inodes\<close>

definition iinit :: "'a fsst_scheme \<Rightarrow> 'a fsst_scheme" where
  "iinit s = fold (\<lambda>i. upd_inode i (\<lambda>ip. ip\<lparr>i_lock := initsleeplock\<rparr>)) [0..<NINODE] s"

definition iget :: "u32 \<Rightarrow> u32 \<Rightarrow> 'a fsst_scheme \<Rightarrow> (nat \<times> 'a fsst_scheme) result" where
  "iget dev inum s =
     (case find (\<lambda>i. i_ref (icache s ! i) > 0 \<and> i_dev (icache s ! i) = dev \<and> i_inum (icache s ! i) = inum)
             [0..<NINODE] of
        Some i \<Rightarrow> Ok (i, upd_inode i (\<lambda>ip. ip\<lparr>i_ref := i_ref ip + 1\<rparr>) s)
      | None \<Rightarrow>
          (case find (\<lambda>i. i_ref (icache s ! i) = 0) [0..<NINODE] of
             None \<Rightarrow> Panic ''iget: no inodes''
           | Some i \<Rightarrow>
               Ok (i, upd_inode i (\<lambda>ip. ip\<lparr>i_dev := dev, i_inum := inum, i_ref := 1, i_valid := False\<rparr>) s)))"

definition idup :: "nat \<Rightarrow> 'a fsst_scheme \<Rightarrow> 'a fsst_scheme" where
  "idup ip s = upd_inode ip (\<lambda>i. i\<lparr>i_ref := i_ref i + 1\<rparr>) s"

definition islot :: "u32 \<Rightarrow> nat" where
  "islot inum = unat inum mod IPB"

function ialloc_loop :: "u32 \<Rightarrow> u16 \<Rightarrow> nat \<Rightarrow> nat \<Rightarrow> 'a fsst_scheme \<Rightarrow> (nat \<times> 'a fsst_scheme) result" where
  "ialloc_loop dev ty k n s =
     (if k < n then
        let inum = of_nat k
        in andthen (bread dev (IBLOCK inum (sb s)) s) (\<lambda>(bp, s).
             let d = b_data (bufs s ! bp)
             in if d_type (get_dinode (islot inum) d) = 0 then
                  let di = \<lparr>d_type = ty, d_major = 0, d_minor = 0, d_nlink = 0, d_size = 0,
                            d_addrs = replicate (NDIRECT + 1) 0\<rparr>
                  in andthen (log_write bp (set_data bp (put_dinode (islot inum) di d) s)) (\<lambda>s.
                     andthen (brelse bp s) (\<lambda>s. iget dev inum s))
                else andthen (brelse bp s) (\<lambda>s. ialloc_loop dev ty (k + 1) n s))
      else Panic ''ialloc: no inodes'')"
  by pat_completeness auto
termination
  by (relation "measure (\<lambda>(dev, ty, k, n, s). n - k)") auto

declare ialloc_loop.simps [simp del]

definition ialloc :: "u32 \<Rightarrow> u16 \<Rightarrow> 'a fsst_scheme \<Rightarrow> (nat \<times> 'a fsst_scheme) result" where
  "ialloc dev ty s = ialloc_loop dev ty 1 (unat (sb_ninodes (sb s))) s"

definition dinode_of :: "inode \<Rightarrow> dinode" where
  "dinode_of ip = \<lparr>d_type = i_type ip, d_major = i_major ip, d_minor = i_minor ip, d_nlink = i_nlink ip,
     d_size = i_size ip, d_addrs = i_addrs ip\<rparr>"

definition iupdate :: "nat \<Rightarrow> 'a fsst_scheme \<Rightarrow> 'a fsst_scheme result" where
  "iupdate i s =
     (let ip = icache s ! i
      in andthen (bread (i_dev ip) (IBLOCK (i_inum ip) (sb s)) s) (\<lambda>(bp, s).
         andthen (log_write bp (set_data bp (put_dinode (islot (i_inum ip)) (dinode_of ip) (b_data (bufs s ! bp))) s)) (\<lambda>s.
           brelse bp s)))"

definition lock_inode :: "nat \<Rightarrow> 'a fsst_scheme \<Rightarrow> 'a fsst_scheme result" where
  "lock_inode i s =
     andthen (acquiresleep (ChanInodeLock i) (i_lock (icache s ! i)) s) (\<lambda>l.
       Ok (upd_inode i (\<lambda>ip. ip\<lparr>i_lock := l\<rparr>) s))"

definition unlock_inode :: "nat \<Rightarrow> 'a fsst_scheme \<Rightarrow> 'a fsst_scheme" where
  "unlock_inode i s =
     (case releasesleep (ChanInodeLock i) (i_lock (icache s ! i)) s of (l, s) \<Rightarrow>
        upd_inode i (\<lambda>ip. ip\<lparr>i_lock := l\<rparr>) s)"

definition ilock :: "nat \<Rightarrow> 'a fsst_scheme \<Rightarrow> 'a fsst_scheme result" where
  "ilock i s =
     (if i_ref (icache s ! i) < 1 then Panic ''ilock''
      else andthen (lock_inode i s) (\<lambda>s.
        let ip = icache s ! i
        in if \<not> i_valid ip then
             andthen (bread (i_dev ip) (IBLOCK (i_inum ip) (sb s)) s) (\<lambda>(bp, s).
               let di = get_dinode (islot (i_inum ip)) (b_data (bufs s ! bp));
                   s = upd_inode i (\<lambda>ip. ip\<lparr>i_type := d_type di, i_major := d_major di, i_minor := d_minor di,
                         i_nlink := d_nlink di, i_size := d_size di, i_addrs := d_addrs di\<rparr>) s
               in andthen (brelse bp s) (\<lambda>s.
                    let s = upd_inode i (\<lambda>ip. ip\<lparr>i_valid := True\<rparr>) s
                    in if i_type (icache s ! i) = 0 then Panic ''ilock: no type'' else Ok s))
           else Ok s))"

definition iunlock :: "nat \<Rightarrow> 'a fsst_scheme \<Rightarrow> 'a fsst_scheme result" where
  "iunlock i s =
     andthen (holdingsleep (i_lock (icache s ! i)) s) (\<lambda>h.
       if \<not> h \<or> i_ref (icache s ! i) < 1 then Panic ''iunlock'' else Ok (unlock_inode i s))"

section \<open>Inode content\<close>

definition bmap :: "nat \<Rightarrow> u32 \<Rightarrow> 'a fsst_scheme \<Rightarrow> (u32 \<times> 'a fsst_scheme) result" where
  "bmap i bn s =
     (let ip = icache s ! i; k = unat bn
      in if k < NDIRECT then
           (if i_addrs ip ! k = 0 then
              andthen (balloc (i_dev ip) s) (\<lambda>(addr, s).
                Ok (addr, upd_inode i (\<lambda>ip. ip\<lparr>i_addrs := (i_addrs ip)[k := addr]\<rparr>) s))
            else Ok (i_addrs ip ! k, s))
         else if k - NDIRECT < NINDIRECT then
           andthen (if i_addrs ip ! NDIRECT = 0 then
                      andthen (balloc (i_dev ip) s) (\<lambda>(addr, s).
                        Ok (addr, upd_inode i (\<lambda>ip. ip\<lparr>i_addrs := (i_addrs ip)[NDIRECT := addr]\<rparr>) s))
                    else Ok (i_addrs ip ! NDIRECT, s)) (\<lambda>(addr, s).
           andthen (bread (i_dev ip) addr s) (\<lambda>(bp, s).
             let off = 4 * (k - NDIRECT); addr = get32 off (b_data (bufs s ! bp))
             in andthen (if addr = 0 then
                           andthen (balloc (i_dev ip) s) (\<lambda>(addr, s).
                           andthen (log_write bp (set_data bp (put32 off addr (b_data (bufs s ! bp))) s)) (\<lambda>s.
                             Ok (addr, s)))
                         else Ok (addr, s)) (\<lambda>(addr, s).
                andthen (brelse bp s) (\<lambda>s. Ok (addr, s)))))
         else Panic ''bmap: out of range'')"

fun itrunc_direct :: "nat \<Rightarrow> nat list \<Rightarrow> 'a fsst_scheme \<Rightarrow> 'a fsst_scheme result" where
  "itrunc_direct i [] s = Ok s"
| "itrunc_direct i (k # ks) s =
     (let ip = icache s ! i
      in if i_addrs ip ! k \<noteq> 0 then
           andthen (bfree (i_dev ip) (i_addrs ip ! k) s) (\<lambda>s.
             itrunc_direct i ks (upd_inode i (\<lambda>ip. ip\<lparr>i_addrs := (i_addrs ip)[k := 0]\<rparr>) s))
         else itrunc_direct i ks s)"

fun itrunc_indirect :: "u32 \<Rightarrow> nat \<Rightarrow> nat list \<Rightarrow> 'a fsst_scheme \<Rightarrow> 'a fsst_scheme result" where
  "itrunc_indirect dev bp [] s = Ok s"
| "itrunc_indirect dev bp (j # js) s =
     (let a = get32 (4 * j) (b_data (bufs s ! bp))
      in if a \<noteq> 0 then andthen (bfree dev a s) (\<lambda>s. itrunc_indirect dev bp js s)
         else itrunc_indirect dev bp js s)"

definition itrunc :: "nat \<Rightarrow> 'a fsst_scheme \<Rightarrow> 'a fsst_scheme result" where
  "itrunc i s =
     andthen (itrunc_direct i [0..<NDIRECT] s) (\<lambda>s.
       let ip = icache s ! i; a = i_addrs ip ! NDIRECT
       in andthen (if a \<noteq> 0 then
                     andthen (bread (i_dev ip) a s) (\<lambda>(bp, s).
                     andthen (itrunc_indirect (i_dev ip) bp [0..<NINDIRECT] s) (\<lambda>s.
                     andthen (brelse bp s) (\<lambda>s.
                     andthen (bfree (i_dev ip) a s) (\<lambda>s.
                       Ok (upd_inode i (\<lambda>ip. ip\<lparr>i_addrs := (i_addrs ip)[NDIRECT := 0]\<rparr>) s)))))
                   else Ok s) (\<lambda>s.
            iupdate i (upd_inode i (\<lambda>ip. ip\<lparr>i_size := 0\<rparr>) s)))"

definition iput :: "nat \<Rightarrow> 'a fsst_scheme \<Rightarrow> 'a fsst_scheme result" where
  "iput i s =
     (let ip = icache s ! i
      in andthen (if i_ref ip = 1 \<and> i_valid ip \<and> i_nlink ip = 0 then
                    andthen (lock_inode i s) (\<lambda>s.
                    andthen (itrunc i s) (\<lambda>s.
                    andthen (iupdate i (upd_inode i (\<lambda>ip. ip\<lparr>i_type := 0\<rparr>) s)) (\<lambda>s.
                      Ok (unlock_inode i (upd_inode i (\<lambda>ip. ip\<lparr>i_valid := False\<rparr>) s)))))
                  else Ok s) (\<lambda>s.
           Ok (upd_inode i (\<lambda>ip. ip\<lparr>i_ref := i_ref ip - 1\<rparr>) s)))"

definition iunlockput :: "nat \<Rightarrow> 'a fsst_scheme \<Rightarrow> 'a fsst_scheme result" where
  "iunlockput i s = andthen (iunlock i s) (\<lambda>s. iput i s)"

text \<open>\<open>struct stat\<close>: the padding is not part of the model.\<close>

record stat =
  st_dev :: u32
  st_ino :: u32
  st_type :: u16
  st_nlink :: u16
  st_size :: u64

definition stati :: "inode \<Rightarrow> stat" where
  "stati ip = \<lparr>st_dev = i_dev ip, st_ino = i_inum ip, st_type = i_type ip, st_nlink = i_nlink ip,
     st_size = ucast (i_size ip)\<rparr>"

text \<open>
  Where \<open>readi\<close> delivers and \<open>writei\<close> takes its bytes: at a user or kernel address, or in a local
  variable of the caller, which is passed by value. \<open>readi\<close> returns the bytes it delivered as well.
\<close>

datatype place = Addr bool u64 | Var "u8 list"

fun place_add :: "place \<Rightarrow> u32 \<Rightarrow> place" where
  "place_add (Addr u a) m = Addr u (a + ucast m)"
| "place_add (Var xs) m = Var (drop (unat m) xs)"

fun deliver :: "place \<Rightarrow> u8 list \<Rightarrow> 'a ptab_scheme \<Rightarrow> (int \<times> 'a ptab_scheme) result" where
  "deliver (Addr user dst) xs s = either_copyout user dst xs s"
| "deliver (Var _) xs s = Ok (0, s)"

fun fetch :: "place \<Rightarrow> u32 \<Rightarrow> 'a ptab_scheme \<Rightarrow> (int \<times> u8 list) result" where
  "fetch (Addr user src) m s = either_copyin user src (ucast m) s"
| "fetch (Var xs) m s = Ok (0, take (unat m) xs)"

definition block_chunk :: "u32 \<Rightarrow> u32 \<Rightarrow> u32 \<Rightarrow> u32" where
  "block_chunk n tot off = (if n - tot < 1024 - off mod 1024 then n - tot else 1024 - off mod 1024)"

lemma block_chunk_pos: "tot < n \<Longrightarrow> 0 < unat (block_chunk n tot off) \<and> unat (block_chunk n tot off) \<le> unat n - unat tot"
proof -
  assume lt: "tot < n"
  then have d: "unat (n - tot) = unat n - unat tot"
    by (simp add: unat_sub_if' word_less_nat_alt)
  have m: "unat (off mod 1024) < 1024" by (simp add: unat_mod_distrib)
  then have "unat (1024 - off mod 1024) = 1024 - unat (off mod 1024)"
    by (subst unat_sub) (auto simp: word_le_nat_alt)
  then show ?thesis using lt d m by (auto simp: block_chunk_def word_less_nat_alt)
qed

lemma unat_block_chunk_add:
  assumes "tot < n"
  shows "unat (tot + block_chunk n tot off) = unat tot + unat (block_chunk n tot off)"
proof -
  have "unat tot + unat (block_chunk n tot off) < 4294967296"
    by (rule le_less_trans [OF _ unat_u32_lt [of n]])
      (use block_chunk_pos [OF assms, of off] assms in \<open>auto simp: word_less_nat_alt\<close>)
  then show ?thesis by (subst unat_add_lem [THEN iffD1]) auto
qed

lemma block_chunk_decr: "tot < n \<Longrightarrow> unat n - unat (tot + block_chunk n tot off) < unat n - unat tot"
  using block_chunk_pos [of tot n off] by (auto simp: unat_block_chunk_add word_less_nat_alt)

function readi_loop :: "nat \<Rightarrow> place \<Rightarrow> u32 \<Rightarrow> u32 \<Rightarrow> u32 \<Rightarrow> u8 list \<Rightarrow> 'a fsst_scheme \<Rightarrow>
    (u32 \<times> u8 list \<times> 'a fsst_scheme) result" where
  "readi_loop i dst off n tot acc s =
     (if tot < n then
        andthen (bmap i (off div 1024) s) (\<lambda>(addr, s).
        andthen (bread (i_dev (icache s ! i)) addr s) (\<lambda>(bp, s).
          let m = block_chunk n tot off;
              xs = get_bytes (unat off mod BSIZE) (unat m) (b_data (bufs s ! bp))
          in andthen (deliver dst xs s) (\<lambda>(r, s).
             andthen (brelse bp s) (\<lambda>s.
               if r = -1 then Ok (tot, acc, s)
               else readi_loop i (place_add dst m) (off + m) n (tot + m) (acc @ xs) s))))
      else Ok (tot, acc, s))"
  by pat_completeness auto
termination
  by (relation "measure (\<lambda>(i, dst, off, n, tot, acc, s). unat n - unat tot)")
    (auto simp: block_chunk_decr)

declare readi_loop.simps [simp del]

definition readi :: "nat \<Rightarrow> place \<Rightarrow> u32 \<Rightarrow> u32 \<Rightarrow> 'a fsst_scheme \<Rightarrow> (u32 \<times> u8 list \<times> 'a fsst_scheme) result" where
  "readi i dst off n s =
     (let sz = i_size (icache s ! i)
      in if off > sz \<or> off + n < off then Ok (0, [], s)
         else readi_loop i dst off (if off + n > sz then sz - off else n) 0 [] s)"

text \<open>When the copy into the buffer fails half way, the bytes before the failure are in the buffer.\<close>

function writei_loop :: "nat \<Rightarrow> place \<Rightarrow> u32 \<Rightarrow> u32 \<Rightarrow> u32 \<Rightarrow> 'a fsst_scheme \<Rightarrow> (u32 \<times> 'a fsst_scheme) result" where
  "writei_loop i src off n tot s =
     (if tot < n then
        andthen (bmap i (off div 1024) s) (\<lambda>(addr, s).
        andthen (bread (i_dev (icache s ! i)) addr s) (\<lambda>(bp, s).
          let m = block_chunk n tot off
          in andthen (fetch src m s) (\<lambda>(r, xs).
             let s = set_data bp (put_bytes (unat off mod BSIZE) xs (b_data (bufs s ! bp))) s
             in if r = -1 then andthen (brelse bp s) (\<lambda>s. Ok (off, s))
                else andthen (log_write bp s) (\<lambda>s.
                     andthen (brelse bp s) (\<lambda>s.
                       writei_loop i (place_add src m) (off + m) n (tot + m) s)))))
      else Ok (off, s))"
  by pat_completeness auto
termination
  by (relation "measure (\<lambda>(i, src, off, n, tot, s). unat n - unat tot)")
    (auto simp: block_chunk_decr)

declare writei_loop.simps [simp del]

definition writei :: "nat \<Rightarrow> place \<Rightarrow> u32 \<Rightarrow> u32 \<Rightarrow> 'a fsst_scheme \<Rightarrow> (int \<times> 'a fsst_scheme) result" where
  "writei i src off n s =
     (if off > i_size (icache s ! i) \<or> off + n < off then Ok (-1, s)
      else if unat (off + n) > MAXFILE * BSIZE then Ok (-1, s)
      else andthen (writei_loop i src off n 0 s) (\<lambda>(off, s).
        andthen (if n > 0 then
                   iupdate i (upd_inode i (\<lambda>ip. if off > i_size ip then ip\<lparr>i_size := off\<rparr> else ip) s)
                 else Ok s) (\<lambda>s.
          Ok (sint n, s))))"

section \<open>Directories\<close>

text \<open>\<open>strncmp\<close> on strings held by value: reading past the end of a list finds the zero byte.\<close>

fun strncmp_bytes :: "nat \<Rightarrow> u8 list \<Rightarrow> u8 list \<Rightarrow> int" where
  "strncmp_bytes 0 p q = 0"
| "strncmp_bytes (Suc n) p q =
     (let a = (case p of [] \<Rightarrow> 0 | x # _ \<Rightarrow> x); b = (case q of [] \<Rightarrow> 0 | y # _ \<Rightarrow> y)
      in if a \<noteq> 0 \<and> a = b then strncmp_bytes n (tl p) (tl q) else uint a - uint b)"

definition namecmp :: "u8 list \<Rightarrow> u8 list \<Rightarrow> int" where
  "namecmp s t = strncmp_bytes DIRSIZ s t"

function dirlookup_loop :: "nat \<Rightarrow> u8 list \<Rightarrow> nat \<Rightarrow> nat \<Rightarrow> 'a fsst_scheme \<Rightarrow>
    ((nat \<times> u32) option \<times> 'a fsst_scheme) result" where
  "dirlookup_loop dp name off sz s =
     (if off < sz then
        andthen (readi dp (Var []) (of_nat off) 16 s) (\<lambda>(r, bs, s).
          if r \<noteq> 16 then Panic ''dirlookup read''
          else
            let de = decode_dirent bs
            in if de_inum de = 0 then dirlookup_loop dp name (off + 16) sz s
               else if namecmp name (de_name de) = 0 then
                 andthen (iget (i_dev (icache s ! dp)) (ucast (de_inum de)) s) (\<lambda>(ip, s).
                   Ok (Some (ip, of_nat off), s))
               else dirlookup_loop dp name (off + 16) sz s)
      else Ok (None, s))"
  by pat_completeness auto
termination
  by (relation "measure (\<lambda>(dp, name, off, sz, s). sz - off)") auto

declare dirlookup_loop.simps [simp del]

definition dirlookup :: "nat \<Rightarrow> u8 list \<Rightarrow> 'a fsst_scheme \<Rightarrow> ((nat \<times> u32) option \<times> 'a fsst_scheme) result" where
  "dirlookup dp name s =
     (if i_type (icache s ! dp) \<noteq> T_DIR then Panic ''dirlookup not DIR''
      else dirlookup_loop dp name 0 (unat (i_size (icache s ! dp))) s)"

function dirlink_loop :: "nat \<Rightarrow> nat \<Rightarrow> nat \<Rightarrow> 'a fsst_scheme \<Rightarrow> (nat \<times> 'a fsst_scheme) result" where
  "dirlink_loop dp off sz s =
     (if off < sz then
        andthen (readi dp (Var []) (of_nat off) 16 s) (\<lambda>(r, bs, s).
          if r \<noteq> 16 then Panic ''dirlink read''
          else if de_inum (decode_dirent bs) = 0 then Ok (off, s)
          else dirlink_loop dp (off + 16) sz s)
      else Ok (off, s))"
  by pat_completeness auto
termination
  by (relation "measure (\<lambda>(dp, off, sz, s). sz - off)") auto

declare dirlink_loop.simps [simp del]

text \<open>\<open>strncpy(de.name, name, DIRSIZ)\<close>.\<close>

definition dirname14 :: "u8 list \<Rightarrow> u8 list" where
  "dirname14 name = take DIRSIZ (name @ replicate DIRSIZ 0)"

definition dirlink :: "nat \<Rightarrow> u8 list \<Rightarrow> u32 \<Rightarrow> 'a fsst_scheme \<Rightarrow> (int \<times> 'a fsst_scheme) result" where
  "dirlink dp name inum s =
     andthen (dirlookup dp name s) (\<lambda>(found, s).
       case found of
         Some (ip, _) \<Rightarrow> andthen (iput ip s) (\<lambda>s. Ok (-1, s))
       | None \<Rightarrow>
           andthen (dirlink_loop dp 0 (unat (i_size (icache s ! dp))) s) (\<lambda>(off, s).
           andthen (writei dp (Var (encode_dirent \<lparr>de_inum = ucast inum, de_name = dirname14 name\<rparr>)) (of_nat off) 16 s) (\<lambda>(r, s).
             if r \<noteq> 16 then Panic ''dirlink'' else Ok (0, s))))"

section \<open>Path names\<close>

abbreviation (input) SLASH :: u8 where "SLASH \<equiv> 47"

definition skipelem :: "u8 list \<Rightarrow> (u8 list \<times> u8 list) option" where
  "skipelem path =
     (let path = dropWhile (\<lambda>c. c = SLASH) path
      in if path = [] then None
         else
           let s = takeWhile (\<lambda>c. c \<noteq> SLASH) path;
               name = (if length s \<ge> DIRSIZ then take DIRSIZ s else s);
               path = dropWhile (\<lambda>c. c = SLASH) (dropWhile (\<lambda>c. c \<noteq> SLASH) path)
           in Some (name, path))"

lemma skipelem_length: "skipelem path = Some (name, rest) \<Longrightarrow> length rest < length path"
proof -
  assume a: "skipelem path = Some (name, rest)"
  define q where "q = dropWhile (\<lambda>c. c = SLASH) path"
  have ne: "q \<noteq> []" and r: "rest = dropWhile (\<lambda>c. c = SLASH) (dropWhile (\<lambda>c. c \<noteq> SLASH) q)"
    using a by (auto simp: skipelem_def q_def Let_def split: if_splits)
  have "hd q \<noteq> SLASH" using hd_dropWhile [OF ne [unfolded q_def]] by (simp add: q_def)
  then obtain c cs where "q = c # cs" "c \<noteq> SLASH" using ne by (cases q) auto
  then have "length rest \<le> length cs"
    using r by (auto intro: order_trans [OF length_dropWhile_le length_dropWhile_le])
  moreover have "length q \<le> length path" by (simp add: q_def length_dropWhile_le)
  ultimately show ?thesis using \<open>q = c # cs\<close> by simp
qed

text \<open>The loop of \<open>namex\<close>; \<open>name\<close> is what the caller's buffer holds.\<close>

function namex_loop :: "nat \<Rightarrow> u8 list \<Rightarrow> bool \<Rightarrow> u8 list \<Rightarrow> 'a fsst_scheme \<Rightarrow>
    (nat option \<times> u8 list \<times> 'a fsst_scheme) result" where
  "namex_loop ip path nameiparent name s =
     (case skipelem path of
        None \<Rightarrow>
          if nameiparent then andthen (iput ip s) (\<lambda>s. Ok (None, name, s)) else Ok (Some ip, name, s)
      | Some (name, path) \<Rightarrow>
          andthen (ilock ip s) (\<lambda>s.
            if i_type (icache s ! ip) \<noteq> T_DIR then andthen (iunlockput ip s) (\<lambda>s. Ok (None, name, s))
            else if nameiparent \<and> path = [] then andthen (iunlock ip s) (\<lambda>s. Ok (Some ip, name, s))
            else
              andthen (dirlookup ip name s) (\<lambda>(found, s).
                case found of
                  None \<Rightarrow> andthen (iunlockput ip s) (\<lambda>s. Ok (None, name, s))
                | Some (nxt, _) \<Rightarrow> andthen (iunlockput ip s) (\<lambda>s. namex_loop nxt path nameiparent name s))))"
  by pat_completeness auto
termination
  by (relation "measure (\<lambda>(ip, path, np, name, s). length path)") (auto dest: skipelem_length)

declare namex_loop.simps [simp del]

definition namex :: "u8 list \<Rightarrow> bool \<Rightarrow> 'a fsst_scheme \<Rightarrow> (nat option \<times> u8 list \<times> 'a fsst_scheme) result" where
  "namex path nameiparent s =
     andthen (case path of
                c # _ \<Rightarrow>
                  if c = SLASH then iget ROOTDEV ROOTINO s
                  else with_proc s (\<lambda>p. case p_cwd (procs s ! p) of
                    None \<Rightarrow> Undef ''cwd'' | Some ip \<Rightarrow> Ok (ip, idup ip s))
              | [] \<Rightarrow> with_proc s (\<lambda>p. case p_cwd (procs s ! p) of
                    None \<Rightarrow> Undef ''cwd'' | Some ip \<Rightarrow> Ok (ip, idup ip s))) (\<lambda>(ip, s).
       namex_loop ip path nameiparent [] s)"

definition namei :: "u8 list \<Rightarrow> 'a fsst_scheme \<Rightarrow> (nat option \<times> 'a fsst_scheme) result" where
  "namei path s = andthen (namex path False s) (\<lambda>(ip, _, s). Ok (ip, s))"

definition nameiparent :: "u8 list \<Rightarrow> 'a fsst_scheme \<Rightarrow> (nat option \<times> u8 list \<times> 'a fsst_scheme) result" where
  "nameiparent path s = namex path True s"

end
