(* ===== verification/Pipe.thy ===== *)
theory Pipe
  imports Fs
begin

text \<open>
  Pipes (kernel/pipe.c). A \<open>struct pipe\<close> lives at the start of a page from the page allocator and is
  named by the address of that page; the state maps such addresses to the structures. The critical
  sections under \<open>pi->lock\<close> are atomic steps. \<open>pipewrite\<close> may sleep after it has written some bytes:
  \<open>pipewrite_from\<close> runs it from byte \<open>i\<close> to its return or to its next sleep, and yields the state it
  sleeps in.
\<close>

section \<open>State\<close>

record pipe =
  pi_data :: "u8 list"
  pi_nread :: u32
  pi_nwrite :: u32
  pi_readopen :: bool
  pi_writeopen :: bool

record pipest = fsst +
  pipes :: "u64 \<Rightarrow> pipe"

abbreviation (input) PIPESIZE :: nat where "PIPESIZE \<equiv> 512"

text \<open>A call that may sleep with part of its work done returns, or blocks on a channel at byte \<open>i\<close>.\<close>

datatype progress = Return int | Block chan int

definition upd_pipe :: "u64 \<Rightarrow> (pipe \<Rightarrow> pipe) \<Rightarrow> 'a pipest_scheme \<Rightarrow> 'a pipest_scheme" where
  "upd_pipe pi f s = s\<lparr>pipes := (pipes s)(pi := f (pipes s pi))\<rparr>"

section \<open>Operations\<close>

definition pipeclose :: "u64 \<Rightarrow> bool \<Rightarrow> 'a pipest_scheme \<Rightarrow> 'a pipest_scheme result" where
  "pipeclose pi writable s =
     (let s = (if writable
               then wakeup (ChanPipeRead pi) (upd_pipe pi (\<lambda>p. p\<lparr>pi_writeopen := False\<rparr>) s)
               else wakeup (ChanPipeWrite pi) (upd_pipe pi (\<lambda>p. p\<lparr>pi_readopen := False\<rparr>) s))
      in if \<not> pi_readopen (pipes s pi) \<and> \<not> pi_writeopen (pipes s pi) then kfree pi s else Ok s)"

definition pipe_put :: "u8 \<Rightarrow> pipe \<Rightarrow> pipe" where
  "pipe_put ch p = p\<lparr>pi_data := (pi_data p)[unat (pi_nwrite p mod 512) := ch], pi_nwrite := pi_nwrite p + 1\<rparr>"

definition pipe_get :: "pipe \<Rightarrow> u8 \<times> pipe" where
  "pipe_get p = (pi_data p ! unat (pi_nread p mod 512), p\<lparr>pi_nread := pi_nread p + 1\<rparr>)"

function pipewrite_from :: "u64 \<Rightarrow> u64 \<Rightarrow> int \<Rightarrow> int \<Rightarrow> nat \<Rightarrow> 'a pipest_scheme \<Rightarrow> progress \<times> 'a pipest_scheme" where
  "pipewrite_from pi addr n i pr s =
     (if i < n then
        if pi_nwrite (pipes s pi) = pi_nread (pipes s pi) + 512 then
          if \<not> pi_readopen (pipes s pi) \<or> p_killed (procs s ! pr) \<noteq> 0 then (Return (-1), s)
          else (Block (ChanPipeWrite pi) i, wakeup (ChanPipeRead pi) s)
        else
          (case copyin_buf (p_pagetable (procs s ! pr)) (addr + of_int i) 1 s of (r, bs) \<Rightarrow>
             if r = -1 then (Return i, wakeup (ChanPipeRead pi) s)
             else pipewrite_from pi addr n (i + 1) pr (upd_pipe pi (pipe_put (hd bs)) s))
      else (Return i, wakeup (ChanPipeRead pi) s))"
  by pat_completeness auto
termination
  by (relation "measure (\<lambda>(pi, addr, n, i, pr, s). nat (n - i))") auto

declare pipewrite_from.simps [simp del]

definition pipewrite :: "u64 \<Rightarrow> u64 \<Rightarrow> int \<Rightarrow> 'a pipest_scheme \<Rightarrow> (int \<times> 'a pipest_scheme) result" where
  "pipewrite pi addr n s =
     with_proc s (\<lambda>pr. case pipewrite_from pi addr n 0 pr s of
       (Return r, s) \<Rightarrow> Ok (r, s) | (Block c _, _) \<Rightarrow> Sleep c)"

function piperead_loop :: "u64 \<Rightarrow> u64 \<Rightarrow> int \<Rightarrow> int \<Rightarrow> nat \<Rightarrow> 'a pipest_scheme \<Rightarrow> int \<times> 'a pipest_scheme" where
  "piperead_loop pi addr n i pr s =
     (if i < n then
        if pi_nread (pipes s pi) = pi_nwrite (pipes s pi) then (i, s)
        else
          (case pipe_get (pipes s pi) of (ch, p) \<Rightarrow>
             case copyout_buf (p_pagetable (procs s ! pr)) (addr + of_int i) [ch] (upd_pipe pi (\<lambda>_. p) s) of (r, s) \<Rightarrow>
               if r = -1 then (i, s) else piperead_loop pi addr n (i + 1) pr s)
      else (i, s))"
  by pat_completeness auto
termination
  by (relation "measure (\<lambda>(pi, addr, n, i, pr, s). nat (n - i))") auto

declare piperead_loop.simps [simp del]

definition piperead :: "u64 \<Rightarrow> u64 \<Rightarrow> int \<Rightarrow> 'a pipest_scheme \<Rightarrow> (int \<times> 'a pipest_scheme) result" where
  "piperead pi addr n s =
     with_proc s (\<lambda>pr.
       if pi_nread (pipes s pi) = pi_nwrite (pipes s pi) \<and> pi_writeopen (pipes s pi)
       then if p_killed (procs s ! pr) \<noteq> 0 then Ok (-1, s) else Sleep (ChanPipeRead pi)
       else case piperead_loop pi addr n 0 pr s of (i, s) \<Rightarrow> Ok (i, wakeup (ChanPipeWrite pi) s))"

end
