(* ===== verification/File.thy ===== *)
theory File
  imports Pipe
begin

text \<open>
  Open files (kernel/file.c, kernel/file.h) and \<open>pipealloc\<close> of kernel/pipe.c, which creates two of them.
  A \<open>struct file\<close> is named by its index in \<open>ftable.file\<close>. The device switch table holds pointers to
  functions of the device drivers, so its read and write columns are arguments of \<open>fileread\<close> and
  \<open>filewrite\<close>; the console installs its own.
\<close>

section \<open>State\<close>

datatype filetype = FD_NONE | FD_PIPE | FD_INODE | FD_DEVICE

record ofile =
  f_type :: filetype
  f_ref :: int
  f_readable :: bool
  f_writable :: bool
  f_pipe :: u64
  f_ip :: nat
  f_off :: u32
  f_major :: u16

record filest = pipest +
  ftable :: "ofile list"

abbreviation (input) NFILE :: nat where "NFILE \<equiv> 100"
abbreviation (input) NDEV :: nat where "NDEV \<equiv> 10"

type_synonym 'a devfun = "bool \<Rightarrow> u64 \<Rightarrow> int \<Rightarrow> 'a filest_scheme \<Rightarrow> (int \<times> 'a filest_scheme) result"
type_synonym 'a devcol = "nat \<Rightarrow> 'a devfun option"

definition upd_file :: "nat \<Rightarrow> (ofile \<Rightarrow> ofile) \<Rightarrow> 'a filest_scheme \<Rightarrow> 'a filest_scheme" where
  "upd_file i f s = s\<lparr>ftable := (ftable s)[i := f (ftable s ! i)]\<rparr>"

section \<open>Operations\<close>

definition filealloc :: "'a filest_scheme \<Rightarrow> nat option \<times> 'a filest_scheme" where
  "filealloc s =
     (case find (\<lambda>i. f_ref (ftable s ! i) = 0) [0..<NFILE] of
        None \<Rightarrow> (None, s)
      | Some i \<Rightarrow> (Some i, upd_file i (\<lambda>f. f\<lparr>f_ref := 1\<rparr>) s))"

definition filedup :: "nat \<Rightarrow> 'a filest_scheme \<Rightarrow> 'a filest_scheme result" where
  "filedup i s =
     (if f_ref (ftable s ! i) < 1 then Panic ''filedup''
      else Ok (upd_file i (\<lambda>f. f\<lparr>f_ref := f_ref f + 1\<rparr>) s))"

definition fileclose :: "nat \<Rightarrow> 'a filest_scheme \<Rightarrow> 'a filest_scheme result" where
  "fileclose i s =
     (if f_ref (ftable s ! i) < 1 then Panic ''fileclose''
      else
        let s = upd_file i (\<lambda>f. f\<lparr>f_ref := f_ref f - 1\<rparr>) s
        in if f_ref (ftable s ! i) > 0 then Ok s
           else
             let ff = ftable s ! i;
                 s = upd_file i (\<lambda>f. f\<lparr>f_ref := 0, f_type := FD_NONE\<rparr>) s
             in case f_type ff of
                  FD_PIPE \<Rightarrow> pipeclose (f_pipe ff) (f_writable ff) s
                | FD_NONE \<Rightarrow> Ok s
                | _ \<Rightarrow>
                    andthen (begin_op s) (\<lambda>s.
                    andthen (iput (f_ip ff) s) (\<lambda>s.
                      end_op s)))"

text \<open>\<open>struct stat\<close> in memory; \<open>pad\<close> is what the stack holds in the four bytes of padding.\<close>

definition encode_stat :: "u8 list \<Rightarrow> stat \<Rightarrow> u8 list" where
  "encode_stat pad st =
     le_encode 4 (st_dev st) @ le_encode 4 (st_ino st) @ le_encode 2 (st_type st) @ le_encode 2 (st_nlink st) @
     take 4 (pad @ replicate 4 0) @ le_encode 8 (st_size st)"

definition filestat :: "u8 list \<Rightarrow> nat \<Rightarrow> u64 \<Rightarrow> 'a filest_scheme \<Rightarrow> (int \<times> 'a filest_scheme) result" where
  "filestat pad i addr s =
     with_proc s (\<lambda>p.
       let f = ftable s ! i
       in if f_type f = FD_INODE \<or> f_type f = FD_DEVICE then
            andthen (ilock (f_ip f) s) (\<lambda>s.
              let st = stati (icache s ! f_ip f)
              in andthen (iunlock (f_ip f) s) (\<lambda>s.
                   case copyout_buf (p_pagetable (procs s ! p)) addr (encode_stat pad st) s of (r, s) \<Rightarrow>
                     if r < 0 then Ok (-1, s) else Ok (0, s)))
          else Ok (-1, s))"

definition fileread :: "'a devcol \<Rightarrow> nat \<Rightarrow> u64 \<Rightarrow> int \<Rightarrow> 'a filest_scheme \<Rightarrow> (int \<times> 'a filest_scheme) result" where
  "fileread devread i addr n s =
     (let f = ftable s ! i
      in if \<not> f_readable f then Ok (-1, s)
         else case f_type f of
           FD_PIPE \<Rightarrow> piperead (f_pipe f) addr n s
         | FD_DEVICE \<Rightarrow>
             if sint (f_major f) < 0 \<or> sint (f_major f) \<ge> int NDEV then Ok (-1, s)
             else (case devread (nat (sint (f_major f))) of
                     None \<Rightarrow> Ok (-1, s)
                   | Some rd \<Rightarrow> rd True addr n s)
         | FD_INODE \<Rightarrow>
             andthen (ilock (f_ip f) s) (\<lambda>s.
             andthen (readi (f_ip f) (Addr True addr) (f_off f) (of_int n) s) (\<lambda>(tot, _, s).
               let r = sint tot;
                   s = (if r > 0 then upd_file i (\<lambda>f. f\<lparr>f_off := f_off f + tot\<rparr>) s else s)
               in andthen (iunlock (f_ip f) s) (\<lambda>s. Ok (r, s))))
         | FD_NONE \<Rightarrow> Panic ''fileread'')"

text \<open>The inode branch of \<open>filewrite\<close> writes at most three blocks per transaction.\<close>

abbreviation (input) FWMAX :: int where "FWMAX \<equiv> 3072"

function filewrite_loop :: "nat \<Rightarrow> u64 \<Rightarrow> int \<Rightarrow> int \<Rightarrow> 'a filest_scheme \<Rightarrow> (int \<times> 'a filest_scheme) result" where
  "filewrite_loop i addr n k s =
     (if k < n then
        let n1 = (if n - k > FWMAX then FWMAX else n - k); ip = f_ip (ftable s ! i)
        in andthen (begin_op s) (\<lambda>s.
           andthen (ilock ip s) (\<lambda>s.
           andthen (writei ip (Addr True (addr + of_int k)) (f_off (ftable s ! i)) (of_int n1) s) (\<lambda>(r, s).
             let s = (if r > 0 then upd_file i (\<lambda>f. f\<lparr>f_off := f_off f + of_int r\<rparr>) s else s)
             in andthen (iunlock ip s) (\<lambda>s.
                andthen (end_op s) (\<lambda>s.
                  if r < 0 then Ok (k, s)
                  else if r \<noteq> n1 then Panic ''short filewrite''
                  else filewrite_loop i addr n (k + r) s)))))
      else Ok (k, s))"
  by pat_completeness auto
termination
  by (relation "measure (\<lambda>(i, addr, n, k, s). nat (n - k))") (auto split: if_splits)

declare filewrite_loop.simps [simp del]

definition filewrite :: "'a devcol \<Rightarrow> nat \<Rightarrow> u64 \<Rightarrow> int \<Rightarrow> 'a filest_scheme \<Rightarrow> (int \<times> 'a filest_scheme) result" where
  "filewrite devwrite i addr n s =
     (let f = ftable s ! i
      in if \<not> f_writable f then Ok (-1, s)
         else case f_type f of
           FD_PIPE \<Rightarrow> pipewrite (f_pipe f) addr n s
         | FD_DEVICE \<Rightarrow>
             if sint (f_major f) < 0 \<or> sint (f_major f) \<ge> int NDEV then Ok (-1, s)
             else (case devwrite (nat (sint (f_major f))) of
                     None \<Rightarrow> Ok (-1, s)
                   | Some wr \<Rightarrow> wr True addr n s)
         | FD_INODE \<Rightarrow>
             andthen (filewrite_loop i addr n 0 s) (\<lambda>(k, s). Ok (if k = n then n else -1, s))
         | FD_NONE \<Rightarrow> Panic ''filewrite'')"

definition new_pipe :: "pipe \<Rightarrow> pipe" where
  "new_pipe p = p\<lparr>pi_readopen := True, pi_writeopen := True, pi_nwrite := 0, pi_nread := 0\<rparr>"

definition pipealloc :: "'a filest_scheme \<Rightarrow> ((nat \<times> nat) option \<times> 'a filest_scheme) result" where
  "pipealloc s =
     (case filealloc s of
        (None, s) \<Rightarrow> Ok (None, s)
      | (Some f0, s) \<Rightarrow>
          (case filealloc s of
             (None, s) \<Rightarrow> andthen (fileclose f0 s) (\<lambda>s. Ok (None, s))
           | (Some f1, s) \<Rightarrow>
               (case kalloc s of (pi, s) \<Rightarrow>
                  if pi = 0 then
                    andthen (fileclose f0 s) (\<lambda>s. andthen (fileclose f1 s) (\<lambda>s. Ok (None, s)))
                  else
                    Ok (Some (f0, f1),
                      upd_file f1 (\<lambda>f. f\<lparr>f_type := FD_PIPE, f_readable := False, f_writable := True, f_pipe := pi\<rparr>)
                       (upd_file f0 (\<lambda>f. f\<lparr>f_type := FD_PIPE, f_readable := True, f_writable := False, f_pipe := pi\<rparr>)
                         (upd_pipe pi new_pipe s))))))"

end
