(* ===== verification/ProcLife.thy ===== *)
theory ProcLife
  imports File
begin

text \<open>
  The beginning and end of processes (kernel/proc.c): \<open>userinit\<close>, \<open>fork\<close>, \<open>exit\<close> and \<open>forkret\<close>, which
  work on the process table, on user memory, on open files and on inodes. The trapframe is a
  structure in its own page of physical memory; its fields are 64-bit words at the offsets of
  kernel/proc.h.
\<close>

section \<open>Trapframe\<close>

abbreviation (input) TF_KERNEL_SATP :: u64 where "TF_KERNEL_SATP \<equiv> 0"
abbreviation (input) TF_KERNEL_SP :: u64 where "TF_KERNEL_SP \<equiv> 8"
abbreviation (input) TF_KERNEL_TRAP :: u64 where "TF_KERNEL_TRAP \<equiv> 16"
abbreviation (input) TF_EPC :: u64 where "TF_EPC \<equiv> 24"
abbreviation (input) TF_KERNEL_HARTID :: u64 where "TF_KERNEL_HARTID \<equiv> 32"
abbreviation (input) TF_SP :: u64 where "TF_SP \<equiv> 48"
abbreviation (input) TF_A0 :: u64 where "TF_A0 \<equiv> 112"
abbreviation (input) TF_A1 :: u64 where "TF_A1 \<equiv> 120"
abbreviation (input) TF_A7 :: u64 where "TF_A7 \<equiv> 168"
abbreviation (input) TF_SIZE :: nat where "TF_SIZE \<equiv> 288"

definition tf_get :: "nat \<Rightarrow> u64 \<Rightarrow> 'a ptab_scheme \<Rightarrow> u64" where
  "tf_get p off s = load64 (pmem s) (p_trapframe (procs s ! p) + off)"

definition tf_set :: "nat \<Rightarrow> u64 \<Rightarrow> u64 \<Rightarrow> 'a ptab_scheme \<Rightarrow> 'a ptab_scheme" where
  "tf_set p off v s = s\<lparr>pmem := store64 (pmem s) (p_trapframe (procs s ! p) + off) v\<rparr>"

text \<open>\<open>safestrcpy(name, str, 16)\<close> on the bytes of a process name.\<close>

definition set_name :: "u8 list \<Rightarrow> u8 list \<Rightarrow> u8 list" where
  "set_name str old = (let w = safestr (takeWhile (\<lambda>c. c \<noteq> 0) str) 16 in w @ drop (length w) old)"

section \<open>Operations\<close>

definition initcode :: "u8 list" where
  "initcode =
     [0x17, 0x05, 0x00, 0x00, 0x13, 0x05, 0x45, 0x02,
      0x97, 0x05, 0x00, 0x00, 0x93, 0x85, 0x35, 0x02,
      0x93, 0x08, 0x70, 0x00, 0x73, 0x00, 0x00, 0x00,
      0x93, 0x08, 0x20, 0x00, 0x73, 0x00, 0x00, 0x00,
      0xef, 0xf0, 0x9f, 0xff, 0x2f, 0x69, 0x6e, 0x69,
      0x74, 0x00, 0x00, 0x24, 0x00, 0x00, 0x00, 0x00,
      0x00, 0x00, 0x00, 0x00]"

definition userinit :: "'a filest_scheme \<Rightarrow> 'a filest_scheme result" where
  "userinit s =
     andthen (allocproc s) (\<lambda>(r, s).
       case r of
         None \<Rightarrow> Undef ''userinit: no process''
       | Some p \<Rightarrow>
           andthen (uvminit (p_pagetable (procs s ! p)) initcode (of_nat (length initcode)) (s\<lparr>initproc := Some p\<rparr>)) (\<lambda>s.
             let s = upd_proc p (\<lambda>q. q\<lparr>p_sz := PGSIZE\<rparr>) s;
                 s = tf_set p TF_SP PGSIZE (tf_set p TF_EPC 0 s);
                 s = upd_proc p (\<lambda>q. q\<lparr>p_name := set_name [105, 110, 105, 116, 99, 111, 100, 101] (p_name q)\<rparr>) s
             in andthen (namei [SLASH] s) (\<lambda>(ip, s).
                  Ok (upd_proc p (\<lambda>q. q\<lparr>p_cwd := ip, p_state := RUNNABLE\<rparr>) s))))"

fun fork_files :: "nat \<Rightarrow> nat \<Rightarrow> nat list \<Rightarrow> 'a filest_scheme \<Rightarrow> 'a filest_scheme result" where
  "fork_files p np [] s = Ok s"
| "fork_files p np (i # is) s =
     (case p_ofile (procs s ! p) ! i of
        None \<Rightarrow> fork_files p np is s
      | Some f \<Rightarrow>
          andthen (filedup f s) (\<lambda>s.
            fork_files p np is (upd_proc np (\<lambda>q. q\<lparr>p_ofile := (p_ofile q)[i := Some f]\<rparr>) s)))"

definition fork :: "'a filest_scheme \<Rightarrow> (int \<times> 'a filest_scheme) result" where
  "fork s =
     with_proc s (\<lambda>p.
       andthen (allocproc s) (\<lambda>(r, s).
         case r of
           None \<Rightarrow> Ok (-1, s)
         | Some np \<Rightarrow>
             andthen (uvmcopy (p_pagetable (procs s ! p)) (p_pagetable (procs s ! np)) (p_sz (procs s ! p)) s) (\<lambda>(r, s).
               if r < 0 then andthen (freeproc np s) (\<lambda>s. Ok (-1, s))
               else
                 let s = upd_proc np (\<lambda>q. q\<lparr>p_sz := p_sz (procs s ! p), p_parent := Some p\<rparr>) s;
                     s = s\<lparr>pmem := write_bytes (pmem s) (p_trapframe (procs s ! np))
                             (read_bytes (pmem s) (p_trapframe (procs s ! p)) TF_SIZE)\<rparr>;
                     s = tf_set np TF_A0 0 s
                 in andthen (fork_files p np [0..<NOFILE] s) (\<lambda>s.
                      case p_cwd (procs s ! p) of
                        None \<Rightarrow> Undef ''cwd''
                      | Some cwd \<Rightarrow>
                          let s = idup cwd s;
                              s = upd_proc np (\<lambda>q. q\<lparr>p_cwd := Some cwd,
                                    p_name := set_name (p_name (procs s ! p)) (p_name q)\<rparr>) s;
                              pid = p_pid (procs s ! np)
                          in Ok (pid, upd_proc np (\<lambda>q. q\<lparr>p_state := RUNNABLE\<rparr>) s)))))"

fun exit_files :: "nat \<Rightarrow> nat list \<Rightarrow> 'a filest_scheme \<Rightarrow> 'a filest_scheme result" where
  "exit_files p [] s = Ok s"
| "exit_files p (fd # fds) s =
     (case p_ofile (procs s ! p) ! fd of
        None \<Rightarrow> exit_files p fds s
      | Some f \<Rightarrow>
          andthen (fileclose f s) (\<lambda>s.
            exit_files p fds (upd_proc p (\<lambda>q. q\<lparr>p_ofile := (p_ofile q)[fd := None]\<rparr>) s)))"

text \<open>The part of \<open>exit\<close> that runs under the locks of the parent and of the process itself.\<close>

definition exit_table :: "nat \<Rightarrow> int \<Rightarrow> 'a ptab_scheme \<Rightarrow> 'a ptab_scheme result" where
  "exit_table p status s =
     (case (initproc s, p_parent (procs s ! p)) of
        (Some ip, Some original_parent) \<Rightarrow>
          let s = wakeup1 ip s;
              s = reparent p s;
              s = wakeup1 original_parent s
          in Ok (upd_proc p (\<lambda>q. q\<lparr>p_xstate := status, p_state := ZOMBIE\<rparr>) s)
      | _ \<Rightarrow> Undef ''exit: null pointer'')"

text \<open>\<open>exit\<close> never returns: its outcome is the state in which it calls \<open>sched\<close>.\<close>

definition exit :: "int \<Rightarrow> 'a filest_scheme \<Rightarrow> 'a filest_scheme result" where
  "exit status s =
     with_proc s (\<lambda>p.
       if Some p = initproc s then Panic ''init exiting''
       else
         andthen (exit_files p [0..<NOFILE] s) (\<lambda>s.
         andthen (begin_op s) (\<lambda>s.
         andthen (case p_cwd (procs s ! p) of None \<Rightarrow> Undef ''cwd'' | Some cwd \<Rightarrow> iput cwd s) (\<lambda>s.
         andthen (end_op s) (\<lambda>s.
           exit_table p status (upd_proc p (\<lambda>q. q\<lparr>p_cwd := None\<rparr>) s))))))"

end
