(* ===== verification/Uart.thy ===== *)
theory Uart
  imports ProcLife
begin

text \<open>
  The serial port driver (kernel/uart.c) and formatted kernel output (kernel/printf.c). The device is
  seen through its registers: \<open>uart_wr\<close> lists the register writes in order, \<open>uart_in\<close> is the input that
  waits in the receive register, and \<open>uart_idle\<close> the answers of the device to the next queries of the
  transmitter-idle bit, \<open>False\<close> once the list is used up. \<open>uartputc_sync\<close> polls that bit until it is set;
  waiting changes nothing, and the model takes the iteration in which it is set.
\<close>

section \<open>State\<close>

record uartst = filest +
  uart_tx_buf :: "u8 list"
  uart_tx_w :: nat
  uart_tx_r :: nat
  uart_idle :: "bool list"
  uart_in :: "u8 list"
  uart_wr :: "(nat \<times> u8) list"
  panicked :: bool

abbreviation (input) UART_TX_BUF_SIZE :: nat where "UART_TX_BUF_SIZE \<equiv> 32"
abbreviation (input) THR :: nat where "THR \<equiv> 0"
abbreviation (input) IER :: nat where "IER \<equiv> 1"
abbreviation (input) FCR :: nat where "FCR \<equiv> 2"
abbreviation (input) LCR :: nat where "LCR \<equiv> 3"

section \<open>Serial port\<close>

definition WriteReg :: "nat \<Rightarrow> u8 \<Rightarrow> 'a uartst_scheme \<Rightarrow> 'a uartst_scheme" where
  "WriteReg r v s = s\<lparr>uart_wr := uart_wr s @ [(r, v)]\<rparr>"

definition uartinit :: "'a uartst_scheme \<Rightarrow> 'a uartst_scheme" where
  "uartinit s =
     WriteReg IER (1 OR 2) (WriteReg FCR (1 OR 6) (WriteReg LCR 3
       (WriteReg 1 0x00 (WriteReg 0 0x03 (WriteReg LCR 0x80 (WriteReg IER 0x00 s))))))"

definition tx_idle :: "'a uartst_scheme \<Rightarrow> bool \<times> 'a uartst_scheme" where
  "tx_idle s = (case uart_idle s of [] \<Rightarrow> (False, s) | b # bs \<Rightarrow> (b, s\<lparr>uart_idle := bs\<rparr>))"

lemma tx_idle_fields [simp]:
  "uart_tx_w (snd (tx_idle s)) = uart_tx_w s" "uart_tx_r (snd (tx_idle s)) = uart_tx_r s"
  "length (uart_idle (snd (tx_idle s))) = length (uart_idle s) - 1"
  by (auto simp: tx_idle_def split: list.splits)

text \<open>Each round of \<open>uartstart\<close> queries the device, and stops at the first answer that it is busy.\<close>

function uartstart :: "'a uartst_scheme \<Rightarrow> 'a uartst_scheme" where
  "uartstart s =
     (if uart_tx_w s = uart_tx_r s then s
      else case tx_idle s of (idle, s') \<Rightarrow>
        if \<not> idle then s'
        else
          let c = uart_tx_buf s' ! uart_tx_r s';
              s' = s'\<lparr>uart_tx_r := (uart_tx_r s' + 1) mod UART_TX_BUF_SIZE\<rparr>;
              s' = wakeup ChanUartTx s'
          in uartstart (WriteReg THR c s'))"
  by pat_completeness auto
termination
  by (relation "measure (\<lambda>s. length (uart_idle s))")
    (auto simp: tx_idle_def wakeup_def WriteReg_def split: list.splits)

declare uartstart.simps [simp del]

definition uartputc :: "u8 \<Rightarrow> 'a uartst_scheme \<Rightarrow> 'a uartst_scheme result" where
  "uartputc c s =
     (if panicked s then Panic ''panicked''
      else if (uart_tx_w s + 1) mod UART_TX_BUF_SIZE = uart_tx_r s then Sleep ChanUartTx
      else Ok (uartstart (s\<lparr>uart_tx_buf := (uart_tx_buf s)[uart_tx_w s := c],
                            uart_tx_w := (uart_tx_w s + 1) mod UART_TX_BUF_SIZE\<rparr>)))"

definition uartputc_sync :: "u8 \<Rightarrow> 'a uartst_scheme \<Rightarrow> 'a uartst_scheme result" where
  "uartputc_sync c s = (if panicked s then Panic ''panicked'' else Ok (WriteReg THR c s))"

definition uartgetc :: "'a uartst_scheme \<Rightarrow> u8 option \<times> 'a uartst_scheme" where
  "uartgetc s = (case uart_in s of [] \<Rightarrow> (None, s) | c # cs \<Rightarrow> (Some c, s\<lparr>uart_in := cs\<rparr>))"

section \<open>Characters to the console\<close>

datatype conschar = BACKSPACE | Char u8

fun consputc :: "conschar \<Rightarrow> 'a uartst_scheme \<Rightarrow> 'a uartst_scheme result" where
  "consputc BACKSPACE s =
     andthen (uartputc_sync 8 s) (\<lambda>s. andthen (uartputc_sync 32 s) (\<lambda>s. uartputc_sync 8 s))"
| "consputc (Char c) s = uartputc_sync c s"

fun consputs :: "u8 list \<Rightarrow> 'a uartst_scheme \<Rightarrow> 'a uartst_scheme result" where
  "consputs [] s = Ok s"
| "consputs (c # cs) s = andthen (consputc (Char c) s) (\<lambda>s. consputs cs s)"

section \<open>Formatted output\<close>

definition digit :: "nat \<Rightarrow> u8" where
  "digit d = (if d < 10 then 48 + of_nat d else 87 + of_nat d)"

text \<open>The digits in the order in which the loop produces them, least significant first.\<close>

function print_digits :: "nat \<Rightarrow> nat \<Rightarrow> u8 list" where
  "print_digits base x =
     digit (x mod base) # (if base \<le> 1 \<or> x div base = 0 then [] else print_digits base (x div base))"
  by pat_completeness auto
termination
proof (relation "measure snd")
  fix base x :: nat
  assume "\<not> (base \<le> 1 \<or> x div base = 0)"
  then show "((base, x div base), base, x) \<in> measure snd" by (cases "x = 0") auto
qed simp

declare print_digits.simps [simp del]

definition printint :: "u32 \<Rightarrow> nat \<Rightarrow> bool \<Rightarrow> u8 list" where
  "printint xx base sign =
     (let neg = (sign \<and> sint xx < 0);
          x = (if neg then - xx else xx)
      in rev (print_digits base (unat x) @ (if neg then [45] else [])))"

fun printptr_loop :: "nat \<Rightarrow> u64 \<Rightarrow> u8 list" where
  "printptr_loop 0 x = []"
| "printptr_loop (Suc n) x = digit (unat (drop_bit 60 x)) # printptr_loop n (push_bit 4 x)"

definition printptr :: "u64 \<Rightarrow> u8 list" where
  "printptr x = [48, 120] @ printptr_loop 16 x"

text \<open>The arguments of \<open>printf\<close>; a string argument is a byte list, or \<open>None\<close> for the null pointer.\<close>

datatype pfarg = PInt u32 | PPtr u64 | PStr "u8 list option"

fun printf_bytes :: "u8 list \<Rightarrow> pfarg list \<Rightarrow> u8 list result" where
  "printf_bytes [] args = Ok []"
| "printf_bytes [c] args = (if c = 37 then Ok [] else Ok [c])"
| "printf_bytes (c # d # fmt) args =
     (if c \<noteq> 37 then andthen (printf_bytes (d # fmt) args) (\<lambda>out. Ok (c # out))
      else if d = 100 then
        (case args of PInt v # as \<Rightarrow> andthen (printf_bytes fmt as) (\<lambda>out. Ok (printint v 10 True @ out))
         | _ \<Rightarrow> Undef ''va_arg'')
      else if d = 120 then
        (case args of PInt v # as \<Rightarrow> andthen (printf_bytes fmt as) (\<lambda>out. Ok (printint v 16 True @ out))
         | _ \<Rightarrow> Undef ''va_arg'')
      else if d = 112 then
        (case args of PPtr v # as \<Rightarrow> andthen (printf_bytes fmt as) (\<lambda>out. Ok (printptr v @ out))
         | _ \<Rightarrow> Undef ''va_arg'')
      else if d = 115 then
        (case args of
           PStr (Some str) # as \<Rightarrow> andthen (printf_bytes fmt as) (\<lambda>out. Ok (takeWhile (\<lambda>c. c \<noteq> 0) str @ out))
         | PStr None # as \<Rightarrow> andthen (printf_bytes fmt as) (\<lambda>out. Ok ([40, 110, 117, 108, 108, 41] @ out))
         | _ \<Rightarrow> Undef ''va_arg'')
      else if d = 37 then andthen (printf_bytes fmt args) (\<lambda>out. Ok (37 # out))
      else andthen (printf_bytes fmt args) (\<lambda>out. Ok (37 # d # out)))"

definition printf :: "u8 list \<Rightarrow> pfarg list \<Rightarrow> 'a uartst_scheme \<Rightarrow> 'a uartst_scheme result" where
  "printf fmt args s = andthen (printf_bytes fmt args) (\<lambda>out. consputs out s)"

text \<open>What \<open>panic\<close> leaves behind before it loops forever.\<close>

definition panic :: "u8 list \<Rightarrow> 'a uartst_scheme \<Rightarrow> 'a uartst_scheme result" where
  "panic msg s =
     andthen (printf [112, 97, 110, 105, 99, 58, 32] [] s) (\<lambda>s.
     andthen (printf msg [] s) (\<lambda>s.
     andthen (printf [10] [] s) (\<lambda>s.
       Ok (s\<lparr>panicked := True\<rparr>))))"

end
