(* ===== verification/Console.thy ===== *)
theory Console
  imports Uart
begin

text \<open>
  The console (kernel/console.c): line editing of the input and the device functions that the read and
  write system calls reach through the device switch table. \<open>r\<close>, \<open>w\<close> and \<open>e\<close> are free-running 32-bit
  indices into a ring of 128 bytes. \<open>procdump\<close> of kernel/proc.c, which control-P runs, is here as well.
\<close>

section \<open>State\<close>

record consst = uartst +
  cons_buf :: "u8 list"
  cons_r :: u32
  cons_w :: u32
  cons_e :: u32

abbreviation (input) INPUT_BUF :: nat where "INPUT_BUF \<equiv> 128"
abbreviation (input) CONSOLE :: nat where "CONSOLE \<equiv> 1"

definition cons_at :: "u32 \<Rightarrow> 'a consst_scheme \<Rightarrow> u8" where
  "cons_at i s = cons_buf s ! unat (i mod 128)"

section \<open>Process listing\<close>

fun state_name :: "procstate \<Rightarrow> u8 list" where
  "state_name UNUSED = [117, 110, 117, 115, 101, 100]"
| "state_name SLEEPING = [115, 108, 101, 101, 112, 32]"
| "state_name RUNNABLE = [114, 117, 110, 98, 108, 101]"
| "state_name RUNNING = [114, 117, 110, 32, 32, 32]"
| "state_name ZOMBIE = [122, 111, 109, 98, 105, 101]"

fun procdump_loop :: "proc list \<Rightarrow> 'a uartst_scheme \<Rightarrow> 'a uartst_scheme result" where
  "procdump_loop [] s = Ok s"
| "procdump_loop (p # ps) s =
     (if p_state p = UNUSED then procdump_loop ps s
      else
        andthen (printf [37, 100, 32, 37, 115, 32, 37, 115]
          [PInt (word_of_int (p_pid p)), PStr (Some (state_name (p_state p))), PStr (Some (p_name p))] s) (\<lambda>s.
        andthen (printf [10] [] s) (\<lambda>s.
          procdump_loop ps s)))"

definition procdump :: "'a uartst_scheme \<Rightarrow> 'a uartst_scheme result" where
  "procdump s = andthen (printf [10] [] s) (\<lambda>s. procdump_loop (procs s) s)"

section \<open>Device functions\<close>

text \<open>\<open>uartputc\<close> may sleep after some bytes have gone out, so \<open>consolewrite_from\<close> runs from byte \<open>i\<close>.\<close>

function consolewrite_from :: "bool \<Rightarrow> u64 \<Rightarrow> int \<Rightarrow> int \<Rightarrow> 'a consst_scheme \<Rightarrow> (progress \<times> 'a consst_scheme) result" where
  "consolewrite_from user_src src n i s =
     (if i < n then
        andthen (either_copyin user_src (src + of_int i) 1 s) (\<lambda>(r, bs).
          if r = -1 then Ok (Return i, s)
          else (case uartputc (hd bs) s of
                  Ok s \<Rightarrow> consolewrite_from user_src src n (i + 1) s
                | Sleep c \<Rightarrow> Ok (Block c i, s)
                | Panic e \<Rightarrow> Panic e
                | Undef e \<Rightarrow> Undef e))
      else Ok (Return i, s))"
  by pat_completeness auto
termination
  by (relation "measure (\<lambda>(u, src, n, i, s). nat (n - i))") auto

declare consolewrite_from.simps [simp del]

definition finish :: "(progress \<times> 'a) result \<Rightarrow> (int \<times> 'a) result" where
  "finish m = andthen m (\<lambda>(g, s). case g of Return r \<Rightarrow> Ok (r, s) | Block c _ \<Rightarrow> Sleep c)"

definition consolewrite :: "bool \<Rightarrow> u64 \<Rightarrow> int \<Rightarrow> 'a consst_scheme \<Rightarrow> (int \<times> 'a consst_scheme) result" where
  "consolewrite user_src src n s = finish (consolewrite_from user_src src n 0 s)"

text \<open>\<open>n\<close> counts the bytes still wanted of the \<open>target\<close> bytes of the call.\<close>

function consoleread_from :: "bool \<Rightarrow> u64 \<Rightarrow> int \<Rightarrow> int \<Rightarrow> 'a consst_scheme \<Rightarrow> (progress \<times> 'a consst_scheme) result" where
  "consoleread_from user_dst dst target n s =
     (if n > 0 then
        if cons_r s = cons_w s then
          with_proc s (\<lambda>p. if p_killed (procs s ! p) \<noteq> 0 then Ok (Return (-1), s) else Ok (Block ChanCons n, s))
        else
          let c = cons_at (cons_r s) s;
              s = s\<lparr>cons_r := cons_r s + 1\<rparr>
          in if c = 4 then
               Ok (Return (target - n), if n < target then s\<lparr>cons_r := cons_r s - 1\<rparr> else s)
             else
               andthen (either_copyout user_dst dst [c] s) (\<lambda>(r, s).
                 if r = -1 then Ok (Return (target - n), s)
                 else if c = 10 then Ok (Return (target - (n - 1)), s)
                 else consoleread_from user_dst (dst + 1) target (n - 1) s)
      else Ok (Return (target - n), s))"
  by pat_completeness auto
termination
  by (relation "measure (\<lambda>(u, dst, target, n, s). nat n)") auto

declare consoleread_from.simps [simp del]

definition consoleread :: "bool \<Rightarrow> u64 \<Rightarrow> int \<Rightarrow> 'a consst_scheme \<Rightarrow> (int \<times> 'a consst_scheme) result" where
  "consoleread user_dst dst n s = finish (consoleread_from user_dst dst n n s)"

section \<open>Input\<close>

text \<open>The loop of control-U; \<open>e - w\<close> bytes of the ring are being edited.\<close>

function kill_line :: "'a consst_scheme \<Rightarrow> 'a consst_scheme result" where
  "kill_line s =
     (if cons_e s \<noteq> cons_w s \<and> cons_at (cons_e s - 1) s \<noteq> 10 then
        andthen (consputc BACKSPACE (s\<lparr>cons_e := cons_e s - 1\<rparr>)) (\<lambda>s. kill_line s)
      else Ok s)"
  by pat_completeness auto
termination
proof (relation "measure (\<lambda>s. unat (cons_e s - cons_w s))")
  fix s x :: "'a consst_scheme"
  assume a: "cons_e s \<noteq> cons_w s \<and> cons_at (cons_e s - 1) s \<noteq> 10"
    and b: "consputc BACKSPACE (s\<lparr>cons_e := cons_e s - 1\<rparr>) = Ok x"
  have "cons_e x = cons_e s - 1" "cons_w x = cons_w s"
    using b by (auto simp: uartputc_sync_def WriteReg_def split: if_splits)
  then have "cons_e x - cons_w x = cons_e s - cons_w s - 1" by simp
  then show "(x, s) \<in> measure (\<lambda>s. unat (cons_e s - cons_w s))"
    using a by (simp add: measure_unat)
qed simp

declare kill_line.simps [simp del]

definition consoleintr :: "u8 \<Rightarrow> 'a consst_scheme \<Rightarrow> 'a consst_scheme result" where
  "consoleintr c s =
     (if c = 16 then procdump s
      else if c = 21 then kill_line s
      else if c = 8 \<or> c = 127 then
        (if cons_e s \<noteq> cons_w s then consputc BACKSPACE (s\<lparr>cons_e := cons_e s - 1\<rparr>) else Ok s)
      else if c \<noteq> 0 \<and> cons_e s - cons_r s < 128 then
        let c = (if c = 13 then 10 else c)
        in andthen (consputc (Char c) s) (\<lambda>s.
             let s = s\<lparr>cons_buf := (cons_buf s)[unat (cons_e s mod 128) := c], cons_e := cons_e s + 1\<rparr>
             in if c = 10 \<or> c = 4 \<or> cons_e s = cons_r s + 128
                then Ok (wakeup ChanCons (s\<lparr>cons_w := cons_e s\<rparr>))
                else Ok s)
      else Ok s)"

text \<open>The loop of \<open>uartintr\<close> takes the characters that wait in the receiver; then the output restarts.\<close>

fun uartintr_loop :: "u8 list \<Rightarrow> 'a consst_scheme \<Rightarrow> 'a consst_scheme result" where
  "uartintr_loop [] s = Ok s"
| "uartintr_loop (c # cs) s = andthen (consoleintr c (s\<lparr>uart_in := cs\<rparr>)) (\<lambda>s. uartintr_loop cs s)"

definition uartintr :: "'a consst_scheme \<Rightarrow> 'a consst_scheme result" where
  "uartintr s = andthen (uartintr_loop (uart_in s) s) (\<lambda>s. Ok (uartstart s))"

definition consoleinit :: "'a consst_scheme \<Rightarrow> 'a consst_scheme" where
  "consoleinit s = uartinit s"

text \<open>The device switch table that \<open>consoleinit\<close> sets up.\<close>

definition devsw_read :: "nat \<Rightarrow> (bool \<Rightarrow> u64 \<Rightarrow> int \<Rightarrow> 'a consst_scheme \<Rightarrow> (int \<times> 'a consst_scheme) result) option" where
  "devsw_read major = (if major = CONSOLE then Some consoleread else None)"

definition devsw_write :: "nat \<Rightarrow> (bool \<Rightarrow> u64 \<Rightarrow> int \<Rightarrow> 'a consst_scheme \<Rightarrow> (int \<times> 'a consst_scheme) result) option" where
  "devsw_write major = (if major = CONSOLE then Some consolewrite else None)"

end
