(* ===== verification/Exec.thy ===== *)
theory Exec
  imports Console
begin

text \<open>
  System call arguments (kernel/syscall.c) and \<open>exec\<close> (kernel/exec.c). Arguments are read from the
  registers saved in the trapframe and from user memory. Strings fetched into a local array are
  passed by value (\<open>copyinstr_buf\<close>); those fetched into a page are written to physical memory.
\<close>

section \<open>System call arguments\<close>

fun str_page :: "nat \<Rightarrow> memory \<Rightarrow> u64 \<Rightarrow> bool \<times> u8 list" where
  "str_page 0 m p = (False, [])"
| "str_page (Suc n) m p =
     (if m p = 0 then (True, []) else case str_page n m (p + 1) of (z, cs) \<Rightarrow> (z, m p # cs))"

function copyinstr_buf :: "u64 \<Rightarrow> u64 \<Rightarrow> u64 \<Rightarrow> 'a kmem_scheme \<Rightarrow> u8 list option" where
  "copyinstr_buf pagetable srcva maxlen s =
     (if maxlen > 0 then
        let va0 = PGROUNDDOWN srcva;
            pa0 = walkaddr pagetable va0 s
        in if pa0 = 0 then None
           else
             let n = chunk srcva maxlen
             in case str_page (unat n) (pmem s) (pa0 + (srcva - va0)) of (got_null, cs) \<Rightarrow>
                  if got_null then Some cs
                  else map_option ((@) cs) (copyinstr_buf pagetable (va0 + PGSIZE) (maxlen - n) s)
      else None)"
  by pat_completeness auto
termination
  by (relation "measure (\<lambda>(pt, src, len, s). unat len)") (simp_all add: chunk_less)

declare copyinstr_buf.simps [simp del]

definition fetchaddr :: "u64 \<Rightarrow> 'a ptab_scheme \<Rightarrow> u64 option result" where
  "fetchaddr addr s =
     with_proc s (\<lambda>p.
       let q = procs s ! p
       in if addr \<ge> p_sz q \<or> addr + 8 > p_sz q then Ok None
          else case copyin_buf (p_pagetable q) addr 8 s of (r, bs) \<Rightarrow>
            if r \<noteq> 0 then Ok None else Ok (Some (le_decode bs)))"

definition fetchstr :: "u64 \<Rightarrow> u64 \<Rightarrow> u64 \<Rightarrow> 'a ptab_scheme \<Rightarrow> (int \<times> 'a ptab_scheme) result" where
  "fetchstr addr buf maxlen s =
     with_proc s (\<lambda>p.
       case copyinstr (p_pagetable (procs s ! p)) buf addr maxlen s of (err, s) \<Rightarrow>
         if err < 0 then Ok (err, s)
         else (case strlen (pmem s) buf of None \<Rightarrow> Undef ''strlen'' | Some n \<Rightarrow> Ok (int n, s)))"

definition argraw :: "nat \<Rightarrow> 'a ptab_scheme \<Rightarrow> u64 result" where
  "argraw n s =
     with_proc s (\<lambda>p. if n \<le> 5 then Ok (tf_get p (TF_A0 + 8 * of_nat n) s) else Panic ''argraw'')"

definition argint :: "nat \<Rightarrow> 'a ptab_scheme \<Rightarrow> int result" where
  "argint n s = andthen (argraw n s) (\<lambda>v. Ok (sint (ucast v :: u32)))"

definition argaddr :: "nat \<Rightarrow> 'a ptab_scheme \<Rightarrow> u64 result" where
  "argaddr n s = argraw n s"

text \<open>\<open>argstr\<close> into a local array of \<open>maxlen\<close> bytes: the string, or \<open>None\<close> for the return value -1.\<close>

definition argstr :: "nat \<Rightarrow> u64 \<Rightarrow> 'a ptab_scheme \<Rightarrow> u8 list option result" where
  "argstr n maxlen s =
     andthen (argaddr n s) (\<lambda>addr.
       with_proc s (\<lambda>p. Ok (copyinstr_buf (p_pagetable (procs s ! p)) addr maxlen s)))"

section \<open>Loading a program\<close>

text \<open>
  \<open>i\<close> is a 32-bit counter in steps of a page. It could only wrap around for a segment of more than
  \<open>2 ^ 32 - 4096\<close> bytes, every page of it mapped; the model stops there.
\<close>

function loadseg_loop :: "u64 \<Rightarrow> u64 \<Rightarrow> nat \<Rightarrow> u32 \<Rightarrow> nat \<Rightarrow> nat \<Rightarrow> 'a fsst_scheme \<Rightarrow> (int \<times> 'a fsst_scheme) result" where
  "loadseg_loop pagetable va ip offset sz i s =
     (if i < sz then
        if i + 4096 \<ge> 2 ^ 32 then Undef ''loadseg: counter''
        else
          let pa = walkaddr pagetable (va + of_nat i) s
          in if pa = 0 then Panic ''loadseg: address should exist''
             else
               let n = (if sz - i < 4096 then sz - i else 4096)
               in andthen (readi ip (Addr False pa) (offset + of_nat i) (of_nat n) s) (\<lambda>(r, _, s).
                    if r \<noteq> of_nat n then Ok (-1, s)
                    else loadseg_loop pagetable va ip offset sz (i + 4096) s)
      else Ok (0, s))"
  by pat_completeness auto
termination
  by (relation "measure (\<lambda>(pt, va, ip, off, sz, i, s). sz - i)") auto

declare loadseg_loop.simps [simp del]

definition loadseg :: "u64 \<Rightarrow> u64 \<Rightarrow> nat \<Rightarrow> u32 \<Rightarrow> u32 \<Rightarrow> 'a fsst_scheme \<Rightarrow> (int \<times> 'a fsst_scheme) result" where
  "loadseg pagetable va ip offset sz s =
     (if va mod PGSIZE \<noteq> 0 then Panic ''loadseg: va must be page aligned''
      else loadseg_loop pagetable va ip offset (unat sz) 0 s)"

abbreviation (input) ELF_MAGIC :: u32 where "ELF_MAGIC \<equiv> 0x464C457F"
abbreviation (input) ELF_PROG_LOAD :: u32 where "ELF_PROG_LOAD \<equiv> 1"
abbreviation (input) MAXARG :: nat where "MAXARG \<equiv> 32"

record elfhdr =
  elf_magic :: u32
  elf_entry :: u64
  elf_phoff :: u64
  elf_phnum :: u16

definition decode_elfhdr :: "u8 list \<Rightarrow> elfhdr" where
  "decode_elfhdr bs = \<lparr>elf_magic = le_decode (get_bytes 0 4 bs), elf_entry = le_decode (get_bytes 24 8 bs),
     elf_phoff = le_decode (get_bytes 32 8 bs), elf_phnum = le_decode (get_bytes 56 2 bs)\<rparr>"

record proghdr =
  ph_type :: u32
  ph_off :: u64
  ph_vaddr :: u64
  ph_filesz :: u64
  ph_memsz :: u64

definition decode_proghdr :: "u8 list \<Rightarrow> proghdr" where
  "decode_proghdr bs = \<lparr>ph_type = le_decode (get_bytes 0 4 bs), ph_off = le_decode (get_bytes 8 8 bs),
     ph_vaddr = le_decode (get_bytes 16 8 bs), ph_filesz = le_decode (get_bytes 32 8 bs),
     ph_memsz = le_decode (get_bytes 40 8 bs)\<rparr>"

text \<open>The loop over the program headers: whether it got through, and the size it reached.\<close>

fun exec_load :: "nat \<Rightarrow> u64 \<Rightarrow> nat \<Rightarrow> u32 \<Rightarrow> u64 \<Rightarrow> 'a fsst_scheme \<Rightarrow> (bool \<times> u64 \<times> 'a fsst_scheme) result" where
  "exec_load ip pagetable 0 off sz s = Ok (True, sz, s)"
| "exec_load ip pagetable (Suc k) off sz s =
     andthen (readi ip (Var []) off 56 s) (\<lambda>(r, bs, s).
       let ph = decode_proghdr bs
       in if r \<noteq> 56 then Ok (False, sz, s)
          else if ph_type ph \<noteq> ELF_PROG_LOAD then exec_load ip pagetable k (off + 56) sz s
          else if ph_memsz ph < ph_filesz ph then Ok (False, sz, s)
          else if ph_vaddr ph + ph_memsz ph < ph_vaddr ph then Ok (False, sz, s)
          else
            andthen (uvmalloc pagetable sz (ph_vaddr ph + ph_memsz ph) s) (\<lambda>(sz1, s).
              if sz1 = 0 then Ok (False, sz, s)
              else if ph_vaddr ph mod PGSIZE \<noteq> 0 then Ok (False, sz1, s)
              else
                andthen (loadseg pagetable (ph_vaddr ph) ip (ucast (ph_off ph)) (ucast (ph_filesz ph)) s) (\<lambda>(r, s).
                  if r < 0 then Ok (False, sz1, s)
                  else exec_load ip pagetable k (off + 56) sz1 s)))"

text \<open>The loop that pushes the argument strings: the stack pointer and \<open>ustack\<close>, or \<open>None\<close> for \<open>goto bad\<close>.\<close>

fun exec_args :: "u64 \<Rightarrow> u64 \<Rightarrow> u64 list \<Rightarrow> u64 \<Rightarrow> u64 list \<Rightarrow> 'a kmem_scheme \<Rightarrow>
    ((u64 \<times> u64 list) option \<times> 'a kmem_scheme) result" where
  "exec_args pagetable stackbase [] sp ustack s = Undef ''argv''"
| "exec_args pagetable stackbase (a # argv) sp ustack s =
     (if a = 0 then Ok (Some (sp, ustack), s)
      else if length ustack \<ge> MAXARG then Ok (None, s)
      else case strlen (pmem s) a of
        None \<Rightarrow> Undef ''strlen''
      | Some n \<Rightarrow>
          let sp = sp - of_nat (n + 1);
              sp = sp - sp mod 16
          in if sp < stackbase then Ok (None, s)
             else case copyout pagetable sp a (of_nat (n + 1)) s of (r, s) \<Rightarrow>
               if r < 0 then Ok (None, s) else exec_args pagetable stackbase argv sp (ustack @ [sp]) s)"

definition exec_bad :: "u64 \<Rightarrow> u64 \<Rightarrow> nat option \<Rightarrow> 'a fsst_scheme \<Rightarrow> (int \<times> 'a fsst_scheme) result" where
  "exec_bad pagetable sz ip s =
     andthen (if pagetable \<noteq> 0 then proc_freepagetable pagetable sz s else Ok s) (\<lambda>s.
       case ip of
         None \<Rightarrow> Ok (-1, s)
       | Some i \<Rightarrow> andthen (iunlockput i s) (\<lambda>s. andthen (end_op s) (\<lambda>s. Ok (-1, s))))"

definition path_last :: "u8 list \<Rightarrow> u8 list" where
  "path_last path = rev (takeWhile (\<lambda>c. c \<noteq> SLASH) (rev path))"

text \<open>From the allocation of the stack to the end of \<open>exec\<close>, after the file is closed.\<close>

definition exec_commit :: "nat \<Rightarrow> u8 list \<Rightarrow> u64 list \<Rightarrow> u64 \<Rightarrow> u64 \<Rightarrow> u64 \<Rightarrow> 'a fsst_scheme \<Rightarrow> (int \<times> 'a fsst_scheme) result" where
  "exec_commit p path argv entry pagetable sz s =
     (let oldsz = p_sz (procs s ! p);
          sz = PGROUNDUP sz
      in andthen (uvmalloc pagetable sz (sz + 2 * PGSIZE) s) (\<lambda>(sz1, s).
           if sz1 = 0 then exec_bad pagetable sz None s
           else
             let sz = sz1
             in andthen (uvmclear pagetable (sz - 2 * PGSIZE) s) (\<lambda>s.
                  let stackbase = sz - PGSIZE
                  in andthen (exec_args pagetable stackbase argv sz [] s) (\<lambda>(r, s).
                       case r of
                         None \<Rightarrow> exec_bad pagetable sz None s
                       | Some (sp, ustack) \<Rightarrow>
                           let argc = length ustack;
                               sp = sp - of_nat (argc + 1) * 8;
                               sp = sp - sp mod 16
                           in if sp < stackbase then exec_bad pagetable sz None s
                              else case copyout_buf pagetable sp (concat (map (le_encode 8) (ustack @ [0]))) s of (r, s) \<Rightarrow>
                                if r < 0 then exec_bad pagetable sz None s
                                else
                                  let s = tf_set p TF_A1 sp s;
                                      oldpagetable = p_pagetable (procs s ! p);
                                      s = upd_proc p (\<lambda>q. q\<lparr>p_name := set_name (path_last path) (p_name q),
                                            p_pagetable := pagetable, p_sz := sz\<rparr>) s;
                                      s = tf_set p TF_SP sp (tf_set p TF_EPC entry s)
                                  in andthen (proc_freepagetable oldpagetable oldsz s) (\<lambda>s. Ok (int argc, s))))))"

definition exec :: "u8 list \<Rightarrow> u64 list \<Rightarrow> 'a fsst_scheme \<Rightarrow> (int \<times> 'a fsst_scheme) result" where
  "exec path argv s =
     with_proc s (\<lambda>p.
       andthen (begin_op s) (\<lambda>s.
       andthen (namei path s) (\<lambda>(r, s).
         case r of
           None \<Rightarrow> andthen (end_op s) (\<lambda>s. Ok (-1, s))
         | Some ip \<Rightarrow>
             andthen (ilock ip s) (\<lambda>s.
             andthen (readi ip (Var []) 0 64 s) (\<lambda>(r, bs, s).
               let elf = decode_elfhdr bs
               in if r \<noteq> 64 \<or> elf_magic elf \<noteq> ELF_MAGIC then exec_bad 0 0 (Some ip) s
                  else
                    andthen (proc_pagetable (p_trapframe (procs s ! p)) s) (\<lambda>(pagetable, s).
                      if pagetable = 0 then exec_bad 0 0 (Some ip) s
                      else
                        andthen (exec_load ip pagetable (unat (elf_phnum elf)) (ucast (elf_phoff elf)) 0 s) (\<lambda>(ok, sz, s).
                          if \<not> ok then exec_bad pagetable sz (Some ip) s
                          else
                            andthen (iunlockput ip s) (\<lambda>s.
                            andthen (end_op s) (\<lambda>s.
                              exec_commit p path argv (elf_entry elf) pagetable sz s)))))))))"

end
