(* ===== verification/Sysfile.thy ===== *)
theory Sysfile
  imports Exec
begin

text \<open>
  The file system calls (kernel/sysfile.c). Each returns the value of its register \<open>a0\<close> as an int;
  the dispatcher widens it to 64 bits.
\<close>

abbreviation (input) MAXPATH :: u64 where "MAXPATH \<equiv> 128"
abbreviation (input) O_RDONLY :: u32 where "O_RDONLY \<equiv> 0x000"
abbreviation (input) O_WRONLY :: u32 where "O_WRONLY \<equiv> 0x001"
abbreviation (input) O_RDWR :: u32 where "O_RDWR \<equiv> 0x002"
abbreviation (input) O_CREATE :: u32 where "O_CREATE \<equiv> 0x200"
abbreviation (input) O_TRUNC :: u32 where "O_TRUNC \<equiv> 0x400"
abbreviation (input) DOT :: "u8 list" where "DOT \<equiv> [46]"
abbreviation (input) DOTDOT :: "u8 list" where "DOTDOT \<equiv> [46, 46]"

section \<open>Descriptors\<close>

definition argfd :: "nat \<Rightarrow> 'a ptab_scheme \<Rightarrow> (nat \<times> nat) option result" where
  "argfd n s =
     andthen (argint n s) (\<lambda>fd.
       with_proc s (\<lambda>p.
         if fd < 0 \<or> fd \<ge> int NOFILE then Ok None
         else case p_ofile (procs s ! p) ! nat fd of
           None \<Rightarrow> Ok None
         | Some f \<Rightarrow> Ok (Some (nat fd, f))))"

definition fdalloc :: "nat \<Rightarrow> 'a ptab_scheme \<Rightarrow> (nat option \<times> 'a ptab_scheme) result" where
  "fdalloc f s =
     with_proc s (\<lambda>p.
       case find (\<lambda>fd. p_ofile (procs s ! p) ! fd = None) [0..<NOFILE] of
         None \<Rightarrow> Ok (None, s)
       | Some fd \<Rightarrow> Ok (Some fd, upd_proc p (\<lambda>q. q\<lparr>p_ofile := (p_ofile q)[fd := Some f]\<rparr>) s))"

definition clear_fd :: "nat \<Rightarrow> 'a ptab_scheme \<Rightarrow> 'a ptab_scheme result" where
  "clear_fd fd s = with_proc s (\<lambda>p. Ok (upd_proc p (\<lambda>q. q\<lparr>p_ofile := (p_ofile q)[fd := None]\<rparr>) s))"

definition sys_dup :: "'a filest_scheme \<Rightarrow> (int \<times> 'a filest_scheme) result" where
  "sys_dup s =
     andthen (argfd 0 s) (\<lambda>r.
       case r of
         None \<Rightarrow> Ok (-1, s)
       | Some (_, f) \<Rightarrow>
           andthen (fdalloc f s) (\<lambda>(r, s).
             case r of
               None \<Rightarrow> Ok (-1, s)
             | Some fd \<Rightarrow> andthen (filedup f s) (\<lambda>s. Ok (int fd, s))))"

definition sys_read :: "'a consst_scheme \<Rightarrow> (int \<times> 'a consst_scheme) result" where
  "sys_read s =
     andthen (argfd 0 s) (\<lambda>r.
     andthen (argint 2 s) (\<lambda>n.
     andthen (argaddr 1 s) (\<lambda>p.
       case r of None \<Rightarrow> Ok (-1, s) | Some (_, f) \<Rightarrow> fileread devsw_read f p n s)))"

definition sys_write :: "'a consst_scheme \<Rightarrow> (int \<times> 'a consst_scheme) result" where
  "sys_write s =
     andthen (argfd 0 s) (\<lambda>r.
     andthen (argint 2 s) (\<lambda>n.
     andthen (argaddr 1 s) (\<lambda>p.
       case r of None \<Rightarrow> Ok (-1, s) | Some (_, f) \<Rightarrow> filewrite devsw_write f p n s)))"

definition sys_close :: "'a filest_scheme \<Rightarrow> (int \<times> 'a filest_scheme) result" where
  "sys_close s =
     andthen (argfd 0 s) (\<lambda>r.
       case r of
         None \<Rightarrow> Ok (-1, s)
       | Some (fd, f) \<Rightarrow>
           andthen (clear_fd fd s) (\<lambda>s. andthen (fileclose f s) (\<lambda>s. Ok (0, s))))"

definition sys_fstat :: "u8 list \<Rightarrow> 'a filest_scheme \<Rightarrow> (int \<times> 'a filest_scheme) result" where
  "sys_fstat pad s =
     andthen (argfd 0 s) (\<lambda>r.
     andthen (argaddr 1 s) (\<lambda>st.
       case r of None \<Rightarrow> Ok (-1, s) | Some (_, f) \<Rightarrow> filestat pad f st s))"

section \<open>Names\<close>

definition end_with :: "int \<Rightarrow> 'a fsst_scheme \<Rightarrow> (int \<times> 'a fsst_scheme) result" where
  "end_with r s = andthen (end_op s) (\<lambda>s. Ok (r, s))"

definition link_bad :: "nat \<Rightarrow> 'a fsst_scheme \<Rightarrow> (int \<times> 'a fsst_scheme) result" where
  "link_bad ip s =
     andthen (ilock ip s) (\<lambda>s.
     andthen (iupdate ip (upd_inode ip (\<lambda>i. i\<lparr>i_nlink := i_nlink i - 1\<rparr>) s)) (\<lambda>s.
     andthen (iunlockput ip s) (\<lambda>s.
       end_with (-1) s)))"

definition sys_link :: "'a fsst_scheme \<Rightarrow> (int \<times> 'a fsst_scheme) result" where
  "sys_link s =
     andthen (argstr 0 MAXPATH s) (\<lambda>old'.
     andthen (argstr 1 MAXPATH s) (\<lambda>new'.
       case (old', new') of
         (Some old, Some new) \<Rightarrow>
           andthen (begin_op s) (\<lambda>s.
           andthen (namei old s) (\<lambda>(r, s).
             case r of
               None \<Rightarrow> end_with (-1) s
             | Some ip \<Rightarrow>
                 andthen (ilock ip s) (\<lambda>s.
                   if i_type (icache s ! ip) = T_DIR then andthen (iunlockput ip s) (\<lambda>s. end_with (-1) s)
                   else
                     andthen (iupdate ip (upd_inode ip (\<lambda>i. i\<lparr>i_nlink := i_nlink i + 1\<rparr>) s)) (\<lambda>s.
                     andthen (iunlock ip s) (\<lambda>s.
                     andthen (nameiparent new s) (\<lambda>(r, name, s).
                       case r of
                         None \<Rightarrow> link_bad ip s
                       | Some dp \<Rightarrow>
                           andthen (ilock dp s) (\<lambda>s.
                           andthen (if i_dev (icache s ! dp) \<noteq> i_dev (icache s ! ip) then Ok (-1, s)
                                    else dirlink dp name (i_inum (icache s ! ip)) s) (\<lambda>(r, s).
                           andthen (iunlockput dp s) (\<lambda>s.
                             if r < 0 then link_bad ip s
                             else andthen (iput ip s) (\<lambda>s. end_with 0 s))))))))))
       | _ \<Rightarrow> Ok (-1, s)))"

function isdirempty_loop :: "nat \<Rightarrow> nat \<Rightarrow> nat \<Rightarrow> 'a fsst_scheme \<Rightarrow> (bool \<times> 'a fsst_scheme) result" where
  "isdirempty_loop dp off sz s =
     (if off < sz then
        andthen (readi dp (Var []) (of_nat off) 16 s) (\<lambda>(r, bs, s).
          if r \<noteq> 16 then Panic ''isdirempty: readi''
          else if de_inum (decode_dirent bs) \<noteq> 0 then Ok (False, s)
          else isdirempty_loop dp (off + 16) sz s)
      else Ok (True, s))"
  by pat_completeness auto
termination
  by (relation "measure (\<lambda>(dp, off, sz, s). sz - off)") auto

declare isdirempty_loop.simps [simp del]

definition isdirempty :: "nat \<Rightarrow> 'a fsst_scheme \<Rightarrow> (bool \<times> 'a fsst_scheme) result" where
  "isdirempty dp s = isdirempty_loop dp (2 * 16) (unat (i_size (icache s ! dp))) s"

definition unlink_bad :: "nat \<Rightarrow> 'a fsst_scheme \<Rightarrow> (int \<times> 'a fsst_scheme) result" where
  "unlink_bad dp s = andthen (iunlockput dp s) (\<lambda>s. end_with (-1) s)"

definition sys_unlink :: "'a fsst_scheme \<Rightarrow> (int \<times> 'a fsst_scheme) result" where
  "sys_unlink s =
     andthen (argstr 0 MAXPATH s) (\<lambda>path'.
       case path' of
         None \<Rightarrow> Ok (-1, s)
       | Some path \<Rightarrow>
           andthen (begin_op s) (\<lambda>s.
           andthen (nameiparent path s) (\<lambda>(r, name, s).
             case r of
               None \<Rightarrow> end_with (-1) s
             | Some dp \<Rightarrow>
                 andthen (ilock dp s) (\<lambda>s.
                   if namecmp name DOT = 0 \<or> namecmp name DOTDOT = 0 then unlink_bad dp s
                   else
                     andthen (dirlookup dp name s) (\<lambda>(found, s).
                       case found of
                         None \<Rightarrow> unlink_bad dp s
                       | Some (ip, off) \<Rightarrow>
                           andthen (ilock ip s) (\<lambda>s.
                             if sint (i_nlink (icache s ! ip)) < 1 then Panic ''unlink: nlink < 1''
                             else
                               andthen (if i_type (icache s ! ip) = T_DIR then isdirempty ip s else Ok (True, s)) (\<lambda>(e, s).
                                 if \<not> e then andthen (iunlockput ip s) (\<lambda>s. unlink_bad dp s)
                                 else
                                   andthen (writei dp (Var (replicate 16 0)) off 16 s) (\<lambda>(r, s).
                                     if r \<noteq> 16 then Panic ''unlink: writei''
                                     else
                                       andthen (if i_type (icache s ! ip) = T_DIR
                                                then iupdate dp (upd_inode dp (\<lambda>i. i\<lparr>i_nlink := i_nlink i - 1\<rparr>) s)
                                                else Ok s) (\<lambda>s.
                                       andthen (iunlockput dp s) (\<lambda>s.
                                       andthen (iupdate ip (upd_inode ip (\<lambda>i. i\<lparr>i_nlink := i_nlink i - 1\<rparr>) s)) (\<lambda>s.
                                       andthen (iunlockput ip s) (\<lambda>s.
                                         end_with 0 s)))))))))))) "

definition create :: "u8 list \<Rightarrow> u16 \<Rightarrow> u16 \<Rightarrow> u16 \<Rightarrow> 'a fsst_scheme \<Rightarrow> (nat option \<times> 'a fsst_scheme) result" where
  "create path type major minor s =
     andthen (nameiparent path s) (\<lambda>(r, name, s).
       case r of
         None \<Rightarrow> Ok (None, s)
       | Some dp \<Rightarrow>
           andthen (ilock dp s) (\<lambda>s.
           andthen (dirlookup dp name s) (\<lambda>(found, s).
             case found of
               Some (ip, _) \<Rightarrow>
                 andthen (iunlockput dp s) (\<lambda>s.
                 andthen (ilock ip s) (\<lambda>s.
                   if type = T_FILE \<and> (i_type (icache s ! ip) = T_FILE \<or> i_type (icache s ! ip) = T_DEVICE)
                   then Ok (Some ip, s)
                   else andthen (iunlockput ip s) (\<lambda>s. Ok (None, s))))
             | None \<Rightarrow>
                 andthen (ialloc (i_dev (icache s ! dp)) type s) (\<lambda>(ip, s).
                 andthen (ilock ip s) (\<lambda>s.
                 andthen (iupdate ip (upd_inode ip (\<lambda>i. i\<lparr>i_major := major, i_minor := minor, i_nlink := 1\<rparr>) s)) (\<lambda>s.
                 andthen (if type = T_DIR then
                            andthen (iupdate dp (upd_inode dp (\<lambda>i. i\<lparr>i_nlink := i_nlink i + 1\<rparr>) s)) (\<lambda>s.
                            andthen (dirlink ip DOT (i_inum (icache s ! ip)) s) (\<lambda>(r, s).
                              if r < 0 then Panic ''create dots''
                              else
                                andthen (dirlink ip DOTDOT (i_inum (icache s ! dp)) s) (\<lambda>(r, s).
                                  if r < 0 then Panic ''create dots'' else Ok s)))
                          else Ok s) (\<lambda>s.
                 andthen (dirlink dp name (i_inum (icache s ! ip)) s) (\<lambda>(r, s).
                   if r < 0 then Panic ''create: dirlink''
                   else andthen (iunlockput dp s) (\<lambda>s. Ok (Some ip, s)))))))))) "

text \<open>\<open>sys_open\<close> from the point where \<open>ip\<close> is locked.\<close>

definition open_inode :: "nat \<Rightarrow> u32 \<Rightarrow> 'a filest_scheme \<Rightarrow> (int \<times> 'a filest_scheme) result" where
  "open_inode ip omode s =
     (let i = icache s ! ip
      in if i_type i = T_DEVICE \<and> (sint (i_major i) < 0 \<or> sint (i_major i) \<ge> int NDEV)
         then andthen (iunlockput ip s) (\<lambda>s. end_with (-1) s)
         else case filealloc s of
           (None, s) \<Rightarrow> andthen (iunlockput ip s) (\<lambda>s. end_with (-1) s)
         | (Some f, s) \<Rightarrow>
             andthen (fdalloc f s) (\<lambda>(r, s).
               case r of
                 None \<Rightarrow>
                   andthen (fileclose f s) (\<lambda>s. andthen (iunlockput ip s) (\<lambda>s. end_with (-1) s))
               | Some fd \<Rightarrow>
                   let i = icache s ! ip;
                       s = upd_file f (\<lambda>g. if i_type i = T_DEVICE then g\<lparr>f_type := FD_DEVICE, f_major := i_major i\<rparr>
                                           else g\<lparr>f_type := FD_INODE, f_off := 0\<rparr>) s;
                       s = upd_file f (\<lambda>g. g\<lparr>f_ip := ip, f_readable := (omode AND O_WRONLY = 0),
                             f_writable := (omode AND O_WRONLY \<noteq> 0 \<or> omode AND O_RDWR \<noteq> 0)\<rparr>) s
                   in andthen (if omode AND O_TRUNC \<noteq> 0 \<and> i_type i = T_FILE then itrunc ip s else Ok s) (\<lambda>s.
                      andthen (iunlock ip s) (\<lambda>s.
                        end_with (int fd) s))))"

definition sys_open :: "'a filest_scheme \<Rightarrow> (int \<times> 'a filest_scheme) result" where
  "sys_open s =
     andthen (argstr 0 MAXPATH s) (\<lambda>path'.
     andthen (argint 1 s) (\<lambda>om.
       case path' of
         None \<Rightarrow> Ok (-1, s)
       | Some path \<Rightarrow>
           let omode = word_of_int om
           in andthen (begin_op s) (\<lambda>s.
                if omode AND O_CREATE \<noteq> 0 then
                  andthen (create path T_FILE 0 0 s) (\<lambda>(r, s).
                    case r of None \<Rightarrow> end_with (-1) s | Some ip \<Rightarrow> open_inode ip omode s)
                else
                  andthen (namei path s) (\<lambda>(r, s).
                    case r of
                      None \<Rightarrow> end_with (-1) s
                    | Some ip \<Rightarrow>
                        andthen (ilock ip s) (\<lambda>s.
                          if i_type (icache s ! ip) = T_DIR \<and> omode \<noteq> O_RDONLY
                          then andthen (iunlockput ip s) (\<lambda>s. end_with (-1) s)
                          else open_inode ip omode s)))))"

definition make_node :: "u8 list option \<Rightarrow> u16 \<Rightarrow> u16 \<Rightarrow> u16 \<Rightarrow> 'a fsst_scheme \<Rightarrow> (int \<times> 'a fsst_scheme) result" where
  "make_node path' type major minor s =
     (case path' of
        None \<Rightarrow> end_with (-1) s
      | Some path \<Rightarrow>
          andthen (create path type major minor s) (\<lambda>(r, s).
            case r of
              None \<Rightarrow> end_with (-1) s
            | Some ip \<Rightarrow> andthen (iunlockput ip s) (\<lambda>s. end_with 0 s)))"

definition sys_mkdir :: "'a fsst_scheme \<Rightarrow> (int \<times> 'a fsst_scheme) result" where
  "sys_mkdir s =
     andthen (begin_op s) (\<lambda>s.
     andthen (argstr 0 MAXPATH s) (\<lambda>path.
       make_node path T_DIR 0 0 s))"

definition sys_mknod :: "'a fsst_scheme \<Rightarrow> (int \<times> 'a fsst_scheme) result" where
  "sys_mknod s =
     andthen (begin_op s) (\<lambda>s.
     andthen (argstr 0 MAXPATH s) (\<lambda>path.
     andthen (argint 1 s) (\<lambda>major.
     andthen (argint 2 s) (\<lambda>minor.
       make_node path T_DEVICE (word_of_int major) (word_of_int minor) s))))"

definition sys_chdir :: "'a fsst_scheme \<Rightarrow> (int \<times> 'a fsst_scheme) result" where
  "sys_chdir s =
     with_proc s (\<lambda>p.
       andthen (begin_op s) (\<lambda>s.
       andthen (argstr 0 MAXPATH s) (\<lambda>path'.
         case path' of
           None \<Rightarrow> end_with (-1) s
         | Some path \<Rightarrow>
             andthen (namei path s) (\<lambda>(r, s).
               case r of
                 None \<Rightarrow> end_with (-1) s
               | Some ip \<Rightarrow>
                   andthen (ilock ip s) (\<lambda>s.
                     if i_type (icache s ! ip) \<noteq> T_DIR then andthen (iunlockput ip s) (\<lambda>s. end_with (-1) s)
                     else
                       andthen (iunlock ip s) (\<lambda>s.
                         case p_cwd (procs s ! p) of
                           None \<Rightarrow> Undef ''cwd''
                         | Some cwd \<Rightarrow>
                             andthen (iput cwd s) (\<lambda>s.
                             andthen (end_op s) (\<lambda>s.
                               Ok (0, upd_proc p (\<lambda>q. q\<lparr>p_cwd := Some ip\<rparr>) s)))))))))"

section \<open>Programs and pipes\<close>

fun kfree_all :: "u64 list \<Rightarrow> 'a kmem_scheme \<Rightarrow> 'a kmem_scheme result" where
  "kfree_all [] s = Ok s"
| "kfree_all (a # as) s = andthen (kfree a s) (\<lambda>s. kfree_all as s)"

text \<open>The loop that fetches the argument strings, each into a page of its own.\<close>

fun sys_exec_args :: "u64 \<Rightarrow> nat \<Rightarrow> u64 list \<Rightarrow> 'a ptab_scheme \<Rightarrow> (bool \<times> u64 list \<times> 'a ptab_scheme) result" where
  "sys_exec_args uargv 0 argv s = Ok (False, argv, s)"
| "sys_exec_args uargv (Suc k) argv s =
     andthen (fetchaddr (uargv + 8 * of_nat (length argv)) s) (\<lambda>uarg'.
       case uarg' of
         None \<Rightarrow> Ok (False, argv, s)
       | Some uarg \<Rightarrow>
           if uarg = 0 then Ok (True, argv, s)
           else case kalloc s of (pg, s) \<Rightarrow>
             if pg = 0 then Ok (False, argv, s)
             else
               andthen (fetchstr uarg pg PGSIZE s) (\<lambda>(r, s).
                 if r < 0 then Ok (False, argv @ [pg], s)
                 else sys_exec_args uargv k (argv @ [pg]) s))"

definition sys_exec :: "'a fsst_scheme \<Rightarrow> (int \<times> 'a fsst_scheme) result" where
  "sys_exec s =
     andthen (argstr 0 MAXPATH s) (\<lambda>path'.
     andthen (argaddr 1 s) (\<lambda>uargv.
       case path' of
         None \<Rightarrow> Ok (-1, s)
       | Some path \<Rightarrow>
           andthen (sys_exec_args uargv MAXARG [] s) (\<lambda>(ok, argv, s).
             if \<not> ok then andthen (kfree_all argv s) (\<lambda>s. Ok (-1, s))
             else
               andthen (exec path (argv @ [0]) s) (\<lambda>(ret, s).
               andthen (kfree_all argv s) (\<lambda>s.
                 Ok (ret, s))))))"

definition pipe_bad :: "nat list \<Rightarrow> nat \<Rightarrow> nat \<Rightarrow> 'a filest_scheme \<Rightarrow> (int \<times> 'a filest_scheme) result" where
  "pipe_bad fds rf wf' s =
     with_proc s (\<lambda>p.
       let s = fold (\<lambda>fd. upd_proc p (\<lambda>q. q\<lparr>p_ofile := (p_ofile q)[fd := None]\<rparr>)) fds s
       in andthen (fileclose rf s) (\<lambda>s. andthen (fileclose wf' s) (\<lambda>s. Ok (-1, s))))"

definition sys_pipe :: "'a filest_scheme \<Rightarrow> (int \<times> 'a filest_scheme) result" where
  "sys_pipe s =
     with_proc s (\<lambda>p.
       andthen (argaddr 0 s) (\<lambda>fdarray.
       andthen (pipealloc s) (\<lambda>(r, s).
         case r of
           None \<Rightarrow> Ok (-1, s)
         | Some (rf, wf') \<Rightarrow>
             andthen (fdalloc rf s) (\<lambda>(r0, s).
               case r0 of
                 None \<Rightarrow> pipe_bad [] rf wf' s
               | Some fd0 \<Rightarrow>
                   andthen (fdalloc wf' s) (\<lambda>(r1, s).
                     case r1 of
                       None \<Rightarrow> pipe_bad [fd0] rf wf' s
                     | Some fd1 \<Rightarrow>
                         (case copyout_buf (p_pagetable (procs s ! p)) fdarray (le_encode 4 (of_nat fd0 :: u32)) s of (e0, s) \<Rightarrow>
                            if e0 < 0 then pipe_bad [fd0, fd1] rf wf' s
                            else case copyout_buf (p_pagetable (procs s ! p)) (fdarray + 4) (le_encode 4 (of_nat fd1 :: u32)) s of (e1, s) \<Rightarrow>
                              if e1 < 0 then pipe_bad [fd0, fd1] rf wf' s else Ok (0, s)))))))"

end
