(* ===== verification/Trap.thy ===== *)
theory Trap
  imports Sysfile
begin

text \<open>
  Process system calls (kernel/sysproc.c), the dispatcher (kernel/syscall.c) and the trap handlers
  (kernel/trap.c, kernel/plic.c). The control registers of the hart are a record in the state. What the
  devices answer is an argument: \<open>irq\<close> is what the PLIC returns to \<open>plic_claim\<close>, \<open>isr\<close> the interrupt status
  of the disk. A handler yields \<open>None\<close> in place of a value when its process has exited.
\<close>

section \<open>State\<close>

record hart =
  r_scause :: u64
  r_sepc :: u64
  r_stval :: u64
  r_sstatus :: u64
  r_stvec :: u64
  r_sip :: u64
  r_satp :: u64
  r_tp :: u64

record trapst = consst +
  ticks :: u32
  hart :: hart
  kernelvec :: u64
  usertrap_addr :: u64
  uservec :: u64
  userret :: u64
  plic_done :: "u32 list"

abbreviation (input) SSTATUS_SPP :: u64 where "SSTATUS_SPP \<equiv> 0x100"
abbreviation (input) SSTATUS_SPIE :: u64 where "SSTATUS_SPIE \<equiv> 0x20"
abbreviation (input) SSTATUS_SIE :: u64 where "SSTATUS_SIE \<equiv> 0x2"
abbreviation (input) UART0_IRQ :: u32 where "UART0_IRQ \<equiv> 10"
abbreviation (input) VIRTIO0_IRQ :: u32 where "VIRTIO0_IRQ \<equiv> 1"

definition MAKE_SATP :: "u64 \<Rightarrow> u64" where
  "MAKE_SATP pagetable = push_bit 60 8 OR drop_bit 12 pagetable"

definition upd_hart :: "(hart \<Rightarrow> hart) \<Rightarrow> 'a trapst_scheme \<Rightarrow> 'a trapst_scheme" where
  "upd_hart f s = s\<lparr>hart := f (hart s)\<rparr>"

definition intr_on :: "'a trapst_scheme \<Rightarrow> 'a trapst_scheme" where
  "intr_on s = upd_hart (\<lambda>h. h\<lparr>r_sstatus := r_sstatus h OR SSTATUS_SIE\<rparr>) s"

definition intr_off :: "'a trapst_scheme \<Rightarrow> 'a trapst_scheme" where
  "intr_off s = upd_hart (\<lambda>h. h\<lparr>r_sstatus := r_sstatus h AND NOT SSTATUS_SIE\<rparr>) s"

definition intr_get :: "'a trapst_scheme \<Rightarrow> bool" where
  "intr_get s \<longleftrightarrow> r_sstatus (hart s) AND SSTATUS_SIE \<noteq> 0"

section \<open>Process system calls\<close>

definition sys_exit :: "'a filest_scheme \<Rightarrow> 'a filest_scheme result" where
  "sys_exit s = andthen (argint 0 s) (\<lambda>n. exit n s)"

definition sys_getpid :: "'a ptab_scheme \<Rightarrow> (int \<times> 'a ptab_scheme) result" where
  "sys_getpid s = with_proc s (\<lambda>p. Ok (p_pid (procs s ! p), s))"

definition sys_fork :: "'a filest_scheme \<Rightarrow> (int \<times> 'a filest_scheme) result" where
  "sys_fork s = fork s"

definition sys_wait :: "'a ptab_scheme \<Rightarrow> (int \<times> 'a ptab_scheme) result" where
  "sys_wait s = andthen (argaddr 0 s) (\<lambda>p. wait p s)"

definition sys_sbrk :: "'a ptab_scheme \<Rightarrow> (int \<times> 'a ptab_scheme) result" where
  "sys_sbrk s =
     andthen (argint 0 s) (\<lambda>n.
       with_proc s (\<lambda>p.
         let addr = sint (ucast (p_sz (procs s ! p)) :: u32)
         in andthen (growproc n s) (\<lambda>(r, s). if r < 0 then Ok (-1, s) else Ok (addr, s))))"

text \<open>
  The loop of \<open>sys_sleep\<close> from the point where the process runs again: \<open>ticks0\<close> is the time at the call.
  The comparison is unsigned, since one side of it is.
\<close>

definition sys_sleep_from :: "u32 \<Rightarrow> int \<Rightarrow> 'a trapst_scheme \<Rightarrow> (int \<times> 'a trapst_scheme) result" where
  "sys_sleep_from ticks0 n s =
     (if ticks s - ticks0 < word_of_int n then
        with_proc s (\<lambda>p. if p_killed (procs s ! p) \<noteq> 0 then Ok (-1, s) else Sleep ChanTicks)
      else Ok (0, s))"

definition sys_sleep :: "'a trapst_scheme \<Rightarrow> (int \<times> 'a trapst_scheme) result" where
  "sys_sleep s = andthen (argint 0 s) (\<lambda>n. sys_sleep_from (ticks s) n s)"

definition sys_kill :: "'a ptab_scheme \<Rightarrow> (int \<times> 'a ptab_scheme) result" where
  "sys_kill s = andthen (argint 0 s) (\<lambda>pid. Ok (kill pid s))"

definition sys_uptime :: "'a trapst_scheme \<Rightarrow> (int \<times> 'a trapst_scheme) result" where
  "sys_uptime s = Ok (uint (ticks s), s)"

section \<open>Dispatcher\<close>

text \<open>\<open>pad\<close> is the stack content that \<open>sys_fstat\<close> copies out as padding.\<close>

definition syscalls :: "u8 list \<Rightarrow> nat \<Rightarrow> ('a trapst_scheme \<Rightarrow> (int \<times> 'a trapst_scheme) result) option" where
  "syscalls pad num =
     (if num = 1 then Some sys_fork
      else if num = 3 then Some sys_wait
      else if num = 4 then Some sys_pipe
      else if num = 5 then Some sys_read
      else if num = 6 then Some sys_kill
      else if num = 7 then Some sys_exec
      else if num = 8 then Some (sys_fstat pad)
      else if num = 9 then Some sys_chdir
      else if num = 10 then Some sys_dup
      else if num = 11 then Some sys_getpid
      else if num = 12 then Some sys_sbrk
      else if num = 13 then Some sys_sleep
      else if num = 14 then Some sys_uptime
      else if num = 15 then Some sys_open
      else if num = 16 then Some sys_write
      else if num = 17 then Some sys_mknod
      else if num = 18 then Some sys_unlink
      else if num = 19 then Some sys_link
      else if num = 20 then Some sys_mkdir
      else if num = 21 then Some sys_close
      else None)"

abbreviation (input) SYS_exit :: int where "SYS_exit \<equiv> 2"

definition unknown_fmt :: "u8 list" where
  "unknown_fmt = [37, 100, 32, 37, 115, 58, 32, 117, 110, 107, 110, 111, 119, 110, 32, 115, 121, 115, 32, 99, 97,
     108, 108, 32, 37, 100, 10]"

definition syscall :: "u8 list \<Rightarrow> 'a trapst_scheme \<Rightarrow> (unit option \<times> 'a trapst_scheme) result" where
  "syscall pad s =
     with_proc s (\<lambda>p.
       let num = sint (ucast (tf_get p TF_A7 s) :: u32)
       in if num = SYS_exit then andthen (sys_exit s) (\<lambda>s. Ok (None, s))
          else case (if num > 0 then syscalls pad (nat num) else None) of
            Some f \<Rightarrow> andthen (f s) (\<lambda>(r, s). Ok (Some (), tf_set p TF_A0 (of_int r) s))
          | None \<Rightarrow>
              andthen (printf unknown_fmt
                [PInt (word_of_int (p_pid (procs s ! p))), PStr (Some (p_name (procs s ! p))), PInt (word_of_int num)] s) (\<lambda>s.
                Ok (Some (), tf_set p TF_A0 (- 1) s)))"

section \<open>Traps\<close>

definition clockintr :: "'a trapst_scheme \<Rightarrow> 'a trapst_scheme" where
  "clockintr s = wakeup ChanTicks (s\<lparr>ticks := ticks s + 1\<rparr>)"

definition plic_complete :: "u32 \<Rightarrow> 'a trapst_scheme \<Rightarrow> 'a trapst_scheme" where
  "plic_complete irq s = s\<lparr>plic_done := plic_done s @ [irq]\<rparr>"

definition unexpected_fmt :: "u8 list" where
  "unexpected_fmt = [117, 110, 101, 120, 112, 101, 99, 116, 101, 100, 32, 105, 110, 116, 101, 114, 114, 117, 112, 116,
     32, 105, 114, 113, 61, 37, 100, 10]"

definition devintr :: "u32 \<Rightarrow> u32 \<Rightarrow> 'a trapst_scheme \<Rightarrow> (int \<times> 'a trapst_scheme) result" where
  "devintr irq isr s =
     (let scause = r_scause (hart s)
      in if scause AND 0x8000000000000000 \<noteq> 0 \<and> scause AND 0xff = 9 then
           andthen (if irq = UART0_IRQ then uartintr s
                    else if irq = VIRTIO0_IRQ then virtio_disk_intr isr s
                    else if irq \<noteq> 0 then printf unexpected_fmt [PInt irq] s
                    else Ok s) (\<lambda>s.
             Ok (1, if irq \<noteq> 0 then plic_complete irq s else s))
         else if scause = 0x8000000000000001 then
           let s = (if r_tp (hart s) = 0 then clockintr s else s)
           in Ok (2, upd_hart (\<lambda>h. h\<lparr>r_sip := r_sip h AND NOT 2\<rparr>) s)
         else Ok (0, s))"

text \<open>\<open>usertrapret\<close> up to the jump to the trampoline: the page table it passes, and the state.\<close>

definition usertrapret :: "'a trapst_scheme \<Rightarrow> (u64 \<times> 'a trapst_scheme) result" where
  "usertrapret s =
     with_proc s (\<lambda>p.
       let s = intr_off s;
           s = upd_hart (\<lambda>h. h\<lparr>r_stvec := TRAMPOLINE + (uservec s - trampoline s)\<rparr>) s;
           s = tf_set p TF_KERNEL_SATP (r_satp (hart s)) s;
           s = tf_set p TF_KERNEL_SP (p_kstack (procs s ! p) + PGSIZE) s;
           s = tf_set p TF_KERNEL_TRAP (usertrap_addr s) s;
           s = tf_set p TF_KERNEL_HARTID (r_tp (hart s)) s;
           x = (r_sstatus (hart s) AND NOT SSTATUS_SPP) OR SSTATUS_SPIE;
           s = upd_hart (\<lambda>h. h\<lparr>r_sstatus := x, r_sepc := tf_get p TF_EPC s\<rparr>) s
       in Ok (MAKE_SATP (p_pagetable (procs s ! p)), s))"

text \<open>How \<open>usertrap\<close> leaves: to user space, by exit, or by a yield, after which \<open>usertrapret\<close> is still to run.\<close>

datatype control = ToUser u64 | Exited | Yielded

definition usertrap_fmt1 :: "u8 list" where
  "usertrap_fmt1 = [117, 115, 101, 114, 116, 114, 97, 112, 40, 41, 58, 32, 117, 110, 101, 120, 112, 101, 99, 116, 101,
     100, 32, 115, 99, 97, 117, 115, 101, 32, 37, 112, 32, 112, 105, 100, 61, 37, 100, 10]"

definition usertrap_fmt2 :: "u8 list" where
  "usertrap_fmt2 = [32, 32, 32, 32, 32, 32, 32, 32, 32, 32, 32, 32, 115, 101, 112, 99, 61, 37, 112, 32, 115, 116, 118,
     97, 108, 61, 37, 112, 10]"

text \<open>The common end of \<open>usertrap\<close>.\<close>

definition usertrap_tail :: "nat \<Rightarrow> int \<Rightarrow> 'a trapst_scheme \<Rightarrow> (control \<times> 'a trapst_scheme) result" where
  "usertrap_tail p which_dev s =
     (if p_killed (procs s ! p) \<noteq> 0 then andthen (exit (-1) s) (\<lambda>s. Ok (Exited, s))
      else if which_dev = 2 then andthen (yield s) (\<lambda>s. Ok (Yielded, s))
      else andthen (usertrapret s) (\<lambda>(satp, s). Ok (ToUser satp, s)))"

definition usertrap :: "u8 list \<Rightarrow> u32 \<Rightarrow> u32 \<Rightarrow> 'a trapst_scheme \<Rightarrow> (control \<times> 'a trapst_scheme) result" where
  "usertrap pad irq isr s =
     (if r_sstatus (hart s) AND SSTATUS_SPP \<noteq> 0 then Panic ''usertrap: not from user mode''
      else
        let s = upd_hart (\<lambda>h. h\<lparr>r_stvec := kernelvec s\<rparr>) s
        in with_proc s (\<lambda>p.
             let s = tf_set p TF_EPC (r_sepc (hart s)) s
             in if r_scause (hart s) = 8 then
                  if p_killed (procs s ! p) \<noteq> 0 then andthen (exit (-1) s) (\<lambda>s. Ok (Exited, s))
                  else
                    let s = intr_on (tf_set p TF_EPC (tf_get p TF_EPC s + 4) s)
                    in andthen (syscall pad s) (\<lambda>(r, s).
                         case r of None \<Rightarrow> Ok (Exited, s) | Some _ \<Rightarrow> usertrap_tail p 0 s)
                else
                  andthen (devintr irq isr s) (\<lambda>(which_dev, s).
                    if which_dev \<noteq> 0 then usertrap_tail p which_dev s
                    else
                      andthen (printf usertrap_fmt1 [PPtr (r_scause (hart s)), PInt (word_of_int (p_pid (procs s ! p)))] s) (\<lambda>s.
                      andthen (printf usertrap_fmt2 [PPtr (r_sepc (hart s)), PPtr (r_stval (hart s))] s) (\<lambda>s.
                        usertrap_tail p 0 (upd_proc p (\<lambda>q. q\<lparr>p_killed := 1\<rparr>) s))))))"

text \<open>
  \<open>kerneltrap\<close>; \<open>other\<close> is what happens between the \<open>yield\<close> of a timer interrupt and the moment the
  process runs again.
\<close>

definition kerneltrap :: "('a trapst_scheme \<Rightarrow> 'a trapst_scheme) \<Rightarrow> u32 \<Rightarrow> u32 \<Rightarrow> 'a trapst_scheme \<Rightarrow> 'a trapst_scheme result" where
  "kerneltrap other irq isr s =
     (let sepc = r_sepc (hart s); sstatus = r_sstatus (hart s)
      in if sstatus AND SSTATUS_SPP = 0 then Panic ''kerneltrap: not from supervisor mode''
         else if intr_get s then Panic ''kerneltrap: interrupts enabled''
         else
           andthen (devintr irq isr s) (\<lambda>(which_dev, s).
             if which_dev = 0 then Panic ''kerneltrap''
             else
               andthen (if which_dev = 2 \<and> (case cur s of None \<Rightarrow> False | Some p \<Rightarrow> p_state (procs s ! p) = RUNNING)
                        then andthen (yield s) (\<lambda>s. Ok (other s)) else Ok s) (\<lambda>s.
                 Ok (upd_hart (\<lambda>h. h\<lparr>r_sepc := sepc, r_sstatus := sstatus\<rparr>) s))))"

end
