(* ===== verification/Boot.thy ===== *)
theory Boot
  imports Asm Trap
begin

text \<open>
  From reset to the scheduler: kernel/entry.S and kernel/start.c in machine mode, on the machine of theory
  Asm; kernel/plic.c; and the order in which \<open>main\<close> (kernel/main.c) initialises the kernel. \<open>stack0\<close> and
  \<open>mscratch0\<close> are the addresses the linker gives the two arrays, \<open>main_addr\<close> and \<open>timervec\<close> those of the code.
\<close>

section \<open>Control registers (riscv.h)\<close>

named_theorems csr_access

definition r_mhartid :: "mach \<Rightarrow> u64" where
  [csr_access]: "r_mhartid s = csrs s MHARTID"

definition r_mstatus :: "mach \<Rightarrow> u64" where
  [csr_access]: "r_mstatus s = csrs s MSTATUS"

definition r_sie :: "mach \<Rightarrow> u64" where
  [csr_access]: "r_sie s = csrs s SIE"

definition r_mie :: "mach \<Rightarrow> u64" where
  [csr_access]: "r_mie s = csrs s MIE"

definition w_mstatus :: "u64 \<Rightarrow> mach \<Rightarrow> mach" where
  [csr_access]: "w_mstatus x s = s\<lparr>csrs := (csrs s)(MSTATUS := x)\<rparr>"

definition w_mepc :: "u64 \<Rightarrow> mach \<Rightarrow> mach" where
  [csr_access]: "w_mepc x s = s\<lparr>csrs := (csrs s)(MEPC := x)\<rparr>"

definition w_satp :: "u64 \<Rightarrow> mach \<Rightarrow> mach" where
  [csr_access]: "w_satp x s = s\<lparr>csrs := (csrs s)(SATP := x)\<rparr>"

definition w_medeleg :: "u64 \<Rightarrow> mach \<Rightarrow> mach" where
  [csr_access]: "w_medeleg x s = s\<lparr>csrs := (csrs s)(MEDELEG := x)\<rparr>"

definition w_mideleg :: "u64 \<Rightarrow> mach \<Rightarrow> mach" where
  [csr_access]: "w_mideleg x s = s\<lparr>csrs := (csrs s)(MIDELEG := x)\<rparr>"

definition w_sie :: "u64 \<Rightarrow> mach \<Rightarrow> mach" where
  [csr_access]: "w_sie x s = s\<lparr>csrs := (csrs s)(SIE := x)\<rparr>"

definition w_mie :: "u64 \<Rightarrow> mach \<Rightarrow> mach" where
  [csr_access]: "w_mie x s = s\<lparr>csrs := (csrs s)(MIE := x)\<rparr>"

definition w_mscratch :: "u64 \<Rightarrow> mach \<Rightarrow> mach" where
  [csr_access]: "w_mscratch x s = s\<lparr>csrs := (csrs s)(MSCRATCH := x)\<rparr>"

definition w_mtvec :: "u64 \<Rightarrow> mach \<Rightarrow> mach" where
  [csr_access]: "w_mtvec x s = s\<lparr>csrs := (csrs s)(MTVEC := x)\<rparr>"

definition w_tp :: "u64 \<Rightarrow> mach \<Rightarrow> mach" where
  [csr_access]: "w_tp x s = s\<lparr>regs := (regs s)(TP := x)\<rparr>"

section \<open>start.c\<close>

abbreviation (input) NCPU :: nat where "NCPU \<equiv> 8"
abbreviation (input) CLINT_MTIME :: u64 where "CLINT_MTIME \<equiv> 0x200BFF8"

definition CLINT_MTIMECMP :: "u64 \<Rightarrow> u64" where
  "CLINT_MTIMECMP hartid = 0x2004000 + 8 * hartid"

text \<open>The hart id as the \<open>int\<close> the code keeps it in, extended again where an address is computed.\<close>

definition hartid :: "mach \<Rightarrow> u64" where
  "hartid s = scast (ucast (r_mhartid s) :: u32)"

definition timerinit :: "u64 \<Rightarrow> u64 \<Rightarrow> mach \<Rightarrow> mach" where
  "timerinit mscratch0 timervec s =
     (let id = hartid s;
          interval = 1000000;
          m = store64 (mem s) (CLINT_MTIMECMP id) (load64 (mem s) CLINT_MTIME + interval);
          scratch = mscratch0 + 8 * (32 * id);
          m = store64 m (scratch + 8 * 4) (CLINT_MTIMECMP id);
          m = store64 m (scratch + 8 * 5) interval;
          s = w_mscratch scratch (s\<lparr>mem := m\<rparr>);
          s = w_mtvec timervec s;
          s = w_mstatus (r_mstatus s OR push_bit 3 1) s
      in w_mie (r_mie s OR push_bit 7 1) s)"

definition start :: "u64 \<Rightarrow> u64 \<Rightarrow> u64 \<Rightarrow> mach \<Rightarrow> mach" where
  "start mscratch0 timervec main_addr s =
     (let x = (r_mstatus s AND NOT (push_bit 11 3)) OR push_bit 11 1;
          s = w_mstatus x s;
          s = w_mepc main_addr s;
          s = w_satp 0 s;
          s = w_medeleg 0xffff s;
          s = w_mideleg 0xffff s;
          s = w_sie (r_sie s OR push_bit 9 1 OR push_bit 5 1 OR push_bit 1 1) s;
          s = timerinit mscratch0 timervec s;
          s = w_tp (hartid s) s
      in exec1 bare MRET s)"

section \<open>plic.c\<close>

definition PLIC_SENABLE :: "u64 \<Rightarrow> u64" where
  "PLIC_SENABLE h = PLIC + 0x2080 + h * 0x100"

definition PLIC_SPRIORITY :: "u64 \<Rightarrow> u64" where
  "PLIC_SPRIORITY h = PLIC + 0x201000 + h * 0x2000"

text \<open>The registers of the interrupt controller, written in program order, and the flag \<open>started\<close>.\<close>

record bootst = trapst +
  plic_writes :: "(u64 \<times> u32) list"
  started :: bool

definition cpuid :: "'a trapst_scheme \<Rightarrow> u64" where
  "cpuid s = scast (ucast (r_tp (hart s)) :: u32)"

definition plic_write :: "u64 \<Rightarrow> u32 \<Rightarrow> 'a bootst_scheme \<Rightarrow> 'a bootst_scheme" where
  "plic_write a v s = s\<lparr>plic_writes := plic_writes s @ [(a, v)]\<rparr>"

definition plicinit :: "'a bootst_scheme \<Rightarrow> 'a bootst_scheme" where
  "plicinit s = plic_write (PLIC + ucast VIRTIO0_IRQ * 4) 1 (plic_write (PLIC + ucast UART0_IRQ * 4) 1 s)"

definition plicinithart :: "'a bootst_scheme \<Rightarrow> 'a bootst_scheme" where
  "plicinithart s =
     (let h = cpuid s
      in plic_write (PLIC_SPRIORITY h) 0
           (plic_write (PLIC_SENABLE h) (push_bit (unat UART0_IRQ) 1 OR push_bit (unat VIRTIO0_IRQ) 1) s))"

section \<open>main.c\<close>

definition kvminithart :: "'a trapst_scheme \<Rightarrow> 'a trapst_scheme" where
  "kvminithart s = upd_hart (\<lambda>h. h\<lparr>r_satp := MAKE_SATP (kernel_pagetable s)\<rparr>) s"

definition trapinithart :: "'a trapst_scheme \<Rightarrow> 'a trapst_scheme" where
  "trapinithart s = upd_hart (\<lambda>h. h\<lparr>r_stvec := kernelvec s\<rparr>) s"

definition booting :: "u8 list" where
  "booting = [120, 118, 54, 32, 107, 101, 114, 110, 101, 108, 32, 105, 115, 32, 98, 111, 111, 116, 105, 110, 103, 10]"

definition starting_fmt :: "u8 list" where
  "starting_fmt = [104, 97, 114, 116, 32, 37, 100, 32, 115, 116, 97, 114, 116, 105, 110, 103, 10]"

text \<open>
  What a hart does before it enters the scheduler. \<open>R\<close> are the registers of the disk and \<open>pages\<close> the address
  of its queues. A hart that waits for \<open>started\<close> has no result yet.
\<close>

definition main :: "(u64 \<Rightarrow> u32) \<Rightarrow> u64 \<Rightarrow> 'a bootst_scheme \<Rightarrow> 'a bootst_scheme option result" where
  "main R pages s =
     (if cpuid s = 0 then
        let s = consoleinit s
        in andthen (printf [10] [] s) (\<lambda>s.
           andthen (printf booting [] s) (\<lambda>s.
           andthen (printf [10] [] s) (\<lambda>s.
           andthen (kinit s) (\<lambda>s.
           andthen (kvminit s) (\<lambda>s.
           andthen (procinit (kvminithart s)) (\<lambda>s.
             let s = binit (plicinithart (plicinit (trapinithart s)))
             in andthen (virtio_disk_init R pages (iinit s)) (\<lambda>s.
                andthen (userinit s) (\<lambda>s.
                  Ok (Some (s\<lparr>started := True\<rparr>))))))))))
      else if \<not> started s then Ok None
      else andthen (printf starting_fmt [PInt (ucast (cpuid s))] s) (\<lambda>s.
             Ok (Some (plicinithart (trapinithart (kvminithart s))))))"

section \<open>Stacks and the clock\<close>

lemma hartid_of_nat:
  assumes "h < 8" "csrs s MHARTID = of_nat h"
  shows "hartid s = of_nat h"
proof -
  have "h \<in> {0, 1, 2, 3, 4, 5, 6, 7}" using assms(1) by auto
  then show ?thesis using assms(2) by (auto simp: hartid_def csr_access)
qed

definition demo_hart :: "nat \<Rightarrow> mach" where
  "demo_hart h = \<lparr>regs = (\<lambda>_. 0), csrs = (\<lambda>c. if c = MHARTID then of_nat h else 0), mem = (\<lambda>_. 0), mpc = 0\<rparr>"

text \<open>
  Each hart boots on a stack of its own. \<open>_entry\<close> enters \<open>start\<close> with \<open>sp\<close> one past the hart's 4096 bytes of \<open>stack0\<close>, which lie inside the
  array and share no byte with those of any other hart.
\<close>

lemma boot_stacks:
  assumes "unat stack0 + 4096 * NCPU \<le> 2 ^ 64" "h < NCPU" "csrs s MHARTID = of_nat h"
    and "h' < NCPU" "csrs s' MHARTID = of_nat h'" "h \<noteq> h'"
  shows "mpc (exec_code bare (entry_code stack0 begin spin) s) = begin \<and>
    in_range stack0 (4096 * NCPU) (regs (exec_code bare (entry_code stack0 begin spin) s) SP - 4096) \<and>
    in_range stack0 (4096 * NCPU) (regs (exec_code bare (entry_code stack0 begin spin) s) SP - 1) \<and>
    disjoint_from (regs (exec_code bare (entry_code stack0 begin spin) s) SP - 4096) 4096
          (regs (exec_code bare (entry_code stack0 begin spin) s') SP - 4096) 4096"
proof -
  have sp: "regs (exec_code bare (entry_code stack0 begin spin) t) SP = stack0 + of_nat (4096 * (k + 1))"
    if "csrs t MHARTID = of_nat k" for t k
    using that by (simp add: entry_code_def set_reg_def algebra_simps)
  have base: "stack0 + of_nat (4096 * (k + 1)) - 4096 = stack0 + of_nat (4096 * k)" for k by (simp add: algebra_simps)
  have off: "unat (stack0 + of_nat k - stack0) = k" if "k < 2 ^ 64" for k using that unat_of_nat_u64 [of k] by simp
  have top: "stack0 + of_nat (4096 * (h + 1)) - 1 = stack0 + of_nat (4096 * h + 4095)" by (simp add: algebra_simps)
  have "disjoint_from (stack0 + of_nat (4096 * h)) 4096 (stack0 + of_nat (4096 * h')) 4096"
    unfolding disjoint_from_def
  proof (intro allI impI notI)
    fix x assume x: "in_range (stack0 + of_nat (4096 * h)) 4096 x" "in_range (stack0 + of_nat (4096 * h')) 4096 x"
    let ?i = "unat (x - (stack0 + of_nat (4096 * h)))" let ?j = "unat (x - (stack0 + of_nat (4096 * h')))"
    have "(of_nat (4096 * h + ?i) :: u64) = x - stack0" by simp
    moreover have "(of_nat (4096 * h' + ?j) :: u64) = x - stack0" by simp
    moreover have "unat (of_nat (4096 * h + ?i) :: u64) = 4096 * h + ?i" by (rule unat_of_nat_u64) (use x(1) assms(2) in simp)
    moreover have "unat (of_nat (4096 * h' + ?j) :: u64) = 4096 * h' + ?j" by (rule unat_of_nat_u64) (use x(2) assms(4) in simp)
    ultimately have "4096 * h + ?i = 4096 * h' + ?j" by metis
    then have "(4096 * h + ?i) div 4096 = (4096 * h' + ?j) div 4096" by simp
    then show False using x assms(6) by simp
  qed
  moreover have "mpc (exec_code bare (entry_code stack0 begin spin) s) = begin" by (simp add: entry_code_def set_reg_def)
  moreover have "in_range stack0 (4096 * NCPU) (stack0 + of_nat (4096 * h))" "in_range stack0 (4096 * NCPU) (stack0 + of_nat (4096 * h + 4095))"
    using off [of "4096 * h"] off [of "4096 * h + 4095"] assms(2) by simp_all
  ultimately show ?thesis unfolding sp [OF assms(3)] sp [OF assms(5)] base top by blast
qed

theorem boot_stacks_witness:
  "disjoint_from (regs (exec_code bare (entry_code 0x80009000 0x8000001C 0x8000001A) (demo_hart 0)) SP - 4096) 4096
     (regs (exec_code bare (entry_code 0x80009000 0x8000001C 0x8000001A) (demo_hart 1)) SP - 4096) 4096"
proof -
  have h: "csrs (demo_hart 0) MHARTID = of_nat 0" "csrs (demo_hart 1) MHARTID = of_nat 1" by (simp_all add: demo_hart_def)
  show ?thesis using boot_stacks [of "0x80009000" 0 "demo_hart 0" 1 "demo_hart 1"] h by simp
qed

text \<open>The scratch area of a hart is away from its comparator register.\<close>

lemma scratch_disjoint:
  fixes mscratch0 :: u64
  assumes "h < 8" and ram: "0x80000000 \<le> unat mscratch0" "unat mscratch0 + 2048 \<le> 0x88000000"
  shows "disjoint_from (mscratch0 + 8 * (32 * of_nat h)) 48 (CLINT_MTIMECMP (of_nat h)) 8"
    and "k + 8 \<le> 48 \<Longrightarrow> load64 (store64 m (mscratch0 + 8 * (32 * of_nat h) + of_nat k) v) (CLINT_MTIMECMP (of_nat h)) = load64 m (CLINT_MTIMECMP (of_nat h))"
proof -
  let ?c = "CLINT_MTIMECMP (of_nat h)" let ?sc = "mscratch0 + 8 * (32 * of_nat h)"
  have usc: "unat ?sc = unat mscratch0 + 256 * h"
  proof -
    have "?sc = of_nat (unat mscratch0 + 256 * h)" by simp
    moreover have "unat (of_nat (unat mscratch0 + 256 * h) :: u64) = unat mscratch0 + 256 * h"
      by (rule unat_of_nat_u64) (use ram assms(1) in simp)
    ultimately show ?thesis by simp
  qed
  have uc: "unat ?c = 0x2004000 + 8 * h"
  proof -
    have "?c = of_nat (0x2004000 + 8 * h)" by (simp add: CLINT_MTIMECMP_def)
    moreover have "unat (of_nat (0x2004000 + 8 * h) :: u64) = 0x2004000 + 8 * h" by (rule unat_of_nat_u64) (use assms(1) in simp)
    ultimately show ?thesis by simp
  qed
  have rsc: "in_range ?sc 48 x \<longleftrightarrow> unat ?sc \<le> unat x \<and> unat x < unat ?sc + 48" for x
    by (rule in_range_unat) (use usc ram assms(1) in simp)
  have rc: "in_range ?c 8 x \<longleftrightarrow> unat ?c \<le> unat x \<and> unat x < unat ?c + 8" for x
    by (rule in_range_unat) (use uc assms(1) in simp)
  show dj: "disjoint_from ?sc 48 ?c 8"
    unfolding disjoint_from_def rsc rc usc uc using ram assms(1) by auto
  show "load64 (store64 m (?sc + of_nat k) v) ?c = load64 m ?c" if "k + 8 \<le> 48"
  proof (rule load64_store64_other)
    fix x assume "in_range ?c 8 x"
    then have n: "\<not> in_range ?sc 48 x" using dj unfolding disjoint_from_def by blast
    show "\<not> in_range (?sc + of_nat k) 8 x" 
    proof
      assume "in_range (?sc + of_nat k) 8 x"
      from in_range_inner [OF this that] n show False by simp
    qed
  qed
qed



end
