(* ===== verification/Spinlock.thy ===== *)
theory Spinlock
  imports Prelude
begin

text \<open>
  Spin locks (kernel/spinlock.c) on several harts. Elsewhere a section between \<open>acquire\<close> and
  \<open>release\<close> is one atomic step; this theory is the reason why. Each access to the lock is a step of one
  hart, and harts interleave in any order. The name of a lock, which only debugging reads, is left out.
\<close>

section \<open>Interrupts of a hart\<close>

record cpu =
  noff :: int
  intena :: bool
  intr :: bool

definition push_off :: "cpu \<Rightarrow> cpu" where
  "push_off c =
     (let old = intr c;
          c = c\<lparr>intr := False\<rparr>;
          c = (if noff c = 0 then c\<lparr>intena := old\<rparr> else c)
      in c\<lparr>noff := noff c + 1\<rparr>)"

definition pop_off :: "cpu \<Rightarrow> cpu result" where
  "pop_off c =
     (if intr c then Panic ''pop_off - interruptible''
      else if noff c < 1 then Panic ''pop_off''
      else
        let c = c\<lparr>noff := noff c - 1\<rparr>
        in Ok (if noff c = 0 \<and> intena c then c\<lparr>intr := True\<rparr> else c))"

primrec push_offs :: "nat \<Rightarrow> cpu \<Rightarrow> cpu" where
  "push_offs 0 c = c"
| "push_offs (Suc n) c = push_offs n (push_off c)"

primrec pop_offs :: "nat \<Rightarrow> cpu \<Rightarrow> cpu result" where
  "pop_offs 0 c = Ok c"
| "pop_offs (Suc n) c = andthen (pop_off c) (pop_offs n)"

lemma push_offs_nested: "0 < noff c \<Longrightarrow> \<not> intr c \<Longrightarrow> push_offs n c = c\<lparr>noff := noff c + int n\<rparr>"
  by (induction n arbitrary: c) (simp_all add: push_off_def Let_def)

lemma pop_offs_nested: "int n < noff c \<Longrightarrow> \<not> intr c \<Longrightarrow> pop_offs n c = Ok (c\<lparr>noff := noff c - int n\<rparr>)"
  by (induction n arbitrary: c) (simp_all add: pop_off_def Let_def)

lemma pop_offs_Suc: "pop_offs (Suc n) c = andthen (pop_offs n c) pop_off"
proof (induction n arbitrary: c)
  case 0
  then show ?case by (cases "pop_off c") simp_all
next
  case (Suc n)
  show ?case
  proof (cases "pop_off c")
    case (Ok d)
    then show ?thesis using Suc [of d] by simp
  qed simp_all
qed

text \<open>
  Nesting. Any number of \<open>push_off\<close> calls followed by as many \<open>pop_off\<close> calls never panics, keeps interrupts off in
  between, and leaves the interrupt flag as it was before the first of them.
\<close>

lemma push_pop_nesting:
  assumes "noff c = 0"
  shows "\<not> intr (push_offs (Suc n) c) \<and> (\<exists>d. pop_offs (Suc n) (push_offs (Suc n) c) = Ok d \<and> intr d = intr c \<and> noff d = 0) \<and>
    (\<forall>k \<le> n. \<exists>d. pop_offs k (push_offs (Suc n) c) = Ok d \<and> \<not> intr d)"
proof -
  let ?p = "push_off c"
  have p: "noff ?p = 1" "\<not> intr ?p" "intena ?p = intr c" using assms by (simp_all add: push_off_def Let_def)
  have q: "push_offs (Suc n) c = ?p\<lparr>noff := 1 + int n\<rparr>" using push_offs_nested [of ?p n] p by simp
  have k: "pop_offs k (push_offs (Suc n) c) = Ok (?p\<lparr>noff := 1 + int n - int k\<rparr>)" if "k \<le> n" for k
    using pop_offs_nested [of k "?p\<lparr>noff := 1 + int n\<rparr>"] p(2) that by (simp add: q del: push_offs.simps)
  have "pop_off (?p\<lparr>noff := 1\<rparr>) = Ok (if intr c then ?p\<lparr>noff := 0, intr := True\<rparr> else ?p\<lparr>noff := 0\<rparr>)"
    using p by (simp add: pop_off_def Let_def)
  then have "pop_offs (Suc n) (push_offs (Suc n) c) = Ok (if intr c then ?p\<lparr>noff := 0, intr := True\<rparr> else ?p\<lparr>noff := 0\<rparr>)"
    unfolding pop_offs_Suc k [OF le_refl] by simp
  then show ?thesis using k p(2) q by (auto simp del: push_offs.simps pop_offs.simps)
qed

theorem push_pop_nesting_witness:
  "\<exists>d. pop_offs (Suc 2) (push_offs (Suc 2) \<lparr>noff = 0, intena = False, intr = True\<rparr>) = Ok d \<and> intr d"
  using push_pop_nesting [of "\<lparr>noff = 0, intena = False, intr = True\<rparr>" 2] by (auto simp del: push_offs.simps pop_offs.simps)

section \<open>Locks\<close>

record spinlock =
  lk_locked :: u32
  lk_cpu :: "nat option"

definition initlock :: spinlock where
  "initlock = \<lparr>lk_locked = 0, lk_cpu = None\<rparr>"

text \<open>Where a hart is in \<open>acquire\<close> and \<open>release\<close>; \<open>Dead\<close> after a panic.\<close>

datatype lock_pc = Outside | AcqHolding | AcqHolding2 | TestAndSet | SetCpu | Critical
  | RelHolding | RelHolding2 | ClearCpu | Unlock | PopOff | Dead

record smp =
  cpus :: "nat \<Rightarrow> cpu"
  lk :: spinlock
  pc :: "nat \<Rightarrow> lock_pc"

definition goto :: "nat \<Rightarrow> lock_pc \<Rightarrow> smp \<Rightarrow> smp" where
  "goto h p s = s\<lparr>pc := (pc s)(h := p)\<rparr>"

text \<open>
  One step of hart \<open>h\<close>. \<open>holding\<close> reads \<open>locked\<close> and then, if it is set, \<open>cpu\<close>; the test-and-set is one
  atomic instruction and repeats while the lock is taken.
\<close>

fun lock_step :: "nat \<Rightarrow> smp \<Rightarrow> smp" where
  "lock_step h s =
     (case pc s h of
        Outside \<Rightarrow> goto h AcqHolding (s\<lparr>cpus := (cpus s)(h := push_off (cpus s h))\<rparr>)
      | AcqHolding \<Rightarrow> goto h (if lk_locked (lk s) \<noteq> 0 then AcqHolding2 else TestAndSet) s
      | AcqHolding2 \<Rightarrow> goto h (if lk_cpu (lk s) = Some h then Dead else TestAndSet) s
      | TestAndSet \<Rightarrow>
          goto h (if lk_locked (lk s) \<noteq> 0 then TestAndSet else SetCpu) (s\<lparr>lk := (lk s)\<lparr>lk_locked := 1\<rparr>\<rparr>)
      | SetCpu \<Rightarrow> goto h Critical (s\<lparr>lk := (lk s)\<lparr>lk_cpu := Some h\<rparr>\<rparr>)
      | Critical \<Rightarrow> goto h RelHolding s
      | RelHolding \<Rightarrow> goto h (if lk_locked (lk s) \<noteq> 0 then RelHolding2 else Dead) s
      | RelHolding2 \<Rightarrow> goto h (if lk_cpu (lk s) = Some h then ClearCpu else Dead) s
      | ClearCpu \<Rightarrow> goto h Unlock (s\<lparr>lk := (lk s)\<lparr>lk_cpu := None\<rparr>\<rparr>)
      | Unlock \<Rightarrow> goto h PopOff (s\<lparr>lk := (lk s)\<lparr>lk_locked := 0\<rparr>\<rparr>)
      | PopOff \<Rightarrow>
          (case pop_off (cpus s h) of
             Ok c \<Rightarrow> goto h Outside (s\<lparr>cpus := (cpus s)(h := c)\<rparr>)
           | _ \<Rightarrow> goto h Dead s)
      | Dead \<Rightarrow> s)"

inductive lock_reach :: "smp \<Rightarrow> smp \<Rightarrow> bool" for s0 :: smp where
  lock_start: "lock_reach s0 s0"
| lock_next: "lock_reach s0 s \<Longrightarrow> lock_reach s0 (lock_step h s)"

section \<open>Mutual exclusion\<close>

definition owns :: "lock_pc \<Rightarrow> bool" where
  "owns p \<longleftrightarrow> p \<in> {SetCpu, Critical, RelHolding, RelHolding2, ClearCpu, Unlock}"

definition recorded :: "lock_pc \<Rightarrow> bool" where
  "recorded p \<longleftrightarrow> p \<in> {Critical, RelHolding, RelHolding2, ClearCpu}"

definition lock_inv :: "smp \<Rightarrow> bool" where
  "lock_inv s \<longleftrightarrow>
     (\<forall>h. pc s h \<noteq> Dead) \<and>
     (\<forall>h g. owns (pc s h) \<longrightarrow> owns (pc s g) \<longrightarrow> h = g) \<and>
     (lk_locked (lk s) \<noteq> 0 \<longleftrightarrow> (\<exists>h. owns (pc s h))) \<and>
     (\<forall>h. lk_cpu (lk s) = Some h \<longleftrightarrow> recorded (pc s h)) \<and>
     (\<forall>h. 0 \<le> noff (cpus s h) \<and> (noff (cpus s h) = 0 \<or> \<not> intr (cpus s h))) \<and>
     (\<forall>h. pc s h \<noteq> Outside \<longrightarrow> 1 \<le> noff (cpus s h) \<and> \<not> intr (cpus s h))"

lemmas lock_pcs = owns_def recorded_def

lemma lock_invD:
  assumes "lock_inv s"
  shows "pc s h \<noteq> Dead" "owns (pc s h) \<Longrightarrow> owns (pc s g) \<Longrightarrow> h = g" "lk_locked (lk s) \<noteq> 0 \<longleftrightarrow> (\<exists>h. owns (pc s h))"
    "lk_cpu (lk s) = Some h \<longleftrightarrow> recorded (pc s h)" "0 \<le> noff (cpus s h)" "noff (cpus s h) = 0 \<or> \<not> intr (cpus s h)"
    "pc s h \<noteq> Outside \<Longrightarrow> 1 \<le> noff (cpus s h) \<and> \<not> intr (cpus s h)"
  using assms unfolding lock_inv_def by blast+

text \<open>A step that moves hart \<open>h\<close> to \<open>p\<close> keeps the invariant if these hold of \<open>p\<close>.\<close>

lemma lock_inv_goto:
  assumes inv: "lock_inv s" and p: "p \<noteq> Dead"
    and own: "owns p \<Longrightarrow> owns (pc s h) \<or> lk_locked (lk s) = 0"
    and lock: "lk_locked l \<noteq> 0 \<longleftrightarrow> owns p \<or> (\<exists>g. g \<noteq> h \<and> owns (pc s g))"
    and cpu: "\<And>g. lk_cpu l = Some g \<longleftrightarrow> (if g = h then recorded p else recorded (pc s g))"
    and int: "0 \<le> noff c" "noff c = 0 \<or> \<not> intr c" "p \<noteq> Outside \<Longrightarrow> 1 \<le> noff c \<and> \<not> intr c"
  shows "lock_inv (goto h p (s\<lparr>lk := l, cpus := (cpus s)(h := c)\<rparr>))"
proof -
  let ?t = "goto h p (s\<lparr>lk := l, cpus := (cpus s)(h := c)\<rparr>)"
  note d = lock_invD [OF inv]
  have pc: "pc ?t g = (if g = h then p else pc s g)" for g by (simp add: goto_def)
  have lkt: "lk ?t = l" "cpus ?t = (cpus s)(h := c)" by (simp_all add: goto_def)
  have nobody: "\<not> owns (pc s g)" if "owns p" "g \<noteq> h" for g
    using own [OF that(1)] d(2) [of h g] d(3) that(2) by auto
  show ?thesis
    unfolding lock_inv_def
  proof (intro conjI allI impI)
    show "pc ?t g \<noteq> Dead" for g using p d(1) by (simp add: pc)
    show "g = g'" if "owns (pc ?t g)" "owns (pc ?t g')" for g g'
      using that nobody d(2) [of g g'] by (auto simp: pc split: if_splits)
    show "lk_locked (lk ?t) \<noteq> 0 \<longleftrightarrow> (\<exists>g. owns (pc ?t g))" using lock by (auto simp: lkt pc)
    show "lk_cpu (lk ?t) = Some g \<longleftrightarrow> recorded (pc ?t g)" for g using cpu [of g] by (simp add: lkt pc)
    show "0 \<le> noff (cpus ?t g)" "noff (cpus ?t g) = 0 \<or> \<not> intr (cpus ?t g)" for g
      using int d(5,6) [of g] by (simp_all add: lkt)
    show "1 \<le> noff (cpus ?t g)" "\<not> intr (cpus ?t g)" if "pc ?t g \<noteq> Outside" for g
      using that int(3) d(7) [of g] by (auto simp: lkt pc split: if_splits)
  qed
qed

lemma lock_others:
  assumes "lock_inv s"
  shows "lk_locked (lk s) \<noteq> 0 \<longleftrightarrow> owns (pc s h) \<or> (\<exists>g. g \<noteq> h \<and> owns (pc s g))"
    "owns (pc s h) \<Longrightarrow> \<not> (\<exists>g. g \<noteq> h \<and> owns (pc s g))"
    "owns (pc s h) \<Longrightarrow> g \<noteq> h \<Longrightarrow> \<not> recorded (pc s g)"
proof -
  note d = lock_invD(2,3) [OF assms]
  show "lk_locked (lk s) \<noteq> 0 \<longleftrightarrow> owns (pc s h) \<or> (\<exists>g. g \<noteq> h \<and> owns (pc s g))" using d(2) by metis
  show o: "\<not> (\<exists>g. g \<noteq> h \<and> owns (pc s g))" if "owns (pc s h)" using d(1) that by blast
  show "\<not> recorded (pc s g)" if "owns (pc s h)" "g \<noteq> h" using o [OF that(1)] that(2) by (auto simp: lock_pcs)
qed

text \<open>The three ways in which a step changes the lock.\<close>

lemma lock_inv_goto_same:
  assumes inv: "lock_inv s" and p: "p \<noteq> Dead" "p \<noteq> Outside" "pc s h \<noteq> Outside"
    and same: "owns p = owns (pc s h)" "recorded p = recorded (pc s h)"
  shows "lock_inv (goto h p s)"
proof -
  have "lock_inv (goto h p (s\<lparr>lk := lk s, cpus := (cpus s)(h := cpus s h)\<rparr>))"
  proof (rule lock_inv_goto [OF inv p(1)])
    show "lk_locked (lk s) \<noteq> 0 \<longleftrightarrow> owns p \<or> (\<exists>g. g \<noteq> h \<and> owns (pc s g))" using lock_others(1) [OF inv, of h] same by simp
    show "lk_cpu (lk s) = Some g \<longleftrightarrow> (if g = h then recorded p else recorded (pc s g))" for g
      using lock_invD(4) [OF inv, of g] same by simp
  qed (use lock_invD(5-7) [OF inv, of h] p same in blast)+
  then show ?thesis by simp
qed

lemma lock_inv_goto_lock:
  assumes inv: "lock_inv s" and p: "p \<noteq> Dead" "p \<noteq> Outside" "pc s h \<noteq> Outside" "owns (pc s h) \<or> lk_locked (lk s) = 0"
    and l: "lk_locked l \<noteq> 0 \<longleftrightarrow> owns p" "lk_cpu l = (if recorded p then Some h else None)"
  shows "lock_inv (goto h p (s\<lparr>lk := l\<rparr>))"
proof -
  have no: "\<not> (\<exists>g. g \<noteq> h \<and> owns (pc s g))" using p(4) lock_others(1,2) [OF inv, of h] by blast
  then have nr: "\<not> recorded (pc s g)" if "g \<noteq> h" for g using that by (auto simp: lock_pcs)
  have "lock_inv (goto h p (s\<lparr>lk := l, cpus := (cpus s)(h := cpus s h)\<rparr>))"
  proof (rule lock_inv_goto [OF inv p(1)])
    show "lk_locked l \<noteq> 0 \<longleftrightarrow> owns p \<or> (\<exists>g. g \<noteq> h \<and> owns (pc s g))" using no l(1) by blast
    show "lk_cpu l = Some g \<longleftrightarrow> (if g = h then recorded p else recorded (pc s g))" for g using l(2) nr [of g] by auto
  qed (use lock_invD(5-7) [OF inv, of h] p in blast)+
  then show ?thesis by simp
qed

lemma lock_inv_goto_cpu:
  assumes inv: "lock_inv s" and p: "p \<noteq> Dead" "\<not> owns p" "\<not> owns (pc s h)"
    and c: "0 \<le> noff c" "noff c = 0 \<or> \<not> intr c" "p \<noteq> Outside \<Longrightarrow> 1 \<le> noff c \<and> \<not> intr c"
  shows "lock_inv (goto h p (s\<lparr>cpus := (cpus s)(h := c)\<rparr>))"
proof -
  have nr: "\<not> recorded p" "\<not> recorded (pc s h)" using p(2,3) by (auto simp: lock_pcs)
  have "lock_inv (goto h p (s\<lparr>lk := lk s, cpus := (cpus s)(h := c)\<rparr>))"
  proof (rule lock_inv_goto [OF inv p(1)])
    show "lk_locked (lk s) \<noteq> 0 \<longleftrightarrow> owns p \<or> (\<exists>g. g \<noteq> h \<and> owns (pc s g))" using lock_others(1) [OF inv, of h] p by blast
    show "lk_cpu (lk s) = Some g \<longleftrightarrow> (if g = h then recorded p else recorded (pc s g))" for g
      using lock_invD(4) [OF inv, of g] nr by simp
  qed (use p(2) c in blast)+
  then show ?thesis by simp
qed

lemma lock_inv_step:
  assumes inv: "lock_inv s" shows "lock_inv (lock_step h s)"
proof (cases "pc s h")
  case Outside
  let ?c = "push_off (cpus s h)"
  have "0 \<le> noff ?c \<and> 1 \<le> noff ?c \<and> \<not> intr ?c"
    using lock_invD(5) [OF inv, of h] by (simp add: push_off_def Let_def)
  then show ?thesis using Outside lock_inv_goto_cpu [OF inv, of AcqHolding h ?c] by (simp add: lock_pcs)
next
  case AcqHolding
  then show ?thesis using lock_inv_goto_same [OF inv, of _ h] by (simp add: lock_pcs)
next
  case AcqHolding2
  then have "lk_cpu (lk s) \<noteq> Some h" using lock_invD(4) [OF inv, of h] by (simp add: lock_pcs)
  then show ?thesis using AcqHolding2 lock_inv_goto_same [OF inv, of TestAndSet h] by (simp add: lock_pcs)
next
  case TestAndSet
  show ?thesis
  proof (cases "lk_locked (lk s) = 0")
    case True
    have "lk_cpu (lk s) = None"
    proof (cases "lk_cpu (lk s)")
      case (Some g)
      then have "owns (pc s g)" using lock_invD(4) [OF inv, of g] by (auto simp: lock_pcs)
      then show ?thesis using True lock_invD(3) [OF inv] by blast
    qed simp
    then show ?thesis
      using TestAndSet True lock_inv_goto_lock [OF inv, of SetCpu h "(lk s)\<lparr>lk_locked := 1\<rparr>"] by (simp add: lock_pcs)
  next
    case False
    have "lock_inv (goto h TestAndSet (s\<lparr>lk := (lk s)\<lparr>lk_locked := 1\<rparr>, cpus := (cpus s)(h := cpus s h)\<rparr>))"
    proof (rule lock_inv_goto [OF inv])
      show "lk_locked ((lk s)\<lparr>lk_locked := 1\<rparr>) \<noteq> 0 \<longleftrightarrow> owns TestAndSet \<or> (\<exists>g. g \<noteq> h \<and> owns (pc s g))"
        using lock_others(1) [OF inv, of h] False TestAndSet by (simp add: lock_pcs)
      show "lk_cpu ((lk s)\<lparr>lk_locked := 1\<rparr>) = Some g \<longleftrightarrow> (if g = h then recorded TestAndSet else recorded (pc s g))" for g
        using lock_invD(4) [OF inv, of g] TestAndSet by (simp add: lock_pcs)
    qed (use lock_invD(5-7) [OF inv, of h] TestAndSet in \<open>simp_all add: lock_pcs\<close>)
    then show ?thesis using TestAndSet False by simp
  qed
next
  case SetCpu
  have "lk_locked (lk s) \<noteq> 0" using SetCpu lock_invD(3) [OF inv] by (auto simp: lock_pcs)
  then show ?thesis
    using SetCpu lock_inv_goto_lock [OF inv, of Critical h "(lk s)\<lparr>lk_cpu := Some h\<rparr>"] by (simp add: lock_pcs)
next
  case Critical
  then show ?thesis using lock_inv_goto_same [OF inv, of RelHolding h] by (simp add: lock_pcs)
next
  case RelHolding
  then have "lk_locked (lk s) \<noteq> 0" using lock_invD(3) [OF inv] by (auto simp: lock_pcs)
  then show ?thesis using RelHolding lock_inv_goto_same [OF inv, of RelHolding2 h] by (simp add: lock_pcs)
next
  case RelHolding2
  then have "lk_cpu (lk s) = Some h" using lock_invD(4) [OF inv, of h] by (simp add: lock_pcs)
  then show ?thesis using RelHolding2 lock_inv_goto_same [OF inv, of ClearCpu h] by (simp add: lock_pcs)
next
  case ClearCpu
  have "lk_locked (lk s) \<noteq> 0" using ClearCpu lock_invD(3) [OF inv] by (auto simp: lock_pcs)
  then show ?thesis
    using ClearCpu lock_inv_goto_lock [OF inv, of Unlock h "(lk s)\<lparr>lk_cpu := None\<rparr>"] by (simp add: lock_pcs)
next
  case Unlock
  have "lk_cpu (lk s) = None"
  proof (cases "lk_cpu (lk s)")
    case (Some g)
    then have g: "recorded (pc s g)" using lock_invD(4) [OF inv, of g] by simp
    then have "g = h" using lock_others(3) [OF inv, of h g] Unlock by (auto simp: lock_pcs)
    then show ?thesis using g Unlock by (simp add: lock_pcs)
  qed simp
  then show ?thesis
    using Unlock lock_inv_goto_lock [OF inv, of PopOff h "(lk s)\<lparr>lk_locked := 0\<rparr>"] by (simp add: lock_pcs)
next
  case PopOff
  obtain c where c: "pop_off (cpus s h) = Ok c" "0 \<le> noff c" "noff c = 0 \<or> \<not> intr c"
    using lock_invD(7) [OF inv, of h] PopOff by (auto simp: pop_off_def Let_def)
  then show ?thesis using PopOff lock_inv_goto_cpu [OF inv, of Outside h c] by (simp add: lock_pcs)
next
  case Dead
  then show ?thesis using inv by simp
qed

text \<open>All harts outside, the lock free.\<close>

definition smp_init :: "smp \<Rightarrow> bool" where
  "smp_init s \<longleftrightarrow> lk s = initlock \<and> (\<forall>h. pc s h = Outside \<and> 0 \<le> noff (cpus s h) \<and> (noff (cpus s h) = 0 \<or> \<not> intr (cpus s h)))"

lemma lock_inv_init: "smp_init s \<Longrightarrow> lock_inv s"
  by (auto simp: smp_init_def lock_inv_def initlock_def lock_pcs)

lemma lock_inv_reach: "lock_reach s0 s \<Longrightarrow> smp_init s0 \<Longrightarrow> lock_inv s"
  by (induction rule: lock_reach.induct) (auto intro: lock_inv_init lock_inv_step simp del: lock_step.simps)

text \<open>
  C13. Mutual exclusion. In every interleaving of any number of harts that call \<open>acquire\<close> and \<open>release\<close> on one lock, at most one
  hart is between them, with its interrupts off and \<open>holding\<close> true for it alone, and no check of
  \<open>acquire\<close>, \<open>release\<close> or \<open>pop_off\<close> panics.
\<close>

theorem spinlock_mutual_exclusion:
  assumes "smp_init s0" "lock_reach s0 s"
  shows "(\<forall>h. pc s h \<noteq> Dead) \<and>
    (\<forall>h. pc s h = Critical \<longrightarrow> lk_locked (lk s) \<noteq> 0 \<and> lk_cpu (lk s) = Some h \<and> \<not> intr (cpus s h) \<and>
      (\<forall>g. g \<noteq> h \<longrightarrow> pc s g \<noteq> Critical))"
proof -
  note d = lock_invD [OF lock_inv_reach [OF assms(2,1)]]
  have "lk_locked (lk s) \<noteq> 0 \<and> lk_cpu (lk s) = Some h \<and> \<not> intr (cpus s h) \<and> (\<forall>g. g \<noteq> h \<longrightarrow> pc s g \<noteq> Critical)"
    if "pc s h = Critical" for h
    using that d(3) d(4,7) [of h] d(2) [of h] by (auto simp: lock_pcs)
  then show ?thesis using d(1) by blast
qed

text \<open>Two harts, of which hart 0 has taken the lock while hart 1 spins.\<close>

definition demo_smp :: smp where
  "demo_smp = \<lparr>cpus = \<lambda>_. \<lparr>noff = 0, intena = False, intr = True\<rparr>, lk = initlock, pc = \<lambda>_. Outside\<rparr>"

theorem spinlock_mutual_exclusion_witness:
  "\<exists>s. lock_reach demo_smp s \<and> pc s 0 = Critical \<and> pc s 1 = TestAndSet \<and> lk_cpu (lk s) = Some 0 \<and> \<not> intr (cpus s 0)"
proof -
  let ?s = "fold lock_step [0, 1, 0, 1, 0, 0, 1] demo_smp"
  have i: "smp_init demo_smp" by (simp add: smp_init_def demo_smp_def)
  have r: "lock_reach demo_smp (fold lock_step hs s)" if "lock_reach demo_smp s" for hs s
    using that by (induction hs arbitrary: s) (auto intro: lock_next simp del: lock_step.simps)
  have reach: "lock_reach demo_smp ?s" by (rule r) (rule lock_start)
  have "pc ?s 0 = Critical" "pc ?s 1 = TestAndSet"
    by (simp_all add: demo_smp_def goto_def initlock_def push_off_def Let_def)
  then show ?thesis using spinlock_mutual_exclusion [OF i reach] reach by blast
qed

end
