(* ===== verification/BlockCache.thy ===== *)
theory BlockCache
  imports Bio
begin

text \<open>
  What the buffer cache promises. \<open>content\<close> is the block as every reader sees it: the cached copy when
  there is one, the disk otherwise. \<open>refs\<close> counts the references to the cached copy of a block. The
  invariant says that a block has at most one buffer and that an unreferenced copy equals the disk.
  Under it, each operation of bio.c is a simple change of \<open>content\<close>, \<open>refs\<close> and the disk.
\<close>

lemma find_SomeD: "find P xs = Some x \<Longrightarrow> x \<in> set xs \<and> P x"
  by (induction xs) (auto split: if_splits)

lemma find_ex: "\<exists>x \<in> set xs. P x \<Longrightarrow> \<exists>y. find P xs = Some y"
  by (induction xs) auto

section \<open>Processes woken by an operation\<close>

definition woken :: "'a ptab_scheme \<Rightarrow> 'a ptab_scheme \<Rightarrow> bool" where
  "woken s t \<longleftrightarrow> length (procs t) = length (procs s) \<and> cur t = cur s \<and>
     (\<forall>i < length (procs s). procs t ! i = procs s ! i \<or>
        p_state (procs s ! i) = SLEEPING \<and> procs t ! i = (procs s ! i)\<lparr>p_state := RUNNABLE\<rparr>)"

lemma woken_refl [simp]: "woken s s"
  by (simp add: woken_def)

lemma woken_trans [trans]: "woken s t \<Longrightarrow> woken t u \<Longrightarrow> woken s u"
  unfolding woken_def by (metis (no_types, lifting) procstate.distinct(9) proc.select_convs(1) proc.surjective proc.update_convs(1))

lemma woken_wakeup [simp]: "woken s (wakeup c s)"
  by (auto simp: woken_def wakeup_def)

definition mypid :: "'a ptab_scheme \<Rightarrow> int" where
  "mypid s = (case cur s of None \<Rightarrow> 0 | Some p \<Rightarrow> p_pid (procs s ! p))"

definition running :: "'a ptab_scheme \<Rightarrow> bool" where
  "running s \<longleftrightarrow> (case cur s of None \<Rightarrow> False | Some p \<Rightarrow> p < length (procs s))"

lemma with_proc_running: "running s \<Longrightarrow> with_proc s f = f (the (cur s))"
  by (auto simp: running_def with_proc_def split: option.splits)

lemma woken_running: "woken s t \<Longrightarrow> running s \<Longrightarrow> running t"
  by (auto simp: woken_def running_def split: option.splits)

lemma woken_mypid: "woken s t \<Longrightarrow> running s \<Longrightarrow> mypid t = mypid s"
  by (fastforce simp: woken_def mypid_def running_def split: option.splits)

section \<open>Invariant and views\<close>

definition buf_ok :: "u32 \<Rightarrow> (u32 \<Rightarrow> block) \<Rightarrow> buf \<Rightarrow> bool" where
  "buf_ok dev dk b \<longleftrightarrow> length (b_data b) = BSIZE \<and>
     (b_dev b \<noteq> dev \<longrightarrow> \<not> b_valid b \<and> b_refcnt b = 0) \<and>
     (b_refcnt b = 0 \<longrightarrow> \<not> sl_locked (b_lock b)) \<and>
     (b_valid b \<and> b_refcnt b = 0 \<longrightarrow> b_data b = dk (b_blockno b)) \<and>
     (\<not> b_valid b \<longrightarrow> b_refcnt b = 0)"

definition caches :: "u32 \<Rightarrow> u32 \<Rightarrow> buf \<Rightarrow> bool" where
  "caches dev n b \<longleftrightarrow> b_dev b = dev \<and> b_blockno b = n"

definition bcache_ok :: "u32 \<Rightarrow> 'a bcache_scheme \<Rightarrow> bool" where
  "bcache_ok dev s \<longleftrightarrow> length (bufs s) = NBUF \<and> distinct (lru s) \<and> set (lru s) = {..<NBUF} \<and>
     (\<forall>n. length (disk s n) = BSIZE) \<and>
     (\<forall>i < NBUF. buf_ok dev (disk s) (bufs s ! i)) \<and>
     (\<forall>i < NBUF. \<forall>j < NBUF. \<forall>n. caches dev n (bufs s ! i) \<and> caches dev n (bufs s ! j) \<longrightarrow> i = j)"

definition slot_of :: "u32 \<Rightarrow> 'a bcache_scheme \<Rightarrow> u32 \<Rightarrow> nat option" where
  "slot_of dev s n = find (\<lambda>i. caches dev n (bufs s ! i)) (lru s)"

definition content :: "u32 \<Rightarrow> 'a bcache_scheme \<Rightarrow> u32 \<Rightarrow> block" where
  "content dev s n =
     (case slot_of dev s n of
        None \<Rightarrow> disk s n
      | Some i \<Rightarrow> if b_valid (bufs s ! i) then b_data (bufs s ! i) else disk s n)"

definition refs :: "u32 \<Rightarrow> 'a bcache_scheme \<Rightarrow> u32 \<Rightarrow> u32" where
  "refs dev s n = (case slot_of dev s n of None \<Rightarrow> 0 | Some i \<Rightarrow> b_refcnt (bufs s ! i))"

definition locked :: "u32 \<Rightarrow> 'a bcache_scheme \<Rightarrow> u32 \<Rightarrow> bool" where
  "locked dev s n = (case slot_of dev s n of None \<Rightarrow> False | Some i \<Rightarrow> sl_locked (b_lock (bufs s ! i)))"

text \<open>The current process holds buffer \<open>i\<close>, which caches block \<open>n\<close>.\<close>

definition holds :: "u32 \<Rightarrow> 'a bcache_scheme \<Rightarrow> u32 \<Rightarrow> nat \<Rightarrow> bool" where
  "holds dev s n i \<longleftrightarrow> i < NBUF \<and> caches dev n (bufs s ! i) \<and> b_valid (bufs s ! i) \<and>
     b_lock (bufs s ! i) = \<lparr>sl_locked = True, sl_pid = mypid s\<rparr>"

lemma bcache_okD:
  assumes "bcache_ok dev s"
  shows "length (bufs s) = NBUF" "distinct (lru s)" "set (lru s) = {..<NBUF}" "length (disk s n) = BSIZE"
    "i < NBUF \<Longrightarrow> buf_ok dev (disk s) (bufs s ! i)"
    "i < NBUF \<Longrightarrow> j < NBUF \<Longrightarrow> caches dev n (bufs s ! i) \<Longrightarrow> caches dev n (bufs s ! j) \<Longrightarrow> i = j"
  using assms unfolding bcache_ok_def by blast+

lemma slot_of_Some:
  assumes "bcache_ok dev s"
  shows "slot_of dev s n = Some i \<longleftrightarrow> i < NBUF \<and> caches dev n (bufs s ! i)"
proof
  assume "slot_of dev s n = Some i"
  then show "i < NBUF \<and> caches dev n (bufs s ! i)"
    using bcache_okD(3) [OF assms] by (auto simp: slot_of_def dest: find_SomeD)
next
  assume r: "i < NBUF \<and> caches dev n (bufs s ! i)"
  then have "\<exists>x \<in> set (lru s). caches dev n (bufs s ! x)" using bcache_okD(3) [OF assms] by auto
  from find_ex [OF this] obtain j where j: "slot_of dev s n = Some j" unfolding slot_of_def by blast
  then have "j \<in> set (lru s)" "caches dev n (bufs s ! j)"
    by (auto simp: slot_of_def dest: find_SomeD)
  then have "j = i" using r bcache_okD(3,6) [OF assms] by auto
  then show "slot_of dev s n = Some i" using j by simp
qed

lemma slot_of_None:
  assumes "bcache_ok dev s"
  shows "slot_of dev s n = None \<longleftrightarrow> (\<forall>i < NBUF. \<not> caches dev n (bufs s ! i))"
  using slot_of_Some [OF assms] by (metis not_None_eq)

lemma slot_of_holds: "bcache_ok dev s \<Longrightarrow> holds dev s n i \<Longrightarrow> slot_of dev s n = Some i"
  by (simp add: slot_of_Some holds_def)

lemma content_holds: "bcache_ok dev s \<Longrightarrow> holds dev s n i \<Longrightarrow> b_data (bufs s ! i) = content dev s n"
  by (simp add: content_def slot_of_holds holds_def)

lemma content_clean:
  assumes "bcache_ok dev s" "refs dev s n = 0"
  shows "content dev s n = disk s n"
proof (cases "slot_of dev s n")
  case (Some i)
  then have "i < NBUF" "caches dev n (bufs s ! i)" using slot_of_Some [OF assms(1)] by auto
  then show ?thesis using Some assms(2) bcache_okD(5) [OF assms(1), of i]
    by (auto simp: content_def refs_def buf_ok_def caches_def)
qed (simp add: content_def)

lemma length_content: "bcache_ok dev s \<Longrightarrow> length (content dev s n) = BSIZE"
  using bcache_okD(4) [of dev s n] bcache_okD(5) [of dev s]
  by (auto simp: content_def slot_of_Some buf_ok_def split: option.splits)

definition busy :: "u32 \<Rightarrow> 'a bcache_scheme \<Rightarrow> u32 set" where
  "busy dev s = {n. refs dev s n \<noteq> 0}"

text \<open>A buffer can be found for a block that is referenced, or as long as fewer than 30 blocks are.\<close>

lemma finite_busy [simp]: "finite (busy dev s)"
  by (rule finite_subset [OF subset_UNIV]) simp

lemma free_buffer:
  assumes "bcache_ok dev s" "card (busy dev s) < NBUF"
  shows "\<exists>i < NBUF. b_refcnt (bufs s ! i) = 0"
proof (rule ccontr)
  assume "\<not> ?thesis"
  then have nz: "b_refcnt (bufs s ! i) \<noteq> 0" if "i < NBUF" for i using that by auto
  then have c: "caches dev (b_blockno (bufs s ! i)) (bufs s ! i)" if "i < NBUF" for i
    using that bcache_okD(5) [OF assms(1)] by (auto simp: buf_ok_def caches_def)
  have "inj_on (\<lambda>i. b_blockno (bufs s ! i)) {..<NBUF}"
    using c bcache_okD(6) [OF assms(1)] by (auto intro!: inj_onI) (metis lessThan_iff)
  then have "card ((\<lambda>i. b_blockno (bufs s ! i)) ` {..<NBUF}) = NBUF" by (simp add: card_image)
  moreover have "(\<lambda>i. b_blockno (bufs s ! i)) ` {..<NBUF} \<subseteq> busy dev s"
  proof
    fix n assume "n \<in> (\<lambda>i. b_blockno (bufs s ! i)) ` {..<NBUF}"
    then obtain i where "i < NBUF" "n = b_blockno (bufs s ! i)" by auto
    then show "n \<in> busy dev s" using nz c slot_of_Some [OF assms(1), of n i] by (simp add: busy_def refs_def)
  qed
  ultimately have "NBUF \<le> card (busy dev s)" by (metis card_mono finite_busy)
  then show False using assms(2) by simp
qed

section \<open>Changing one buffer\<close>

lemma bcache_ok_upd:
  assumes ok: "bcache_ok dev s" and i: "i < NBUF" and b: "buf_ok dev (disk s) B" "caches dev n B"
    and u: "\<And>j. j < NBUF \<Longrightarrow> caches dev n (bufs s ! j) \<Longrightarrow> j = i"
  shows "bcache_ok dev (s\<lparr>bufs := (bufs s)[i := B]\<rparr>)"
proof -
  have len: "length (bufs s) = NBUF" by (rule bcache_okD(1) [OF ok])
  have c: "caches dev m ((bufs s)[i := B] ! j) \<longleftrightarrow> (if j = i then m = n else caches dev m (bufs s ! j))"
    if "j < NBUF" for j m
    using that b(2) len by (auto simp: nth_list_update caches_def)
  have uniq: "j = k" if "j < NBUF" "k < NBUF" "caches dev m ((bufs s)[i := B] ! j)" "caches dev m ((bufs s)[i := B] ! k)" for j k m
  proof (cases "j = i \<or> k = i")
    case True
    then show ?thesis using that u [OF that(1)] u [OF that(2)] by (auto simp: c split: if_splits)
  next
    case False
    then show ?thesis using that bcache_okD(6) [OF ok that(1,2), of m] by (simp add: c)
  qed
  have bo: "buf_ok dev (disk s) ((bufs s)[i := B] ! j)" if "j < NBUF" for j
    using that b(1) bcache_okD(5) [OF ok that] len by (cases "j = i") simp_all
  show ?thesis unfolding bcache_ok_def
    using bcache_okD(1-4) [OF ok] uniq bo by simp blast
qed

lemma slot_of_upd:
  assumes ok: "bcache_ok dev s" and i: "i < NBUF" and b: "buf_ok dev (disk s) B" "caches dev n B"
    and u: "\<And>j. j < NBUF \<Longrightarrow> caches dev n (bufs s ! j) \<Longrightarrow> j = i"
  shows "slot_of dev (s\<lparr>bufs := (bufs s)[i := B]\<rparr>) m =
    (if m = n then Some i else if slot_of dev s m = Some i then None else slot_of dev s m)"
proof -
  let ?t = "s\<lparr>bufs := (bufs s)[i := B]\<rparr>"
  have okt: "bcache_ok dev ?t" by (rule bcache_ok_upd [OF assms])
  have len: "length (bufs s) = NBUF" by (rule bcache_okD(1) [OF ok])
  have "slot_of dev ?t m = Some j \<longleftrightarrow>
      (if m = n then Some i else if slot_of dev s m = Some i then None else slot_of dev s m) = Some j" for j
  proof (cases "m = n")
    case True
    then show ?thesis using i b(2) u len by (auto simp: slot_of_Some [OF okt] nth_list_update split: if_splits)
  next
    case False
    then have "\<not> caches dev m B" using b(2) by (simp add: caches_def)
    then show ?thesis using False i len bcache_okD(6) [OF ok]
      by (auto simp: slot_of_Some [OF okt] slot_of_Some [OF ok] nth_list_update split: if_splits)
  qed
  then show ?thesis by (metis option.exhaust)
qed

lemma views_upd_same:
  assumes ok: "bcache_ok dev s" and i: "i < NBUF" and c: "caches dev n (bufs s ! i)" "caches dev n B"
    and b: "buf_ok dev (disk s) B" "b_valid B"
  shows "bcache_ok dev (s\<lparr>bufs := (bufs s)[i := B]\<rparr>)"
    "content dev (s\<lparr>bufs := (bufs s)[i := B]\<rparr>) = (content dev s)(n := b_data B)"
    "refs dev (s\<lparr>bufs := (bufs s)[i := B]\<rparr>) = (refs dev s)(n := b_refcnt B)"
    "locked dev (s\<lparr>bufs := (bufs s)[i := B]\<rparr>) = (locked dev s)(n := sl_locked (b_lock B))"
proof -
  have len: "length (bufs s) = NBUF" by (rule bcache_okD(1) [OF ok])
  have u: "j < NBUF \<Longrightarrow> caches dev n (bufs s ! j) \<Longrightarrow> j = i" for j
    using bcache_okD(6) [OF ok] i c by blast
  have i_n: "slot_of dev s m = Some i \<longleftrightarrow> m = n" for m
    using slot_of_Some [OF ok] i c(1) by (auto simp: caches_def)
  note s = slot_of_upd [OF ok i b(1) c(2) u]
  show "bcache_ok dev (s\<lparr>bufs := (bufs s)[i := B]\<rparr>)" by (rule bcache_ok_upd [OF ok i b(1) c(2) u])
  show "content dev (s\<lparr>bufs := (bufs s)[i := B]\<rparr>) = (content dev s)(n := b_data B)"
    "refs dev (s\<lparr>bufs := (bufs s)[i := B]\<rparr>) = (refs dev s)(n := b_refcnt B)"
    "locked dev (s\<lparr>bufs := (bufs s)[i := B]\<rparr>) = (locked dev s)(n := sl_locked (b_lock B))"
    using i len b(2)
    by (auto simp: fun_eq_iff content_def refs_def locked_def s i_n nth_list_update split: option.split)
qed

lemma views_upd_recycle:
  assumes ok: "bcache_ok dev s" and i: "i < NBUF" and z: "b_refcnt (bufs s ! i) = 0" "slot_of dev s n = None"
    and b: "buf_ok dev (disk s) B" "b_valid B" "caches dev n B" "b_data B = disk s n"
  shows "bcache_ok dev (s\<lparr>bufs := (bufs s)[i := B]\<rparr>)"
    "content dev (s\<lparr>bufs := (bufs s)[i := B]\<rparr>) = content dev s"
    "refs dev (s\<lparr>bufs := (bufs s)[i := B]\<rparr>) = (refs dev s)(n := b_refcnt B)"
    "locked dev (s\<lparr>bufs := (bufs s)[i := B]\<rparr>) = (locked dev s)(n := sl_locked (b_lock B))"
proof -
  have len: "length (bufs s) = NBUF" by (rule bcache_okD(1) [OF ok])
  have u: "j < NBUF \<Longrightarrow> caches dev n (bufs s ! j) \<Longrightarrow> j = i" for j
    using z(2) slot_of_None [OF ok] by blast
  note s = slot_of_upd [OF ok i b(1) b(3) u]
  have clean: "b_data (bufs s ! i) = disk s m"
    if "slot_of dev s m = Some i" "b_valid (bufs s ! i)" for m
    using that slot_of_Some [OF ok] bcache_okD(5) [OF ok i] z(1) by (auto simp: buf_ok_def caches_def)
  have ul: "\<not> sl_locked (b_lock (bufs s ! i))" using bcache_okD(5) [OF ok i] z(1) by (auto simp: buf_ok_def)
  show "bcache_ok dev (s\<lparr>bufs := (bufs s)[i := B]\<rparr>)" by (rule bcache_ok_upd [OF ok i b(1) b(3) u])
  show "content dev (s\<lparr>bufs := (bufs s)[i := B]\<rparr>) = content dev s"
  proof
    fix m
    consider "m = n" | "m \<noteq> n" "slot_of dev s m = Some i" | "m \<noteq> n" "slot_of dev s m \<noteq> Some i" by blast
    then show "content dev (s\<lparr>bufs := (bufs s)[i := B]\<rparr>) m = content dev s m"
    proof cases
      case 1
      then show ?thesis using i len b(2,4) z(2) by (simp add: content_def s)
    next
      case 2
      then show ?thesis using clean [of m] by (simp add: content_def s)
    next
      case 3
      then show ?thesis by (cases "slot_of dev s m") (simp_all add: content_def s)
    qed
  qed
  show "refs dev (s\<lparr>bufs := (bufs s)[i := B]\<rparr>) = (refs dev s)(n := b_refcnt B)"
  proof
    fix m
    show "refs dev (s\<lparr>bufs := (bufs s)[i := B]\<rparr>) m = ((refs dev s)(n := b_refcnt B)) m"
      using i len z(1) by (cases "slot_of dev s m") (simp_all add: refs_def s)
  qed
  show "locked dev (s\<lparr>bufs := (bufs s)[i := B]\<rparr>) = (locked dev s)(n := sl_locked (b_lock B))"
  proof
    fix m
    show "locked dev (s\<lparr>bufs := (bufs s)[i := B]\<rparr>) m = ((locked dev s)(n := sl_locked (b_lock B))) m"
      using i len ul by (cases "slot_of dev s m") (simp_all add: locked_def s)
  qed
qed

section \<open>Contracts of the operations\<close>

text \<open>\<open>bread\<close> finds or makes a copy and locks it. Nothing but that one buffer changes.\<close>

definition readable :: "u32 \<Rightarrow> 'a bcache_scheme \<Rightarrow> u32 \<Rightarrow> bool" where
  "readable dev s n \<longleftrightarrow> \<not> locked dev s n \<and> refs dev s n \<noteq> - 1 \<and> (n \<in> busy dev s \<or> card (busy dev s) < NBUF)"

lemma find_lru_free:
  assumes "bcache_ok dev s" "\<exists>i < NBUF. b_refcnt (bufs s ! i) = 0"
  obtains i where "find (\<lambda>i. b_refcnt (bufs s ! i) = 0) (rev (lru s)) = Some i" "i < NBUF" "b_refcnt (bufs s ! i) = 0"
proof -
  have "\<exists>x \<in> set (rev (lru s)). b_refcnt (bufs s ! x) = 0"
    using assms(2) bcache_okD(3) [OF assms(1)] by auto
  from find_ex [OF this] obtain i where i: "find (\<lambda>i. b_refcnt (bufs s ! i) = 0) (rev (lru s)) = Some i" by blast
  show ?thesis using that [OF i] find_SomeD [OF i] bcache_okD(3) [OF assms(1)] by simp
qed

lemma lock_buf_free:
  assumes "running s" "i < length (bufs s)" "\<not> sl_locked (b_lock (bufs s ! i))"
  shows "lock_buf i s = Ok (upd_buf i (\<lambda>b. b\<lparr>b_lock := \<lparr>sl_locked = True, sl_pid = mypid s\<rparr>\<rparr>) s)"
  using assms by (auto simp: lock_buf_def acquiresleep_def with_proc_def running_def mypid_def split: option.splits)

lemma running_bufs [simp]: "running (s\<lparr>bufs := x\<rparr>) = running s" "mypid (s\<lparr>bufs := x\<rparr>) = mypid s"
  by (simp_all add: running_def mypid_def split: option.split)

lemma bread_found:
  assumes ok: "bcache_ok dev s" and r: "running s" "readable dev s n" "slot_of dev s n = Some i"
  shows "bread dev n s = Ok (i, s\<lparr>bufs := (bufs s)[i := \<lparr>b_valid = True, b_dev = dev, b_blockno = n,
     b_lock = \<lparr>sl_locked = True, sl_pid = mypid s\<rparr>, b_refcnt = refs dev s n + 1, b_data = content dev s n\<rparr>]\<rparr>)"
proof -
  have i: "i < NBUF" "caches dev n (bufs s ! i)" using r(3) slot_of_Some [OF ok] by auto
  have len: "length (bufs s) = NBUF" by (rule bcache_okD(1) [OF ok])
  have u: "\<not> sl_locked (b_lock (bufs s ! i))" using r(2,3) by (simp add: readable_def locked_def)
  have f: "find (\<lambda>i. b_dev (bufs s ! i) = dev \<and> b_blockno (bufs s ! i) = n) (lru s) = Some i"
    using r(3) by (simp add: slot_of_def caches_def)
  show ?thesis
    using i u len r by (cases "bufs s ! i"; cases "b_valid (bufs s ! i)")
      (simp_all add: bread_def bget_def f lock_buf_free upd_buf_def content_def refs_def caches_def virtio_disk_rw_def Let_def)
qed

lemma bread_recycled:
  assumes ok: "bcache_ok dev s" and r: "running s" "slot_of dev s n = None"
    and i: "find (\<lambda>i. b_refcnt (bufs s ! i) = 0) (rev (lru s)) = Some i" "i < NBUF" "b_refcnt (bufs s ! i) = 0"
  shows "bread dev n s = Ok (i, s\<lparr>bufs := (bufs s)[i := \<lparr>b_valid = True, b_dev = dev, b_blockno = n,
     b_lock = \<lparr>sl_locked = True, sl_pid = mypid s\<rparr>, b_refcnt = 1, b_data = disk s n\<rparr>]\<rparr>)"
proof -
  have len: "length (bufs s) = NBUF" by (rule bcache_okD(1) [OF ok])
  have u: "\<not> sl_locked (b_lock (bufs s ! i))" using bcache_okD(5) [OF ok i(2)] i(3) by (simp add: buf_ok_def)
  have f: "find (\<lambda>i. b_dev (bufs s ! i) = dev \<and> b_blockno (bufs s ! i) = n) (lru s) = None"
    using r(2) by (simp add: slot_of_def caches_def)
  show ?thesis
    using i(2) u len r by (cases "bufs s ! i")
      (simp add: bread_def bget_def f i(1) lock_buf_free upd_buf_def virtio_disk_rw_def Let_def)
qed

text \<open>The part of the state that the operations of the cache can touch.\<close>

definition bio_frame :: "'a bcache_scheme \<Rightarrow> 'a bcache_scheme \<Rightarrow> bool" where
  "bio_frame s t \<longleftrightarrow> woken s t \<and>
     (\<exists>ps dk dw bs l. t = s\<lparr>procs := ps, disk := dk, dwrites := dw, bufs := bs, lru := l\<rparr>)"

lemma bio_frame_refl [simp]: "bio_frame s s"
proof -
  have "s = s\<lparr>procs := procs s, disk := disk s, dwrites := dwrites s, bufs := bufs s, lru := lru s\<rparr>" by simp
  then show ?thesis unfolding bio_frame_def by (metis woken_refl)
qed

lemma bio_frame_trans [trans]: "bio_frame s t \<Longrightarrow> bio_frame t u \<Longrightarrow> bio_frame s u"
  unfolding bio_frame_def
proof (elim conjE exE, intro conjI)
  assume "woken s t" "woken t u" then show "woken s u" by (rule woken_trans)
next
  fix ps dk dw bs l ps' dk' dw' bs' l'
  assume "t = s\<lparr>procs := ps, disk := dk, dwrites := dw, bufs := bs, lru := l\<rparr>"
    and "u = t\<lparr>procs := ps', disk := dk', dwrites := dw', bufs := bs', lru := l'\<rparr>"
  then have "u = s\<lparr>procs := ps', disk := dk', dwrites := dw', bufs := bs', lru := l'\<rparr>" by simp
  then show "\<exists>ps dk dw bs l. u = s\<lparr>procs := ps, disk := dk, dwrites := dw, bufs := bs, lru := l\<rparr>" by blast
qed

lemma bio_frame_bufs [simp]: "bio_frame s (s\<lparr>bufs := bs\<rparr>)"
proof -
  have "s\<lparr>bufs := bs\<rparr> = s\<lparr>procs := procs s, disk := disk s, dwrites := dwrites s, bufs := bs, lru := lru s\<rparr>" by simp
  moreover have "woken s (s\<lparr>bufs := bs\<rparr>)" by (simp add: woken_def)
  ultimately show ?thesis unfolding bio_frame_def by blast
qed

lemma bio_frame_disk [simp]: "bio_frame s (s\<lparr>disk := d, dwrites := w\<rparr>)"
proof -
  have "s\<lparr>disk := d, dwrites := w\<rparr> = s\<lparr>procs := procs s, disk := d, dwrites := w, bufs := bufs s, lru := lru s\<rparr>" by simp
  moreover have "woken s (s\<lparr>disk := d, dwrites := w\<rparr>)" by (simp add: woken_def)
  ultimately show ?thesis unfolding bio_frame_def by blast
qed

lemma bio_frame_release [simp]:
  "bio_frame s ((wakeup c s)\<lparr>bufs := bs, lru := l\<rparr>)" "bio_frame s ((wakeup c s)\<lparr>bufs := bs\<rparr>)"
proof -
  have "(wakeup c s)\<lparr>bufs := bs, lru := l\<rparr> = s\<lparr>procs := procs (wakeup c s), disk := disk s, dwrites := dwrites s, bufs := bs, lru := l\<rparr>" for l
    by (simp add: wakeup_def)
  moreover have "woken s ((wakeup c s)\<lparr>bufs := bs, lru := l\<rparr>)" for l
    using woken_wakeup [of s c] by (simp add: woken_def)
  ultimately have a: "bio_frame s ((wakeup c s)\<lparr>bufs := bs, lru := l\<rparr>)" for l unfolding bio_frame_def by blast
  show "bio_frame s ((wakeup c s)\<lparr>bufs := bs, lru := l\<rparr>)" by (rule a)
  show "bio_frame s ((wakeup c s)\<lparr>bufs := bs\<rparr>)" using a [of "lru s"] by (simp add: wakeup_def)
qed

lemma bio_frame_running: "bio_frame s t \<Longrightarrow> running s \<Longrightarrow> running t \<and> mypid t = mypid s"
  using woken_running woken_mypid unfolding bio_frame_def by blast

text \<open>
  \<open>effect\<close> bundles what an operation on block \<open>n\<close> leaves: the views change at \<open>n\<close> only, and buffers of
  other blocks that the process holds stay held.
\<close>

definition effect :: "u32 \<Rightarrow> 'a bcache_scheme \<Rightarrow> u32 \<Rightarrow> block \<Rightarrow> u32 \<Rightarrow> bool \<Rightarrow> 'a bcache_scheme \<Rightarrow> bool" where
  "effect dev s n d k l t \<longleftrightarrow> bio_frame s t \<and> bcache_ok dev t \<and> content dev t = (content dev s)(n := d) \<and>
     refs dev t = (refs dev s)(n := k) \<and> locked dev t = (locked dev s)(n := l) \<and>
     (\<forall>m j. m \<noteq> n \<longrightarrow> holds dev s m j \<longrightarrow> holds dev t m j)"

lemma effectD:
  assumes "effect dev s n d k l t"
  shows "bio_frame s t" "bcache_ok dev t" "content dev t = (content dev s)(n := d)" "refs dev t = (refs dev s)(n := k)"
    "locked dev t = (locked dev s)(n := l)" "m \<noteq> n \<Longrightarrow> holds dev s m j \<Longrightarrow> holds dev t m j"
  using assms unfolding effect_def by blast+

lemma effect_running: "effect dev s n d k l t \<Longrightarrow> running s \<Longrightarrow> running t"
  using bio_frame_running effectD(1) by blast

lemma holds_other_upd:
  assumes "bcache_ok dev s" "i < NBUF" "holds dev s m j" "m \<noteq> n" "b_refcnt (bufs s ! i) = 0 \<or> caches dev n (bufs s ! i)"
  shows "holds dev (s\<lparr>bufs := (bufs s)[i := B]\<rparr>) m j"
proof -
  have "j \<noteq> i"
    using assms bcache_okD(5) [OF assms(1,2)] by (auto simp: holds_def caches_def buf_ok_def)
  then show ?thesis using assms(3) by (simp add: holds_def)
qed

lemma bread_ok:
  assumes ok: "bcache_ok dev s" and r: "running s" "readable dev s n"
  obtains i t where "bread dev n s = Ok (i, t)" "holds dev t n i" "disk t = disk s" "dwrites t = dwrites s"
    "effect dev s n (content dev s n) (refs dev s n + 1) True t"
proof (cases "slot_of dev s n")
  case (Some i)
  let ?B = "\<lparr>b_valid = True, b_dev = dev, b_blockno = n, b_lock = \<lparr>sl_locked = True, sl_pid = mypid s\<rparr>,
     b_refcnt = refs dev s n + 1, b_data = content dev s n\<rparr>"
  have i: "i < NBUF" "caches dev n (bufs s ! i)" using Some slot_of_Some [OF ok] by auto
  have nz: "refs dev s n + 1 \<noteq> 0" using r(2) by (simp add: readable_def add_eq_0_iff2)
  have b: "buf_ok dev (disk s) ?B" "caches dev n ?B" "b_valid ?B"
    using nz length_content [OF ok] by (simp_all add: buf_ok_def caches_def)
  note v = views_upd_same [OF ok i b(2,1,3)]
  show ?thesis
    by (rule that [OF bread_found [OF ok r Some]])
      (use i v holds_other_upd [OF ok i(1)] bcache_okD(1) [OF ok] in \<open>auto simp: holds_def effect_def caches_def\<close>)
next
  case None
  let ?B = "\<lparr>b_valid = True, b_dev = dev, b_blockno = n, b_lock = \<lparr>sl_locked = True, sl_pid = mypid s\<rparr>,
     b_refcnt = 1, b_data = disk s n\<rparr>"
  have z: "refs dev s n = 0" "content dev s n = disk s n" using None by (simp_all add: refs_def content_def)
  have "\<exists>i < NBUF. b_refcnt (bufs s ! i) = 0"
    using r(2) z free_buffer [OF ok] by (auto simp: readable_def busy_def)
  from find_lru_free [OF ok this] obtain i where
    i: "find (\<lambda>i. b_refcnt (bufs s ! i) = 0) (rev (lru s)) = Some i" "i < NBUF" "b_refcnt (bufs s ! i) = 0" .
  have b: "buf_ok dev (disk s) ?B" "b_valid ?B" "caches dev n ?B" "b_data ?B = disk s n"
    using bcache_okD(4) [OF ok] by (simp_all add: buf_ok_def caches_def)
  note v = views_upd_recycle [OF ok i(2,3) None b]
  show ?thesis
    by (rule that [OF bread_recycled [OF ok r(1) None i]])
      (use i z v holds_other_upd [OF ok i(2)] bcache_okD(1) [OF ok] in \<open>auto simp: holds_def effect_def caches_def\<close>)
qed

lemma views_cong:
  assumes "bcache_ok dev s" "bufs t = bufs s" "disk t = disk s" "distinct (lru t)" "set (lru t) = {..<NBUF}"
  shows "bcache_ok dev t" "content dev t = content dev s" "refs dev t = refs dev s" "locked dev t = locked dev s"
proof -
  show ok: "bcache_ok dev t" using assms unfolding bcache_ok_def by simp
  have "slot_of dev t n = Some i \<longleftrightarrow> slot_of dev s n = Some i" for n i
    by (simp add: slot_of_Some [OF ok] slot_of_Some [OF assms(1)] assms(2))
  then have "slot_of dev t = slot_of dev s" by (intro ext) (metis option.exhaust)
  then show "content dev t = content dev s" "refs dev t = refs dev s" "locked dev t = locked dev s"
    using assms(2,3) by (auto simp: fun_eq_iff content_def refs_def locked_def split: option.split)
qed

lemma holds_cong: "bufs t = bufs s \<Longrightarrow> mypid t = mypid s \<Longrightarrow> holds dev t = holds dev s"
  by (simp add: fun_eq_iff holds_def)

lemma refs_holds: "bcache_ok dev s \<Longrightarrow> holds dev s n i \<Longrightarrow> b_refcnt (bufs s ! i) = refs dev s n"
  by (simp add: refs_def slot_of_holds)

lemma holds_refs:
  assumes "bcache_ok dev s" "holds dev s n i" shows "refs dev s n \<noteq> 0"
  using assms bcache_okD(5) [OF assms(1), of i] refs_holds [OF assms] by (auto simp: holds_def buf_ok_def)

lemma set_data_ok:
  assumes ok: "bcache_ok dev s" and h: "holds dev s n i" and d: "length d = BSIZE"
  shows "effect dev s n d (refs dev s n) True (set_data i d s)" "holds dev (set_data i d s) n i"
    "disk (set_data i d s) = disk s" "dwrites (set_data i d s) = dwrites s"
proof -
  let ?B = "(bufs s ! i)\<lparr>b_data := d\<rparr>"
  have i: "i < NBUF" "caches dev n (bufs s ! i)" using h by (auto simp: holds_def)
  have b: "buf_ok dev (disk s) ?B" "caches dev n ?B" "b_valid ?B"
    using bcache_okD(5) [OF ok i(1)] h d holds_refs [OF ok h] refs_holds [OF ok h]
    by (auto simp: buf_ok_def caches_def holds_def)
  note v = views_upd_same [OF ok i b(2,1,3)]
  have l: "sl_locked (b_lock (bufs s ! i))" using h by (simp add: holds_def)
  show "effect dev s n d (refs dev s n) True (set_data i d s)"
    using v holds_other_upd [OF ok i(1)] i(2) refs_holds [OF ok h] l by (auto simp: effect_def upd_buf_def)
  show "holds dev (set_data i d s) n i" using h bcache_okD(1) [OF ok]
    by (auto simp: holds_def upd_buf_def caches_def mypid_def split: option.split)
qed (simp_all add: upd_buf_def)

lemma holdingsleep_holds: "running s \<Longrightarrow> holds dev s n i \<Longrightarrow> holdingsleep (b_lock (bufs s ! i)) s = Ok True"
  by (auto simp: holdingsleep_def holds_def mypid_def with_proc_def running_def split: option.splits)

lemma bwrite_ok:
  assumes ok: "bcache_ok dev s" and r: "running s" and h: "holds dev s n i"
  obtains t where "bwrite i s = Ok t" "effect dev s n (content dev s n) (refs dev s n) True t" "holds dev t n i"
    "disk t = (disk s)(n := content dev s n)" "dwrites t = dwrites s @ [(n, content dev s n)]"
proof -
  let ?t = "s\<lparr>disk := (disk s)(n := content dev s n), dwrites := dwrites s @ [(n, content dev s n)]\<rparr>"
  have i: "i < NBUF" "caches dev n (bufs s ! i)" "b_valid (bufs s ! i)" "sl_locked (b_lock (bufs s ! i))"
    using h by (auto simp: holds_def)
  have w: "bwrite i s = Ok ?t"
    using i content_holds [OF ok h] holdingsleep_holds [OF r h]
    by (simp add: bwrite_def virtio_disk_rw_def Let_def caches_def)
  have nz: "b_refcnt (bufs s ! i) \<noteq> 0" using holds_refs [OF ok h] refs_holds [OF ok h] by simp
  have bo: "buf_ok dev ((disk s)(n := content dev s n)) (bufs s ! j)" if j: "j < NBUF" for j
  proof (cases "j = i")
    case True
    then show ?thesis using bcache_okD(5) [OF ok j] nz by (simp add: buf_ok_def)
  next
    case False
    then have "\<not> caches dev n (bufs s ! j)" using bcache_okD(6) [OF ok j i(1)] i(2) by blast
    then show ?thesis using bcache_okD(5) [OF ok j] by (auto simp: buf_ok_def caches_def)
  qed
  have okt: "bcache_ok dev ?t"
    using ok bo length_content [OF ok] unfolding bcache_ok_def by simp
  have s: "slot_of dev (s\<lparr>disk := dk, dwrites := dw\<rparr>) m = slot_of dev s m" for m dk dw by (simp add: slot_of_def)
  have c: "content dev ?t = content dev s"
  proof
    fix m
    show "content dev ?t m = content dev s m"
    proof (cases "m = n")
      case True
      then show ?thesis using i slot_of_holds [OF ok h] by (simp add: content_def s)
    next
      case False
      then show ?thesis by (cases "slot_of dev s m") (simp_all add: content_def s)
    qed
  qed
  have v: "refs dev ?t = refs dev s" "locked dev ?t = locked dev s"
    by (auto simp: fun_eq_iff refs_def locked_def s split: option.split)
  have l: "locked dev s n" using i slot_of_holds [OF ok h] by (simp add: locked_def)
  have hh: "holds dev ?t = holds dev s" by (rule holds_cong) (simp_all add: mypid_def split: option.split)
  show ?thesis
    by (rule that [OF w]) (use okt c v l h hh in \<open>auto simp: effect_def fun_eq_iff\<close>)
qed

text \<open>Releasing a buffer after \<open>k\<close> extra references were dropped: \<open>k = 0\<close> is \<open>brelse\<close>, \<open>k = 1\<close> is
  \<open>bunpin\<close> followed by \<open>brelse\<close>.\<close>

lemma release_ok:
  assumes ok: "bcache_ok dev s" and r: "running s" and h: "holds dev s n i"
    and c: "refs dev s n - k - 1 = 0 \<Longrightarrow> content dev s n = disk s n"
  obtains t where "brelse i (upd_buf i (\<lambda>b. b\<lparr>b_refcnt := b_refcnt b - k\<rparr>) s) = Ok t"
    "effect dev s n (content dev s n) (refs dev s n - k - 1) False t" "disk t = disk s" "dwrites t = dwrites s"
proof -
  let ?s = "upd_buf i (\<lambda>b. b\<lparr>b_refcnt := b_refcnt b - k\<rparr>) s"
  let ?B = "(bufs s ! i)\<lparr>b_lock := \<lparr>sl_locked = False, sl_pid = 0\<rparr>, b_refcnt := refs dev s n - k - 1\<rparr>"
  let ?u = "s\<lparr>bufs := (bufs s)[i := ?B]\<rparr>"
  let ?l = "if refs dev s n - k - 1 = 0 then i # remove1 i (lru s) else lru s"
  let ?t = "(wakeup (ChanBufLock i) s)\<lparr>bufs := (bufs s)[i := ?B], lru := ?l\<rparr>"
  have len: "length (bufs s) = NBUF" by (rule bcache_okD(1) [OF ok])
  have i: "i < NBUF" "caches dev n (bufs s ! i)" "b_valid (bufs s ! i)" "sl_locked (b_lock (bufs s ! i))"
    using h by (auto simp: holds_def)
  have rc: "b_refcnt (bufs s ! i) = refs dev s n" by (rule refs_holds [OF ok h])
  have hs: "holdingsleep (b_lock (bufs ?s ! i)) ?s = Ok True"
  proof -
    have "holds dev ?s n i" "running ?s"
      using h r len by (simp_all add: holds_def upd_buf_def caches_def)
    then show ?thesis by (rule holdingsleep_holds [rotated])
  qed
  have "brelse i ?s = Ok ?t"
    using hs i len rc
    by (cases "bufs s ! i")
      (simp add: brelse_def releasesleep_def upd_buf_def wakeup_def Let_def)
  moreover have b: "buf_ok dev (disk s) ?B" "caches dev n ?B" "b_valid ?B"
    using bcache_okD(5) [OF ok i(1)] i c content_holds [OF ok h]
    by (auto simp: buf_ok_def caches_def)
  note v = views_upd_same [OF ok i(1,2) b(2,1,3)]
  have set_l: "distinct ?l" "set ?l = {..<NBUF}"
    using bcache_okD(2,3) [OF ok] i(1) by auto
  have fr: "bio_frame s ?t" by simp
  note vt = views_cong [OF v(1), of ?t]
  have "bcache_ok dev ?t" "content dev ?t = content dev ?u" "refs dev ?t = refs dev ?u" "locked dev ?t = locked dev ?u"
    using vt set_l by (simp_all add: wakeup_def)
  moreover have "holds dev ?t = holds dev ?u"
    using bio_frame_running [OF fr r] by (intro holds_cong) simp_all
  ultimately have "effect dev s n (content dev s n) (refs dev s n - k - 1) False ?t"
    using v holds_other_upd [OF ok i(1)] i(2) content_holds [OF ok h] fr by (auto simp: effect_def)
  then show ?thesis using that \<open>brelse i ?s = Ok ?t\<close> by (simp add: wakeup_def)
qed

lemma brelse_ok:
  assumes "bcache_ok dev s" "running s" "holds dev s n i" "refs dev s n = 1 \<Longrightarrow> content dev s n = disk s n"
  obtains t where "brelse i s = Ok t" "effect dev s n (content dev s n) (refs dev s n - 1) False t"
    "disk t = disk s" "dwrites t = dwrites s"
proof -
  have "upd_buf i (\<lambda>b. b\<lparr>b_refcnt := b_refcnt b - 0\<rparr>) s = s" by (simp add: upd_buf_def)
  then show ?thesis using release_ok [OF assms(1-3), of 0] assms(4) that by auto
qed

lemma unpin_release_ok:
  assumes "bcache_ok dev s" "running s" "holds dev s n i" "refs dev s n = 2 \<Longrightarrow> content dev s n = disk s n"
  obtains t where "brelse i (bunpin i s) = Ok t" "effect dev s n (content dev s n) (refs dev s n - 2) False t"
    "disk t = disk s" "dwrites t = dwrites s"
  using release_ok [OF assms(1-3), of 1] assms(4) that unfolding bunpin_def by auto

lemma bpin_ok:
  assumes ok: "bcache_ok dev s" and h: "holds dev s n i" and k: "refs dev s n \<noteq> - 1"
  shows "effect dev s n (content dev s n) (refs dev s n + 1) True (bpin i s)" "holds dev (bpin i s) n i"
    "disk (bpin i s) = disk s" "dwrites (bpin i s) = dwrites s"
proof -
  let ?B = "(bufs s ! i)\<lparr>b_refcnt := refs dev s n + 1\<rparr>"
  have i: "i < NBUF" "caches dev n (bufs s ! i)" "b_valid (bufs s ! i)" "sl_locked (b_lock (bufs s ! i))"
    using h by (auto simp: holds_def)
  have "refs dev s n + 1 \<noteq> 0" using k by (simp add: add_eq_0_iff2)
  then have b: "buf_ok dev (disk s) ?B" "caches dev n ?B" "b_valid ?B"
    using bcache_okD(5) [OF ok i(1)] i by (auto simp: buf_ok_def caches_def)
  note v = views_upd_same [OF ok i(1,2) b(2,1,3)]
  have e: "bpin i s = s\<lparr>bufs := (bufs s)[i := ?B]\<rparr>"
    by (simp add: bpin_def upd_buf_def refs_holds [OF ok h])
  show "effect dev s n (content dev s n) (refs dev s n + 1) True (bpin i s)"
    using v holds_other_upd [OF ok i(1)] i content_holds [OF ok h] by (auto simp: effect_def e)
  show "holds dev (bpin i s) n i" using h bcache_okD(1) [OF ok] by (auto simp: holds_def e caches_def)
qed (simp_all add: bpin_def upd_buf_def)

section \<open>When a block cannot be had\<close>

lemma busy_full:
  assumes ok: "bcache_ok dev s" and full: "NBUF \<le> card (busy dev s)" and i: "i < NBUF"
  shows "b_refcnt (bufs s ! i) \<noteq> 0"
proof
  assume z: "b_refcnt (bufs s ! i) = 0"
  let ?J = "{..<NBUF} - {i}"
  have "busy dev s \<subseteq> (\<lambda>j. b_blockno (bufs s ! j)) ` ?J"
  proof
    fix n assume "n \<in> busy dev s"
    then obtain j where "slot_of dev s n = Some j" "b_refcnt (bufs s ! j) \<noteq> 0"
      by (auto simp: busy_def refs_def split: option.splits)
    then show "n \<in> (\<lambda>j. b_blockno (bufs s ! j)) ` ?J" using slot_of_Some [OF ok] z by (auto simp: caches_def)
  qed
  then have "card (busy dev s) \<le> card ?J" by (meson surj_card_le finite_Diff finite_lessThan)
  then show False using full i by simp
qed

lemma bread_locked:
  assumes "locked dev s n" shows "\<exists>i. slot_of dev s n = Some i \<and> (i < length (bufs s) \<longrightarrow> bread dev n s = Sleep (ChanBufLock i))"
proof -
  obtain i where i: "slot_of dev s n = Some i" "sl_locked (b_lock (bufs s ! i))"
    using assms by (auto simp: locked_def split: option.splits)
  then have "find (\<lambda>i. b_dev (bufs s ! i) = dev \<and> b_blockno (bufs s ! i) = n) (lru s) = Some i"
    by (simp add: slot_of_def caches_def)
  then show ?thesis using i by (simp add: bread_def bget_def lock_buf_def acquiresleep_def upd_buf_def)
qed

lemma bread_full:
  assumes ok: "bcache_ok dev s" and n: "n \<notin> busy dev s" "NBUF \<le> card (busy dev s)"
  shows "bread dev n s = Panic ''bget: no buffers''"
proof -
  have "slot_of dev s n = None"
  proof (cases "slot_of dev s n")
    case (Some i)
    then have "b_refcnt (bufs s ! i) \<noteq> 0" using busy_full [OF ok n(2)] slot_of_Some [OF ok] by blast
    then show ?thesis using n(1) Some by (simp add: busy_def refs_def)
  qed simp
  moreover have "find (\<lambda>i. b_refcnt (bufs s ! i) = 0) (rev (lru s)) = None"
    using busy_full [OF ok n(2)] bcache_okD(3) [OF ok] by (auto simp: find_None_iff)
  ultimately show ?thesis by (simp add: bread_def bget_def slot_of_def caches_def)
qed

lemma bread_Ok_readable:
  assumes ok: "bcache_ok dev s" "refs dev s n \<noteq> - 1" and b: "bread dev n s = Ok r"
  shows "readable dev s n"
proof -
  have "\<not> locked dev s n"
    using bread_locked [of dev s n] b slot_of_Some [OF ok(1), of n] bcache_okD(1) [OF ok(1)] by auto
  moreover have "n \<in> busy dev s \<or> card (busy dev s) < NBUF"
    using bread_full [OF ok(1), of n] b by fastforce
  ultimately show ?thesis using ok(2) by (simp add: readable_def)
qed


end
