(* ===== verification/LogOps.thy ===== *)
theory LogOps
  imports Log BlockCache
begin

text \<open>
  The log operations over the contracts of the buffer cache: the block copies that \<open>write_log\<close> and
  \<open>install_trans\<close> repeat, the header write, and from them what \<open>commit\<close> and \<open>recover_from_log\<close> do to the
  disk, block write by block write.
\<close>

section \<open>Log state under cache operations\<close>

lemma bio_frame_log:
  "bio_frame s t \<Longrightarrow> log_start t = log_start s \<and> log_size t = log_size s \<and> log_outstanding t = log_outstanding s \<and>
     log_committing t = log_committing s \<and> log_dev t = log_dev s \<and> log_lh t = log_lh s"
  by (auto simp: bio_frame_def)

lemma effect_log:
  assumes "effect dev s n d k l t"
  shows "log_start t = log_start s" "log_dev t = log_dev s" "log_lh t = log_lh s"
  using bio_frame_log [OF effectD(1) [OF assms]] by auto

lemma views_log_lh [simp]:
  "bcache_ok dev (s\<lparr>log_lh := x\<rparr>) = bcache_ok dev s" "content dev (s\<lparr>log_lh := x\<rparr>) = content dev s"
  "refs dev (s\<lparr>log_lh := x\<rparr>) = refs dev s" "locked dev (s\<lparr>log_lh := x\<rparr>) = locked dev s"
  "running (s\<lparr>log_lh := x\<rparr>) = running s" "mypid (s\<lparr>log_lh := x\<rparr>) = mypid s"
  by (auto simp: fun_eq_iff bcache_ok_def content_def refs_def locked_def slot_of_def running_def mypid_def
    split: option.split)

lemma busy_refs: "refs dev t = refs dev s \<Longrightarrow> busy dev t = busy dev s"
  by (simp add: busy_def)

lemma busy_insert: "refs dev t = (refs dev s)(n := k) \<Longrightarrow> k \<noteq> 0 \<Longrightarrow> busy dev t = insert n (busy dev s)"
  by (auto simp: busy_def)

section \<open>Two blocks at a time\<close>

lemma bread_two:
  assumes ok: "bcache_ok dev s" "running s" and a: "readable dev s a"
    and b: "\<not> locked dev s b" "refs dev s b \<noteq> - 1" "b \<in> busy dev s \<or> card (insert a (busy dev s)) < NBUF" "a \<noteq> b"
  obtains i t j u where "bread dev a s = Ok (i, t)" "bread dev b t = Ok (j, u)" "holds dev u a i" "holds dev u b j"
    "bio_frame s u" "bcache_ok dev u" "running u" "disk u = disk s" "dwrites u = dwrites s"
    "content dev u = content dev s" "refs dev u = (refs dev s)(a := refs dev s a + 1, b := refs dev s b + 1)"
    "locked dev u = (locked dev s)(a := True, b := True)" "log_dev t = log_dev s"
proof -
  obtain i t where t: "bread dev a s = Ok (i, t)" "holds dev t a i" "disk t = disk s" "dwrites t = dwrites s"
    "effect dev s a (content dev s a) (refs dev s a + 1) True t"
    by (rule bread_ok [OF ok a])
  have nz: "refs dev s a + 1 \<noteq> 0" using a by (simp add: readable_def add_eq_0_iff2)
  note e = effectD(1-5) [OF t(5)]
  have rt: "running t" by (rule effect_running [OF t(5) ok(2)])
  have rb: "readable dev t b"
    using b nz by (auto simp: readable_def e busy_insert [OF e(4) nz])
  obtain j u where u: "bread dev b t = Ok (j, u)" "holds dev u b j" "disk u = disk t" "dwrites u = dwrites t"
    "effect dev t b (content dev t b) (refs dev t b + 1) True u"
    by (rule bread_ok [OF e(2) rt rb])
  note f = effectD(1-5) [OF u(5)]
  have ha: "holds dev u a i" by (rule effectD(6) [OF u(5) b(4) t(2)])
  have fr: "bio_frame s u" by (rule bio_frame_trans [OF e(1) f(1)])
  have ld: "log_dev t = log_dev s" using bio_frame_log [OF e(1)] by blast
  show ?thesis
    by (rule that [OF t(1) u(1) ha u(2) fr f(2) effect_running [OF u(5) rt]])
      (use b(4) ld in \<open>simp_all add: e f t(3,4) u(3,4)\<close>)
qed

text \<open>The state after a block operation that left every lock and, but for \<open>r\<close>, every count as it was.\<close>

definition moved :: "u32 \<Rightarrow> 'a logst_scheme \<Rightarrow> u32 \<Rightarrow> block \<Rightarrow> (u32 \<Rightarrow> u32) \<Rightarrow> 'a logst_scheme \<Rightarrow> bool" where
  "moved dev s n d r t \<longleftrightarrow> bio_frame s t \<and> bcache_ok dev t \<and> running t \<and> content dev t = (content dev s)(n := d) \<and>
     disk t = (disk s)(n := d) \<and> dwrites t = dwrites s @ [(n, d)] \<and> refs dev t = r \<and> locked dev t = locked dev s"

text \<open>One round of \<open>write_log\<close>: block \<open>b\<close> is copied over block \<open>a\<close>, in the cache and on the disk.\<close>

lemma copy_block:
  assumes ok: "bcache_ok dev s" "running s" and a: "readable dev s a"
    and b: "\<not> locked dev s b" "refs dev s b \<noteq> - 1" "b \<in> busy dev s \<or> card (insert a (busy dev s)) < NBUF" "a \<noteq> b"
  obtains i t j u v w x where "bread dev a s = Ok (i, t)" "log_dev t = log_dev s" "bread dev b t = Ok (j, u)"
    "bwrite i (set_data i (b_data (bufs u ! j)) u) = Ok v" "brelse j v = Ok w" "brelse i w = Ok x"
    "moved dev s a (content dev s b) (refs dev s) x" "log_lh u = log_lh s" "log_lh t = log_lh s"
proof -
  obtain i t j u where r: "bread dev a s = Ok (i, t)" "bread dev b t = Ok (j, u)" "holds dev u a i" "holds dev u b j"
    "bio_frame s u" "bcache_ok dev u" "running u" "disk u = disk s" "dwrites u = dwrites s"
    "content dev u = content dev s" "refs dev u = (refs dev s)(a := refs dev s a + 1, b := refs dev s b + 1)"
    "locked dev u = (locked dev s)(a := True, b := True)" "log_dev t = log_dev s"
    by (rule bread_two [OF ok a b])
  have al: "\<not> locked dev s a" using a by (simp add: readable_def)
  let ?d = "content dev s b"
  have d: "b_data (bufs u ! j) = ?d" using content_holds [OF r(6,4)] r(10) by simp
  let ?u = "set_data i ?d u"
  note sd = set_data_ok [OF r(6,3) length_content [OF ok(1), of b]]
  note es = effectD(1-5) [OF sd(1)]
  have ru: "running ?u" by (rule effect_running [OF sd(1) r(7)])
  have hb: "holds dev ?u b j" by (rule effectD(6) [OF sd(1) b(4) [symmetric] r(4)])
  obtain v where v: "bwrite i ?u = Ok v" "effect dev ?u a (content dev ?u a) (refs dev ?u a) True v" "holds dev v a i"
    "disk v = (disk ?u)(a := content dev ?u a)" "dwrites v = dwrites ?u @ [(a, content dev ?u a)]"
    by (rule bwrite_ok [OF es(2) ru sd(2)])
  note ev = effectD(1-5) [OF v(2)]
  have rv: "running v" by (rule effect_running [OF v(2) ru])
  have hbv: "holds dev v b j" by (rule effectD(6) [OF v(2) b(4) [symmetric] hb])
  have "content dev v b = ?d" "disk v b = disk s b" "refs dev v b = refs dev s b + 1"
    using b(4) by (simp_all add: ev es r v sd)
  then have cb: "content dev v b = disk v b" if "refs dev v b = 1"
    using that content_clean [OF ok(1), of b] by simp
  obtain w where w: "brelse j v = Ok w" "effect dev v b (content dev v b) (refs dev v b - 1) False w"
    "disk w = disk v" "dwrites w = dwrites v"
    by (rule brelse_ok [OF ev(2) rv hbv cb])
  note ew = effectD(1-5) [OF w(2)]
  have rw: "running w" by (rule effect_running [OF w(2) rv])
  have haw: "holds dev w a i" by (rule effectD(6) [OF w(2) b(4) v(3)])
  have ca: "content dev w a = disk w a" if "refs dev w a = 1"
    using b(4) by (simp add: ew ev es r v sd w)
  obtain x where x: "brelse i w = Ok x" "effect dev w a (content dev w a) (refs dev w a - 1) False x"
    "disk x = disk w" "dwrites x = dwrites w"
    by (rule brelse_ok [OF ew(2) rw haw ca])
  note ex = effectD(1-5) [OF x(2)]
  have "bio_frame s x"
    using bio_frame_trans [OF r(5) bio_frame_trans [OF es(1) bio_frame_trans [OF ev(1) bio_frame_trans [OF ew(1) ex(1)]]]] .
  then have m: "moved dev s a ?d (refs dev s) x"
    using ex(2) effect_running [OF x(2) rw] b(1,4) al
    by (auto simp: moved_def ex ew ev es r sd v w x fun_eq_iff)
  have f1: "bio_frame s t"
  proof -
    obtain i' t' where "bread dev a s = Ok (i', t')" "effect dev s a (content dev s a) (refs dev s a + 1) True t'"
      by (rule bread_ok [OF ok a])
    then show ?thesis using r(1) effectD(1) by auto
  qed
  show ?thesis
    by (rule that [OF r(1,13,2) _ w(1) x(1) m]) (use v(1) d bio_frame_log [OF r(5)] bio_frame_log [OF f1] in simp_all)
qed

lemma brelse_alt:
  assumes "l < length (bufs s)"
  shows "brelse l s = andthen (holdingsleep (b_lock (bufs s ! l)) s) (\<lambda>h. if \<not> h then Panic ''brelse'' else
    Ok ((wakeup (ChanBufLock l) s)
      \<lparr>bufs := (bufs s)[l := (bufs s ! l)\<lparr>b_lock := initsleeplock, b_refcnt := b_refcnt (bufs s ! l) - 1\<rparr>],
       lru := if b_refcnt (bufs s ! l) = 1 then l # remove1 l (lru s) else lru s\<rparr>))"
  unfolding brelse_def
  by (rule arg_cong [where f = "andthen (holdingsleep (b_lock (bufs s ! l)) s)"], rule ext)
    (use assms in \<open>simp add: releasesleep_def upd_buf_def wakeup_def Let_def initsleeplock_def\<close>)

lemma brelse_bunpin_commute:
  assumes "brelse l s = Ok t" "l \<noteq> d" "l < length (bufs s)"
  shows "brelse l (bunpin d s) = Ok (bunpin d t)"
proof -
  let ?f = "\<lambda>b. b\<lparr>b_refcnt := b_refcnt b - 1\<rparr>"
  let ?g = "\<lambda>b. b\<lparr>b_lock := initsleeplock, b_refcnt := b_refcnt b - 1\<rparr>"
  have sw: "(bufs s)[d := ?f (bufs s ! d), l := ?g (bufs s ! l)] = (bufs s)[l := ?g (bufs s ! l), d := ?f (bufs s ! d)]"
    using assms(2) by (simp add: list_update_swap)
  have h: "holdingsleep (b_lock (bufs s ! l)) (bunpin d s) = holdingsleep (b_lock (bufs s ! l)) s"
    by (simp add: holdingsleep_def with_proc_def bunpin_def upd_buf_def split: option.split)
  have n: "bufs (bunpin d s) ! l = bufs s ! l" "l < length (bufs (bunpin d s))"
    using assms(2,3) by (simp_all add: bunpin_def upd_buf_def)
  obtain hb where hh: "holdingsleep (b_lock (bufs s ! l)) s = Ok hb" and "hb"
    using assms(1) by (auto simp: brelse_alt [OF assms(3)] split: if_splits)
  then have t: "t = (wakeup (ChanBufLock l) s)
      \<lparr>bufs := (bufs s)[l := ?g (bufs s ! l)], lru := if b_refcnt (bufs s ! l) = 1 then l # remove1 l (lru s) else lru s\<rparr>"
    using assms(1) by (simp add: brelse_alt [OF assms(3)])
  have "bunpin d t = (wakeup (ChanBufLock l) (bunpin d s))
      \<lparr>bufs := (bufs (bunpin d s))[l := ?g (bufs s ! l)],
       lru := if b_refcnt (bufs s ! l) = 1 then l # remove1 l (lru s) else lru s\<rparr>"
    using assms(2) sw by (simp add: t bunpin_def upd_buf_def wakeup_def)
  then show ?thesis
    using hh \<open>hb\<close> by (simp add: brelse_alt [OF n(2)] n h) (simp add: bunpin_def upd_buf_def)
qed

text \<open>One round of \<open>install_trans\<close>: block \<open>a\<close> is copied over block \<open>b\<close>, which loses one reference.\<close>

lemma install_block:
  assumes ok: "bcache_ok dev s" "running s" and a: "readable dev s a"
    and b: "\<not> locked dev s b" "refs dev s b \<noteq> - 1" "b \<in> busy dev s \<or> card (insert a (busy dev s)) < NBUF" "a \<noteq> b"
  obtains i t j u v w x where "bread dev a s = Ok (i, t)" "log_dev t = log_dev s" "bread dev b t = Ok (j, u)"
    "bwrite j (set_data j (b_data (bufs u ! i)) u) = Ok v" "brelse i (bunpin j v) = Ok w" "brelse j w = Ok x"
    "moved dev s b (content dev s a) ((refs dev s)(b := refs dev s b - 1)) x" "log_lh u = log_lh s" "log_lh t = log_lh s"
proof -
  obtain i t j u where r: "bread dev a s = Ok (i, t)" "bread dev b t = Ok (j, u)" "holds dev u a i" "holds dev u b j"
    "bio_frame s u" "bcache_ok dev u" "running u" "disk u = disk s" "dwrites u = dwrites s"
    "content dev u = content dev s" "refs dev u = (refs dev s)(a := refs dev s a + 1, b := refs dev s b + 1)"
    "locked dev u = (locked dev s)(a := True, b := True)" "log_dev t = log_dev s"
    by (rule bread_two [OF ok a b])
  have al: "\<not> locked dev s a" using a by (simp add: readable_def)
  let ?d = "content dev s a"
  have d: "b_data (bufs u ! i) = ?d" using content_holds [OF r(6,3)] r(10) by simp
  let ?u = "set_data j ?d u"
  note sd = set_data_ok [OF r(6,4) length_content [OF ok(1), of a]]
  note es = effectD(1-5) [OF sd(1)]
  have ru: "running ?u" by (rule effect_running [OF sd(1) r(7)])
  have ha: "holds dev ?u a i" by (rule effectD(6) [OF sd(1) b(4) r(3)])
  obtain v where v: "bwrite j ?u = Ok v" "effect dev ?u b (content dev ?u b) (refs dev ?u b) True v" "holds dev v b j"
    "disk v = (disk ?u)(b := content dev ?u b)" "dwrites v = dwrites ?u @ [(b, content dev ?u b)]"
    by (rule bwrite_ok [OF es(2) ru sd(2)])
  note ev = effectD(1-5) [OF v(2)]
  have rv: "running v" by (rule effect_running [OF v(2) ru])
  have hav: "holds dev v a i" by (rule effectD(6) [OF v(2) b(4) ha])
  have "content dev v a = ?d" "disk v a = disk s a" "refs dev v a = refs dev s a + 1"
    using b(4) by (simp_all add: ev es r v sd)
  then have ca: "content dev v a = disk v a" if "refs dev v a = 1"
    using that content_clean [OF ok(1), of a] by simp
  obtain w where w: "brelse i v = Ok w" "effect dev v a (content dev v a) (refs dev v a - 1) False w"
    "disk w = disk v" "dwrites w = dwrites v"
    by (rule brelse_ok [OF ev(2) rv hav ca])
  note ew = effectD(1-5) [OF w(2)]
  have rw: "running w" by (rule effect_running [OF w(2) rv])
  have hbw: "holds dev w b j" by (rule effectD(6) [OF w(2) b(4) [symmetric] v(3)])
  have cb: "content dev w b = disk w b" if "refs dev w b = 2"
    using b(4) by (simp add: ew ev es r v sd w)
  obtain x where x: "brelse j (bunpin j w) = Ok x" "effect dev w b (content dev w b) (refs dev w b - 2) False x"
    "disk x = disk w" "dwrites x = dwrites w"
    by (rule unpin_release_ok [OF ew(2) rw hbw cb])
  note ex = effectD(1-5) [OF x(2)]
  have "bio_frame s x"
    using bio_frame_trans [OF r(5) bio_frame_trans [OF es(1) bio_frame_trans [OF ev(1) bio_frame_trans [OF ew(1) ex(1)]]]] .
  moreover have "refs dev x = (refs dev s)(b := refs dev s b - 1)"
    using b(4) by (auto simp: fun_eq_iff ex ew ev es r)
  ultimately have m: "moved dev s b ?d ((refs dev s)(b := refs dev s b - 1)) x"
    using ex(2) effect_running [OF x(2) rw] b(1,4) al
    by (auto simp: moved_def ex ew ev es r sd v w x fun_eq_iff)
  have lv: "i < length (bufs v)" using hav bcache_okD(1) [OF ev(2)] by (simp add: holds_def)
  have ij: "i \<noteq> j" using r(3,4) b(4) by (auto simp: holds_def caches_def)
  have f1: "bio_frame s t"
  proof -
    obtain i' t' where "bread dev a s = Ok (i', t')" "effect dev s a (content dev s a) (refs dev s a + 1) True t'"
      by (rule bread_ok [OF ok a])
    then show ?thesis using r(1) effectD(1) by auto
  qed
  show ?thesis
    by (rule that [OF r(1,13,2) _ brelse_bunpin_commute [OF w(1) ij lv] x(1) m])
      (use v(1) d bio_frame_log [OF r(5)] bio_frame_log [OF f1] in simp_all)
qed

section \<open>Sequences of block writes\<close>

definition apply_writes :: "(u32 \<times> block) list \<Rightarrow> (u32 \<Rightarrow> block) \<Rightarrow> (u32 \<Rightarrow> block)" where
  "apply_writes ws d = fold (\<lambda>(n, b) d. d(n := b)) ws d"

lemma apply_writes_simps [simp]:
  "apply_writes [] d = d" "apply_writes ((n, b) # ws) d = apply_writes ws (d(n := b))"
  "apply_writes (xs @ ys) d = apply_writes ys (apply_writes xs d)"
  by (simp_all add: apply_writes_def)

lemma apply_writes_other: "n \<notin> fst ` set ws \<Longrightarrow> apply_writes ws d n = d n"
  by (induction ws arbitrary: d) auto

text \<open>No buffer is locked and every operation can run.\<close>

definition quiet :: "u32 \<Rightarrow> 'a bcache_scheme \<Rightarrow> bool" where
  "quiet dev s \<longleftrightarrow> bcache_ok dev s \<and> running s \<and> locked dev s = (\<lambda>_. False)"

definition wrote :: "u32 \<Rightarrow> 'a bcache_scheme \<Rightarrow> (u32 \<times> block) list \<Rightarrow> (u32 \<Rightarrow> u32) \<Rightarrow> 'a bcache_scheme \<Rightarrow> bool" where
  "wrote dev s ws r t \<longleftrightarrow> bio_frame s t \<and> quiet dev t \<and> content dev t = apply_writes ws (content dev s) \<and>
     disk t = apply_writes ws (disk s) \<and> dwrites t = dwrites s @ ws \<and> refs dev t = r"

lemma wrote_refl: "quiet dev s \<Longrightarrow> wrote dev s [] (refs dev s) s"
  by (simp add: wrote_def)

lemma wrote_trans: "wrote dev s ws r t \<Longrightarrow> wrote dev t vs q u \<Longrightarrow> wrote dev s (ws @ vs) q u"
  unfolding wrote_def by (auto intro: bio_frame_trans)

lemma moved_wrote: "quiet dev s \<Longrightarrow> moved dev s n d r t \<Longrightarrow> wrote dev s [(n, d)] r t"
  by (auto simp: moved_def wrote_def quiet_def)

lemma wroteD:
  assumes "wrote dev s ws r t"
  shows "bio_frame s t" "quiet dev t" "content dev t = apply_writes ws (content dev s)" "disk t = apply_writes ws (disk s)"
    "dwrites t = dwrites s @ ws" "refs dev t = r"
  using assms by (auto simp: wrote_def)

lemma wrote_log:
  assumes "wrote dev s ws r t"
  shows "log_start t = log_start s" "log_dev t = log_dev s" "log_lh t = log_lh s"
    "log_size t = log_size s" "log_outstanding t = log_outstanding s" "log_committing t = log_committing s"
  using bio_frame_log [OF wroteD(1) [OF assms]] by auto

section \<open>The loops of the log\<close>

abbreviation (input) logblk :: "u32 \<Rightarrow> nat \<Rightarrow> u32" where "logblk start i \<equiv> start + of_nat i + 1"

definition write_log_writes :: "u32 \<Rightarrow> u32 list \<Rightarrow> nat list \<Rightarrow> (u32 \<Rightarrow> block) \<Rightarrow> (u32 \<times> block) list" where
  "write_log_writes start bs is c = map (\<lambda>i. (logblk start i, c (bs ! i))) is"

definition install_writes :: "u32 \<Rightarrow> u32 list \<Rightarrow> nat list \<Rightarrow> (u32 \<Rightarrow> block) \<Rightarrow> (u32 \<times> block) list" where
  "install_writes start bs is c = map (\<lambda>i. (bs ! i, c (logblk start i))) is"

lemma writes_simps [simp]:
  "write_log_writes start bs [] c = []"
  "write_log_writes start bs (i # is) c = (logblk start i, c (bs ! i)) # write_log_writes start bs is c"
  "write_log_writes start bs (is @ js) c = write_log_writes start bs is c @ write_log_writes start bs js c"
  "install_writes start bs [] c = []"
  "install_writes start bs (i # is) c = (bs ! i, c (logblk start i)) # install_writes start bs is c"
  by (simp_all add: write_log_writes_def install_writes_def)

lemma write_log_loop_ok:
  assumes "quiet dev s" "log_dev s = dev" "lh_block (log_lh s) = bs" "log_start s = start"
    and "\<And>i. i \<in> set is \<Longrightarrow> refs dev s (bs ! i) \<noteq> 0 \<and> refs dev s (bs ! i) \<noteq> - 1 \<and> refs dev s (logblk start i) = 0"
    and "card (busy dev s) < NBUF"
  shows "\<exists>t. write_log_loop is s = Ok t \<and> wrote dev s (write_log_writes start bs is (content dev s)) (refs dev s) t"
  using assms
proof (induction "is" arbitrary: s)
  case Nil
  then show ?case using wrote_refl by (auto simp: write_log_writes_def)
next
  case (Cons i "is")
  have q: "bcache_ok dev s" "running s" "\<not> locked dev s n" for n using Cons.prems(1) by (auto simp: quiet_def)
  have ri: "refs dev s (bs ! i) \<noteq> 0" "refs dev s (bs ! i) \<noteq> - 1" "refs dev s (logblk start i) = 0"
    using Cons.prems(5) [of i] by auto
  then have ne: "logblk start i \<noteq> bs ! i" by auto
  have ra: "readable dev s (logblk start i)" using ri q(3) Cons.prems(6) by (simp add: readable_def)
  have bb: "bs ! i \<in> busy dev s \<or> card (insert (logblk start i) (busy dev s)) < NBUF"
    using ri by (simp add: busy_def)
  obtain k t j u v w x where r: "bread dev (logblk start i) s = Ok (k, t)" "log_dev t = log_dev s"
    "bread dev (bs ! i) t = Ok (j, u)" "bwrite k (set_data k (b_data (bufs u ! j)) u) = Ok v" "brelse j v = Ok w"
    "brelse k w = Ok x" "moved dev s (logblk start i) (content dev s (bs ! i)) (refs dev s) x" "log_lh u = log_lh s" "log_lh t = log_lh s"
    by (rule copy_block [OF q(1,2) ra q(3) ri(2) bb ne])
  have m: "wrote dev s [(logblk start i, content dev s (bs ! i))] (refs dev s) x"
    by (rule moved_wrote [OF Cons.prems(1) r(7)])
  note w = wroteD [OF m] wrote_log [OF m]
  have "\<exists>t. write_log_loop is x = Ok t \<and> wrote dev x (write_log_writes start bs is (content dev x)) (refs dev x) t"
  proof (rule Cons.IH [OF w(2)])
    show "card (busy dev x) < NBUF" using Cons.prems(6) busy_refs [OF w(6)] by simp
    fix j assume "j \<in> set is"
    then show "refs dev x (bs ! j) \<noteq> 0 \<and> refs dev x (bs ! j) \<noteq> - 1 \<and> refs dev x (logblk start j) = 0"
      using Cons.prems(5) [of j] by (simp add: w(6))
  qed (simp_all add: w(7-9) Cons.prems(2-4))
  then obtain t' where t': "write_log_loop is x = Ok t'" "wrote dev x (write_log_writes start bs is (content dev x)) (refs dev x) t'"
    by blast
  have eq: "write_log_writes start bs is (content dev x) = write_log_writes start bs is (content dev s)"
  proof -
    have "bs ! j \<noteq> logblk start i" if "j \<in> set is" for j using Cons.prems(5) [of j] that ri by auto
    then show ?thesis by (simp add: write_log_writes_def w)
  qed
  have "wrote dev s (write_log_writes start bs (i # is) (content dev s)) (refs dev s) t'"
    using wrote_trans [OF m t'(2)] w(6) by (simp add: eq)
  moreover have "write_log_loop (i # is) s = Ok t'"
    using r t'(1) Cons.prems(2-4) by simp
  ultimately show ?case by blast
qed

lemma install_trans_loop_ok:
  assumes "quiet dev s" "log_dev s = dev" "lh_block (log_lh s) = bs" "log_start s = start"
    and "\<And>i. i \<in> set is \<Longrightarrow> refs dev s (bs ! i) \<noteq> - 1 \<and> refs dev s (logblk start i) = 0 \<and>
      (\<forall>j \<in> set is. logblk start i \<noteq> bs ! j)"
    and "distinct (map ((!) bs) is)" "card (busy dev s \<union> (!) bs ` set is) < NBUF"
  shows "\<exists>t. install_trans_loop is s = Ok t \<and> wrote dev s (install_writes start bs is (content dev s))
    (\<lambda>n. if n \<in> (!) bs ` set is then refs dev s n - 1 else refs dev s n) t"
  using assms
proof (induction "is" arbitrary: s)
  case Nil
  then show ?case using wrote_refl by (auto simp: install_writes_def)
next
  case (Cons i "is")
  have q: "bcache_ok dev s" "running s" "\<not> locked dev s n" for n using Cons.prems(1) by (auto simp: quiet_def)
  have ri: "refs dev s (bs ! i) \<noteq> - 1" "refs dev s (logblk start i) = 0" "logblk start i \<noteq> bs ! i"
    using Cons.prems(5) [of i] by auto
  have card1: "card (busy dev s) < NBUF"
    by (rule le_less_trans [OF card_mono Cons.prems(7)]) auto
  have ra: "readable dev s (logblk start i)" using ri q(3) card1 by (simp add: readable_def)
  have bb: "bs ! i \<in> busy dev s \<or> card (insert (logblk start i) (busy dev s)) < NBUF"
  proof (cases "bs ! i \<in> busy dev s")
    case False
    then have "card (insert (logblk start i) (busy dev s)) \<le> card (insert (bs ! i) (busy dev s))"
      using card_insert_le [of "busy dev s"] by (simp add: card_insert_if)
    also have "\<dots> \<le> card (busy dev s \<union> (!) bs ` set (i # is))" by (rule card_mono) auto
    also have "\<dots> < NBUF" by (rule Cons.prems(7))
    finally show ?thesis by simp
  qed simp
  obtain k t j u v w x where r: "bread dev (logblk start i) s = Ok (k, t)" "log_dev t = log_dev s"
    "bread dev (bs ! i) t = Ok (j, u)" "bwrite j (set_data j (b_data (bufs u ! k)) u) = Ok v"
    "brelse k (bunpin j v) = Ok w" "brelse j w = Ok x"
    "moved dev s (bs ! i) (content dev s (logblk start i)) ((refs dev s)(bs ! i := refs dev s (bs ! i) - 1)) x"
    "log_lh u = log_lh s" "log_lh t = log_lh s"
    by (rule install_block [OF q(1,2) ra q(3) ri(1) bb ri(3)])
  have m: "wrote dev s [(bs ! i, content dev s (logblk start i))] ((refs dev s)(bs ! i := refs dev s (bs ! i) - 1)) x"
    by (rule moved_wrote [OF Cons.prems(1) r(7)])
  note w = wroteD [OF m] wrote_log [OF m]
  have ni: "bs ! i \<notin> (!) bs ` set is" using Cons.prems(6) by auto
  have nl: "logblk start j \<noteq> bs ! i" if "j \<in> set is" for j using Cons.prems(5) [of j] that by auto
  have "busy dev x \<union> (!) bs ` set is \<subseteq> busy dev s \<union> (!) bs ` set (i # is)"
    by (auto simp: busy_def w(6))
  then have cx: "card (busy dev x \<union> (!) bs ` set is) < NBUF"
    by (rule le_less_trans [OF card_mono [OF _] Cons.prems(7), rotated]) simp
  have ex: "\<exists>t. install_trans_loop is x = Ok t \<and> wrote dev x (install_writes start bs is (content dev x))
    (\<lambda>n. if n \<in> (!) bs ` set is then refs dev x n - 1 else refs dev x n) t"
  proof (rule Cons.IH [OF w(2) _ _ _ _ _ cx])
    fix j assume j: "j \<in> set is"
    then have "bs ! j \<noteq> bs ! i" using ni by (metis imageI)
    then show "refs dev x (bs ! j) \<noteq> - 1 \<and> refs dev x (logblk start j) = 0 \<and> (\<forall>ja \<in> set is. logblk start j \<noteq> bs ! ja)"
      using j nl [OF j] Cons.prems(5) [of j] by (simp add: w(6))
  qed (use Cons.prems w in simp_all)
  then obtain t' where t': "install_trans_loop is x = Ok t'" "wrote dev x (install_writes start bs is (content dev x))
    (\<lambda>n. if n \<in> (!) bs ` set is then refs dev x n - 1 else refs dev x n) t'"
    by blast
  have eq: "install_writes start bs is (content dev x) = install_writes start bs is (content dev s)"
    using nl by (simp add: install_writes_def w(3))
  have eq2: "(\<lambda>n. if n \<in> (!) bs ` set is then refs dev x n - 1 else refs dev x n) =
      (\<lambda>n. if n \<in> (!) bs ` set (i # is) then refs dev s n - 1 else refs dev s n)"
    using ni by (auto simp: fun_eq_iff w(6))
  have "wrote dev s (install_writes start bs (i # is) (content dev s))
      (\<lambda>n. if n \<in> (!) bs ` set (i # is) then refs dev s n - 1 else refs dev s n) t'"
    using wrote_trans [OF m t'(2)] unfolding eq eq2 by simp
  moreover have "install_trans_loop (i # is) s = Ok t'"
    using r t'(1) Cons.prems(2-4) by simp
  ultimately show ?case by blast
qed

section \<open>The header block\<close>

lemma bio_frame_lh: "bio_frame s t \<Longrightarrow> bio_frame (s\<lparr>log_lh := x\<rparr>) (t\<lparr>log_lh := x\<rparr>)"
  unfolding bio_frame_def
proof (elim conjE exE, intro conjI)
  assume "woken s t" then show "woken (s\<lparr>log_lh := x\<rparr>) (t\<lparr>log_lh := x\<rparr>)" by (simp add: woken_def)
next
  fix ps dk dw bs l
  assume "t = s\<lparr>procs := ps, disk := dk, dwrites := dw, bufs := bs, lru := l\<rparr>"
  then have "t\<lparr>log_lh := x\<rparr> = s\<lparr>log_lh := x\<rparr>\<lparr>procs := ps, disk := dk, dwrites := dw, bufs := bs, lru := l\<rparr>" by simp
  then show "\<exists>ps dk dw bs l. t\<lparr>log_lh := x\<rparr> = s\<lparr>log_lh := x\<rparr>\<lparr>procs := ps, disk := dk, dwrites := dw, bufs := bs, lru := l\<rparr>"
    by blast
qed

lemma holds_lh [simp]: "holds dev (s\<lparr>log_lh := x\<rparr>) = holds dev s"
  by (rule holds_cong) simp_all

lemma quiet_lh [simp]: "quiet dev (s\<lparr>log_lh := x\<rparr>) = quiet dev s"
  by (simp add: quiet_def)

lemma busy_lh [simp]: "busy dev (s\<lparr>log_lh := x\<rparr>) = busy dev s"
  by (simp add: busy_def)

lemma write_head_ok:
  assumes q: "quiet dev s" and l: "log_dev s = dev" "log_start s = start" "lh_n (log_lh s) \<le> 30"
    and f: "refs dev s start = 0" "card (busy dev s) < NBUF"
  shows "\<exists>t. write_head s = Ok t \<and> wrote dev s [(start, head_data (log_lh s) (content dev s start))] (refs dev s) t"
proof -
  have ok: "bcache_ok dev s" "running s" "locked dev s = (\<lambda>_. False)" using q by (auto simp: quiet_def)
  have rd: "readable dev s start" using ok f by (simp add: readable_def)
  let ?d = "head_data (log_lh s) (content dev s start)"
  obtain i t where t: "bread dev start s = Ok (i, t)" "holds dev t start i" "disk t = disk s" "dwrites t = dwrites s"
    "effect dev s start (content dev s start) (refs dev s start + 1) True t"
    by (rule bread_ok [OF ok(1,2) rd])
  note et = effectD(1-5) [OF t(5)]
  have rt: "running t" by (rule effect_running [OF t(5) ok(2)])
  have lt: "log_lh t = log_lh s" using bio_frame_log [OF et(1)] by simp
  have ld: "length ?d = BSIZE" by (rule length_head_data [OF length_content [OF ok(1)] l(3)])
  have dd: "b_data (bufs t ! i) = content dev s start" using content_holds [OF et(2) t(2)] by (simp add: et)
  note sd = set_data_ok [OF et(2) t(2) ld]
  note es = effectD(1-5) [OF sd(1)]
  let ?t = "set_data i ?d t"
  have rs: "running ?t" by (rule effect_running [OF sd(1) rt])
  obtain v where v: "bwrite i ?t = Ok v" "effect dev ?t start (content dev ?t start) (refs dev ?t start) True v"
    "holds dev v start i" "disk v = (disk ?t)(start := content dev ?t start)"
    "dwrites v = dwrites ?t @ [(start, content dev ?t start)]"
    by (rule bwrite_ok [OF es(2) rs sd(2)])
  note ev = effectD(1-5) [OF v(2)]
  have rv: "running v" by (rule effect_running [OF v(2) rs])
  have cv: "content dev v start = disk v start" by (simp add: ev es v)
  obtain w where w: "brelse i v = Ok w" "effect dev v start (content dev v start) (refs dev v start - 1) False w"
    "disk w = disk v" "dwrites w = dwrites v"
    by (rule brelse_ok [OF ev(2) rv v(3) cv])
  note ew = effectD(1-5) [OF w(2)]
  have "bio_frame s w" by (rule bio_frame_trans [OF et(1) bio_frame_trans [OF es(1) bio_frame_trans [OF ev(1) ew(1)]]])
  moreover have "refs dev w = refs dev s" by (simp add: ew ev es et)
  ultimately have "wrote dev s [(start, ?d)] (refs dev s) w"
    using effect_running [OF w(2) rv] ok(3) ew(2)
    by (simp add: wrote_def quiet_def ew ev es et v w t(3,4) sd(3,4) fun_eq_iff)
  moreover have "write_head s = Ok w" using t(1) v(1) w(1) l by (simp add: write_head_def lt dd)
  ultimately show ?thesis by blast
qed

lemma read_head_ok:
  assumes q: "quiet dev s" and l: "log_dev s = dev" "log_start s = start" "sint (get32 0 (content dev s start)) \<le> 30"
    and f: "refs dev s start = 0" "card (busy dev s) < NBUF"
  shows "\<exists>t. read_head s = Ok t \<and> wrote dev (s\<lparr>log_lh := \<lparr>lh_n = sint (get32 0 (content dev s start)),
    lh_block = head_blocks (content dev s start) @ drop (length (head_blocks (content dev s start))) (lh_block (log_lh s))\<rparr>\<rparr>)
    [] (refs dev s) t"
proof -
  let ?x = "\<lparr>lh_n = sint (get32 0 (content dev s start)), lh_block = head_blocks (content dev s start) @
    drop (length (head_blocks (content dev s start))) (lh_block (log_lh s))\<rparr>"
  have ok: "bcache_ok dev s" "running s" "locked dev s = (\<lambda>_. False)" using q by (auto simp: quiet_def)
  have rd: "readable dev s start" using ok f by (simp add: readable_def)
  obtain i t where t: "bread dev start s = Ok (i, t)" "holds dev t start i" "disk t = disk s" "dwrites t = dwrites s"
    "effect dev s start (content dev s start) (refs dev s start + 1) True t"
    by (rule bread_ok [OF ok(1,2) rd])
  note et = effectD(1-5) [OF t(5)]
  have rt: "running t" by (rule effect_running [OF t(5) ok(2)])
  have lt: "log_lh t = log_lh s" using bio_frame_log [OF et(1)] by simp
  have dd: "b_data (bufs t ! i) = content dev s start" using content_holds [OF et(2) t(2)] by (simp add: et)
  let ?t = "t\<lparr>log_lh := ?x\<rparr>"
  have c: "content dev ?t start = disk ?t start"
    using content_clean [OF ok(1) f(1)] by (simp add: et t)
  have h: "bcache_ok dev ?t" "running ?t" "holds dev ?t start i" using et(2) rt t(2) by simp_all
  obtain w where w: "brelse i ?t = Ok w" "effect dev ?t start (content dev ?t start) (refs dev ?t start - 1) False w"
    "disk w = disk ?t" "dwrites w = dwrites ?t"
    by (rule brelse_ok [OF h c])
  note ew = effectD(1-5) [OF w(2)]
  have "bio_frame (s\<lparr>log_lh := ?x\<rparr>) w" by (rule bio_frame_trans [OF bio_frame_lh [OF et(1)] ew(1)])
  moreover have "refs dev w = refs dev s" by (simp add: ew et)
  ultimately have "wrote dev (s\<lparr>log_lh := ?x\<rparr>) [] (refs dev s) w"
    using effect_running [OF w(2)] h ok(3) ew(2)
    by (simp add: wrote_def quiet_def ew et w t(3,4) fun_eq_iff)
  moreover have "read_head s = Ok w"
    using t(1) w(1) l by (simp add: read_head_def lt dd Let_def head_blocks_def)
  ultimately show ?thesis by blast
qed

section \<open>Commit and recovery\<close>

text \<open>
  The block writes of a commit: the blocks go to the log, then the header names them, then they go
  home, then the header is cleared.
\<close>

definition commit_writes :: "u32 \<Rightarrow> logheader \<Rightarrow> (u32 \<Rightarrow> block) \<Rightarrow> (u32 \<times> block) list" where
  "commit_writes start lh c =
     (let n = nat (lh_n lh); h = head_data lh (c start)
      in write_log_writes start (lh_block lh) [0..<n] c @ [(start, h)] @
         map (\<lambda>i. (lh_block lh ! i, c (lh_block lh ! i))) [0..<n] @ [(start, head_data (lh\<lparr>lh_n := 0\<rparr>) h)])"

definition recover_writes :: "u32 \<Rightarrow> (u32 \<Rightarrow> block) \<Rightarrow> (u32 \<times> block) list" where
  "recover_writes start d =
     (let bs = head_blocks (d start)
      in install_writes start bs [0..<length bs] d @ [(start, put32 0 0 (d start))])"

text \<open>A transaction ready to commit: its blocks are distinct, outside the log, pinned once, and nothing
  else is referenced. A log of 30 blocks would pin every buffer and leave none to copy through.\<close>

definition log_area :: "u32 \<Rightarrow> u32 set" where
  "log_area start = (\<lambda>i. start + of_nat i) ` {..30}"

definition committable :: "u32 \<Rightarrow> 'a logst_scheme \<Rightarrow> bool" where
  "committable dev s \<longleftrightarrow> quiet dev s \<and> log_dev s = dev \<and>
     (let lh = log_lh s; n = nat (lh_n lh); bs = take n (lh_block lh)
      in 0 \<le> lh_n lh \<and> n < LOGSIZE \<and> length (lh_block lh) = LOGSIZE \<and> distinct bs \<and>
         set bs \<inter> log_area (log_start s) = {} \<and> refs dev s = (\<lambda>b. if b \<in> set bs then 1 else 0))"

lemma logblk_area: "i < 30 \<Longrightarrow> logblk start i \<in> log_area start" "start \<in> log_area start"
proof -
  show "i < 30 \<Longrightarrow> logblk start i \<in> log_area start"
    unfolding log_area_def by (rule image_eqI [of _ _ "Suc i"]) (simp_all add: algebra_simps)
  show "start \<in> log_area start"
    unfolding log_area_def by (rule image_eqI [of _ _ 0]) simp_all
qed

lemma logblk_inj: "i < 30 \<Longrightarrow> j < 30 \<Longrightarrow> logblk start i = logblk start j \<Longrightarrow> i = j"
proof -
  assume i: "i < 30" "j < 30" and "logblk start i = logblk start j"
  then have "(of_nat i :: u32) = of_nat j" by simp
  then have "unat (of_nat i :: u32) = unat (of_nat j :: u32)" by (rule arg_cong)
  moreover have "unat (of_nat i :: u32) = i" "unat (of_nat j :: u32) = j"
    by (rule unat_of_nat_u32, use i in linarith)+
  ultimately show "i = j" by (simp only:)
qed

lemma logblk_start: "i < 30 \<Longrightarrow> logblk start i \<noteq> start"
proof
  assume i: "i < 30" and "logblk start i = start"
  then have "(of_nat (i + 1) :: u32) = 0" by (simp add: algebra_simps)
  then have "unat (of_nat (i + 1) :: u32) = 0" by simp
  then show False using i unat_of_nat_u32 [of "i + 1"] by simp
qed

lemma nth_set_take: "i < n \<Longrightarrow> n \<le> length xs \<Longrightarrow> xs ! i \<in> set (take n xs)"
  by (metis length_take min.absorb2 nth_mem nth_take)

lemma map_nth_upt_take: "n \<le> length xs \<Longrightarrow> map ((!) xs) [0..<n] = take n xs"
  by (rule nth_equalityI) simp_all

lemma image_nth_upt: "n \<le> length xs \<Longrightarrow> (!) xs ` set [0..<n] = set (take n xs)"
  using map_nth_upt_take [of n xs] by (metis list.set_map)

lemma apply_write_log:
  assumes "n \<le> 30" "i < n"
  shows "apply_writes (write_log_writes start bs [0..<n] c) d (logblk start i) = c (bs ! i)"
  using assms
proof (induction n)
  case (Suc n)
  show ?case
  proof (cases "i = n")
    case True
    then show ?thesis by simp
  next
    case False
    then have "logblk start i \<noteq> logblk start n" using Suc.prems logblk_inj [of i n start] by auto
    then show ?thesis using Suc False by simp
  qed
qed simp

lemma commit_ok:
  assumes cm: "committable dev s" and n: "0 < lh_n (log_lh s)"
  shows "\<exists>t. commit s = Ok t \<and> wrote dev (set_lh_n 0 s) (commit_writes (log_start s) (log_lh s) (content dev s)) (\<lambda>_. 0) t"
proof -
  define lh start m bs where "lh = log_lh s" and "start = log_start s" and "m = nat (lh_n lh)" and "bs = lh_block lh"
  define c h where "c = content dev s" and "h = head_data lh (c start)"
  have q: "quiet dev s" "log_dev s = dev" "m < LOGSIZE" "length bs = LOGSIZE" "distinct (take m bs)"
    "set (take m bs) \<inter> log_area start = {}" and r: "refs dev s = (\<lambda>b. if b \<in> set (take m bs) then 1 else 0)"
    using cm by (simp_all add: committable_def Let_def lh_def m_def bs_def start_def)
  have ok: "bcache_ok dev s" using q(1) by (simp add: quiet_def)
  have bi: "bs ! i \<in> set (take m bs)" if "i < m" for i using that q(3,4) by (simp add: nth_set_take)
  have la: "logblk start i \<notin> set (take m bs)" if "i < m" for i
    using logblk_area(1) [of i start] that q(3,6) by auto
  have ls: "start \<notin> set (take m bs)" using logblk_area(2) [of start] q(6) by auto
  have busy: "busy dev s = set (take m bs)" by (auto simp: busy_def r)
  have cb: "card (busy dev s) < NBUF"
    using card_length [of "take m bs"] q(3) unfolding busy by simp
  let ?W1 = "write_log_writes start bs [0..<m] c"
  have "\<exists>t. write_log_loop [0..<m] s = Ok t \<and> wrote dev s ?W1 (refs dev s) t"
    unfolding c_def
    by (rule write_log_loop_ok [OF q(1,2) _ _ _ cb]) (use bi la in \<open>auto simp: r lh_def bs_def start_def\<close>)
  then obtain t1 where t1: "write_log s = Ok t1" "wrote dev s ?W1 (refs dev s) t1"
    by (auto simp: write_log_def lh_def m_def)
  note w1 = wroteD [OF t1(2)] wrote_log [OF t1(2)]
  have c1: "content dev t1 n = c n" if "n \<notin> logblk start ` {..<m}" for n
    unfolding w1(3) c_def [symmetric] using that by (intro apply_writes_other) (auto simp: write_log_writes_def)
  have c1s: "content dev t1 start = c start"
    by (rule c1) (use logblk_start [of _ start] q(3) in force)
  have c1l: "content dev t1 (logblk start i) = c (bs ! i)" if "i < m" for i
    unfolding w1(3) using that q(3) by (simp add: apply_write_log)
  have "\<exists>t. write_head t1 = Ok t \<and> wrote dev t1 [(start, head_data (log_lh t1) (content dev t1 start))] (refs dev t1) t"
    by (rule write_head_ok [OF w1(2)])
      (use q(3) ls cb in \<open>simp_all add: w1 r busy_refs [OF w1(6)] q(2) start_def lh_def m_def\<close>)
  then obtain t2 where t2: "write_head t1 = Ok t2" "wrote dev t1 [(start, h)] (refs dev t1) t2"
    by (auto simp: w1(9) c1s h_def lh_def)
  note w2 = wroteD [OF t2(2)] wrote_log [OF t2(2)]
  have c2l: "content dev t2 (logblk start i) = c (bs ! i)" if "i < m" for i
    using that q(3) logblk_start [of i start] by (simp add: w2(3) c1l)
  have r2: "refs dev t2 = refs dev s" by (simp add: w2 w1)
  have "\<exists>t. install_trans_loop [0..<m] t2 = Ok t \<and> wrote dev t2 (install_writes start bs [0..<m] (content dev t2))
      (\<lambda>n. if n \<in> (!) bs ` set [0..<m] then refs dev t2 n - 1 else refs dev t2 n) t"
  proof (rule install_trans_loop_ok [OF w2(2)])
    show "card (busy dev t2 \<union> (!) bs ` set [0..<m]) < NBUF"
      using cb q(3,4) by (simp add: busy_refs [OF r2] busy image_nth_upt del: set_upt)
    show "distinct (map ((!) bs) [0..<m])" using q(3-5) by (simp add: map_nth_upt_take)
    fix i assume "i \<in> set [0..<m]"
    then show "refs dev t2 (bs ! i) \<noteq> - 1 \<and> refs dev t2 (logblk start i) = 0 \<and> (\<forall>j \<in> set [0..<m]. logblk start i \<noteq> bs ! j)"
      using la [of i] bi by (auto simp: r2 r)
  qed (simp_all add: w2 w1 q(2) lh_def bs_def start_def)
  moreover have "install_writes start bs [0..<m] (content dev t2) = map (\<lambda>i. (bs ! i, c (bs ! i))) [0..<m]"
    by (simp add: install_writes_def c2l)
  moreover have "(\<lambda>n. if n \<in> (!) bs ` set [0..<m] then refs dev t2 n - 1 else refs dev t2 n) = (\<lambda>_. 0)"
    using q(3,4) by (simp add: image_nth_upt fun_eq_iff r2 r del: set_upt)
  ultimately obtain t3 where t3: "install_trans t2 = Ok t3"
    "wrote dev t2 (map (\<lambda>i. (bs ! i, c (bs ! i))) [0..<m]) (\<lambda>_. 0) t3"
    by (auto simp: install_trans_def w2 w1 lh_def m_def)
  note w3 = wroteD [OF t3(2)] wrote_log [OF t3(2)]
  let ?t3 = "set_lh_n 0 t3"
  have c3s: "content dev t3 start = h"
    unfolding w3(3) using ls bi by (subst apply_writes_other) (auto simp: w2(3))
  have "\<exists>t. write_head ?t3 = Ok t \<and> wrote dev ?t3 [(start, head_data (log_lh ?t3) (content dev ?t3 start))] (refs dev ?t3) t"
    by (rule write_head_ok)
      (use w3(2,6) in \<open>simp_all add: set_lh_n_def w3 w2 w1 q(2) start_def busy_def\<close>)
  then obtain t4 where t4: "write_head ?t3 = Ok t4"
    "wrote dev ?t3 [(start, head_data (lh\<lparr>lh_n := 0\<rparr>) h)] (refs dev ?t3) t4"
    by (auto simp: set_lh_n_def c3s w3(9) w2(9) w1(9) lh_def)
  have c: "commit s = Ok t4" using n t1 t2 t3 t4 by (simp add: commit_def)
  have "wrote dev s (?W1 @ [(start, h)] @ map (\<lambda>i. (bs ! i, c (bs ! i))) [0..<m]) (\<lambda>_. 0) t3"
    using wrote_trans [OF t1(2) wrote_trans [OF t2(2) t3(2)]] .
  then have "wrote dev (set_lh_n 0 s) (?W1 @ [(start, h)] @ map (\<lambda>i. (bs ! i, c (bs ! i))) [0..<m]) (\<lambda>_. 0) ?t3"
    unfolding wrote_def using bio_frame_lh [of s t3] by (simp add: set_lh_n_def w3 w2 w1)
  from wrote_trans [OF this t4(2)]
  have "wrote dev (set_lh_n 0 s) (commit_writes start lh c) (\<lambda>_. 0) t4"
    using w3(6) by (simp add: commit_writes_def Let_def m_def bs_def h_def set_lh_n_def)
  then show ?thesis using c by (auto simp: start_def lh_def c_def)
qed

text \<open>
  Recovery on a machine whose buffers are all unreferenced, as after \<open>binit\<close>. A header block that counts
  at most 29 blocks is installed; each installed block leaves the reference count of its buffer at -1.
\<close>

definition recoverable :: "u32 \<Rightarrow> (u32 \<Rightarrow> block) \<Rightarrow> bool" where
  "recoverable start d \<longleftrightarrow> sint (get32 0 (d start)) < int LOGSIZE \<and> distinct (head_blocks (d start)) \<and>
     set (head_blocks (d start)) \<inter> log_area start = {}"

lemma recover_ok:
  assumes q: "quiet dev s" "log_dev s = dev" "refs dev s = (\<lambda>_. 0)" "length (lh_block (log_lh s)) = LOGSIZE"
    and rc: "recoverable (log_start s) (disk s)"
  shows "\<exists>t. recover_from_log s = Ok t \<and> disk t = apply_writes (recover_writes (log_start s) (disk s)) (disk s) \<and>
    content dev t = disk t \<and> dwrites t = dwrites s @ recover_writes (log_start s) (disk s) \<and> quiet dev t \<and>
    refs dev t = (\<lambda>n. if n \<in> set (head_blocks (disk s (log_start s))) then - 1 else 0) \<and>
    log_start t = log_start s \<and> log_dev t = dev \<and> lh_n (log_lh t) = 0 \<and> length (lh_block (log_lh t)) = LOGSIZE \<and>
    log_size t = log_size s \<and> log_outstanding t = log_outstanding s \<and> log_committing t = log_committing s"
proof -
  define start d where "start = log_start s" and "d = disk s"
  define bs where "bs = head_blocks (d start)"
  have ok: "bcache_ok dev s" using q(1) by (simp add: quiet_def)
  have cd: "content dev s = d" unfolding d_def using content_clean [OF ok] q(3) by auto
  have n: "length bs < LOGSIZE" "nat (sint (get32 0 (d start))) = length bs" "sint (get32 0 (d start)) \<le> 30"
    and dist: "distinct bs" "set bs \<inter> log_area start = {}"
    using rc unfolding recoverable_def bs_def start_def d_def by (auto simp: head_blocks_def)
  let ?x = "\<lparr>lh_n = sint (get32 0 (d start)), lh_block = bs @ drop (length bs) (lh_block (log_lh s))\<rparr>"
  have b0: "busy dev s = {}" by (simp add: busy_def q(3))
  have "\<exists>t. read_head s = Ok t \<and> wrote dev (s\<lparr>log_lh := ?x\<rparr>) [] (refs dev s) t"
    using read_head_ok [OF q(1,2), of start] n b0 by (simp add: cd bs_def q(3) start_def)
  then obtain t1 where t1: "read_head s = Ok t1" "wrote dev (s\<lparr>log_lh := ?x\<rparr>) [] (refs dev s) t1" by blast
  note w1 = wroteD [OF t1(2)] wrote_log [OF t1(2)]
  have r1: "refs dev t1 = (\<lambda>_. 0)" using w1(6) q(3) by simp
  have c1: "content dev t1 = d" using w1(3) by (simp add: cd)
  have im: "(!) bs ` set [0..<length bs] = set bs" using image_nth_upt [of "length bs" bs] by (simp del: set_upt)
  let ?B = "lh_block ?x"
  have nB: "?B ! i = bs ! i" if "i < length bs" for i using that by (simp add: nth_append)
  have imB: "(!) ?B ` set [0..<length bs] = set bs"
    using im nB by (auto simp: image_iff)
  have la: "logblk start i \<notin> set bs" if "i < length bs" for i
    using logblk_area(1) [of i start] that n(1) dist(2) by auto
  have "\<exists>t. install_trans_loop [0..<length bs] t1 = Ok t \<and>
      wrote dev t1 (install_writes start ?B [0..<length bs] (content dev t1))
      (\<lambda>n. if n \<in> (!) ?B ` set [0..<length bs] then refs dev t1 n - 1 else refs dev t1 n) t"
  proof (rule install_trans_loop_ok [OF w1(2)])
    have "busy dev t1 = {}" by (simp add: busy_def r1)
    then show "card (busy dev t1 \<union> (!) ?B ` set [0..<length bs]) < NBUF"
      unfolding imB using card_length [of bs] n(1) by simp
    have "map ((!) ?B) [0..<length bs] = bs" by (rule nth_equalityI) (use nB in simp_all)
    then show "distinct (map ((!) ?B) [0..<length bs])" using dist by simp
    fix i assume i: "i \<in> set [0..<length bs]"
    have "logblk start i \<noteq> ?B ! j" if "j \<in> set [0..<length bs]" for j
      using la [of i] i nB [of j] that nth_mem [of j bs] by auto
    then show "refs dev t1 (?B ! i) \<noteq> - 1 \<and> refs dev t1 (logblk start i) = 0 \<and> (\<forall>j \<in> set [0..<length bs]. logblk start i \<noteq> ?B ! j)"
      by (simp add: r1)
  qed (simp_all add: w1 q(2) start_def)
  moreover have "install_writes start ?B [0..<length bs] (content dev t1) = install_writes start bs [0..<length bs] d"
    using nB by (simp add: install_writes_def c1)
  moreover have "(\<lambda>n. if n \<in> (!) ?B ` set [0..<length bs] then refs dev t1 n - 1 else refs dev t1 n) =
      (\<lambda>n. if n \<in> set bs then - 1 else 0)"
    unfolding imB by (simp add: r1 fun_eq_iff)
  ultimately obtain t2 where t2: "install_trans t1 = Ok t2"
    "wrote dev t1 (install_writes start bs [0..<length bs] d) (\<lambda>n. if n \<in> set bs then - 1 else 0) t2"
    by (auto simp: install_trans_def w1(9) n(2))
  note w2 = wroteD [OF t2(2)] wrote_log [OF t2(2)]
  have ls: "start \<notin> set bs" using logblk_area(2) [of start] dist by auto
  have c2s: "content dev t2 start = d start"
    unfolding w2(3) c1 using ls nth_mem [of _ bs] by (subst apply_writes_other) (auto simp: install_writes_def)
  have "busy dev t2 = set bs" by (auto simp: busy_def w2(6))
  then have cb: "card (busy dev t2) < NBUF" using card_length [of bs] n(1) by simp
  let ?t2 = "set_lh_n 0 t2"
  have "\<exists>t. write_head ?t2 = Ok t \<and> wrote dev ?t2 [(start, head_data (log_lh ?t2) (content dev ?t2 start))] (refs dev ?t2) t"
    by (rule write_head_ok)
      (use w2(2) ls cb in \<open>simp_all add: set_lh_n_def w2(6-9) w1(7-9) q(2) start_def\<close>)
  then obtain t3 where t3: "write_head ?t2 = Ok t3" "wrote dev ?t2 [(start, put32 0 0 (d start))] (refs dev t2) t3"
    by (auto simp: set_lh_n_def c2s head_data_def)
  note w3 = wroteD [OF t3(2)] wrote_log [OF t3(2)]
  have "recover_from_log s = Ok t3" using t1 t2 t3 by (simp add: recover_from_log_def)
  moreover have "disk t3 = apply_writes (recover_writes start d) d"
    using w3(4) w2(4) w1(4) by (simp add: recover_writes_def Let_def bs_def set_lh_n_def d_def)
  moreover have "content dev t3 = disk t3"
    using w3(3,4) w2(3,4) w1(4) by (simp add: set_lh_n_def c1 d_def)
  moreover have "dwrites t3 = dwrites s @ recover_writes start d"
    using w3(5) w2(5) w1(5) by (simp add: recover_writes_def Let_def bs_def set_lh_n_def)
  moreover have "length (lh_block (log_lh t3)) = LOGSIZE"
    using w3(9) w2(9) w1(9) q(4) n(1) by (simp add: set_lh_n_def)
  ultimately show ?thesis
    using w3(2,6-12) w2(6-12) w1(7-12) q(2) by (auto simp: set_lh_n_def start_def d_def bs_def)
qed

end
