(* ===== verification/LogCrash.thy ===== *)
theory LogCrash
  imports LogOps
begin

text \<open>
  Crash safety of the log. The disk after a crash is the disk before with a prefix of the block writes
  that were under way. The locale \<open>redo_log\<close> states what recovery needs of the header format and of the
  order of its own writes; on that it shows that recovery after a crash at any point of a commit
  yields the old blocks or the new ones, never a mixture, and that recovery may itself be cut short.
\<close>

section \<open>Writes to distinct blocks\<close>

lemma apply_writes_nth:
  "distinct (map fst ws) \<Longrightarrow> i < length ws \<Longrightarrow> apply_writes ws d (fst (ws ! i)) = snd (ws ! i)"
proof (induction ws arbitrary: d i)
  case (Cons w ws)
  obtain n b where w: "w = (n, b)" by force
  show ?case
  proof (cases i)
    case 0
    have "n \<notin> fst ` set ws" using Cons.prems(1) w by auto
    then show ?thesis by (simp add: 0 w apply_writes_other)
  next
    case (Suc k)
    then show ?thesis using Cons by (simp add: w)
  qed
qed simp

lemma apply_writes_map:
  assumes "distinct (map f is)" "i \<in> set is"
  shows "apply_writes (map (\<lambda>i. (f i, g i)) is) d (f i) = g i"
proof -
  obtain k where k: "k < length is" "is ! k = i" using assms(2) by (auto simp: in_set_conv_nth)
  have "distinct (map fst (map (\<lambda>i. (f i, g i)) is))" using assms(1) by (simp add: comp_def)
  then show ?thesis using apply_writes_nth [of "map (\<lambda>i. (f i, g i)) is" k d] k by simp
qed

lemma distinct_map_take: "distinct (map f xs) \<Longrightarrow> distinct (map f (take k xs))"
  by (metis distinct_take take_map)

section \<open>Interface of a redo log\<close>

locale redo_log =
  fixes start :: u32
    and get_head :: "block \<Rightarrow> u32 list"
    and clear :: "block \<Rightarrow> block"
    and recovery :: "(u32 \<Rightarrow> block) \<Rightarrow> (u32 \<times> block) list"
  assumes get_clear: "length b = BSIZE \<Longrightarrow> get_head (clear b) = []"
    and length_clear: "length b = BSIZE \<Longrightarrow> length (clear b) = BSIZE"
    and recovery: "recovery d =
      install_writes start (get_head (d start)) [0..<length (get_head (d start))] d @ [(start, clear (d start))]"
begin

lemma recovery_empty: "get_head (d start) = [] \<Longrightarrow> recovery d = [(start, clear (d start))]"
  by (simp add: recovery)

text \<open>What recovery leaves outside the log: the logged copy of every block the header names.\<close>

lemma recovered:
  assumes "get_head (d start) = bs" "distinct bs" "set bs \<inter> log_area start = {}" "b \<notin> log_area start"
  shows "i < length bs \<Longrightarrow> apply_writes (recovery d) d (bs ! i) = d (logblk start i)"
    and "b \<notin> set bs \<Longrightarrow> apply_writes (recovery d) d b = d b"
proof -
  have ns: "start \<notin> set bs" using assms(3) logblk_area(2) [of start] by auto
  have nb: "b \<noteq> start" using assms(4) logblk_area(2) [of start] by auto
  have m: "map ((!) bs) [0..<length bs] = bs" by (simp add: map_nth)
  show "apply_writes (recovery d) d (bs ! i) = d (logblk start i)" if i: "i < length bs"
    using apply_writes_map [of "(!) bs" "[0..<length bs]" i "\<lambda>i. d (logblk start i)" d] i assms(2) ns nth_mem [OF i]
    by (auto simp: recovery assms(1) install_writes_def m)
  show "apply_writes (recovery d) d b = d b" if "b \<notin> set bs"
    using that nb nth_mem [of _ bs] by (simp add: recovery assms(1) install_writes_def) (subst apply_writes_other, auto)
qed

text \<open>A crash in the middle of recovery is repaired by the next recovery.\<close>

lemma recovery_restart:
  fixes j :: nat
  assumes h: "get_head (d start) = bs" "distinct bs" "set bs \<inter> log_area start = {}" "length bs \<le> 30"
    and b: "b \<notin> log_area start" and len: "length (d start) = BSIZE"
  defines "d' \<equiv> apply_writes (take j (recovery d)) d"
  shows "apply_writes (recovery d') d' b = apply_writes (recovery d) d b"
proof (cases "j \<le> length bs")
  case True
  let ?iw = "map (\<lambda>i. (bs ! i, d (logblk start i))) (take j [0..<length bs])"
  have tk: "take j (recovery d) = ?iw"
    using True by (simp add: recovery h(1) install_writes_def take_map)
  have other: "d' n = d n" if "n \<notin> set (take j bs)" for n
    unfolding d'_def tk using that True
    by (intro apply_writes_other) (auto simp: nth_set_take)
  have ns: "start \<notin> set bs" using h(3) logblk_area(2) [of start] by auto
  then have st: "d' start = d start" by (intro other) (auto dest: in_set_takeD)
  have lb: "d' (logblk start i) = d (logblk start i)" if "i < length bs" for i
    using h(3,4) logblk_area(1) [of i start] that by (intro other) (auto dest: in_set_takeD)
  have h': "get_head (d' start) = bs" using h(1) st by simp
  show ?thesis
  proof (cases "b \<in> set bs")
    case True
    then obtain i where i: "i < length bs" "b = bs ! i" by (auto simp: in_set_conv_nth)
    then show ?thesis using recovered(1) [of d bs b i, OF h(1-3) b i(1)] recovered(1) [of d' bs b i, OF h' h(2,3) b i(1)] lb by simp
  next
    case False
    then show ?thesis
      using recovered(2) [of d bs b, OF h(1-3) b] recovered(2) [of d' bs b, OF h' h(2,3) b] other [of b] by (auto dest: in_set_takeD)
  qed
next
  case False
  then have "take j (recovery d) = recovery d" by (simp add: recovery h(1) install_writes_def)
  then have d': "d' = apply_writes (recovery d) d" by (simp add: d'_def)
  have "d' start = clear (d start)" by (simp add: d' recovery)
  then have e: "get_head (d' start) = []" using get_clear [OF len] by simp
  have "b \<noteq> start" using b logblk_area(2) [of start] by auto
  then have "apply_writes (recovery d') d' b = d' b" by (simp add: recovery_empty [of d', OF e])
  then show ?thesis by (simp only: d')
qed

text \<open>
  The commit protocol: log the blocks, write the header, install the blocks, clear the header. A crash
  up to the header write loses the transaction as a whole, a later one keeps it as a whole.
\<close>

lemma commit_atomic:
  fixes k :: nat and c :: "u32 \<Rightarrow> block"
  assumes e: "get_head (d start) = []" and h: "get_head hh = bs" "distinct bs" "set bs \<inter> log_area start = {}" "length bs \<le> 30"
    and h0: "get_head hh0 = []" and b: "b \<notin> log_area start"
  defines "W \<equiv> write_log_writes start bs [0..<length bs] c @ [(start, hh)] @
      map (\<lambda>i. (bs ! i, c (bs ! i))) [0..<length bs] @ [(start, hh0)]"
  defines "d' \<equiv> apply_writes (take k W) d"
  shows "apply_writes (recovery d') d' b = (if k \<le> length bs then d b else if b \<in> set bs then c b else d b)"
proof -
  let ?n = "length bs"
  let ?wl = "write_log_writes start bs [0..<?n] c" and ?hw = "map (\<lambda>i. (bs ! i, c (bs ! i))) [0..<?n]"
  have lw: "length ?wl = ?n" "length ?hw = ?n" by (simp_all add: write_log_writes_def)
  have bs_ne: "b \<noteq> start" using b logblk_area(2) [of start] by auto
  have wl_keys: "fst ` set ?wl \<subseteq> log_area start" "start \<notin> fst ` set ?wl"
    using h(4) logblk_area(1) [of _ start] logblk_start [of _ start] by (auto simp: write_log_writes_def)
  have ns: "start \<notin> set bs" using h(3) logblk_area(2) [of start] by auto
  have mm: "map ((!) bs) [0..<?n] = bs" by (simp add: map_nth)
  consider (log) "k \<le> ?n" | (home) j where "k = ?n + 1 + j" "j \<le> ?n" | (all) "k \<ge> 2 * ?n + 2"
  proof -
    have "k \<le> ?n \<or> (k = ?n + 1 + (k - ?n - 1) \<and> k - ?n - 1 \<le> ?n) \<or> k \<ge> 2 * ?n + 2" by linarith
    then show ?thesis using that by blast
  qed
  then show ?thesis
  proof cases
    case log
    then have d': "d' = apply_writes (take k ?wl) d" by (simp add: d'_def W_def lw)
    have o: "d' n = d n" if "n \<notin> fst ` set ?wl" for n
      unfolding d' using that by (intro apply_writes_other) (auto dest: in_set_takeD)
    have "d' start = d start" by (rule o [OF wl_keys(2)])
    then have "get_head (d' start) = []" using e by simp
    moreover have "d' b = d b" by (rule o) (use wl_keys b in auto)
    ultimately show ?thesis using log bs_ne by (simp add: recovery_empty)
  next
    case home
    have d': "d' = apply_writes (take j ?hw) ((apply_writes ?wl d)(start := hh))"
      using home by (simp add: d'_def W_def lw)
    have o: "d' n = ((apply_writes ?wl d)(start := hh)) n" if "n \<notin> set bs" for n
      unfolding d' using that by (intro apply_writes_other) (auto dest!: in_set_takeD)
    have st: "get_head (d' start) = bs" using o [OF ns] h(1) by simp
    have lb: "d' (logblk start i) = c (bs ! i)" if "i < ?n" for i
    proof -
      have "logblk start i \<notin> set bs" using h(3,4) logblk_area(1) [of i start] that by auto
      moreover have "logblk start i \<noteq> start" using logblk_start that h(4) by simp
      ultimately show ?thesis using o apply_write_log [of ?n i start bs c d] that h(4) by simp
    qed
    show ?thesis
    proof (cases "b \<in> set bs")
      case True
      then obtain i where i: "i < ?n" "b = bs ! i" by (auto simp: in_set_conv_nth)
      then show ?thesis using recovered(1) [of d' bs b i, OF st h(2,3) b i(1)] lb home True by simp
    next
      case False
      have "apply_writes ?wl d b = d b" using wl_keys b by (intro apply_writes_other) auto
      then have "d' b = d b" using o [OF False] bs_ne by simp
      then show ?thesis using recovered(2) [of d' bs b, OF st h(2,3) b False] home False by simp
    qed
  next
    case all
    then have d': "d' = (apply_writes ?hw ((apply_writes ?wl d)(start := hh)))(start := hh0)"
      by (simp add: d'_def W_def lw)
    then have st: "get_head (d' start) = []" using h0 by simp
    have "d' b = (if b \<in> set bs then c b else d b)"
    proof (cases "b \<in> set bs")
      case True
      then obtain i where "i < ?n" "b = bs ! i" by (auto simp: in_set_conv_nth)
      then show ?thesis
        using apply_writes_map [of "(!) bs" "[0..<?n]" i "\<lambda>i. c (bs ! i)"] h(2) bs_ne True by (simp add: d' mm)
    next
      case False
      have "apply_writes ?hw ((apply_writes ?wl d)(start := hh)) b = ((apply_writes ?wl d)(start := hh)) b"
        using False by (intro apply_writes_other) auto
      moreover have "apply_writes ?wl d b = d b" using wl_keys b by (intro apply_writes_other) auto
      ultimately show ?thesis using False bs_ne by (simp add: d')
    qed
    then show ?thesis using all bs_ne by (simp add: recovery_empty [of d', OF st])
  qed
qed

end

lemma head_blocks_clear: "length b = BSIZE \<Longrightarrow> head_blocks (put32 0 0 b) = []"
  by (simp add: head_blocks_def block_simps)

interpretation lg: redo_log start head_blocks "put32 0 0" "recover_writes start" for start
  by unfold_locales (simp_all add: head_blocks_clear recover_writes_def Let_def)

section \<open>Booting a machine\<close>

definition zero_buf :: buf where
  "zero_buf = \<lparr>b_valid = False, b_dev = 0, b_blockno = 0, b_lock = initsleeplock, b_refcnt = 0, b_data = replicate BSIZE 0\<rparr>"

text \<open>A machine with the given disk after \<open>binit\<close> has run on the zeroed memory of the kernel.\<close>

definition reboot :: "(u32 \<Rightarrow> block) \<Rightarrow> 'a logst_scheme \<Rightarrow> 'a logst_scheme" where
  "reboot d m = binit (m\<lparr>disk := d, dwrites := [], bufs := replicate NBUF zero_buf,
     log_lh := \<lparr>lh_n = 0, lh_block = replicate LOGSIZE 0\<rparr>, log_outstanding := 0, log_committing := False\<rparr>)"

lemma binit_lru:
  assumes "bufs s = replicate NBUF zero_buf"
  shows "fold (\<lambda>b s. (upd_buf b (\<lambda>x. x\<lparr>b_lock := initsleeplock\<rparr>) s)\<lparr>lru := b # lru s\<rparr>) [0..<n] (s\<lparr>lru := []\<rparr>) =
    s\<lparr>lru := rev [0..<n]\<rparr>"
proof (induction n)
  case (Suc n)
  have "(replicate NBUF zero_buf)[n := (replicate NBUF zero_buf ! n)\<lparr>b_lock := initsleeplock\<rparr>] = replicate NBUF zero_buf"
  proof (cases "n < NBUF")
    case True
    then have "(replicate NBUF zero_buf ! n)\<lparr>b_lock := initsleeplock\<rparr> = replicate NBUF zero_buf ! n"
      by (simp only: nth_replicate) (simp add: zero_buf_def)
    then show ?thesis by (simp only: list_update_id)
  qed (simp add: list_update_beyond)
  then show ?case using Suc assms by (simp add: upd_buf_def)
qed simp

lemma reboot_alt:
  "reboot d m = m\<lparr>disk := d, dwrites := [], bufs := replicate NBUF zero_buf, lru := rev [0..<NBUF],
     log_lh := \<lparr>lh_n = 0, lh_block = replicate LOGSIZE 0\<rparr>, log_outstanding := 0, log_committing := False\<rparr>"
  unfolding reboot_def binit_def by (subst binit_lru) simp_all

lemma reboot_ok:
  assumes "running m" "dev \<noteq> 0" "\<And>n. length (d n) = BSIZE"
  shows "quiet dev (reboot d m)" "refs dev (reboot d m) = (\<lambda>_. 0)" "disk (reboot d m) = d" "dwrites (reboot d m) = []"
proof -
  let ?r = "reboot d m"
  have b: "bufs ?r ! i = zero_buf" if "i < NBUF" for i using that by (simp only: reboot_alt) simp
  have nc: "\<not> caches dev n (bufs ?r ! i)" if "i < NBUF" for i n
    using assms(2) by (simp add: b [OF that] caches_def zero_buf_def)
  have ok: "bcache_ok dev ?r"
    unfolding bcache_ok_def
  proof (intro conjI allI impI)
    show "length (bufs ?r) = NBUF" "distinct (lru ?r)" "set (lru ?r) = {..<NBUF}" "length (disk ?r n) = BSIZE" for n
      using assms(3) by (auto simp: reboot_alt)
    show "buf_ok dev (disk ?r) (bufs ?r ! i)" if "i < NBUF" for i
      using assms(2) by (simp add: b [OF that]) (simp add: zero_buf_def buf_ok_def initsleeplock_def)
    show "i = j" if "i < NBUF" "j < NBUF" "caches dev n (bufs ?r ! i) \<and> caches dev n (bufs ?r ! j)" for i j n
      using nc that by blast
  qed
  have s: "slot_of dev ?r n = None" for n using nc slot_of_None [OF ok] by blast
  have "running ?r" using assms(1) by (simp add: reboot_alt running_def split: option.splits)
  then show "quiet dev ?r" using ok by (simp add: quiet_def fun_eq_iff locked_def s)
  show "refs dev ?r = (\<lambda>_. 0)" by (simp add: fun_eq_iff refs_def s)
  show "disk ?r = d" "dwrites ?r = []" by (simp_all add: reboot_alt)
qed

lemma views_log_setup [simp]:
  "quiet dev (s\<lparr>log_start := a, log_size := n, log_dev := e\<rparr>) = quiet dev s"
  "refs dev (s\<lparr>log_start := a, log_size := n, log_dev := e\<rparr>) = refs dev s"
  by (simp_all add: quiet_def bcache_ok_def fun_eq_iff refs_def locked_def slot_of_def running_def split: option.split)

text \<open>Booting runs recovery: its block writes are those of \<open>recover_writes\<close>.\<close>

lemma initlog_reboot:
  assumes "running m" "dev \<noteq> 0" "\<And>n. length (d n) = BSIZE" "recoverable (sb_logstart sp) d"
  shows "\<exists>t. initlog dev sp (reboot d m) = Ok t \<and> disk t = apply_writes (recover_writes (sb_logstart sp) d) d \<and>
    content dev t = disk t \<and> dwrites t = recover_writes (sb_logstart sp) d \<and> quiet dev t \<and>
    refs dev t = (\<lambda>n. if n \<in> set (head_blocks (d (sb_logstart sp))) then - 1 else 0) \<and>
    log_start t = sb_logstart sp \<and> log_dev t = dev \<and> lh_n (log_lh t) = 0 \<and> length (lh_block (log_lh t)) = LOGSIZE \<and>
    log_size t = sint (sb_nlog sp) \<and> log_outstanding t = 0 \<and> \<not> log_committing t"
proof -
  let ?r = "(reboot d m)\<lparr>log_start := sb_logstart sp, log_size := sint (sb_nlog sp), log_dev := dev\<rparr>"
  note r = reboot_ok [OF assms(1-3)]
  have l: "length (lh_block (log_lh ?r)) = LOGSIZE" by (simp add: reboot_alt)
  have q: "quiet dev ?r" "log_dev ?r = dev" "refs dev ?r = (\<lambda>_. 0)" "log_start ?r = sb_logstart sp" "disk ?r = d" "dwrites ?r = []"
    using r by simp_all
  have f: "log_size ?r = sint (sb_nlog sp)" "log_outstanding ?r = 0" "\<not> log_committing ?r" by (simp_all add: reboot_alt)
  have "recoverable (log_start ?r) (disk ?r)" using assms(4) q by simp
  from recover_ok [OF q(1,2,3) l this] q(4-6) f
  show ?thesis unfolding initlog_def by simp
qed

section \<open>Crash safety\<close>

lemma apply_writes_value: "apply_writes ws d n = d n \<or> (n, apply_writes ws d n) \<in> set ws"
proof (induction ws arbitrary: d)
  case (Cons w ws)
  obtain m b where w: "w = (m, b)" by force
  have "apply_writes ws (d(m := b)) n = (d(m := b)) n \<or> (n, apply_writes ws (d(m := b)) n) \<in> set ws"
    by (rule Cons.IH)
  then show ?case by (cases "n = m") (auto simp: w)
qed simp

lemma apply_writes_length:
  assumes "\<And>n. length (d n) = BSIZE" "\<And>w. w \<in> set ws \<Longrightarrow> length (snd w) = BSIZE"
  shows "length (apply_writes ws d n) = BSIZE"
  using apply_writes_value [of ws d n] assms(1) [of n] assms(2) by (metis snd_conv)

lemma commit_writes_length:
  assumes "committable dev s" "w \<in> set (commit_writes (log_start s) (log_lh s) (content dev s))"
  shows "length (snd w) = BSIZE"
proof -
  have ok: "bcache_ok dev s" and n: "lh_n (log_lh s) \<le> 30"
    using assms(1) by (auto simp: committable_def quiet_def Let_def)
  have h: "length (head_data (log_lh s) (content dev s (log_start s))) = BSIZE"
    by (rule length_head_data [OF length_content [OF ok] n])
  show ?thesis
    using assms(2) h length_head_data [OF h, of "(log_lh s)\<lparr>lh_n := 0\<rparr>"] length_content [OF ok]
    by (auto simp: commit_writes_def write_log_writes_def Let_def)
qed

lemma committableD:
  assumes "committable dev s"
  shows "bcache_ok dev s" "0 \<le> lh_n (log_lh s)" "nat (lh_n (log_lh s)) < LOGSIZE" "length (lh_block (log_lh s)) = LOGSIZE"
    "distinct (take (nat (lh_n (log_lh s))) (lh_block (log_lh s)))"
    "set (take (nat (lh_n (log_lh s))) (lh_block (log_lh s))) \<inter> log_area (log_start s) = {}"
    "refs dev s = (\<lambda>b. if b \<in> set (take (nat (lh_n (log_lh s))) (lh_block (log_lh s))) then 1 else 0)"
  using assms unfolding committable_def quiet_def Let_def by blast+

lemma commit_crash_disk:
  fixes k :: nat
  assumes cm: "committable dev s" and e: "head_blocks (disk s (log_start s)) = []" and b: "b \<notin> log_area (log_start s)"
  defines "d \<equiv> apply_writes (take k (commit_writes (log_start s) (log_lh s) (content dev s))) (disk s)"
  shows "apply_writes (recover_writes (log_start s) d) d b = (if k \<le> nat (lh_n (log_lh s)) then disk s b else content dev s b)"
proof -
  let ?start = "log_start s" and ?lh = "log_lh s" and ?c = "content dev s"
  let ?n = "nat (lh_n ?lh)" and ?h = "head_data ?lh (?c ?start)"
  let ?bs = "take ?n (lh_block ?lh)" and ?hz = "head_data (?lh\<lparr>lh_n := 0\<rparr>) ?h"
  note c = committableD [OF cm]
  have lc: "length (?c ?start) = BSIZE" by (rule length_content [OF c(1)])
  have lh: "length ?h = BSIZE" using length_head_data [OF lc] c(2,3) by simp
  have h: "head_blocks ?h = ?bs" using head_blocks_head_data(1) [OF lc] c(2-4) by simp
  have h0: "head_blocks ?hz = []" using head_blocks_head_data(1) [OF lh, of "?lh\<lparr>lh_n := 0\<rparr>"] by simp
  have len: "length ?bs = ?n" using c(3,4) by simp
  have W: "commit_writes ?start ?lh ?c = write_log_writes ?start ?bs [0..<length ?bs] ?c @ [(?start, ?h)] @
      map (\<lambda>i. (?bs ! i, ?c (?bs ! i))) [0..<length ?bs] @ [(?start, ?hz)]"
    unfolding commit_writes_def Let_def len by (simp add: write_log_writes_def)
  have "apply_writes (recover_writes ?start d) d b =
      (if k \<le> length ?bs then disk s b else if b \<in> set ?bs then ?c b else disk s b)"
    unfolding d_def W
    by (rule lg.commit_atomic) (use e h c(5,6) h0 b len c(3) in simp_all)
  moreover have "?c b = disk s b" if "b \<notin> set ?bs"
    using that content_clean [OF c(1)] by (simp add: c(7))
  ultimately show ?thesis using len by auto
qed

lemma commit_crash_recoverable:
  assumes cm: "committable dev s" and e: "head_blocks (disk s (log_start s)) = []"
  shows "recoverable (log_start s) (apply_writes (take k (commit_writes (log_start s) (log_lh s) (content dev s))) (disk s))"
proof -
  let ?start = "log_start s" and ?lh = "log_lh s" and ?c = "content dev s"
  let ?n = "nat (lh_n ?lh)" and ?h = "head_data ?lh (?c ?start)"
  let ?hz = "head_data (?lh\<lparr>lh_n := 0\<rparr>) ?h" and ?bs = "take ?n (lh_block ?lh)"
  let ?W = "commit_writes ?start ?lh ?c"
  note c = committableD [OF cm]
  have lc: "length (?c ?start) = BSIZE" by (rule length_content [OF c(1)])
  have lh: "length ?h = BSIZE" using length_head_data [OF lc] c(2,3) by simp
  have v: "v \<in> {?h, ?hz}" if "(?start, v) \<in> set ?W" for v
  proof -
    have "logblk ?start i \<noteq> ?start" if "i < ?n" for i using logblk_start [of i ?start] that c(3) by simp
    moreover have "lh_block ?lh ! i \<noteq> ?start" if "i < ?n" for i
    proof -
      have "lh_block ?lh ! i \<in> set ?bs" by (rule nth_set_take [OF that]) (use c(3,4) in simp)
      then show ?thesis using c(6) logblk_area(2) [of ?start] by auto
    qed
    ultimately show ?thesis using that by (auto simp: commit_writes_def write_log_writes_def Let_def) blast
  qed
  have "apply_writes (take k ?W) (disk s) ?start \<in> {disk s ?start, ?h, ?hz}"
    using apply_writes_value [of "take k ?W" "disk s" ?start] v by (auto dest: in_set_takeD)
  moreover have "sint (get32 0 (disk s ?start)) < int LOGSIZE" using e by (simp add: head_blocks_def)
  moreover have "head_blocks ?h = take ?n (lh_block ?lh)" "sint (get32 0 ?h) < int LOGSIZE"
    using head_blocks_head_data [OF lc] c(2-4) by auto
  moreover have "head_blocks ?hz = []" "sint (get32 0 ?hz) < int LOGSIZE"
    using head_blocks_head_data [OF lh, of "?lh\<lparr>lh_n := 0\<rparr>"] by auto
  ultimately show ?thesis using e c(5,6) unfolding recoverable_def by auto
qed

lemma commit_crash_recovers:
  assumes "committable dev s" "head_blocks (disk s (log_start s)) = []" "running m" "dev \<noteq> 0" "sb_logstart sp = log_start s"
  shows "\<exists>u. initlog dev sp (reboot (apply_writes (take k (commit_writes (log_start s) (log_lh s) (content dev s))) (disk s)) m) = Ok u \<and>
    (\<forall>b. b \<notin> log_area (log_start s) \<longrightarrow> disk u b = (if k \<le> nat (lh_n (log_lh s)) then disk s b else content dev s b))"
proof -
  let ?d = "apply_writes (take k (commit_writes (log_start s) (log_lh s) (content dev s))) (disk s)"
  have len: "length (?d n) = BSIZE" for n
    by (rule apply_writes_length)
      (use commit_writes_length [OF assms(1)] committableD(1) [OF assms(1)] in \<open>auto dest: in_set_takeD bcache_okD(4)\<close>)
  show ?thesis
    using initlog_reboot [where d = ?d and sp = sp, OF assms(3,4) len] commit_crash_recoverable [OF assms(1,2), of k]
      commit_crash_disk [OF assms(1,2), of _ k] assms(5) by auto
qed


text \<open>A machine on which process 1 runs, with one transaction that changed block 100.\<close>

definition demo_proc :: proc where
  "demo_proc = \<lparr>p_state = RUNNING, p_parent = None, p_chan = ChanNone, p_killed = 0, p_xstate = 0, p_pid = 1, p_kstack = 0,
     p_sz = 0, p_pagetable = 0, p_trapframe = 0, p_ra = 0, p_sp = 0, p_ofile = [], p_cwd = None, p_name = []\<rparr>"

definition demo_buf :: buf where
  "demo_buf = \<lparr>b_valid = True, b_dev = 1, b_blockno = 100, b_lock = initsleeplock, b_refcnt = 1, b_data = replicate BSIZE 7\<rparr>"

definition demo_log :: logst where
  "demo_log = \<lparr>pmem = \<lambda>_. 0, freelist = 0, kend = 0, kernel_pagetable = 0, etext = 0, trampoline = 0,
     procs = [demo_proc], nextpid = 2, cur = Some 0, initproc = Some 0, forkret = 0,
     v_desc = [], v_avail_idx = 0, v_avail = [], v_used_id = 0, v_elems = [], v_free = [], v_used_idx = 0,
     v_info_b = [], v_info_status = [], v_hdr = [], v_busy = \<lambda>_. False, v_regs = [],
     disk = \<lambda>_. replicate BSIZE 0, dwrites = [], bufs = demo_buf # replicate 29 zero_buf, lru = [0..<30],
     log_start = 2, log_size = 30, log_outstanding = 0, log_committing = True, log_dev = 1,
     log_lh = \<lparr>lh_n = 1, lh_block = 100 # replicate 29 0\<rparr>\<rparr>"

lemma demo_bufs: "i < NBUF \<Longrightarrow> bufs demo_log ! i = (if i = 0 then demo_buf else zero_buf)"
  by (cases i) (simp_all add: demo_log_def)

lemma demo_bcache_ok: "bcache_ok 1 demo_log"
  unfolding bcache_ok_def
proof (intro conjI allI impI)
  show "length (bufs demo_log) = NBUF" "distinct (lru demo_log)" "set (lru demo_log) = {..<NBUF}"
    "length (disk demo_log n) = BSIZE" for n
    by (auto simp: demo_log_def)
  show "buf_ok 1 (disk demo_log) (bufs demo_log ! i)" if "i < NBUF" for i
    by (simp add: demo_bufs [OF that]) (simp add: zero_buf_def demo_buf_def buf_ok_def initsleeplock_def)
  show "i = j" if "i < NBUF" "j < NBUF" "caches 1 n (bufs demo_log ! i) \<and> caches 1 n (bufs demo_log ! j)" for i j n
    using that by (simp add: demo_bufs caches_def zero_buf_def split: if_splits)
qed

lemma demo_slot: "slot_of 1 demo_log n = (if n = 100 then Some 0 else None)"
proof -
  have "slot_of 1 demo_log 100 = Some 0"
    by (simp add: slot_of_Some [OF demo_bcache_ok] demo_bufs demo_buf_def caches_def)
  moreover have "slot_of 1 demo_log n = None" if "n \<noteq> 100"
    using that by (simp add: slot_of_None [OF demo_bcache_ok] demo_bufs) (simp add: demo_buf_def zero_buf_def caches_def)
  ultimately show ?thesis by auto
qed

lemma demo_views:
  "quiet 1 demo_log" "refs 1 demo_log = (\<lambda>n. if n = 100 then 1 else 0)" "content 1 demo_log 100 = replicate BSIZE 7"
proof -
  have "running demo_log" by (simp add: demo_log_def running_def)
  then show "quiet 1 demo_log"
    using demo_bcache_ok by (simp add: quiet_def fun_eq_iff locked_def demo_slot demo_bufs) (simp add: demo_buf_def initsleeplock_def)
  show "refs 1 demo_log = (\<lambda>n. if n = 100 then 1 else 0)" "content 1 demo_log 100 = replicate BSIZE 7"
    by (simp_all add: fun_eq_iff refs_def content_def demo_slot demo_bufs) (simp_all add: demo_buf_def)
qed

lemma log_area_iff: "b \<in> log_area start \<longleftrightarrow> unat (b - start) \<le> 30"
proof
  assume "b \<in> log_area start"
  then obtain i where "i \<le> 30" "b = start + of_nat i" by (auto simp: log_area_def)
  then show "unat (b - start) \<le> 30" using unat_of_nat_u32 [of i] by simp
next
  assume "unat (b - start) \<le> 30"
  then show "b \<in> log_area start" unfolding log_area_def by (intro image_eqI [of _ _ "unat (b - start)"]) simp_all
qed

lemma demo_committable: "committable 1 demo_log" "head_blocks (disk demo_log (log_start demo_log)) = []"
proof -
  have "log_lh demo_log = \<lparr>lh_n = 1, lh_block = 100 # replicate 29 0\<rparr>" "log_start demo_log = 2" "log_dev demo_log = 1"
    by (simp_all add: demo_log_def)
  moreover have "(100 :: u32) \<notin> log_area 2" by (simp add: log_area_iff)
  ultimately show "committable 1 demo_log"
    using demo_views(1,2) by (simp add: committable_def Let_def)
  show "head_blocks (disk demo_log (log_start demo_log)) = []"
    by (simp add: demo_log_def head_blocks_def get32_def get_bytes_def numeral_nat)
qed


definition demo_sb :: superblock where
  "demo_sb = \<lparr>sb_magic = 0x10203040, sb_size = 1000, sb_nblocks = 954, sb_ninodes = 200, sb_nlog = 30, sb_logstart = 2,
     sb_inodestart = 32, sb_bmapstart = 45\<rparr>"


section \<open>Crashes during recovery\<close>

lemma recover_writes_length:
  assumes "\<And>n. length (d n) = BSIZE" "w \<in> set (recover_writes start d)"
  shows "length (snd w) = BSIZE"
  using assms by (auto simp: recover_writes_def install_writes_def Let_def)

lemma recover_crash_recoverable:
  assumes rc: "recoverable start d" and len: "length (d start) = BSIZE"
  shows "recoverable start (apply_writes (take j (recover_writes start d)) d)"
proof -
  let ?bs = "head_blocks (d start)"
  have "start \<notin> set ?bs" using rc logblk_area(2) [of start] by (auto simp: recoverable_def)
  then have "v = put32 0 0 (d start)" if "(start, v) \<in> set (recover_writes start d)" for v
    using that by (auto simp: recover_writes_def install_writes_def Let_def) (metis nth_mem)
  then have "apply_writes (take j (recover_writes start d)) d start \<in> {d start, put32 0 0 (d start)}"
    using apply_writes_value [of "take j (recover_writes start d)" d start] by (auto dest: in_set_takeD)
  moreover have "sint (get32 0 (put32 0 0 (d start))) = 0" using len by (simp add: block_simps)
  ultimately show ?thesis using rc head_blocks_clear [OF len] by (auto simp: recoverable_def)
qed


text \<open>A disk whose log holds one block of sevens for block 100.\<close>

definition demo_disk :: "u32 \<Rightarrow> block" where
  "demo_disk n = (if n = 2 then put32 4 100 (put32 0 1 (replicate BSIZE 0)) else if n = 3 then replicate BSIZE 7 else replicate BSIZE 0)"

lemma demo_disk_ok:
  "length (demo_disk n) = BSIZE" "head_blocks (demo_disk 2) = [100]" "recoverable 2 demo_disk"
proof -
  show "length (demo_disk n) = BSIZE" by (simp add: demo_disk_def)
  have 1: "get32 0 (demo_disk 2) = 1" "get32 4 (demo_disk 2) = 100" by (simp_all add: demo_disk_def block_simps)
  then show h: "head_blocks (demo_disk 2) = [100]" by (simp add: head_blocks_def)
  show "recoverable 2 demo_disk" using 1 h by (simp add: recoverable_def log_area_iff)
qed

lemma demo_recovers:
  assumes "initlog 1 demo_sb (reboot demo_disk demo_log) = Ok t"
  shows "disk t 100 = replicate BSIZE 7" "refs 1 t 100 = - 1" "quiet 1 t"
proof -
  have r: "running demo_log" "sb_logstart demo_sb = 2" "(1 :: u32) \<noteq> 0"
    using demo_views(1) by (simp_all add: quiet_def demo_sb_def)
  obtain t' where t': "initlog 1 demo_sb (reboot demo_disk demo_log) = Ok t'"
    "disk t' = apply_writes (recover_writes 2 demo_disk) demo_disk"
    "quiet 1 t'" "refs 1 t' = (\<lambda>n. if n \<in> {100} then - 1 else 0)"
    using initlog_reboot [of demo_log 1 demo_disk demo_sb, OF r(1,3) demo_disk_ok(1)] demo_disk_ok by (auto simp: r(2))
  then have e: "t' = t" using assms by simp
  show "refs 1 t 100 = - 1" "quiet 1 t" using t' e by simp_all
  have "apply_writes (recover_writes 2 demo_disk) demo_disk (demo_disk_blocks ! 0) = demo_disk (logblk 2 0)"
    if "demo_disk_blocks = [100]" for demo_disk_blocks
    using lg.recovered(1) [of demo_disk 2 demo_disk_blocks 100 0] that demo_disk_ok(2) by (simp add: log_area_iff)
  from this [of "[100]"] show "disk t 100 = replicate BSIZE 7"
    using t'(2) e by (simp add: demo_disk_def)
qed


section \<open>The unpin of recovery\<close>

lemma lost_pin:
  assumes q: "quiet dev t" and r: "refs dev t b = - 1" and lh: "lh_n (log_lh t) = 0" "length (lh_block (log_lh t)) = LOGSIZE"
    and sz: "1 < log_size t"
  shows "\<exists>i t1 t2 u. bread dev b (t\<lparr>log_outstanding := 1\<rparr>) = Ok (i, t1) \<and> log_write i (set_data i v t1) = Ok t2 \<and>
    brelse i t2 = Ok u \<and> lh_n (log_lh u) = 1 \<and> lh_block (log_lh u) ! 0 = b \<and> b_data (bufs u ! i) = v \<and> disk u = disk t \<and>
    b_refcnt (bufs u ! i) = 0"
proof -
  have ok: "bcache_ok dev t" and run: "running t" and nl: "\<not> locked dev t b" using q by (auto simp: quiet_def)
  obtain i where i: "slot_of dev t b = Some i" using r by (auto simp: refs_def split: option.splits)
  then have c: "i < length (bufs t)" "caches dev b (bufs t ! i)" using slot_of_Some [OF ok] bcache_okD(1) [OF ok] by auto
  have rc: "b_refcnt (bufs t ! i) = - 1" using r i by (simp add: refs_def)
  have lk: "\<not> sl_locked (b_lock (bufs t ! i))" using nl i by (simp add: locked_def)
  have v: "b_valid (bufs t ! i)" using bcache_okD(5) [OF ok, of i] c(1) rc bcache_okD(1) [OF ok] by (auto simp: buf_ok_def)
  obtain p where p: "cur t = Some p" using run by (auto simp: running_def split: option.splits)
  let ?pid = "p_pid (procs t ! p)"
  define t1 where "t1 = t\<lparr>log_outstanding := 1, bufs := (bufs t)[i := (bufs t ! i)\<lparr>b_refcnt := 0, b_lock := \<lparr>sl_locked = True, sl_pid = ?pid\<rparr>\<rparr>]\<rparr>"
  have f: "find (\<lambda>i. b_dev (bufs t ! i) = dev \<and> b_blockno (bufs t ! i) = b) (lru t) = Some i"
    using i by (simp add: slot_of_def caches_def)
  have "bread dev b (t\<lparr>log_outstanding := 1\<rparr>) = Ok (i, t1)"
    using c v lk p rc by (simp add: bread_def bget_def f lock_buf_def acquiresleep_def with_proc_def upd_buf_def t1_def)
  moreover define t2 where "t2 = t1\<lparr>bufs := (bufs t1)[i := (bufs t1 ! i)\<lparr>b_data := v, b_refcnt := 1\<rparr>],
    log_lh := \<lparr>lh_n = 1, lh_block = (lh_block (log_lh t))[0 := b]\<rparr>\<rparr>"
  have "log_write i (set_data i v t1) = Ok t2"
    using c lh sz by (simp add: log_write_def t1_def t2_def upd_buf_def bpin_def set_lh_n_def caches_def Let_def)
  moreover define u where "u = (wakeup (ChanBufLock i) t2)\<lparr>bufs := (bufs t2)[i := (bufs t2 ! i)\<lparr>b_lock := initsleeplock, b_refcnt := 0\<rparr>],
    lru := i # remove1 i (lru t)\<rparr>"
  have "brelse i t2 = Ok u"
    using c p by (simp add: brelse_def holdingsleep_def with_proc_def releasesleep_def initsleeplock_def upd_buf_def
      t1_def t2_def u_def wakeup_def Let_def)
  moreover have "lh_n (log_lh u) = 1" "lh_block (log_lh u) ! 0 = b" "b_data (bufs u ! i) = v" "disk u = disk t"
    "b_refcnt (bufs u ! i) = 0"
    using c lh by (simp_all add: u_def t2_def t1_def wakeup_def)
  ultimately show ?thesis by blast
qed

text \<open>
  C40. \<open>install_trans\<close> unpins each block it installs, also during recovery, when nothing pinned it. After a boot that
  replayed block \<open>b\<close>, the first transaction that reads \<open>b\<close>, changes it, calls \<open>log_write\<close> and releases it
  ends with reference count 0 on a buffer that holds the only copy of the change: \<open>bget\<close> may
  recycle it before the commit copies it to the log.
\<close>

theorem recovery_unpin_loses_pin:
  assumes "running m" "dev \<noteq> 0" "\<And>n. length (d n) = BSIZE" "recoverable (sb_logstart sp) d" "1 < sint (sb_nlog sp)"
    and b: "b \<in> set (head_blocks (d (sb_logstart sp)))"
  shows "\<exists>t t0 i t1 t2 u. initlog dev sp (reboot d m) = Ok t \<and> begin_op t = Ok t0 \<and> bread dev b t0 = Ok (i, t1) \<and>
    log_write i (set_data i v t1) = Ok t2 \<and> brelse i t2 = Ok u \<and>
    lh_n (log_lh u) = 1 \<and> lh_block (log_lh u) ! 0 = b \<and> b_data (bufs u ! i) = v \<and> disk u b = disk t b \<and>
    b_refcnt (bufs u ! i) = 0"
proof -
  obtain t where t: "initlog dev sp (reboot d m) = Ok t" "quiet dev t" "lh_n (log_lh t) = 0"
    "refs dev t = (\<lambda>n. if n \<in> set (head_blocks (d (sb_logstart sp))) then - 1 else 0)"
    "length (lh_block (log_lh t)) = LOGSIZE" "log_size t = sint (sb_nlog sp)" "log_outstanding t = 0" "\<not> log_committing t"
    using initlog_reboot [OF assms(1-4)] by auto
  have r: "refs dev t b = - 1" and sz: "1 < log_size t" using b t(4,6) assms(5) by simp_all
  obtain i u t1 t2 where "bread dev b (t\<lparr>log_outstanding := 1\<rparr>) = Ok (i, t1)" "log_write i (set_data i v t1) = Ok t2"
    "brelse i t2 = Ok u" "lh_n (log_lh u) = 1" "lh_block (log_lh u) ! 0 = b" "b_data (bufs u ! i) = v" "disk u = disk t"
    "b_refcnt (bufs u ! i) = 0"
    using lost_pin [OF t(2) r t(3,5) sz] by blast
  moreover have "begin_op t = Ok (t\<lparr>log_outstanding := 1\<rparr>)" using t(3,7,8) by (simp add: begin_op_def)
  ultimately show ?thesis using t(1) by auto
qed

theorem recovery_unpin_loses_pin_witness:
  "\<exists>t t0 i t1 t2 u. initlog 1 demo_sb (reboot demo_disk demo_log) = Ok t \<and> begin_op t = Ok t0 \<and> bread 1 100 t0 = Ok (i, t1) \<and>
    log_write i (set_data i (replicate BSIZE 9) t1) = Ok t2 \<and> brelse i t2 = Ok u \<and>
    lh_block (log_lh u) ! 0 = 100 \<and> b_data (bufs u ! i) = replicate BSIZE 9 \<and> disk u 100 = replicate BSIZE 7 \<and>
    b_refcnt (bufs u ! i) = 0"
proof -
  have r: "running demo_log" "sb_logstart demo_sb = 2" "(1 :: u32) \<noteq> 0" "1 < sint (sb_nlog demo_sb)"
    using demo_views(1) by (simp_all add: quiet_def demo_sb_def)
  have h: "recoverable (sb_logstart demo_sb) demo_disk" "100 \<in> set (head_blocks (demo_disk (sb_logstart demo_sb)))"
    using demo_disk_ok(2,3) by (simp_all add: r(2))
  show ?thesis
    using recovery_unpin_loses_pin [of demo_log 1 demo_disk demo_sb 100 "replicate BSIZE 9", OF r(1,3) demo_disk_ok(1) h(1) r(4) h(2)]
      demo_recovers(1) by metis
qed

end
