(* ===== verification/Transaction.thy ===== *)
theory Transaction
  imports LogCrash
begin

text \<open>
  Transactions as the file system uses them: \<open>begin_op\<close>, any number of blocks read with \<open>bread\<close>, changed and
  handed to \<open>log_write\<close>, and \<open>end_op\<close>. \<open>in_tx\<close> is the state between the two calls: the blocks of the header
  are pinned, everything else is free. In it, \<open>content\<close> is a store of blocks that \<open>log_write\<close> updates and
  that no crash can see until the commit.
\<close>

section \<open>Absorption\<close>

lemma absorb_in: "b \<in> set xs \<Longrightarrow> absorb b xs < length xs \<and> xs ! absorb b xs = b"
  by (induction xs) auto

lemma absorb_notin: "b \<notin> set xs \<Longrightarrow> absorb b xs = length xs"
  by (induction xs) auto

definition logged :: "'a logst_scheme \<Rightarrow> u32 list" where
  "logged s = take (nat (lh_n (log_lh s))) (lh_block (log_lh s))"

text \<open>
  The state inside a transaction in which the process holds the buffers of the blocks \<open>H\<close>. A block that is
  not logged is as on the disk.
\<close>

definition in_tx :: "u32 \<Rightarrow> u32 set \<Rightarrow> 'a logst_scheme \<Rightarrow> bool" where
  "in_tx dev H s \<longleftrightarrow> bcache_ok dev s \<and> running s \<and> locked dev s = (\<lambda>n. n \<in> H) \<and>
     log_dev s = dev \<and> 0 < log_outstanding s \<and> \<not> log_committing s \<and> log_size s = int LOGSIZE \<and>
     length (lh_block (log_lh s)) = LOGSIZE \<and> 0 \<le> lh_n (log_lh s) \<and> lh_n (log_lh s) < int LOGSIZE \<and> distinct (logged s) \<and>
     refs dev s = (\<lambda>b. (if b \<in> set (logged s) then 1 else 0) + (if b \<in> H then 1 else 0)) \<and>
     (\<forall>b. b \<notin> set (logged s) \<longrightarrow> content dev s b = disk s b)"

lemma in_txD:
  assumes "in_tx dev H s"
  shows "bcache_ok dev s" "running s" "locked dev s = (\<lambda>n. n \<in> H)" "log_dev s = dev" "0 < log_outstanding s"
    "\<not> log_committing s" "log_size s = int LOGSIZE" "length (lh_block (log_lh s)) = LOGSIZE" "0 \<le> lh_n (log_lh s)"
    "lh_n (log_lh s) < int LOGSIZE" "distinct (logged s)"
    "refs dev s = (\<lambda>b. (if b \<in> set (logged s) then 1 else 0) + (if b \<in> H then 1 else 0))"
    "b \<notin> set (logged s) \<Longrightarrow> content dev s b = disk s b"
  using assms unfolding in_tx_def by blast+

text \<open>Room for one more block: \<open>log_write\<close> wants the header to count fewer than 29.\<close>

definition room :: "'a logst_scheme \<Rightarrow> bool" where
  "room s \<longleftrightarrow> lh_n (log_lh s) < int LOGSIZE - 1"

lemma length_logged: "in_tx dev H s \<Longrightarrow> length (logged s) = nat (lh_n (log_lh s))"
  by (auto simp: logged_def in_tx_def)

lemma room_card: "in_tx dev H s \<Longrightarrow> room s \<longleftrightarrow> card (set (logged s)) < LOGSIZE - 1"
  using length_logged [of dev H s] distinct_card [of "logged s"] by (auto simp: room_def in_tx_def)

lemma card_logged: "in_tx dev H s \<Longrightarrow> card (set (logged s)) < LOGSIZE"
  using length_logged [of dev H s] card_length [of "logged s"] by (auto simp: in_tx_def)

lemma in_tx_readable:
  assumes "in_tx dev H s" "n \<notin> H" "n \<in> set (logged s) \<or> card (set (logged s) \<union> H) < NBUF" shows "readable dev s n"
proof -
  note d = in_txD [OF assms(1)]
  have "busy dev s = set (logged s) \<union> H" by (auto simp: busy_def d(12))
  then show ?thesis using assms(2,3) d(3) by (auto simp: readable_def d(12))
qed

lemma holds_inj: "bcache_ok dev s \<Longrightarrow> holds dev s n i \<Longrightarrow> holds dev s n j \<Longrightarrow> i = j"
  by (metis slot_of_holds option.inject)

section \<open>The store of blocks in a transaction\<close>

definition tx_frame :: "'a logst_scheme \<Rightarrow> 'a logst_scheme \<Rightarrow> bool" where
  "tx_frame s t \<longleftrightarrow> bio_frame (s\<lparr>log_lh := log_lh t\<rparr>) t"

lemma tx_frame_trans: "tx_frame s t \<Longrightarrow> tx_frame t u \<Longrightarrow> tx_frame s u"
  unfolding tx_frame_def using bio_frame_lh [of "s\<lparr>log_lh := log_lh t\<rparr>" t "log_lh u"] bio_frame_trans by fastforce

lemma bio_tx_frame: "bio_frame s t \<Longrightarrow> tx_frame s t"
  using bio_frame_log [of s t] by (simp add: tx_frame_def)

lemma tx_frame_log:
  assumes "tx_frame s t"
  shows "log_start t = log_start s" "log_size t = log_size s" "log_outstanding t = log_outstanding s"
    "log_committing t = log_committing s" "log_dev t = log_dev s"
  using bio_frame_log [OF assms [unfolded tx_frame_def]] by simp_all

text \<open>The step from \<open>s\<close> to \<open>t\<close> logs the blocks \<open>B\<close>, ends holding \<open>H\<close>, and leaves \<open>c\<close> as what readers see and
  the disk alone.\<close>

definition tx_step :: "u32 \<Rightarrow> 'a logst_scheme \<Rightarrow> u32 set \<Rightarrow> (u32 \<Rightarrow> block) \<Rightarrow> u32 set \<Rightarrow> 'a logst_scheme \<Rightarrow> bool" where
  "tx_step dev s B c H t \<longleftrightarrow> in_tx dev H t \<and> tx_frame s t \<and> set (logged t) = set (logged s) \<union> B \<and> content dev t = c \<and>
     disk t = disk s \<and> dwrites t = dwrites s \<and> (\<forall>m j. m \<in> H \<longrightarrow> holds dev s m j \<longrightarrow> holds dev t m j)"

lemma tx_stepD:
  assumes "tx_step dev s B c H t"
  shows "in_tx dev H t" "tx_frame s t" "set (logged t) = set (logged s) \<union> B" "content dev t = c" "disk t = disk s" "dwrites t = dwrites s"
    "m \<in> H \<Longrightarrow> holds dev s m j \<Longrightarrow> holds dev t m j"
  using assms by (auto simp: tx_step_def)

lemma tx_step_refl: "in_tx dev H s \<Longrightarrow> tx_step dev s {} (content dev s) H s"
  by (simp add: tx_step_def bio_tx_frame)

lemma tx_step_trans:
  "tx_step dev s A c H t \<Longrightarrow> tx_step dev t B c' H' u \<Longrightarrow> H' \<subseteq> H \<Longrightarrow> tx_step dev s (A \<union> B) c' H' u"
  by (auto simp: tx_step_def intro: tx_frame_trans)

text \<open>The three moves of a client: \<open>bread\<close>, a change with \<open>log_write\<close>, and \<open>brelse\<close>.\<close>

lemma tx_bread:
  assumes tx: "in_tx dev H s" and n: "n \<notin> H" "n \<in> set (logged s) \<or> card (set (logged s) \<union> H) < NBUF"
  obtains i t where "bread dev n s = Ok (i, t)" "holds dev t n i" "b_data (bufs t ! i) = content dev s n"
    "tx_step dev s {} (content dev s) (insert n H) t" "bio_frame s t"
proof -
  note d = in_txD [OF tx]
  obtain i t where t: "bread dev n s = Ok (i, t)" "holds dev t n i" "disk t = disk s" "dwrites t = dwrites s"
    "effect dev s n (content dev s n) (refs dev s n + 1) True t"
    by (rule bread_ok [OF d(1,2) in_tx_readable [OF assms]])
  note e = effectD(1-5) [OF t(5)]
  have "b_data (bufs t ! i) = content dev s n"
    using content_holds [OF e(2) t(2)] e(3) by simp
  moreover have "tx_step dev s {} (content dev s) (insert n H) t"
    unfolding tx_step_def
  proof (intro conjI allI impI)
    have l: "logged t = logged s" using bio_frame_log [OF e(1)] by (simp add: logged_def)
    show "in_tx dev (insert n H) t"
      using e(2) effect_running [OF t(5) d(2)] bio_frame_log [OF e(1)] d l n(1) t(3)
      by (auto simp: in_tx_def e(3-5) fun_eq_iff)
    show "set (logged t) = set (logged s) \<union> {}" using l by simp
    show "holds dev t m j" if "m \<in> insert n H" "holds dev s m j" for m j
    proof -
      have "m \<noteq> n"
      proof
        assume "m = n"
        then have "locked dev s n" using that(2) slot_of_holds [OF d(1) that(2)] by (simp add: locked_def holds_def)
        then show False using n(1) by (simp add: d(3))
      qed
      then show ?thesis by (rule effectD(6) [OF t(5) _ that(2)])
    qed
  qed (use t(3,4) e(1,3) bio_tx_frame in auto)
  ultimately show ?thesis using that t(1,2) e(1) by blast
qed

lemma tx_brelse:
  assumes tx: "in_tx dev H s" and h: "holds dev s n i"
  obtains t where "brelse i s = Ok t" "tx_step dev s {} (content dev s) (H - {n}) t" "bio_frame s t"
proof -
  note d = in_txD [OF tx]
  have "locked dev s n" using h slot_of_holds [OF d(1) h] by (simp add: locked_def holds_def)
  then have n: "n \<in> H" by (simp add: d(3))
  have c: "content dev s n = disk s n" if "refs dev s n = 1"
    using that n d(13) by (auto simp: d(12) split: if_splits)
  obtain t where t: "brelse i s = Ok t" "effect dev s n (content dev s n) (refs dev s n - 1) False t" "disk t = disk s" "dwrites t = dwrites s"
    by (rule brelse_ok [OF d(1,2) h c])
  note e = effectD(1-5) [OF t(2)]
  have l: "logged t = logged s" using bio_frame_log [OF e(1)] by (simp add: logged_def)
  have "in_tx dev (H - {n}) t"
    using e(2) effect_running [OF t(2) d(2)] bio_frame_log [OF e(1)] d l n t(3)
    by (auto simp: in_tx_def e(3-5) fun_eq_iff)
  then have "tx_step dev s {} (content dev s) (H - {n}) t"
    using effectD(6) [OF t(2)] l t(3,4) e(1,3) bio_tx_frame by (auto simp: tx_step_def)
  then show ?thesis using that t(1) e(1) by blast
qed

lemma log_write_absorbs:
  assumes "in_tx dev H s" "room s" "log_lh t = log_lh s" "log_size t = log_size s" "log_outstanding t = log_outstanding s"
    "b_blockno (bufs t ! i) \<in> set (logged s)"
  shows "log_write i t = Ok t"
proof -
  note d = in_txD [OF assms(1)]
  let ?b = "b_blockno (bufs t ! i)" and ?n = "nat (lh_n (log_lh s))"
  let ?i = "absorb ?b (take ?n (lh_block (log_lh s)))"
  have i: "?i < ?n" "lh_block (log_lh s) ! ?i = ?b"
    using absorb_in [OF assms(6)] d(8) unfolding logged_def by auto
  then have "(lh_block (log_lh s))[?i := ?b] = lh_block (log_lh s)" by (metis list_update_id)
  then show ?thesis
    using i d(5,7,9) assms(2-5) by (simp add: log_write_def room_def Let_def)
qed

lemma log_write_appends:
  assumes "in_tx dev H s" "room s" "log_lh t = log_lh s" "log_size t = log_size s" "log_outstanding t = log_outstanding s"
    "b_blockno (bufs t ! i) \<notin> set (logged s)"
  shows "log_write i t = Ok ((bpin i t)\<lparr>log_lh := \<lparr>lh_n = lh_n (log_lh s) + 1,
    lh_block = (lh_block (log_lh s))[nat (lh_n (log_lh s)) := b_blockno (bufs t ! i)]\<rparr>\<rparr>)"
proof -
  note d = in_txD [OF assms(1)]
  have "absorb (b_blockno (bufs t ! i)) (take (nat (lh_n (log_lh s))) (lh_block (log_lh s))) = nat (lh_n (log_lh s))"
    using absorb_notin [OF assms(6)] length_logged [OF assms(1)] unfolding logged_def by simp
  then show ?thesis
    using d(5,7,9) assms(2-5) by (simp add: log_write_def room_def bpin_def upd_buf_def set_lh_n_def Let_def)
qed

lemma tx_log_write:
  assumes tx: "in_tx dev H s" and h: "holds dev s n i" and r: "room s" and v: "length v = BSIZE"
  obtains t where "log_write i (set_data i v s) = Ok t" "tx_step dev s {n} ((content dev s)(n := v)) H t" "holds dev t n i"
proof -
  note d = in_txD [OF tx]
  let ?s = "set_data i v s"
  note sd = set_data_ok [OF d(1) h v]
  note e = effectD(1-5) [OF sd(1)]
  note bl = bio_frame_log [OF e(1)]
  have lk: "locked dev s n" using h slot_of_holds [OF d(1) h] by (simp add: locked_def holds_def)
  then have n: "n \<in> H" by (simp add: d(3))
  have bn: "b_blockno (bufs ?s ! i) = n" using sd(2) by (simp add: holds_def caches_def)
  have rs: "running ?s" by (rule effect_running [OF sd(1) d(2)])
  show ?thesis
  proof (cases "n \<in> set (logged s)")
    case True
    then have "log_write i ?s = Ok ?s" using bl bn by (intro log_write_absorbs [OF tx r]) auto
    moreover have l: "logged ?s = logged s" using bl by (simp add: logged_def)
    then have "in_tx dev H ?s"
      using e(2) rs bl d True n lk sd(3) by (auto simp: in_tx_def e(3-5) fun_eq_iff)
    then have "tx_step dev s {n} ((content dev s)(n := v)) H ?s"
      using effectD(6) [OF sd(1)] sd(2-4) l True e(1,3) bio_tx_frame h
      by (auto simp: tx_step_def) (metis holds_inj d(1) e(2))
    ultimately show ?thesis using that sd(2) by blast
  next
    case False
    let ?lh = "\<lparr>lh_n = lh_n (log_lh s) + 1, lh_block = (lh_block (log_lh s))[nat (lh_n (log_lh s)) := n]\<rparr>"
    let ?t = "(bpin i ?s)\<lparr>log_lh := ?lh\<rparr>"
    have w: "log_write i ?s = Ok ?t"
      using log_write_appends [OF tx r, of ?s i] bl bn False by simp
    have k: "refs dev ?s n \<noteq> - 1" by (simp add: e(4) d(12))
    note bp = bpin_ok [OF e(2) sd(2) k]
    note f = effectD(1-5) [OF bp(1)]
    note bm = bio_frame_log [OF f(1)]
    have len: "nat (lh_n (log_lh s)) < length (lh_block (log_lh s))" using d(8-10) by simp
    have l: "logged ?t = logged s @ [n]"
      using len d(9) by (simp add: logged_def nat_add_distrib take_Suc_conv_app_nth)
    have "in_tx dev H ?t"
      using f(2) effect_running [OF bp(1) rs] bl bm d False n lk sd(3) bp(3) l r
      by (auto simp: in_tx_def f(3-5) e(3-5) fun_eq_iff room_def)
    moreover have "tx_frame s ?t"
      unfolding tx_frame_def using bio_frame_lh [OF bio_frame_trans [OF e(1) f(1)]] by simp
    moreover have "holds dev ?t m j" if "holds dev s m j" for m j
    proof (cases "m = n")
      case True
      then have "j = i" using that h holds_inj [OF d(1)] by blast
      then show ?thesis using bp(2) True by simp
    next
      case False
      then show ?thesis using effectD(6) [OF bp(1) False effectD(6) [OF sd(1) False that]] by simp
    qed
    ultimately have "tx_step dev s {n} ((content dev s)(n := v)) H ?t"
      using l by (simp add: tx_step_def f(3) e(3) sd bp)
    then show ?thesis using that [OF w] bp(2) by simp
  qed
qed

section \<open>Transactions\<close>

text \<open>What a process does between \<open>begin_op\<close> and \<open>end_op\<close>: it reads blocks, changes and logs blocks it holds
  outside the log, and releases buffers, in any order.\<close>

inductive tx_run :: "u32 \<Rightarrow> 'a logst_scheme \<Rightarrow> 'a logst_scheme \<Rightarrow> bool" for dev :: u32 and s0 :: "'a logst_scheme" where
  run_start: "tx_run dev s0 s0"
| run_bread: "tx_run dev s0 s \<Longrightarrow> bread dev n s = Ok (i, t) \<Longrightarrow> tx_run dev s0 t"
| run_log_write: "tx_run dev s0 s \<Longrightarrow> holds dev s n i \<Longrightarrow> length v = BSIZE \<Longrightarrow> n \<notin> log_area (log_start s) \<Longrightarrow>
    log_write i (set_data i v s) = Ok t \<Longrightarrow> tx_run dev s0 t"
| run_brelse: "tx_run dev s0 s \<Longrightarrow> holds dev s n i \<Longrightarrow> brelse i s = Ok t \<Longrightarrow> tx_run dev s0 t"

text \<open>The machine between transactions: nothing is referenced and the log is empty, in memory and on the disk.\<close>

definition idle :: "u32 \<Rightarrow> 'a logst_scheme \<Rightarrow> bool" where
  "idle dev s \<longleftrightarrow> quiet dev s \<and> log_dev s = dev \<and> log_outstanding s = 0 \<and> \<not> log_committing s \<and> log_size s = int LOGSIZE \<and>
     length (lh_block (log_lh s)) = LOGSIZE \<and> lh_n (log_lh s) = 0 \<and> refs dev s = (\<lambda>_. 0) \<and>
     head_blocks (disk s (log_start s)) = []"

lemma views_log_counts [simp]:
  "bcache_ok dev (s\<lparr>log_outstanding := a\<rparr>) = bcache_ok dev s" "content dev (s\<lparr>log_outstanding := a\<rparr>) = content dev s"
  "refs dev (s\<lparr>log_outstanding := a\<rparr>) = refs dev s" "locked dev (s\<lparr>log_outstanding := a\<rparr>) = locked dev s"
  "running (s\<lparr>log_outstanding := a\<rparr>) = running s"
  "bcache_ok dev (s\<lparr>log_committing := c\<rparr>) = bcache_ok dev s" "content dev (s\<lparr>log_committing := c\<rparr>) = content dev s"
  "refs dev (s\<lparr>log_committing := c\<rparr>) = refs dev s" "locked dev (s\<lparr>log_committing := c\<rparr>) = locked dev s"
  "running (s\<lparr>log_committing := c\<rparr>) = running s"
  by (simp_all add: fun_eq_iff bcache_ok_def content_def refs_def locked_def slot_of_def running_def split: option.split)

lemma begin_op_idle:
  assumes "idle dev s"
  shows "begin_op s = Ok (s\<lparr>log_outstanding := 1\<rparr>)" "in_tx dev {} (s\<lparr>log_outstanding := 1\<rparr>)" "logged s = []"
  using assms content_clean [of dev s]
  by (auto simp: idle_def begin_op_def in_tx_def quiet_def logged_def fun_eq_iff)

lemma in_tx_bread_Ok:
  assumes tx: "in_tx dev H s" and b: "bread dev n s = Ok (i, t)"
  shows "holds dev t n i" "tx_step dev s {} (content dev s) (insert n H) t"
proof -
  note d = in_txD [OF tx]
  have "readable dev s n" by (rule bread_Ok_readable [OF d(1) _ b]) (simp add: d(12))
  moreover have "busy dev s = set (logged s) \<union> H" by (auto simp: busy_def d(12))
  ultimately have n: "n \<notin> H" "n \<in> set (logged s) \<or> card (set (logged s) \<union> H) < NBUF" by (auto simp: readable_def d(3))
  obtain i' t' where "bread dev n s = Ok (i', t')" "holds dev t' n i'" "tx_step dev s {} (content dev s) (insert n H) t'"
    by (rule tx_bread [OF tx n])
  then show "holds dev t n i" "tx_step dev s {} (content dev s) (insert n H) t" using b by auto
qed

lemma log_write_room: "log_write i s = Ok t \<Longrightarrow> log_size s = int LOGSIZE \<Longrightarrow> room s"
  by (auto simp: log_write_def room_def Let_def split: if_splits)

text \<open>Every state inside a transaction satisfies the invariant, and nothing has reached the disk.\<close>

lemma tx_run_invariant:
  assumes "tx_run dev s0 s" "in_tx dev {} s0" "set (logged s0) \<inter> log_area (log_start s0) = {}"
  shows "\<exists>H. in_tx dev H s \<and> tx_frame s0 s \<and> set (logged s) \<inter> log_area (log_start s0) = {} \<and> disk s = disk s0 \<and> dwrites s = dwrites s0"
  using assms
proof (induction rule: tx_run.induct)
  case run_start
  then show ?case using bio_tx_frame [of s0 s0] by auto
next
  case (run_bread s n i t)
  then obtain H where H: "in_tx dev H s" "tx_frame s0 s" "set (logged s) \<inter> log_area (log_start s0) = {}" "disk s = disk s0" "dwrites s = dwrites s0"
    by blast
  note e = tx_stepD(1-6) [OF in_tx_bread_Ok(2) [OF H(1) run_bread.hyps(2)]]
  show ?case using e H tx_frame_trans [OF H(2) e(2)] by auto
next
  case (run_log_write s n i v t)
  then obtain H where H: "in_tx dev H s" "tx_frame s0 s" "set (logged s) \<inter> log_area (log_start s0) = {}" "disk s = disk s0" "dwrites s = dwrites s0"
    by blast
  have "room (set_data i v s)" using log_write_room [OF run_log_write.hyps(5)] in_txD(7) [OF H(1)] by (simp add: upd_buf_def)
  then have r: "room s" by (simp add: room_def upd_buf_def)
  obtain t' where "log_write i (set_data i v s) = Ok t'" "tx_step dev s {n} ((content dev s)(n := v)) H t'"
    by (rule tx_log_write [OF H(1) run_log_write.hyps(2) r run_log_write.hyps(3)])
  then have st: "tx_step dev s {n} ((content dev s)(n := v)) H t" using run_log_write.hyps(5) by simp
  note e = tx_stepD(1-6) [OF st]
  have "n \<notin> log_area (log_start s0)" using run_log_write.hyps(4) tx_frame_log(1) [OF H(2)] by simp
  then show ?case using e H tx_frame_trans [OF H(2) e(2)] by auto
next
  case (run_brelse s n i t)
  then obtain H where H: "in_tx dev H s" "tx_frame s0 s" "set (logged s) \<inter> log_area (log_start s0) = {}" "disk s = disk s0" "dwrites s = dwrites s0"
    by blast
  obtain t' where "brelse i s = Ok t'" "tx_step dev s {} (content dev s) (H - {n}) t'"
    by (rule tx_brelse [OF H(1) run_brelse.hyps(2)])
  then have st: "tx_step dev s {} (content dev s) (H - {n}) t" using run_brelse.hyps(3) by simp
  note e = tx_stepD(1-6) [OF st]
  show ?case using e H tx_frame_trans [OF H(2) e(2)] by auto
qed

section \<open>The commit\<close>

lemma in_tx_committable:
  assumes tx: "in_tx dev {} s" and a: "set (logged s) \<inter> log_area (log_start s) = {}"
  shows "committable dev (s\<lparr>log_outstanding := 0, log_committing := True\<rparr>)"
  using in_txD [OF tx] a unfolding committable_def quiet_def Let_def logged_def by (auto simp: fun_eq_iff)

lemma quiet_counts [simp]:
  "quiet dev (s\<lparr>log_outstanding := a\<rparr>) = quiet dev s" "quiet dev (s\<lparr>log_committing := c\<rparr>) = quiet dev s"
  by (simp_all add: quiet_def)

lemma wakeup_views:
  assumes "quiet dev s"
  shows "quiet dev (wakeup c s)" "refs dev (wakeup c s) = refs dev s" "content dev (wakeup c s) = content dev s"
proof -
  have ok: "bcache_ok dev s" "running s" "locked dev s = (\<lambda>_. False)" using assms by (auto simp: quiet_def)
  note v = views_cong [OF ok(1), of "wakeup c s"]
  have "running (wakeup c s)" using woken_running [OF woken_wakeup ok(2)] .
  then show "quiet dev (wakeup c s)" "refs dev (wakeup c s) = refs dev s" "content dev (wakeup c s) = content dev s"
    using v bcache_okD(2,3) [OF ok(1)] ok(3) by (simp_all add: quiet_def wakeup_def)
qed

lemma end_op_last:
  assumes tx: "in_tx dev {} s" "log_outstanding s = 1" and a: "set (logged s) \<inter> log_area (log_start s) = {}"
    and e: "head_blocks (disk s (log_start s)) = []"
  defines "W \<equiv> if lh_n (log_lh s) = 0 then [] else commit_writes (log_start s) (log_lh s) (content dev s)"
  shows "\<exists>t. end_op s = Ok t \<and> idle dev t \<and> dwrites t = dwrites s @ W \<and> log_start t = log_start s \<and> disk t = apply_writes W (content dev s)"
proof -
  let ?s = "s\<lparr>log_outstanding := 0, log_committing := True\<rparr>"
  note d = in_txD [OF tx(1)]
  have cm: "committable dev ?s" by (rule in_tx_committable [OF tx(1) a])
  have q: "quiet dev ?s" using cm by (simp add: committable_def)
  have "\<exists>u. commit ?s = Ok u \<and> wrote dev (set_lh_n 0 ?s) W (\<lambda>_. 0) u"
  proof (cases "lh_n (log_lh s) = 0")
    case True
    then have "refs dev s = (\<lambda>_. 0)" by (simp add: d(12) logged_def)
    moreover have "set_lh_n 0 ?s = ?s" using True by (simp add: set_lh_n_def)
    ultimately show ?thesis using True q wrote_refl [OF q] by (simp add: commit_def W_def)
  next
    case False
    then show ?thesis using commit_ok [OF cm] d(9) by (simp add: W_def)
  qed
  then obtain u where u: "commit ?s = Ok u" "wrote dev (set_lh_n 0 ?s) W (\<lambda>_. 0) u" by blast
  note w = wroteD [OF u(2)] wrote_log [OF u(2)]
  let ?t = "wakeup ChanLog (u\<lparr>log_committing := False\<rparr>)"
  have en: "end_op s = Ok ?t" using tx(2) d(6) u(1) by (simp add: end_op_def)
  have du: "disk u = apply_writes W (disk s)" "dwrites u = dwrites s @ W" using w(4,5) by (simp_all add: set_lh_n_def)
  have ls: "length (lh_block (log_lh u)) = LOGSIZE" "lh_n (log_lh u) = 0" "log_start u = log_start s" "log_dev u = dev"
    "log_size u = int LOGSIZE" "log_outstanding u = 0"
    using w(7-12) d(4,7,8) by (simp_all add: set_lh_n_def)
  have hb: "head_blocks (disk u (log_start s)) = []"
  proof (cases "lh_n (log_lh s) = 0")
    case True
    then show ?thesis using e by (simp add: du W_def)
  next
    case False
    let ?h = "head_data (log_lh s) (content dev s (log_start s))"
    have "length ?h = BSIZE" using length_head_data [OF length_content [OF d(1)]] d(10) by simp
    then have "head_blocks (head_data ((log_lh s)\<lparr>lh_n := 0\<rparr>) ?h) = []"
      using head_blocks_head_data(1) [of ?h "(log_lh s)\<lparr>lh_n := 0\<rparr>"] by simp
    then show ?thesis using False by (simp add: du W_def commit_writes_def Let_def)
  qed
  have qu: "quiet dev (u\<lparr>log_committing := False\<rparr>)" using w(2) by simp
  note wv = wakeup_views [OF qu, of ChanLog]
  have "idle dev ?t"
    using wv w(6) ls hb by (simp add: idle_def) (simp add: wakeup_def)
  moreover have "dwrites ?t = dwrites s @ W" "log_start ?t = log_start s"
    using du ls by (simp_all add: wakeup_def)
  moreover have "disk ?t = content dev u"
    using content_clean [of dev u] w(2,6) by (auto simp: quiet_def wakeup_def)
  then have "disk ?t = apply_writes W (content dev s)" using w(3) by (simp add: set_lh_n_def)
  ultimately show ?thesis using en by blast
qed

lemma commit_writes_home:
  assumes "b \<notin> log_area start" "nat (lh_n lh) < LOGSIZE"
  shows "apply_writes (commit_writes start lh c) c b = c b"
proof -
  have "v = c b" if "(b, v) \<in> set (commit_writes start lh c)" for v
    using that assms logblk_area(1) [of _ start] logblk_area(2) [of start]
    by (auto simp: commit_writes_def write_log_writes_def Let_def)
  then show ?thesis using apply_writes_value [of "commit_writes start lh c" c b] by blast
qed

lemma begin_tx:
  assumes "idle dev s" "begin_op s = Ok s0" "tx_run dev s0 s1" "locked dev s1 = (\<lambda>_. False)"
  shows "in_tx dev {} s1" "log_outstanding s1 = 1" "set (logged s1) \<inter> log_area (log_start s1) = {}" "log_start s1 = log_start s"
    "disk s1 = disk s" "dwrites s1 = dwrites s"
proof -
  note b = begin_op_idle [OF assms(1)]
  have s0: "s0 = s\<lparr>log_outstanding := 1\<rparr>" using assms(2) b(1) by simp
  then have i0: "in_tx dev {} s0" "logged s0 = []" using b(2,3) by (simp_all add: logged_def)
  obtain H where H: "in_tx dev H s1" "tx_frame s0 s1" "set (logged s1) \<inter> log_area (log_start s0) = {}" "disk s1 = disk s0" "dwrites s1 = dwrites s0"
    using tx_run_invariant [OF assms(3) i0(1)] i0(2) by auto
  have "H = {}" using in_txD(3) [OF H(1)] assms(4) by (auto simp: fun_eq_iff)
  then show "in_tx dev {} s1" using H(1) by simp
  show "log_outstanding s1 = 1" "set (logged s1) \<inter> log_area (log_start s1) = {}" "log_start s1 = log_start s"
    "disk s1 = disk s" "dwrites s1 = dwrites s"
    using tx_frame_log [OF H(2)] H(3-5) by (simp_all add: s0)
qed


text \<open>A transaction that fills block 100 of an empty disk with sevens.\<close>

definition demo_idle :: logst where
  "demo_idle = reboot (\<lambda>_. replicate BSIZE 0) demo_log"

lemma demo_idle_ok: "idle 1 demo_idle" "log_start demo_idle = 2" "disk demo_idle = (\<lambda>_. replicate BSIZE 0)"
proof -
  have r: "running demo_log" using demo_views(1) by (simp add: quiet_def)
  have h: "head_blocks (replicate BSIZE 0) = []" using demo_committable(2) by (simp add: demo_log_def)
  have f: "log_dev demo_idle = 1" "log_outstanding demo_idle = 0" "\<not> log_committing demo_idle" "log_size demo_idle = int LOGSIZE"
    "length (lh_block (log_lh demo_idle)) = LOGSIZE" "lh_n (log_lh demo_idle) = 0"
    by (simp_all add: demo_idle_def reboot_alt demo_log_def)
  show l: "log_start demo_idle = 2" by (simp add: demo_idle_def reboot_alt demo_log_def)
  note q = reboot_ok [OF r, of 1 "\<lambda>_. replicate BSIZE 0", folded demo_idle_def]
  show d: "disk demo_idle = (\<lambda>_. replicate BSIZE 0)" using q(3) by simp
  show "idle 1 demo_idle" unfolding idle_def using q(1,2) f h by (simp add: d l)
qed

lemma demo_tx:
  obtains s0 s1 where "begin_op demo_idle = Ok s0" "tx_run 1 s0 s1" "locked 1 s1 = (\<lambda>_. False)" "content 1 s1 100 = replicate BSIZE 7"
proof -
  let ?v = "replicate BSIZE 7 :: block"
  note b = begin_op_idle [OF demo_idle_ok(1)]
  let ?s0 = "demo_idle\<lparr>log_outstanding := 1\<rparr>"
  have l0: "logged ?s0 = []" using b(3) by (simp add: logged_def)
  have n0: "(100 :: u32) \<notin> {}" "100 \<in> set (logged ?s0) \<or> card (set (logged ?s0) \<union> {}) < NBUF" by (simp_all add: l0)
  obtain i t where t: "bread 1 100 ?s0 = Ok (i, t)" "holds 1 t 100 i" "tx_step 1 ?s0 {} (content 1 ?s0) {100} t"
    by (rule tx_bread [OF b(2) n0])
  note e = tx_stepD(1-3) [OF t(3)]
  have rt: "room t" using e(3) l0 by (simp add: room_card [OF e(1)])
  obtain u where u: "log_write i (set_data i ?v t) = Ok u" "tx_step 1 t {100} ((content 1 t)(100 := ?v)) {100} u" "holds 1 u 100 i"
    by (rule tx_log_write [OF e(1) t(2) rt, of ?v]) auto
  note f = tx_stepD(1-4) [OF u(2)]
  obtain w where w: "brelse i u = Ok w" "tx_step 1 u {} (content 1 u) ({100} - {100}) w"
    by (rule tx_brelse [OF f(1) u(3)])
  note g = tx_stepD(1,4) [OF w(2)]
  have ls: "log_start t = 2" using tx_frame_log(1) [OF e(2)] demo_idle_ok(2) by simp
  have "tx_run 1 ?s0 t" by (rule run_bread [OF run_start t(1)])
  then have "tx_run 1 ?s0 u"
    by (rule run_log_write [OF _ t(2) _ _ u(1)]) (simp_all add: ls log_area_iff)
  then have "tx_run 1 ?s0 w" by (rule run_brelse [OF _ u(3) w(1)])
  then show ?thesis
    by (rule that [OF b(1)]) (use in_txD(3) [OF g(1)] g(2) f(4) in simp_all)
qed


end
