(* ===== verification/LogReserve.thy ===== *)
theory LogReserve
  imports Transaction
begin

text \<open>
  Admission of concurrent operations to the log. \<open>begin_op\<close> lets an operation in when the header has room
  for the 10 blocks it may write, on top of those logged and those reserved by the operations already
  in. The relation \<open>log_ops\<close> runs any interleaving of operations, and records for each operation that is
  in how many of its 10 blocks it has left.
\<close>

section \<open>What the disk operations keep of the log\<close>

lemma result_bindE:
  assumes "andthen r f = Ok y" obtains x where "r = Ok x" "f x = Ok y"
  using assms by (cases r) auto

lemma with_procE: "with_proc s f = Ok y \<Longrightarrow> \<exists>p. f p = Ok y"
  by (auto simp: with_proc_def split: option.splits)

lemma upd_buf_lh [simp]: "log_lh (upd_buf i f s) = log_lh s"
  by (simp add: upd_buf_def)

lemma wakeup_lh [simp]: "log_lh (wakeup c s) = log_lh s" "log_outstanding (wakeup c s) = log_outstanding s" "log_size (wakeup c s) = log_size s"
  by (simp_all add: wakeup_def)

lemma lock_buf_lh: "lock_buf i s = Ok t \<Longrightarrow> log_lh t = log_lh s \<and> log_outstanding t = log_outstanding s \<and> log_size t = log_size s"
  by (auto simp: lock_buf_def upd_buf_def elim!: result_bindE)

lemma bget_lh: "bget dev n s = Ok (i, t) \<Longrightarrow> log_lh t = log_lh s \<and> log_outstanding t = log_outstanding s \<and> log_size t = log_size s"
  unfolding bget_def by (auto simp: upd_buf_def split: option.splits elim!: result_bindE dest!: lock_buf_lh)

lemma bread_lh:
  assumes "bread dev n s = Ok (i, t)" shows "log_lh t = log_lh s \<and> log_outstanding t = log_outstanding s \<and> log_size t = log_size s"
proof -
  obtain j u where u: "bget dev n s = Ok (j, u)"
    "(if \<not> b_valid (bufs u ! j) then Ok (j, upd_buf j (\<lambda>b. b\<lparr>b_valid := True\<rparr>) (virtio_disk_rw j False u)) else Ok (j, u)) = Ok (i, t)"
    using assms unfolding bread_def by (auto elim!: result_bindE)
  then show ?thesis
    using bget_lh [OF u(1)] by (cases "b_valid (bufs u ! j)") (auto simp: virtio_disk_rw_def upd_buf_def Let_def)
qed

lemma bwrite_lh: "bwrite i s = Ok t \<Longrightarrow> log_lh t = log_lh s \<and> log_outstanding t = log_outstanding s \<and> log_size t = log_size s"
  by (auto simp: bwrite_def virtio_disk_rw_def Let_def split: if_splits elim!: result_bindE)

lemma brelse_lh: "brelse i s = Ok t \<Longrightarrow> log_lh t = log_lh s \<and> log_outstanding t = log_outstanding s \<and> log_size t = log_size s"
  by (auto simp: brelse_def releasesleep_def upd_buf_def wakeup_def Let_def split: if_splits elim!: result_bindE)

lemmas disk_lh = bread_lh bwrite_lh brelse_lh

lemma write_head_lh: "write_head s = Ok t \<Longrightarrow> log_lh t = log_lh s \<and> log_outstanding t = log_outstanding s \<and> log_size t = log_size s"
  by (auto simp: write_head_def upd_buf_def split: prod.splits elim!: result_bindE dest!: disk_lh)

lemma write_log_lh: "write_log_loop is s = Ok t \<Longrightarrow> log_lh t = log_lh s \<and> log_outstanding t = log_outstanding s \<and> log_size t = log_size s"
proof (induction "is" arbitrary: s)
  case (Cons i "is")
  then show ?case by (auto simp: upd_buf_def split: prod.splits elim!: result_bindE dest!: disk_lh)
qed simp

lemma install_trans_lh: "install_trans_loop is s = Ok t \<Longrightarrow> log_lh t = log_lh s \<and> log_outstanding t = log_outstanding s \<and> log_size t = log_size s"
proof (induction "is" arbitrary: s)
  case (Cons i "is")
  then show ?case by (auto simp: upd_buf_def bunpin_def split: prod.splits elim!: result_bindE dest!: disk_lh)
qed simp

lemma commit_lh:
  assumes "commit s = Ok t"
  shows "lh_n (log_lh t) = (if 0 < lh_n (log_lh s) then 0 else lh_n (log_lh s)) \<and>
    log_outstanding t = log_outstanding s \<and> log_size t = log_size s"
  using assms
  by (auto simp: commit_def write_log_def install_trans_def set_lh_n_def split: if_splits elim!: result_bindE
    dest!: write_head_lh write_log_lh install_trans_lh)

section \<open>Operations in progress\<close>

inductive log_ops :: "'a logst_scheme \<Rightarrow> nat list \<Rightarrow> 'a logst_scheme \<Rightarrow> bool" for s0 :: "'a logst_scheme" where
  ops_start: "log_ops s0 [] s0"
| ops_begin: "log_ops s0 rs s \<Longrightarrow> begin_op s = Ok t \<Longrightarrow> log_ops s0 (MAXOPBLOCKS # rs) t"
| ops_write: "log_ops s0 (rs @ Suc k # qs) s \<Longrightarrow> log_write i s = Ok t \<Longrightarrow> log_ops s0 (rs @ k # qs) t"
| ops_end: "log_ops s0 (rs @ k # qs) s \<Longrightarrow> end_op s = Ok t \<Longrightarrow> log_ops s0 (rs @ qs) t"
| ops_other: "log_ops s0 rs s \<Longrightarrow> log_lh t = log_lh s \<Longrightarrow> log_outstanding t = log_outstanding s \<Longrightarrow> log_size t = log_size s \<Longrightarrow>
    log_ops s0 rs t"

text \<open>Every block logged or still reserved has a place in the log.\<close>

definition reserved :: "nat list \<Rightarrow> 'a logst_scheme \<Rightarrow> bool" where
  "reserved rs s \<longleftrightarrow> log_size s = int LOGSIZE \<and> log_outstanding s = int (length rs) \<and> 0 \<le> lh_n (log_lh s) \<and>
     lh_n (log_lh s) + int (sum_list rs) \<le> int LOGSIZE \<and> (\<forall>r \<in> set rs. r \<le> MAXOPBLOCKS)"

lemma sum_list_bound: "\<forall>r \<in> set rs. r \<le> k \<Longrightarrow> sum_list rs \<le> length rs * k" for rs :: "nat list"
  by (induction rs) auto

lemma reserved_begin:
  assumes "reserved rs s" "begin_op s = Ok t" shows "reserved (MAXOPBLOCKS # rs) t"
proof -
  have "sum_list rs \<le> length rs * 10" using assms(1) by (intro sum_list_bound) (simp add: reserved_def)
  then show ?thesis using assms by (auto simp: reserved_def begin_op_def split: if_splits)
qed

lemma reserved_write:
  assumes "reserved (rs @ Suc k # qs) s" "log_write i s = Ok t" shows "reserved (rs @ k # qs) t"
  using assms by (auto simp: reserved_def log_write_def set_lh_n_def bpin_def upd_buf_def Let_def split: if_splits)

lemma reserved_end:
  assumes "reserved (rs @ k # qs) s" "end_op s = Ok t" shows "reserved (rs @ qs) t"
proof (cases "log_outstanding s = 1")
  case True
  then obtain u where u: "commit (s\<lparr>log_outstanding := 0, log_committing := True\<rparr>) = Ok u" "t = wakeup ChanLog (u\<lparr>log_committing := False\<rparr>)"
    using assms(2) by (auto simp: end_op_def Let_def split: if_splits elim!: result_bindE)
  then show ?thesis using commit_lh [OF u(1)] assms(1) True by (auto simp: reserved_def split: if_splits)
next
  case False
  then have "t = wakeup ChanLog (s\<lparr>log_outstanding := log_outstanding s - 1\<rparr>)"
    using assms(2) by (auto simp: end_op_def Let_def split: if_splits)
  then show ?thesis using assms(1) by (auto simp: reserved_def)
qed

lemma log_ops_reserved:
  assumes "log_ops s0 rs s" "reserved [] s0" shows "reserved rs s"
  using assms
proof (induction rule: log_ops.induct)
  case (ops_other rs s t)
  then show ?case by (simp add: reserved_def)
qed (auto intro: reserved_begin reserved_write reserved_end)

lemma log_write_Ok:
  assumes "lh_n (log_lh s) < int LOGSIZE - 1" "log_size s = int LOGSIZE" "0 < log_outstanding s"
  shows "\<exists>t. log_write i s = Ok t"
  using assms by (auto simp: log_write_def Let_def)

text \<open>
  C12. Reservation. However operations begin, log blocks and end, the blocks logged plus those that the operations in
  progress may still log never exceed the log. An operation with blocks left can log any buffer, with
  one exception: when 29 blocks are logged, \<open>log_write\<close> panics, because the header takes one of the 30
  blocks of the log, which \<open>begin_op\<close> does not count.
\<close>

theorem log_reservation:
  assumes "log_ops s0 rs s" "log_outstanding s0 = 0" "lh_n (log_lh s0) = 0" "log_size s0 = int LOGSIZE"
  shows "reserved rs s \<and> (\<forall>i. (\<exists>r \<in> set rs. 0 < r) \<longrightarrow>
    (if lh_n (log_lh s) = int LOGSIZE - 1 then log_write i s = Panic ''too big a transaction''
     else \<exists>t. log_write i s = Ok t))"
proof (intro conjI allI impI)
  show r: "reserved rs s" by (rule log_ops_reserved [OF assms(1)]) (use assms in \<open>simp add: reserved_def\<close>)
  fix i assume "\<exists>r \<in> set rs. 0 < r"
  then obtain qs k ps where rs: "rs = qs @ Suc k # ps" by (metis split_list gr0_implies_Suc)
  then have b: "lh_n (log_lh s) < int LOGSIZE" "log_size s = int LOGSIZE" "0 < log_outstanding s" using r by (auto simp: reserved_def)
  show "if lh_n (log_lh s) = int LOGSIZE - 1 then log_write i s = Panic ''too big a transaction'' else \<exists>t. log_write i s = Ok t"
  proof (cases "lh_n (log_lh s) = int LOGSIZE - 1")
    case True
    then show ?thesis using b(2) by (simp add: log_write_def Let_def)
  next
    case False
    then show ?thesis using log_write_Ok [OF _ b(2,3), of i] b(1) by simp
  qed
qed

section \<open>Three operations of ten blocks\<close>

text \<open>Logging the buffers \<open>0 ..< k\<close>, which hold different blocks.\<close>

lemma log_write_new:
  assumes "0 < log_outstanding s" "log_size s = int LOGSIZE" "length (lh_block (log_lh s)) = LOGSIZE"
    "lh_n (log_lh s) = int k" "k < 29" "b_blockno (bufs s ! i) \<notin> set (take k (lh_block (log_lh s)))"
  shows "log_write i s = Ok ((bpin i s)\<lparr>log_lh := \<lparr>lh_n = int k + 1, lh_block = (lh_block (log_lh s))[k := b_blockno (bufs s ! i)]\<rparr>\<rparr>)"
proof -
  have "absorb (b_blockno (bufs s ! i)) (take k (lh_block (log_lh s))) = k"
    using absorb_notin [OF assms(6)] assms(3,5) by simp
  then show ?thesis using assms by (simp add: log_write_def set_lh_n_def bpin_def upd_buf_def Let_def)
qed

definition logging :: "nat \<Rightarrow> 'a logst_scheme \<Rightarrow> bool" where
  "logging k s \<longleftrightarrow> log_outstanding s = 3 \<and> log_size s = int LOGSIZE \<and> lh_n (log_lh s) = int k \<and> length (lh_block (log_lh s)) = LOGSIZE \<and>
     take k (lh_block (log_lh s)) = map of_nat [0..<k] \<and> length (bufs s) = NBUF \<and> (\<forall>i < NBUF. b_blockno (bufs s ! i) = of_nat i)"

lemma logging_step:
  assumes "logging k s" "k < 29"
  shows "\<exists>t. log_write k s = Ok t \<and> logging (Suc k) t"
proof -
  have a: "log_outstanding s = 3" "log_size s = int LOGSIZE" "lh_n (log_lh s) = int k" "length (lh_block (log_lh s)) = LOGSIZE"
    "take k (lh_block (log_lh s)) = map of_nat [0..<k]" "length (bufs s) = NBUF" "b_blockno (bufs s ! k) = of_nat k"
    "\<And>i. i < NBUF \<Longrightarrow> b_blockno (bufs s ! i) = of_nat i"
    using assms unfolding logging_def by auto
  have "(of_nat k :: u32) \<notin> of_nat ` {..<k}"
  proof
    assume "(of_nat k :: u32) \<in> of_nat ` {..<k}"
    then obtain j where "j < k" "(of_nat k :: u32) = of_nat j" by auto
    then show False using assms(2) unat_of_nat_u32 [of j] unat_of_nat_u32 [of k] by simp
  qed
  then have n: "b_blockno (bufs s ! k) \<notin> set (take k (lh_block (log_lh s)))" by (simp add: a(5,7) lessThan_atLeast0)
  let ?t = "(bpin k s)\<lparr>log_lh := \<lparr>lh_n = int k + 1, lh_block = (lh_block (log_lh s))[k := b_blockno (bufs s ! k)]\<rparr>\<rparr>"
  have "log_write k s = Ok ?t" by (rule log_write_new) (use a n assms(2) in simp_all)
  moreover have "logging (Suc k) ?t"
    using a assms(2) by (auto simp: logging_def bpin_def upd_buf_def nth_list_update take_Suc_conv_app_nth)
  ultimately show ?thesis by blast
qed

lemma logging_run:
  assumes "logging k s" "log_ops s0 (rs @ j # qs) s" "n \<le> j" "k + n \<le> 29"
  shows "\<exists>t. logging (k + n) t \<and> log_ops s0 (rs @ (j - n) # qs) t"
  using assms(3,4)
proof (induction n)
  case 0
  then show ?case using assms(1,2) by auto
next
  case (Suc n)
  then obtain t where t: "logging (k + n) t" "log_ops s0 (rs @ (j - n) # qs) t" by auto
  obtain u where u: "log_write (k + n) t = Ok u" "logging (Suc (k + n)) u" using logging_step [OF t(1)] Suc.prems(2) by auto
  have "log_ops s0 (rs @ Suc (j - Suc n) # qs) t" using t(2) Suc.prems(1) by (simp add: Suc_diff_Suc)
  from ops_write [OF this u(1)] show ?case using u(2) by auto
qed

text \<open>
  C39. The exception is reachable: three operations admitted together, of which the first two log their 10 blocks and the
  third logs 9, leave a state in which the tenth block of the third operation panics the kernel. The
  constants are those of \<open>param.h\<close>, and the size of the log is the \<open>nlog\<close> that \<open>mkfs\<close> writes.
\<close>

theorem three_operations_panic:
  assumes "log_outstanding s0 = 0" "\<not> log_committing s0" "log_size s0 = int LOGSIZE" "lh_n (log_lh s0) = 0"
    "length (lh_block (log_lh s0)) = LOGSIZE" "length (bufs s0) = NBUF" "\<forall>i < NBUF. b_blockno (bufs s0 ! i) = of_nat i"
  shows "\<exists>s. log_ops s0 [1, 0, 0] s \<and> log_write 29 s = Panic ''too big a transaction''"
proof -
  let ?a = "s0\<lparr>log_outstanding := 1\<rparr>" and ?b = "s0\<lparr>log_outstanding := 2\<rparr>" and ?c = "s0\<lparr>log_outstanding := 3\<rparr>"
  have "log_ops s0 [10] ?a" by (rule ops_begin [OF ops_start]) (use assms in \<open>simp add: begin_op_def\<close>)
  then have "log_ops s0 [10, 10] ?b" by (rule ops_begin) (use assms in \<open>simp add: begin_op_def\<close>)
  then have c: "log_ops s0 [10, 10, 10] ?c" by (rule ops_begin) (use assms in \<open>simp add: begin_op_def\<close>)
  have l0: "logging 0 ?c" using assms by (simp add: logging_def)
  obtain u where u: "logging 10 u" "log_ops s0 [10, 10, 0] u"
    using logging_run [OF l0, of s0 "[10, 10]" 10 "[]" 10] c by auto
  obtain v where v: "logging 20 v" "log_ops s0 [10, 0, 0] v"
    using logging_run [OF u(1), of s0 "[10]" 10 "[0]" 10] u(2) by auto
  obtain w where w: "logging 29 w" "log_ops s0 [1, 0, 0] w"
    using logging_run [OF v(1), of s0 "[]" 10 "[0, 0]" 9] v(2) by auto
  have "log_write 29 w = Panic ''too big a transaction''" using w(1) by (simp add: logging_def log_write_def Let_def)
  then show ?thesis using w(2) by blast
qed

definition demo_full :: logst where
  "demo_full = demo_idle\<lparr>bufs := map (\<lambda>i. zero_buf\<lparr>b_dev := 1, b_blockno := of_nat i\<rparr>) [0..<NBUF]\<rparr>"

lemma demo_full_ok:
  "log_outstanding demo_full = 0" "\<not> log_committing demo_full" "log_size demo_full = int LOGSIZE" "lh_n (log_lh demo_full) = 0"
  "length (lh_block (log_lh demo_full)) = LOGSIZE" "length (bufs demo_full) = NBUF" "\<forall>i < NBUF. b_blockno (bufs demo_full ! i) = of_nat i"
  using demo_idle_ok(1) unfolding idle_def by (simp_all add: demo_full_def)

theorem three_operations_panic_witness:
  "\<exists>s. log_ops demo_full [1, 0, 0] s \<and> log_write 29 s = Panic ''too big a transaction''"
  by (rule three_operations_panic [OF demo_full_ok])

theorem log_reservation_witness:
  "\<exists>s t. log_ops demo_full [MAXOPBLOCKS] s \<and> log_write 5 s = Ok t"
proof -
  have b: "begin_op demo_full = Ok (demo_full\<lparr>log_outstanding := 1\<rparr>)" using demo_full_ok by (simp add: begin_op_def)
  have o: "log_ops demo_full [MAXOPBLOCKS] (demo_full\<lparr>log_outstanding := 1\<rparr>)" by (rule ops_begin [OF ops_start b])
  show ?thesis using log_reservation [OF o demo_full_ok(1,4,3)] o demo_full_ok(4) by auto
qed

end
