(* ===== verification/Ring.thy ===== *)
theory Ring
  imports Prelude
begin

text \<open>
  Ring buffers. Pipes, the console input and the transmit buffer of the serial port all keep bytes in
  an array that is indexed modulo its size. The first section has the arithmetic they share; the locale
  \<open>byte_ring\<close> is the contract of a bounded queue that each of them is shown to meet.
\<close>

section \<open>Slices of a circular array\<close>

definition ring_slice :: "'a list \<Rightarrow> nat \<Rightarrow> nat \<Rightarrow> 'a list" where
  "ring_slice buf start len = map (\<lambda>i. buf ! ((start + i) mod length buf)) [0..<len]"

lemma length_ring_slice [simp]: "length (ring_slice buf start len) = len"
  by (simp add: ring_slice_def)

lemma nth_ring_slice: "i < len \<Longrightarrow> ring_slice buf start len ! i = buf ! ((start + i) mod length buf)"
  by (simp add: ring_slice_def)

lemma ring_slice_0 [simp]: "ring_slice buf start 0 = []"
  by (simp add: ring_slice_def)

lemma ring_slice_mod: "ring_slice buf (start mod length buf) len = ring_slice buf start len"
  by (simp add: ring_slice_def mod_add_left_eq)

lemma ring_slice_cong_mod: "start mod length buf = start' mod length buf \<Longrightarrow> ring_slice buf start len = ring_slice buf start' len"
  by (metis ring_slice_mod)

text \<open>Positions of a slice no longer than the array do not collide.\<close>

lemma ring_pos_inj:
  fixes n :: nat
  assumes "(start + i) mod n = (start + j) mod n" "i < j" "j < i + n"
  shows False
proof -
  have "n dvd (start + j) - (start + i)" using assms(1) by (metis mod_eq_dvd_iff_nat assms(2) nat_add_left_cancel_less order_less_imp_le)
  then have "n dvd j - i" by simp
  then show False using assms(2,3) by (auto dest: dvd_imp_le)
qed

lemma ring_slice_put:
  assumes "len < length buf"
  shows "ring_slice (buf[(start + len) mod length buf := c]) start (Suc len) = ring_slice buf start len @ [c]"
proof (rule nth_equalityI)
  fix i assume "i < length (ring_slice (buf[(start + len) mod length buf := c]) start (Suc len))"
  then have i: "i < Suc len" by simp
  show "ring_slice (buf[(start + len) mod length buf := c]) start (Suc len) ! i = (ring_slice buf start len @ [c]) ! i"
  proof (cases "i = len")
    case True
    have "(start + len) mod length buf < length buf" using assms by (intro mod_less_divisor) auto
    then show ?thesis using True by (simp add: nth_ring_slice nth_append)
  next
    case False
    then have "(start + i) mod length buf \<noteq> (start + len) mod length buf"
      using ring_pos_inj [of start i "length buf" len] i assms by auto
    then show ?thesis using i False by (simp add: nth_ring_slice nth_append)
  qed
qed simp

lemma ring_slice_get:
  "ring_slice buf start (Suc len) = buf ! (start mod length buf) # ring_slice buf (Suc start) len"
  by (rule nth_equalityI) (auto simp: nth_ring_slice nth_Cons split: nat.split)

section \<open>Free-running 32-bit indices\<close>

text \<open>An index that wraps at \<open>2 ^ 32\<close> stays right modulo a power of two.\<close>

lemma unat_mod_u32:
  fixes x :: u32
  assumes "n = 2 ^ k" "k < 32"
  shows "unat ((x + of_nat i) mod of_nat n) = (unat x + i) mod n"
proof -
  have n: "n < 4294967296" using assms power_strict_increasing [of k 32 "2 :: nat"] by simp
  have "n dvd 4294967296" using assms le_imp_power_dvd [of k 32 "2 :: nat"] by simp
  moreover have "unat (x + of_nat i) = (unat x + i) mod 4294967296"
    by (simp add: unat_word_ariths unsigned_of_nat take_bit_eq_mod mod_add_right_eq)
  ultimately have "unat (x + of_nat i) mod n = (unat x + i) mod n" by (simp add: mod_mod_cancel)
  then show ?thesis using n by (simp add: unat_mod unat_of_nat_u32)
qed

lemma u32_diff_Suc:
  fixes w r :: u32
  assumes "unat (w - r) < 4294967295" shows "unat (w + 1 - r) = Suc (unat (w - r))"
proof -
  have "w + 1 - r = 1 + (w - r)" by simp
  then show ?thesis using unat_of_nat_u32 [of "Suc (unat (w - r))"] assms by (simp only: of_nat_Suc) simp
qed

section \<open>The contract of a bounded queue\<close>

datatype ring_op = Put u8 | Get

fun ring_run :: "(u8 \<Rightarrow> 'q \<Rightarrow> 'q) \<Rightarrow> ('q \<Rightarrow> u8 \<times> 'q) \<Rightarrow> ring_op list \<Rightarrow> 'q \<Rightarrow> u8 list \<times> 'q" where
  "ring_run put get [] q = ([], q)"
| "ring_run put get (Put c # os) q = ring_run put get os (put c q)"
| "ring_run put get (Get # os) q =
     (case get q of (c, q) \<Rightarrow> case ring_run put get os q of (cs, q) \<Rightarrow> (c # cs, q))"

text \<open>Sequences that put no byte into a full ring and take none out of an empty one.\<close>

fun ring_admissible :: "nat \<Rightarrow> ring_op list \<Rightarrow> nat \<Rightarrow> bool" where
  "ring_admissible cap [] n = True"
| "ring_admissible cap (Put c # os) n = (n < cap \<and> ring_admissible cap os (Suc n))"
| "ring_admissible cap (Get # os) n = (0 < n \<and> ring_admissible cap os (n - 1))"

fun ring_puts :: "ring_op list \<Rightarrow> u8 list" where
  "ring_puts [] = []"
| "ring_puts (Put c # os) = c # ring_puts os"
| "ring_puts (Get # os) = ring_puts os"

locale byte_ring =
  fixes inv :: "'q \<Rightarrow> bool"
    and queue :: "'q \<Rightarrow> u8 list"
    and cap :: nat
    and put :: "u8 \<Rightarrow> 'q \<Rightarrow> 'q"
    and get :: "'q \<Rightarrow> u8 \<times> 'q"
  assumes bounded: "inv q \<Longrightarrow> length (queue q) \<le> cap"
    and put_queue: "inv q \<Longrightarrow> length (queue q) < cap \<Longrightarrow> queue (put c q) = queue q @ [c]"
    and put_inv: "inv q \<Longrightarrow> length (queue q) < cap \<Longrightarrow> inv (put c q)"
    and get_queue: "inv q \<Longrightarrow> queue q \<noteq> [] \<Longrightarrow> queue q = fst (get q) # queue (snd (get q))"
    and get_inv: "inv q \<Longrightarrow> queue q \<noteq> [] \<Longrightarrow> inv (snd (get q))"
begin

text \<open>First in, first out, over any admissible interleaving of the two ends.\<close>

lemma fifo:
  assumes "inv q" "ring_admissible cap os (length (queue q))" "ring_run put get os q = (out, r)"
  shows "inv r \<and> queue q @ ring_puts os = out @ queue r"
  using assms
proof (induction os arbitrary: q out)
  case (Cons op os)
  show ?case
  proof (cases op)
    case (Put c)
    then show ?thesis
      using Cons.IH [of "put c q" out] Cons.prems put_queue [of q c] put_inv [of q c] by auto
  next
    case Get
    obtain c q' where g: "get q = (c, q')" by force
    obtain cs where cs: "ring_run put get os q' = (cs, r)" "out = c # cs"
      using Cons.prems(3) by (auto simp: Get g split: prod.splits)
    have ne: "queue q \<noteq> []" using Cons.prems(2) by (auto simp: Get)
    have q: "queue q = c # queue q'" "inv q'"
      using get_queue [OF Cons.prems(1) ne] get_inv [OF Cons.prems(1) ne] by (simp_all add: g)
    show ?thesis
      using Cons.IH [OF q(2) _ cs(1)] Cons.prems(2) q(1) cs(2) by (simp add: Get)
  qed
qed simp

lemma put_all:
  "inv q \<Longrightarrow> length (queue q) + length cs \<le> cap \<Longrightarrow> inv (fold put cs q) \<and> queue (fold put cs q) = queue q @ cs"
proof (induction cs arbitrary: q)
  case (Cons c cs)
  then show ?case using Cons.IH [of "put c q"] put_queue [of q c] put_inv [of q c] by simp
qed simp

end

end
