(* ===== verification/PipeQueue.thy ===== *)
theory PipeQueue
  imports Pipe Transaction Ring
begin

text \<open>
  Pipes as queues. \<open>pqueue\<close> is the sequence of bytes in a pipe, oldest first. The counters \<open>nread\<close> and
  \<open>nwrite\<close> of the code are never reset and wrap at \<open>2 ^ 32\<close>; the invariant bounds their difference.
\<close>

section \<open>The ring of a pipe\<close>

definition pipe_ok :: "pipe \<Rightarrow> bool" where
  "pipe_ok p \<longleftrightarrow> length (pi_data p) = PIPESIZE \<and> unat (pi_nwrite p - pi_nread p) \<le> PIPESIZE"

definition pqueue :: "pipe \<Rightarrow> u8 list" where
  "pqueue p = ring_slice (pi_data p) (unat (pi_nread p)) (unat (pi_nwrite p - pi_nread p))"

lemma pipe_put_index:
  assumes "pipe_ok p"
  shows "unat (pi_nwrite p mod 512) = (unat (pi_nread p) + unat (pi_nwrite p - pi_nread p)) mod 512"
  using unat_mod_u32 [of 512 9 "pi_nread p" "unat (pi_nwrite p - pi_nread p)"] by simp

lemma pipe_full_iff: "pipe_ok p \<Longrightarrow> pi_nwrite p = pi_nread p + 512 \<longleftrightarrow> length (pqueue p) = PIPESIZE"
proof -
  have "pi_nwrite p = pi_nread p + 512 \<longleftrightarrow> pi_nwrite p - pi_nread p = 512" by (auto simp: algebra_simps)
  also have "\<dots> \<longleftrightarrow> unat (pi_nwrite p - pi_nread p) = unat (512 :: u32)" by (simp only: word_unat_eq_iff)
  finally show ?thesis by (simp add: pqueue_def)
qed

lemma pipe_empty_iff: "pi_nread p = pi_nwrite p \<longleftrightarrow> pqueue p = []"
proof -
  have "pqueue p = [] \<longleftrightarrow> length (pqueue p) = 0" by simp
  also have "\<dots> \<longleftrightarrow> unat (pi_nwrite p - pi_nread p) = 0" by (simp add: pqueue_def)
  also have "\<dots> \<longleftrightarrow> pi_nwrite p - pi_nread p = 0" by (simp add: unat_eq_0)
  finally show ?thesis by auto
qed

interpretation pr: byte_ring pipe_ok pqueue PIPESIZE pipe_put pipe_get
proof
  fix p c
  assume ok: "pipe_ok p"
  let ?n = "unat (pi_nwrite p - pi_nread p)"
  have len: "length (pi_data p) = 512" "?n \<le> 512" using ok by (simp_all add: pipe_ok_def)
  show "length (pqueue p) \<le> PIPESIZE" using len by (simp add: pqueue_def)
  {
    assume "length (pqueue p) < PIPESIZE"
    then have n: "?n < 512" by (simp add: pqueue_def)
    then have d: "unat (pi_nwrite p + 1 - pi_nread p) = Suc ?n" using u32_diff_Suc [of "pi_nwrite p" "pi_nread p"] by simp
    show "pqueue (pipe_put c p) = pqueue p @ [c]"
      using ring_slice_put [of ?n "pi_data p" "unat (pi_nread p)" c] n d len
      by (simp add: pqueue_def pipe_put_def pipe_put_index [OF ok])
    show "pipe_ok (pipe_put c p)" using len n d by (simp add: pipe_ok_def pipe_put_def)
  }
  assume "pqueue p \<noteq> []"
  then have "pi_nread p \<noteq> pi_nwrite p" using pipe_empty_iff by blast
  then have d: "unat (pi_nwrite p - (pi_nread p + 1)) = ?n - 1" and pos: "0 < ?n"
    using unat_diff_Suc [of "pi_nwrite p" "pi_nread p"] by (auto simp: unat_gt_0)
  have i0: "unat (pi_nread p mod 512) = unat (pi_nread p) mod 512" using unat_mod_u32 [of 512 9 "pi_nread p" 0] by simp
  have i1: "unat (pi_nread p + 1) mod 512 = Suc (unat (pi_nread p)) mod 512"
    using unat_mod_u32 [of 512 9 "pi_nread p" 1] by (simp add: unat_mod)
  show "pqueue p = fst (pipe_get p) # pqueue (snd (pipe_get p))"
    using ring_slice_get [of "pi_data p" "unat (pi_nread p)" "?n - 1"] pos
      ring_slice_cong_mod [of "unat (pi_nread p + 1)" "pi_data p" "Suc (unat (pi_nread p))" "?n - 1"] i1
    by (simp add: pqueue_def pipe_get_def d i0 len)
  show "pipe_ok (snd (pipe_get p))" using len d by (simp add: pipe_ok_def pipe_get_def)
qed

section \<open>Writing\<close>

lemma upd_pipe_fields [simp]:
  "procs (upd_pipe pi f s) = procs s" "pmem (upd_pipe pi f s) = pmem s" "pipes (upd_pipe pi f s) pi = f (pipes s pi)"
  "cur (upd_pipe pi f s) = cur s"
  by (simp_all add: upd_pipe_def)

lemma wakeup_pipes [simp]: "pipes (wakeup c s) = pipes s" "pmem (wakeup c s) = pmem s"
  by (simp_all add: wakeup_def)

lemma table_upd_pipe [simp]: "table pt (upd_pipe pi f s) xs = table pt s xs"
  by (simp add: pt_wf_def free_pages_def managed_def upd_pipe_def)

lemma usep_upd_pipe [simp]: "usep pt (upd_pipe pi f s) xs = usep pt s xs"
  unfolding usep_def by simp

text \<open>One byte from user memory.\<close>

lemma copyin_byte:
  assumes "table pt s xs"
  shows "vbyte (pmem s) pt va = Some b \<Longrightarrow> copyin_buf pt va 1 s = (0, [b])"
    "vbyte (pmem s) pt va = None \<Longrightarrow> fst (copyin_buf pt va 1 s) = - 1"
proof -
  obtain r bs where rb: "copyin_buf pt va 1 s = (r, bs)" by force
  have c: "copied [vbyte (pmem s) pt va] r bs"
    using copyin_buf_copied [OF assms, of va 1] by (simp add: rb vrange_def)
  show "copyin_buf pt va 1 s = (0, [b])" if "vbyte (pmem s) pt va = Some b"
    using c that by (auto simp: rb copied_def split: if_splits)
  show "fst (copyin_buf pt va 1 s) = - 1" if "vbyte (pmem s) pt va = None"
    using c that by (auto simp: rb copied_def split: if_splits)
qed

definition asleep_on :: "chan \<Rightarrow> 'a ptab_scheme \<Rightarrow> bool" where
  "asleep_on c s \<longleftrightarrow> (\<exists>p \<in> set (procs s). p_state p = SLEEPING \<and> p_chan p = c)"

lemma wakeup_not_asleep [simp]: "\<not> asleep_on c (wakeup c s)"
proof -
  have pw: "procs (wakeup c s) = map (\<lambda>p. if p_state p = SLEEPING \<and> p_chan p = c then p\<lparr>p_state := RUNNABLE\<rparr> else p) (procs s)"
    by (simp add: wakeup_def)
  have "\<not> (p_state q = SLEEPING \<and> p_chan q = c)" if q: "q \<in> set (procs (wakeup c s))" for q
  proof -
    obtain p where "q = (if p_state p = SLEEPING \<and> p_chan p = c then p\<lparr>p_state := RUNNABLE\<rparr> else p)"
      using q unfolding pw set_map by (rule imageE)
    then show ?thesis by (cases "p_state p = SLEEPING \<and> p_chan p = c") simp_all
  qed
  then show ?thesis unfolding asleep_on_def by blast
qed

text \<open>Nothing but the one pipe and sleeping processes has changed.\<close>

definition pipe_frame :: "u64 \<Rightarrow> 'a pipest_scheme \<Rightarrow> 'a pipest_scheme \<Rightarrow> bool" where
  "pipe_frame pi s t \<longleftrightarrow> (\<exists>p ps. t = s\<lparr>pipes := (pipes s)(pi := p), procs := ps\<rparr>) \<and> woken s t"

lemma pipe_frame_refl [simp]: "pipe_frame pi s s"
  unfolding pipe_frame_def by (intro conjI exI [of _ "pipes s pi"] exI [of _ "procs s"]) simp_all

lemma pipe_frame_wakeup: "pipe_frame pi s (wakeup c s)"
proof -
  have "wakeup c s = s\<lparr>pipes := (pipes s)(pi := pipes s pi), procs := procs (wakeup c s)\<rparr>" by (simp add: wakeup_def)
  then show ?thesis unfolding pipe_frame_def using woken_wakeup [of s c] by blast
qed

lemma pipe_frame_upd:
  assumes "pipe_frame pi (upd_pipe pi f s) t" shows "pipe_frame pi s t"
proof -
  obtain p ps where t: "t = (upd_pipe pi f s)\<lparr>pipes := (pipes (upd_pipe pi f s))(pi := p), procs := ps\<rparr>" "woken (upd_pipe pi f s) t"
    using assms unfolding pipe_frame_def by blast
  have "woken s t" using t(2) by (simp add: woken_def)
  moreover have "t = s\<lparr>pipes := (pipes s)(pi := p), procs := ps\<rparr>" unfolding t(1) by (simp add: upd_pipe_def)
  ultimately show ?thesis unfolding pipe_frame_def by blast
qed

text \<open>What a writer can be left with after it has put the bytes \<open>ws\<close> of its \<open>n\<close> into the pipe.\<close>

definition write_outcome :: "u64 \<Rightarrow> u64 \<Rightarrow> int \<Rightarrow> nat \<Rightarrow> 'a pipest_scheme \<Rightarrow> int \<Rightarrow> progress \<Rightarrow> 'a pipest_scheme \<Rightarrow> bool" where
  "write_outcome pi addr n pr s j g t \<longleftrightarrow>
     (case g of
        Block c i \<Rightarrow> c = ChanPipeWrite pi \<and> i = j \<and> j < n \<and> length (pqueue (pipes t pi)) = PIPESIZE \<and>
          pi_readopen (pipes s pi) \<and> \<not> asleep_on (ChanPipeRead pi) t
      | Return r \<Rightarrow>
          if r = -1 then j < n \<and> length (pqueue (pipes t pi)) = PIPESIZE \<and>
            (\<not> pi_readopen (pipes s pi) \<or> p_killed (procs s ! pr) \<noteq> 0)
          else r = j \<and> \<not> asleep_on (ChanPipeRead pi) t \<and>
            (j = n \<or> j < n \<and> vbyte (pmem s) (p_pagetable (procs s ! pr)) (addr + of_int j) = None))"

lemma write_outcome_put: "write_outcome pi addr n pr (upd_pipe pi (pipe_put b) s) j g t = write_outcome pi addr n pr s j g t"
  by (simp add: write_outcome_def pipe_put_def cong: if_cong progress.case_cong)

lemma pipewrite_from_writes:
  assumes "table (p_pagetable (procs s ! pr)) s xs" "pipe_ok (pipes s pi)" "0 \<le> i" "i \<le> n"
    and "pipewrite_from pi addr n i pr s = (g, t)"
  shows "\<exists>ws. pqueue (pipes t pi) = pqueue (pipes s pi) @ ws \<and> pipe_ok (pipes t pi) \<and> pipe_frame pi s t \<and>
    (\<forall>k < length ws. vbyte (pmem s) (p_pagetable (procs s ! pr)) (addr + of_int (i + int k)) = Some (ws ! k)) \<and>
    write_outcome pi addr n pr s (i + int (length ws)) g t"
  using assms
proof (induction "nat (n - i)" arbitrary: i s)
  case 0
  then have "i = n" by simp
  then show ?case using 0 by (intro exI [of _ "[]"])
    (auto simp: pipewrite_from.simps [of pi addr n n] write_outcome_def pipe_frame_wakeup)
next
  case (Suc m)
  let ?pt = "p_pagetable (procs s ! pr)" and ?p = "pipes s pi"
  have i: "i < n" using Suc.hyps(2) by simp
  show ?case
  proof (cases "pi_nwrite ?p = pi_nread ?p + 512")
    case True
    then have full: "length (pqueue ?p) = PIPESIZE" using pipe_full_iff [OF Suc.prems(2)] by simp
    show ?thesis
      using Suc.prems(5) i True full Suc.prems(2,3)
      by (intro exI [of _ "[]"])
        (auto simp: pipewrite_from.simps [of pi addr n i] write_outcome_def pipe_frame_wakeup split: if_splits)
  next
    case False
    then have nf: "length (pqueue ?p) < PIPESIZE"
      using pipe_full_iff [OF Suc.prems(2)] pr.bounded [OF Suc.prems(2)] by simp
    show ?thesis
    proof (cases "vbyte (pmem s) ?pt (addr + of_int i)")
      case None
      then have "fst (copyin_buf ?pt (addr + of_int i) 1 s) = - 1" by (rule copyin_byte(2) [OF Suc.prems(1)])
      then have "g = Return i" "t = wakeup (ChanPipeRead pi) s"
        using Suc.prems(5) i False by (auto simp: pipewrite_from.simps [of pi addr n i] split: prod.splits)
      then show ?thesis
        using None i Suc.prems(2,3) by (intro exI [of _ "[]"]) (simp add: write_outcome_def pipe_frame_wakeup)
    next
      case (Some b)
      let ?s = "upd_pipe pi (pipe_put b) s"
      have "copyin_buf ?pt (addr + of_int i) 1 s = (0, [b])" by (rule copyin_byte(1) [OF Suc.prems(1) Some])
      then have step: "pipewrite_from pi addr n (i + 1) pr ?s = (g, t)"
        using Suc.prems(5) i False by (simp add: pipewrite_from.simps [of pi addr n i])
      have m: "m = nat (n - (i + 1))" "0 \<le> i + 1" "i + 1 \<le> n" using Suc.hyps(2) Suc.prems(3) i by linarith+
      have ok: "table (p_pagetable (procs ?s ! pr)) ?s xs" "pipe_ok (pipes ?s pi)"
        using Suc.prems(1) pr.put_inv [OF Suc.prems(2) nf] by simp_all
      obtain ws where ws: "pqueue (pipes t pi) = pqueue (pipes ?s pi) @ ws" "pipe_ok (pipes t pi)" "pipe_frame pi ?s t"
        "\<forall>k < length ws. vbyte (pmem ?s) (p_pagetable (procs ?s ! pr)) (addr + of_int (i + 1 + int k)) = Some (ws ! k)"
        "write_outcome pi addr n pr ?s (i + 1 + int (length ws)) g t"
        using Suc.hyps(1) [OF m(1) ok m(2,3) step] by blast
      have len: "i + 1 + int (length ws) = i + int (length (b # ws))" by simp
      show ?thesis
      proof (intro exI [of _ "b # ws"] conjI allI impI)
        show "pqueue (pipes t pi) = pqueue ?p @ b # ws" using ws(1) pr.put_queue [OF Suc.prems(2) nf] by simp
        show "pipe_frame pi s t" by (rule pipe_frame_upd [OF ws(3)])
        show "vbyte (pmem s) ?pt (addr + of_int (i + int k)) = Some ((b # ws) ! k)" if "k < length (b # ws)" for k
        proof (cases k)
          case (Suc j)
          have "i + int k = i + 1 + int j" by (simp add: Suc)
          then show ?thesis using ws(4) [rule_format, of j] that by (simp only: Suc) simp
        qed (use Some in simp)
        show "write_outcome pi addr n pr s (i + int (length (b # ws))) g t"
          using ws(5) unfolding write_outcome_put len .
      qed (rule ws(2))
    qed
  qed
qed


section \<open>Reading\<close>

lemma copyout_byte:
  assumes "usep pt s xs"
  shows "vaddr (pmem s) pt va = Some a \<Longrightarrow> copyout_buf pt va [b] s = (0, s\<lparr>pmem := (pmem s)(a := b)\<rparr>)"
    "vaddr (pmem s) pt va = None \<Longrightarrow> copyout_buf pt va [b] s = (- 1, s)"
proof -
  obtain r m k where c: "copyout_buf pt va [b] s = (r, s\<lparr>pmem := m\<rparr>)" "vwritten (pmem s) pt va [b] k m"
    "if r = 0 then k = length [b] else r = - 1 \<and> k < length [b] \<and> vaddr (pmem s) pt (va + of_nat k) = None"
    using copyout_buf_written [OF assms, of "[b]" va] by auto
  show "copyout_buf pt va [b] s = (0, s\<lparr>pmem := (pmem s)(a := b)\<rparr>)" if "vaddr (pmem s) pt va = Some a"
  proof -
    have r: "r = 0" "k = 1" using c(3) that by (auto split: if_splits)
    have "m = (pmem s)(a := b)" using c(2) that by (auto simp: r vwritten_def fun_eq_iff)
    then show ?thesis using c(1) r by simp
  qed
  show "copyout_buf pt va [b] s = (- 1, s)" if "vaddr (pmem s) pt va = None"
  proof -
    have r: "r = - 1" "k = 0" using c(2,3) that by (auto simp: vwritten_def split: if_splits)
    have "m = pmem s" using c(2) by (auto simp: r vwritten_def)
    then show ?thesis using c(1) r by simp
  qed
qed

text \<open>
  What a reader gets: it has taken the bytes \<open>out\<close> off the queue and stored them at its buffer. It stops
  when it has \<open>n\<close>, when the queue is empty, or at a byte of the buffer that is not mapped; the byte
  taken for that one is lost.
\<close>

definition read_outcome :: "u64 \<Rightarrow> int \<Rightarrow> int \<Rightarrow> u8 list \<Rightarrow> u8 list \<Rightarrow> memory \<Rightarrow> u64 \<Rightarrow> u8 list \<Rightarrow> bool" where
  "read_outcome addr n i q out m pt rest \<longleftrightarrow>
     (q = out @ rest \<and> (i + int (length out) = n \<or> rest = [])) \<or>
     (\<exists>c. q = out @ c # rest \<and> i + int (length out) < n \<and> vaddr m pt (addr + of_int (i + int (length out))) = None)"

lemma vwritten_Cons:
  assumes us: "usep pt s xs" and a: "vaddr (pmem s) pt va = Some a"
    and w: "vwritten ((pmem s)(a := b)) pt (va + 1) bs k m" and k: "k \<le> length bs" "length bs < 0xFFFFFFFFFFFFFFFF"
  shows "vwritten (pmem s) pt va (b # bs) (Suc k) m"
proof -
  have w1: "vwritten (pmem s) pt va (b # bs) 1 ((pmem s)(a := b))" using a by (auto simp: vwritten_def)
  show ?thesis using vwritten_append [OF us w1, of k m] w k by simp
qed

lemma piperead_loop_reads:
  assumes "usep (p_pagetable (procs s ! pr)) s xs" "pipe_ok (pipes s pi)" "0 \<le> i" "i \<le> n" "n < 0x80000000"
    and "piperead_loop pi addr n i pr s = (r, t)"
  shows "\<exists>out m. t = s\<lparr>pipes := (pipes s)(pi := pipes t pi), pmem := m\<rparr> \<and> pipe_ok (pipes t pi) \<and> r = i + int (length out) \<and> r \<le> n \<and>
    vwritten (pmem s) (p_pagetable (procs s ! pr)) (addr + of_int i) out (length out) m \<and>
    read_outcome addr n i (pqueue (pipes s pi)) out (pmem s) (p_pagetable (procs s ! pr)) (pqueue (pipes t pi))"
  using assms
proof (induction "nat (n - i)" arbitrary: i s)
  case 0
  then have "i = n" by simp
  then have "t = s" "r = n" using 0(7) by (simp_all add: piperead_loop.simps [of pi addr n n])
  then show ?case using 0 \<open>i = n\<close> by (intro exI [of _ "[]"] exI [of _ "pmem s"]) (simp add: vwritten_def read_outcome_def)
next
  case (Suc k)
  let ?pt = "p_pagetable (procs s ! pr)" and ?p = "pipes s pi"
  have i: "i < n" using Suc.hyps(2) by simp
  show ?case
  proof (cases "pi_nread ?p = pi_nwrite ?p")
    case True
    then have "t = s" "r = i" "pqueue ?p = []" using Suc.prems(6) i pipe_empty_iff by (auto simp: piperead_loop.simps [of pi addr n i])
    then show ?thesis using Suc.prems(2,4) by (intro exI [of _ "[]"] exI [of _ "pmem s"]) (simp add: vwritten_def read_outcome_def)
  next
    case False
    then have ne: "pqueue ?p \<noteq> []" using pipe_empty_iff by blast
    obtain c p where g: "pipe_get ?p = (c, p)" by force
    have q: "pqueue ?p = c # pqueue p" "pipe_ok p"
      using pr.get_queue [OF Suc.prems(2) ne] pr.get_inv [OF Suc.prems(2) ne] by (simp_all add: g)
    let ?s = "upd_pipe pi (\<lambda>_. p) s"
    have us: "usep ?pt ?s xs" using Suc.prems(1) by simp
    show ?thesis
    proof (cases "vaddr (pmem s) ?pt (addr + of_int i)")
      case None
      then have "copyout_buf ?pt (addr + of_int i) [c] ?s = (- 1, ?s)" using copyout_byte(2) [OF us] by simp
      then have "t = ?s" "r = i" using Suc.prems(6) i False by (simp_all add: piperead_loop.simps [of pi addr n i] g)
      then show ?thesis using q None i
        by (intro exI [of _ "[]"] exI [of _ "pmem s"]) (simp add: vwritten_def read_outcome_def upd_pipe_def)
    next
      case (Some a)
      let ?u = "?s\<lparr>pmem := (pmem s)(a := c)\<rparr>"
      have co: "copyout_buf ?pt (addr + of_int i) [c] ?s = (0, ?u)" using copyout_byte(1) [OF us, of "addr + of_int i" a] Some by simp
      have step: "piperead_loop pi addr n (i + 1) pr ?u = (r, t)"
        using Suc.prems(6) i False co by (simp add: piperead_loop.simps [of pi addr n i] g)
      have w1: "vwritten (pmem ?s) ?pt (addr + of_int i) [c] 1 (pmem ?u)" using Some by (auto simp: vwritten_def)
      note vu = vwritten_usep [OF us w1]
      have usu: "usep (p_pagetable (procs ?u ! pr)) ?u xs" "pipe_ok (pipes ?u pi)" using vu(1) q(2) by simp_all
      have mm: "k = nat (n - (i + 1))" "0 \<le> i + 1" "i + 1 \<le> n" using Suc.hyps(2) Suc.prems(3) i by linarith+
      obtain out m where o: "t = ?u\<lparr>pipes := (pipes ?u)(pi := pipes t pi), pmem := m\<rparr>" "pipe_ok (pipes t pi)" "r = i + 1 + int (length out)"
        "r \<le> n" "vwritten (pmem ?u) (p_pagetable (procs ?u ! pr)) (addr + of_int (i + 1)) out (length out) m"
        "read_outcome addr n (i + 1) (pqueue (pipes ?u pi)) out (pmem ?u) (p_pagetable (procs ?u ! pr)) (pqueue (pipes t pi))"
        using Suc.hyps(1) [OF mm(1) usu mm(2,3) Suc.prems(5) step] by blast
      have "int (length out) < 0x80000000" using o(3,4) Suc.prems(3,5) by linarith
      then have lo: "length out < 0xFFFFFFFFFFFFFFFF" by simp
      show ?thesis
      proof (intro exI [of _ "c # out"] exI [of _ m] conjI)
        show "t = s\<lparr>pipes := (pipes s)(pi := pipes t pi), pmem := m\<rparr>" by (subst o(1)) (simp add: upd_pipe_def)
        have "addr + of_int i + 1 = addr + (of_int (i + 1) :: u64)" by simp
        then show "vwritten (pmem s) ?pt (addr + of_int i) (c # out) (length (c # out)) m"
          using vwritten_Cons [OF Suc.prems(1) Some, of c out "length out" m] o(5) lo by (simp add: add.assoc)
        have va: "vaddr ((pmem s)(a := c)) ?pt va = vaddr (pmem s) ?pt va" for va using vu(3) by simp
        show "read_outcome addr n i (pqueue ?p) (c # out) (pmem s) ?pt (pqueue (pipes t pi))"
          using o(6) by (auto simp: read_outcome_def q(1) va algebra_simps)
      qed (use o in simp_all)
    qed
  qed
qed


section \<open>A machine with a pipe\<close>

text \<open>Process 1 with the page table and the memory of \<open>k\<close>, and a pipe that holds the bytes \<open>bs\<close>.\<close>

definition demo_pipe :: "u8 list \<Rightarrow> pipe" where
  "demo_pipe bs = \<lparr>pi_data = bs @ replicate (PIPESIZE - length bs) 0, pi_nread = 0, pi_nwrite = of_nat (length bs),
     pi_readopen = True, pi_writeopen = True\<rparr>"

definition demo_pipest :: "kmem \<Rightarrow> u8 list \<Rightarrow> pipest" where
  "demo_pipest k bs = logst.extend (demo_idle\<lparr>pmem := pmem k, freelist := freelist k, kend := kend k,
       procs := [demo_proc\<lparr>p_pagetable := demo_root\<rparr>]\<rparr>)
     \<lparr>sb = demo_sb, icache = [], pipes = \<lambda>_. demo_pipe bs\<rparr>"

lemma demo_pipest_fields [simp]:
  "pmem (demo_pipest k bs) = pmem k" "freelist (demo_pipest k bs) = freelist k" "kend (demo_pipest k bs) = kend k"
  "procs (demo_pipest k bs) = [demo_proc\<lparr>p_pagetable := demo_root\<rparr>]" "pipes (demo_pipest k bs) pi = demo_pipe bs"
  "cur (demo_pipest k bs) = Some 0"
  by (simp_all add: demo_pipest_def logst.defs fsst.defs pipest.defs demo_idle_def reboot_alt demo_log_def)

lemma demo_pipest_usep: "usep demo_root k xs \<Longrightarrow> usep demo_root (demo_pipest k bs) xs"
  by (simp add: usep_def pt_wf_def free_pages_def managed_def)

lemma demo_pipe_ok:
  assumes "length bs \<le> PIPESIZE" shows "pipe_ok (demo_pipe bs)" "pqueue (demo_pipe bs) = bs"
proof -
  have n: "unat (of_nat (length bs) :: u32) = length bs" using assms by (intro unat_of_nat_u32) simp
  then show "pipe_ok (demo_pipe bs)" using assms by (simp add: pipe_ok_def demo_pipe_def)
  show "pqueue (demo_pipe bs) = bs"
    by (rule nth_equalityI) (use assms n in \<open>auto simp: pqueue_def demo_pipe_def nth_ring_slice nth_append\<close>)
qed



end
