(* ===== verification/ConsoleRing.thy ===== *)
theory ConsoleRing
  imports Console PipeQueue
begin

text \<open>
  The rings of the console. The transmit buffer of the serial port is a queue whose bytes reach the
  transmit register in order. The input ring holds the lines a reader may take, from \<open>r\<close> to \<open>w\<close>, and
  the line being edited, from \<open>w\<close> to \<open>e\<close>; \<open>consoleintr\<close> is shown to be the usual line discipline on them.
\<close>

section \<open>Transmit buffer\<close>

definition uart_ok :: "'a uartst_scheme \<Rightarrow> bool" where
  "uart_ok s \<longleftrightarrow> length (uart_tx_buf s) = UART_TX_BUF_SIZE \<and> uart_tx_w s < UART_TX_BUF_SIZE \<and> uart_tx_r s < UART_TX_BUF_SIZE"

definition uqueue :: "'a uartst_scheme \<Rightarrow> u8 list" where
  "uqueue s = ring_slice (uart_tx_buf s) (uart_tx_r s) ((uart_tx_w s + UART_TX_BUF_SIZE - uart_tx_r s) mod UART_TX_BUF_SIZE)"

definition tx_put :: "u8 \<Rightarrow> 'a uartst_scheme \<Rightarrow> 'a uartst_scheme" where
  "tx_put c s = s\<lparr>uart_tx_buf := (uart_tx_buf s)[uart_tx_w s := c], uart_tx_w := (uart_tx_w s + 1) mod UART_TX_BUF_SIZE\<rparr>"

definition tx_get :: "'a uartst_scheme \<Rightarrow> u8 \<times> 'a uartst_scheme" where
  "tx_get s = (uart_tx_buf s ! uart_tx_r s, s\<lparr>uart_tx_r := (uart_tx_r s + 1) mod UART_TX_BUF_SIZE\<rparr>)"

lemma tx_count:
  fixes w r :: nat
  assumes "w < 32" "r < 32"
  shows "(w + 32 - r) mod 32 = (if r \<le> w then w - r else w + 32 - r)"
  using assms by (auto simp: mod_if)

lemma tx_index: "w < 32 \<Longrightarrow> r < 32 \<Longrightarrow> (r + (w + 32 - r) mod 32) mod 32 = w" for w r :: nat
  by (simp add: tx_count mod_if)

lemma tx_full: "w < 32 \<Longrightarrow> r < 32 \<Longrightarrow> (w + 1) mod 32 = r \<longleftrightarrow> (w + 32 - r) mod 32 = 31" for w r :: nat
  by (auto simp: tx_count mod_if)

lemma tx_count_put:
  "w < 32 \<Longrightarrow> r < 32 \<Longrightarrow> (w + 32 - r) mod 32 < 31 \<Longrightarrow> ((w + 1) mod 32 + 32 - r) mod 32 = Suc ((w + 32 - r) mod 32)" for w r :: nat
  by (auto simp: tx_count mod_if split: if_splits)

lemma tx_count_get:
  "w < 32 \<Longrightarrow> r < 32 \<Longrightarrow> w \<noteq> r \<Longrightarrow> (w + 32 - r) mod 32 = Suc ((w + 32 - (r + 1) mod 32) mod 32)" for w r :: nat
  by (auto simp: tx_count mod_if split: if_splits)

lemma uqueue_empty: "uart_ok s \<Longrightarrow> uart_tx_w s = uart_tx_r s \<longleftrightarrow> uqueue s = []"
proof -
  assume "uart_ok s"
  then have "(uart_tx_w s + 32 - uart_tx_r s) mod 32 = 0 \<longleftrightarrow> uart_tx_w s = uart_tx_r s"
    by (auto simp: uart_ok_def tx_count split: if_splits)
  moreover have "uqueue s = [] \<longleftrightarrow> length (uqueue s) = 0" by simp
  ultimately show ?thesis by (simp add: uqueue_def)
qed

interpretation tx: byte_ring uart_ok uqueue 31 tx_put tx_get
proof
  fix s :: "'a uartst_scheme" and c
  assume ok: "uart_ok s"
  let ?n = "(uart_tx_w s + 32 - uart_tx_r s) mod 32"
  have o: "length (uart_tx_buf s) = 32" "uart_tx_w s < 32" "uart_tx_r s < 32" using ok by (auto simp: uart_ok_def)
  have "?n < 32" by simp
  then show "length (uqueue s) \<le> 31" by (simp add: uqueue_def)
  {
    assume "length (uqueue s) < 31"
    then have n: "?n < 31" by (simp add: uqueue_def)
    show "uqueue (tx_put c s) = uqueue s @ [c]"
      using ring_slice_put [of ?n "uart_tx_buf s" "uart_tx_r s" c] n o
      by (simp add: uqueue_def tx_put_def tx_index tx_count_put [simplified])
    show "uart_ok (tx_put c s)" using o by (simp add: uart_ok_def tx_put_def)
  }
  assume "uqueue s \<noteq> []"
  then have "uart_tx_w s \<noteq> uart_tx_r s" using uqueue_empty [OF ok] by blast
  note cg = tx_count_get [OF o(2,3) this]
  have "ring_slice (uart_tx_buf s) (Suc (uart_tx_r s)) m = ring_slice (uart_tx_buf s) (Suc (uart_tx_r s) mod 32) m" for m
    using ring_slice_mod [of "uart_tx_buf s" "Suc (uart_tx_r s)" m] o(1) by simp
  then show "uqueue s = fst (tx_get s) # uqueue (snd (tx_get s))"
    using o cg by (simp add: uqueue_def tx_get_def ring_slice_get)
  show "uart_ok (snd (tx_get s))" using o by (simp add: uart_ok_def tx_get_def)
qed

text \<open>The fields of the driver do not depend on who is asleep or what the device has answered.\<close>

lemma uart_views [simp]:
  "uart_ok (wakeup c s) = uart_ok s" "uqueue (wakeup c s) = uqueue s"
  "uart_ok (WriteReg r v s) = uart_ok s" "uqueue (WriteReg r v s) = uqueue s"
  "uart_ok (s\<lparr>uart_idle := bs\<rparr>) = uart_ok s" "uqueue (s\<lparr>uart_idle := bs\<rparr>) = uqueue s"
  by (simp_all add: uart_ok_def uqueue_def wakeup_def WriteReg_def)

lemma uart_wr_simps [simp]:
  "uart_wr (wakeup ch s) = uart_wr s" "uart_idle (wakeup ch s) = uart_idle s" "uart_wr (snd (tx_get s)) = uart_wr s"
  "uart_idle (snd (tx_get s)) = uart_idle s" "uart_wr (tx_put c s) = uart_wr s" "uart_idle (tx_put c s) = uart_idle s"
  "uart_wr (WriteReg r v s) = uart_wr s @ [(r, v)]" "uart_idle (WriteReg r v s) = uart_idle s"
  "panicked (tx_put c s) = panicked s"
  by (simp_all add: wakeup_def tx_get_def tx_put_def WriteReg_def)

text \<open>\<open>uartstart\<close> sends as many queued bytes as the device accepts.\<close>

lemma uartstart_sends:
  assumes "uart_ok s"
  defines "out \<equiv> take (length (takeWhile id (uart_idle s))) (uqueue s)"
  shows "uart_ok (uartstart s) \<and> uqueue s = out @ uqueue (uartstart s) \<and> uart_wr (uartstart s) = uart_wr s @ map (Pair THR) out"
  using assms(1) unfolding out_def
proof (induction "length (uart_idle s)" arbitrary: s rule: less_induct)
  case less
  show ?case
  proof (cases "uqueue s = [] \<or> uart_idle s = [] \<or> \<not> hd (uart_idle s)")
    case True
    then have "uart_ok (uartstart s) \<and> uqueue (uartstart s) = uqueue s \<and> uart_wr (uartstart s) = uart_wr s"
      using less.prems uqueue_empty [OF less.prems]
      by (auto simp: uartstart.simps [of s] tx_idle_def split: list.splits)
    then show ?thesis using True by (cases "uart_idle s") auto
  next
    case False
    then obtain bs where bs: "uart_idle s = True # bs" by (cases "uart_idle s") auto
    let ?s = "s\<lparr>uart_idle := bs\<rparr>"
    obtain c u where g: "tx_get ?s = (c, u)" by force
    have ok: "uart_ok ?s" "uqueue ?s \<noteq> []" using less.prems False by simp_all
    have q: "uqueue s = c # uqueue u" "uart_ok u" using tx.get_queue [OF ok] tx.get_inv [OF ok] by (simp_all add: g)
    let ?u = "WriteReg THR c (wakeup ChanUartTx u)"
    have u: "uart_idle u = bs" "uart_wr u = uart_wr s" using g by (auto simp: tx_get_def)
    have "uartstart s = uartstart ?u"
      using uqueue_empty [OF less.prems] False bs g
      by (auto simp: uartstart.simps [of s] tx_idle_def tx_get_def Let_def)
    then show ?thesis using less.hyps [of ?u] q bs u by simp
  qed
qed


section \<open>Input ring\<close>

text \<open>The invariant \<open>r \<le> w \<le> e \<le> r + 128\<close> of the free-running indices, and the two parts of the ring.\<close>

definition cons_ok :: "'a consst_scheme \<Rightarrow> bool" where
  "cons_ok s \<longleftrightarrow> length (cons_buf s) = INPUT_BUF \<and> unat (cons_w s - cons_r s) + unat (cons_e s - cons_w s) \<le> INPUT_BUF"

definition committed :: "'a consst_scheme \<Rightarrow> u8 list" where
  "committed s = ring_slice (cons_buf s) (unat (cons_r s)) (unat (cons_w s - cons_r s))"

definition editing :: "'a consst_scheme \<Rightarrow> u8 list" where
  "editing s = ring_slice (cons_buf s) (unat (cons_w s)) (unat (cons_e s - cons_w s))"

lemma cons_views_cong:
  assumes "cons_buf t = cons_buf s" "cons_r t = cons_r s" "cons_w t = cons_w s" "cons_e t = cons_e s"
  shows "cons_ok t = cons_ok s" "committed t = committed s" "editing t = editing s"
  using assms by (simp_all add: cons_ok_def committed_def editing_def)

lemma consputc_Ok:
  assumes "\<not> panicked s"
  shows "\<exists>ws. consputc c s = Ok (s\<lparr>uart_wr := uart_wr s @ ws\<rparr>)"
  using assms by (cases c) (auto simp: uartputc_sync_def WriteReg_def)

lemma u32_diff_add:
  fixes e w r :: u32
  assumes "unat (w - r) + unat (e - w) < 4294967296" shows "unat (e - r) = unat (w - r) + unat (e - w)"
proof -
  have "e - r = (w - r) + (e - w)" by simp
  then show ?thesis using assms by (simp only: unat_word_ariths) simp
qed

lemma cons_index: "unat ((x + of_nat i) mod 128) = (unat x + i) mod 128" for x :: u32
  using unat_mod_u32 [of 128 7 x i] by simp

text \<open>The whole ring, from \<open>r\<close> to \<open>e\<close>, is the committed lines and the line being edited.\<close>

lemma ring_slice_append: "ring_slice buf a (m + n) = ring_slice buf a m @ ring_slice buf (a + m) n"
  by (rule nth_equalityI) (auto simp: nth_ring_slice nth_append add.assoc)

lemma cons_split:
  assumes "cons_ok s"
  shows "ring_slice (cons_buf s) (unat (cons_r s)) (unat (cons_e s - cons_r s)) = committed s @ editing s"
    "unat (cons_e s - cons_r s) = length (committed s) + length (editing s)"
proof -
  let ?m = "unat (cons_w s - cons_r s)" and ?n = "unat (cons_e s - cons_w s)"
  have l: "length (cons_buf s) = 128" "?m + ?n \<le> 128" using assms by (simp_all add: cons_ok_def)
  have d: "unat (cons_e s - cons_r s) = ?m + ?n" using l(2) by (intro u32_diff_add) simp
  have "(unat (cons_r s) + ?m) mod 128 = unat (cons_w s) mod 128"
    using cons_index [of "cons_r s" ?m] by (simp add: unat_mod)
  then have "ring_slice (cons_buf s) (unat (cons_r s) + ?m) ?n = ring_slice (cons_buf s) (unat (cons_w s)) ?n"
    using l(1) by (intro ring_slice_cong_mod) simp
  then show "ring_slice (cons_buf s) (unat (cons_r s)) (unat (cons_e s - cons_r s)) = committed s @ editing s"
    by (simp add: d ring_slice_append committed_def editing_def)
  show "unat (cons_e s - cons_r s) = length (committed s) + length (editing s)"
    by (simp add: d committed_def editing_def)
qed

definition cons_put :: "u8 \<Rightarrow> 'a consst_scheme \<Rightarrow> 'a consst_scheme" where
  "cons_put c s = s\<lparr>cons_buf := (cons_buf s)[unat (cons_e s mod 128) := c], cons_e := cons_e s + 1\<rparr>"

lemma cons_put_views:
  assumes ok: "cons_ok s" and room: "length (committed s) + length (editing s) < INPUT_BUF"
  shows "cons_ok (cons_put c s)" "committed (cons_put c s) = committed s" "editing (cons_put c s) = editing s @ [c]"
proof -
  let ?t = "cons_put c s" and ?k = "unat (cons_e s - cons_r s)"
  note sp = cons_split [OF ok]
  have l: "length (cons_buf s) = 128" using ok by (simp add: cons_ok_def)
  have k: "?k < 128" using room sp(2) by simp
  have ne: "unat (cons_e s - cons_w s) < 128" using room by (simp add: editing_def)
  then have d: "unat (cons_e s + 1 - cons_w s) = Suc (unat (cons_e s - cons_w s))" using u32_diff_Suc [of "cons_e s" "cons_w s"] by simp
  have f: "cons_w ?t = cons_w s" "cons_r ?t = cons_r s" "cons_e ?t = cons_e s + 1" "length (cons_buf ?t) = 128"
    using l by (simp_all add: cons_put_def)
  show okt: "cons_ok ?t" unfolding cons_ok_def using f d room by (simp add: committed_def editing_def)
  have e: "unat (cons_e s mod 128) = (unat (cons_r s) + ?k) mod 128" using cons_index [of "cons_r s" ?k] by simp
  have "unat (cons_e s + 1 - cons_r s) = Suc ?k" using u32_diff_Suc [of "cons_e s" "cons_r s"] k by simp
  then have "ring_slice (cons_buf ?t) (unat (cons_r ?t)) (unat (cons_e ?t - cons_r ?t)) = (committed s @ editing s) @ [c]"
    using ring_slice_put [of ?k "cons_buf s" "unat (cons_r s)" c] k l sp(1) e by (simp add: f cons_put_def)
  then have "committed ?t @ editing ?t = committed s @ (editing s @ [c])" using cons_split(1) [OF okt] by simp
  moreover have "length (committed ?t) = length (committed s)" by (simp add: committed_def f)
  ultimately show "committed ?t = committed s" "editing ?t = editing s @ [c]" by (simp_all add: append_eq_append_conv)
qed

lemma cons_commit_views:
  assumes "cons_ok s"
  shows "cons_ok (s\<lparr>cons_w := cons_e s\<rparr>)" "committed (s\<lparr>cons_w := cons_e s\<rparr>) = committed s @ editing s" "editing (s\<lparr>cons_w := cons_e s\<rparr>) = []"
  using cons_split [OF assms] assms by (simp_all add: cons_ok_def committed_def editing_def)

lemma editing_empty: "cons_e s = cons_w s \<longleftrightarrow> editing s = []"
proof -
  have "editing s = [] \<longleftrightarrow> length (editing s) = 0" by simp
  also have "\<dots> \<longleftrightarrow> cons_e s - cons_w s = 0" by (simp add: editing_def unat_eq_0)
  finally show ?thesis by auto
qed

lemma cons_back_views:
  assumes ok: "cons_ok s" and ne: "cons_e s \<noteq> cons_w s"
  shows "cons_ok (s\<lparr>cons_e := cons_e s - 1\<rparr>)" "committed (s\<lparr>cons_e := cons_e s - 1\<rparr>) = committed s"
    "editing s = editing (s\<lparr>cons_e := cons_e s - 1\<rparr>) @ [cons_at (cons_e s - 1) s]"
proof -
  let ?n = "unat (cons_e s - 1 - cons_w s)"
  have l: "length (cons_buf s) = 128" using ok by (simp add: cons_ok_def)
  have eq: "cons_e s - 1 - cons_w s = cons_e s - cons_w s - 1" and nz: "cons_e s - cons_w s \<noteq> 0" using ne by simp_all
  have "0 < unat (cons_e s - cons_w s)" using nz unat_gt_0 [of "cons_e s - cons_w s"] by blast
  then have d: "unat (cons_e s - cons_w s) = Suc ?n" using unat_minus_one [OF nz] unfolding eq by linarith
  show "cons_ok (s\<lparr>cons_e := cons_e s - 1\<rparr>)" using ok d by (simp add: cons_ok_def)
  show "committed (s\<lparr>cons_e := cons_e s - 1\<rparr>) = committed s" by (simp add: committed_def)
  have "unat ((cons_e s - 1) mod 128) = (unat (cons_w s) + ?n) mod 128" using cons_index [of "cons_w s" ?n] by simp
  then show "editing s = editing (s\<lparr>cons_e := cons_e s - 1\<rparr>) @ [cons_at (cons_e s - 1) s]"
    using ring_slice_append [of "cons_buf s" "unat (cons_w s)" ?n 1] l
    by (simp add: editing_def d cons_at_def ring_slice_def)
qed

text \<open>Control-U empties the line: no newline is ever left in the part being edited.\<close>

lemma kill_line_empties:
  assumes "cons_ok s" "\<not> panicked s" "10 \<notin> set (editing s)"
  shows "\<exists>ws. kill_line s = Ok (s\<lparr>cons_e := cons_w s, uart_wr := uart_wr s @ ws\<rparr>)"
  using assms
proof (induction "length (editing s)" arbitrary: s)
  case 0
  then have "cons_e s = cons_w s" using editing_empty by auto
  then show ?case by (intro exI [of _ "[]"]) (simp add: kill_line.simps [of s])
next
  case (Suc n)
  let ?s = "s\<lparr>cons_e := cons_e s - 1\<rparr>"
  have ne: "cons_e s \<noteq> cons_w s" using Suc.hyps(2) editing_empty [of s] by auto
  note b = cons_back_views [OF Suc.prems(1) ne]
  have nl: "cons_at (cons_e s - 1) s \<noteq> 10" using Suc.prems(3) b(3) by (metis in_set_conv_decomp)
  obtain ws where ws: "consputc BACKSPACE ?s = Ok (?s\<lparr>uart_wr := uart_wr ?s @ ws\<rparr>)"
    using consputc_Ok [of ?s BACKSPACE] Suc.prems(2) by auto
  let ?t = "?s\<lparr>uart_wr := uart_wr ?s @ ws\<rparr>"
  have v: "cons_ok ?t" "editing ?t = editing ?s" "\<not> panicked ?t"
    using b(1) Suc.prems(2) by (simp_all add: cons_ok_def editing_def)
  have n: "n = length (editing ?t)" using Suc.hyps(2) b(3) v(2) by (metis length_append_singleton nat.inject)
  have "10 \<notin> set (editing ?t)" using Suc.prems(3) b(3) v(2) by (metis Un_iff set_append)
  from Suc.hyps(1) [OF n v(1,3) this] obtain vs where
    "kill_line ?t = Ok (?t\<lparr>cons_e := cons_w ?t, uart_wr := uart_wr ?t @ vs\<rparr>)" by blast
  then show ?case using ne nl ws by (intro exI [of _ "ws @ vs"]) (simp add: kill_line.simps [of s] del: consputc.simps)
qed

text \<open>Printing changes nothing but the list of register writes.\<close>

lemma consputs_Ok: "\<not> panicked s \<Longrightarrow> \<exists>ws. consputs cs s = Ok (s\<lparr>uart_wr := uart_wr s @ ws\<rparr>)"
proof (induction cs arbitrary: s)
  case Nil
  then show ?case by (intro exI [of _ "[]"]) simp
next
  case (Cons c cs)
  obtain ws where ws: "consputc (Char c) s = Ok (s\<lparr>uart_wr := uart_wr s @ ws\<rparr>)" using consputc_Ok [OF Cons.prems] by blast
  obtain vs where "consputs cs (s\<lparr>uart_wr := uart_wr s @ ws\<rparr>) = Ok (s\<lparr>uart_wr := (uart_wr s @ ws) @ vs\<rparr>)"
    using Cons.IH [of "s\<lparr>uart_wr := uart_wr s @ ws\<rparr>"] Cons.prems by auto
  then show ?case using ws by (intro exI [of _ "ws @ vs"]) (simp del: consputc.simps)
qed

lemma printf_Ok:
  "printf_bytes fmt args = Ok out \<Longrightarrow> \<not> panicked s \<Longrightarrow> \<exists>ws. printf fmt args s = Ok (s\<lparr>uart_wr := uart_wr s @ ws\<rparr>)"
  using consputs_Ok [of s out] by (simp add: printf_def)

lemma procdump_Ok:
  assumes "\<not> panicked s" shows "\<exists>ws. procdump s = Ok (s\<lparr>uart_wr := uart_wr s @ ws\<rparr>)"
proof -
  have loop: "\<exists>ws. procdump_loop ps s = Ok (s\<lparr>uart_wr := uart_wr s @ ws\<rparr>)" if "\<not> panicked s" for ps and s :: "'a uartst_scheme"
    using that
  proof (induction ps arbitrary: s)
    case Nil
    then show ?case by (intro exI [of _ "[]"]) simp
  next
    case (Cons p ps)
    show ?case
    proof (cases "p_state p = UNUSED")
      case True
      then show ?thesis using Cons by simp
    next
      case False
      let ?args = "[PInt (word_of_int (p_pid p)), PStr (Some (state_name (p_state p))), PStr (Some (p_name p))]"
      have "\<exists>out. printf_bytes [37, 100, 32, 37, 115, 32, 37, 115] ?args = Ok out" by simp
      then obtain ws where ws: "printf [37, 100, 32, 37, 115, 32, 37, 115] ?args s = Ok (s\<lparr>uart_wr := uart_wr s @ ws\<rparr>)"
        using printf_Ok Cons.prems by blast
      let ?t = "s\<lparr>uart_wr := uart_wr s @ ws\<rparr>"
      have "printf_bytes [10] [] = Ok [10]" by simp
      then obtain vs where vs: "printf [10] [] ?t = Ok (?t\<lparr>uart_wr := uart_wr ?t @ vs\<rparr>)" using printf_Ok [of _ _ _ ?t] Cons.prems by fastforce
      let ?u = "?t\<lparr>uart_wr := uart_wr ?t @ vs\<rparr>"
      obtain us where "procdump_loop ps ?u = Ok (?u\<lparr>uart_wr := uart_wr ?u @ us\<rparr>)" using Cons.IH [of ?u] Cons.prems by auto
      then show ?thesis using False ws vs by (intro exI [of _ "ws @ vs @ us"]) simp
    qed
  qed
  have "printf_bytes [10] [] = Ok [10]" by simp
  then obtain ws where ws: "printf [10] [] s = Ok (s\<lparr>uart_wr := uart_wr s @ ws\<rparr>)" using printf_Ok assms by blast
  let ?t = "s\<lparr>uart_wr := uart_wr s @ ws\<rparr>"
  obtain vs where "procdump_loop (procs ?t) ?t = Ok (?t\<lparr>uart_wr := uart_wr ?t @ vs\<rparr>)" using loop [of ?t] assms by auto
  then show ?thesis using ws by (intro exI [of _ "ws @ vs"]) (simp add: procdump_def)
qed

text \<open>The line discipline on the lines a reader may take and the line being edited.\<close>

definition discipline :: "u8 \<Rightarrow> u8 list \<times> u8 list \<Rightarrow> u8 list \<times> u8 list" where
  "discipline c st =
     (case st of (done, line) \<Rightarrow>
        if c = 16 then (done, line)
        else if c = 21 then (done, [])
        else if c = 8 \<or> c = 127 then (done, butlast line)
        else if c \<noteq> 0 \<and> length done + length line < INPUT_BUF then
          let c = (if c = 13 then 10 else c); line = line @ [c]
          in if c = 10 \<or> c = 4 \<or> length done + length line = INPUT_BUF then (done @ line, []) else (done, line)
        else (done, line))"

definition line_ok :: "'a consst_scheme \<Rightarrow> bool" where
  "line_ok s \<longleftrightarrow> cons_ok s \<and> \<not> panicked s \<and> 10 \<notin> set (editing s) \<and> 4 \<notin> set (editing s)"

lemma cons_uart_wr [simp]:
  "cons_ok (s\<lparr>uart_wr := x\<rparr>) = cons_ok s" "committed (s\<lparr>uart_wr := x\<rparr>) = committed s" "editing (s\<lparr>uart_wr := x\<rparr>) = editing s"
  by (simp_all add: cons_ok_def committed_def editing_def)

lemma cons_wakeup [simp]:
  "cons_ok (wakeup ch s) = cons_ok s" "committed (wakeup ch s) = committed s" "editing (wakeup ch s) = editing s"
  "panicked (wakeup ch s) = panicked s"
  by (simp_all add: cons_ok_def committed_def editing_def wakeup_def)

text \<open>A character that is stored: it joins the line, or completes it.\<close>

lemma consoleintr_store:
  assumes ok: "line_ok s" and c: "c \<noteq> 16" "c \<noteq> 21" "c \<noteq> 8" "c \<noteq> 127" "c \<noteq> 0"
    and room: "length (committed s) + length (editing s) < INPUT_BUF"
  shows "\<exists>t. consoleintr c s = Ok t \<and> line_ok t \<and> (committed t, editing t) = discipline c (committed s, editing s) \<and>
    (committed t \<noteq> committed s \<longrightarrow> \<not> asleep_on ChanCons t)"
proof -
  define d where "d = (if c = 13 then 10 else c)"
  have co: "cons_ok s" "\<not> panicked s" using ok by (simp_all add: line_ok_def)
  obtain ws where ws: "consputc (Char d) s = Ok (s\<lparr>uart_wr := uart_wr s @ ws\<rparr>)" using consputc_Ok [OF co(2)] by blast
  let ?u = "s\<lparr>uart_wr := uart_wr s @ ws\<rparr>"
  let ?v = "cons_put d ?u"
  have v: "cons_ok ?v" "committed ?v = committed s" "editing ?v = editing s @ [d]"
    using cons_put_views [of ?u d] co(1) room by simp_all
  have sp: "unat (cons_e s - cons_r s) = length (committed s) + length (editing s)" by (rule cons_split(2) [OF co(1)])
  then have lt: "cons_e s - cons_r s < 128" using room by (simp add: word_less_nat_alt)
  have "cons_e s + 1 = cons_r s + 128 \<longleftrightarrow> cons_e s - cons_r s = 127" by (auto simp: algebra_simps)
  also have "\<dots> \<longleftrightarrow> unat (cons_e s - cons_r s) = unat (127 :: u32)" by (simp only: word_unat_eq_iff)
  finally have full: "cons_e ?v = cons_r ?v + 128 \<longleftrightarrow> length (committed s) + length (editing s) = 127" by (simp add: sp cons_put_def)
  have step: "consoleintr c s = (if d = 10 \<or> d = 4 \<or> cons_e ?v = cons_r ?v + 128
      then Ok (wakeup ChanCons (?v\<lparr>cons_w := cons_e ?v\<rparr>)) else Ok ?v)"
    using c lt ws by (simp add: consoleintr_def d_def [symmetric] cons_put_def Let_def del: consputc.simps)
  have dis: "discipline c (committed s, editing s) = (if d = 10 \<or> d = 4 \<or> length (committed s) + length (editing s) = 127
      then (committed s @ editing s @ [d], []) else (committed s, editing s @ [d]))"
    using c room by (simp add: discipline_def d_def Let_def)
  have pv: "\<not> panicked ?v" using co(2) by (simp add: cons_put_def)
  show ?thesis
  proof (cases "d = 10 \<or> d = 4 \<or> length (committed s) + length (editing s) = 127")
    case True
    note w = cons_commit_views [OF v(1)]
    show ?thesis unfolding step dis full using True v w pv by (simp add: line_ok_def)
  next
    case False
    show ?thesis unfolding step dis full using False v pv ok by (simp add: line_ok_def)
  qed
qed

text \<open>
  C25. Console input. From any state with \<open>r \<le> w \<le> e \<le> r + 128\<close> (modulo \<open>2 ^ 32\<close>) and no line end in the line being edited,
  \<open>consoleintr\<close> keeps that invariant and acts as the line discipline: erase one, erase the line, append, and
  on newline, control-D or a full ring hand the line over and wake every waiting reader.
\<close>

theorem consoleintr_discipline:
  assumes "line_ok s"
  shows "\<exists>t. consoleintr c s = Ok t \<and> line_ok t \<and> (committed t, editing t) = discipline c (committed s, editing s) \<and>
    (committed t \<noteq> committed s \<longrightarrow> \<not> asleep_on ChanCons t)"
proof -
  have ok: "cons_ok s" "\<not> panicked s" "10 \<notin> set (editing s)" using assms by (simp_all add: line_ok_def)
  consider (dump) "c = 16" | (kill) "c = 21" | (erase) "c = 8 \<or> c = 127" "c \<noteq> 16" "c \<noteq> 21"
    | (store) "c \<noteq> 16" "c \<noteq> 21" "c \<noteq> 8" "c \<noteq> 127" "c \<noteq> 0" "length (committed s) + length (editing s) < INPUT_BUF"
    | (skip) "c \<noteq> 16" "c \<noteq> 21" "c \<noteq> 8" "c \<noteq> 127" "c = 0 \<or> \<not> length (committed s) + length (editing s) < INPUT_BUF"
    by blast
  then show ?thesis
  proof cases
    case dump
    then show ?thesis using procdump_Ok [OF ok(2)] assms by (auto simp: consoleintr_def discipline_def line_ok_def)
  next
    case kill
    obtain ws where "kill_line s = Ok (s\<lparr>cons_e := cons_w s, uart_wr := uart_wr s @ ws\<rparr>)" using kill_line_empties [OF ok] by blast
    then show ?thesis using kill ok by (simp add: consoleintr_def discipline_def line_ok_def cons_ok_def committed_def editing_def)
  next
    case erase
    show ?thesis
    proof (cases "cons_e s = cons_w s")
      case True
      then show ?thesis using erase assms editing_empty [of s] by (auto simp: consoleintr_def discipline_def)
    next
      case False
      let ?s = "s\<lparr>cons_e := cons_e s - 1\<rparr>"
      note b = cons_back_views [OF ok(1) False]
      obtain ws where ws: "consputc BACKSPACE ?s = Ok (?s\<lparr>uart_wr := uart_wr ?s @ ws\<rparr>)" using consputc_Ok [of ?s BACKSPACE] ok(2) by auto
      have "editing ?s = butlast (editing s)" by (subst b(3)) simp
      moreover have "set (butlast (editing s)) \<subseteq> set (editing s)" by (auto dest: in_set_butlastD)
      moreover have "consoleintr c s = Ok (?s\<lparr>uart_wr := uart_wr ?s @ ws\<rparr>)"
        using erase False ws by (auto simp: consoleintr_def simp del: consputc.simps)
      ultimately show ?thesis using erase b(1,2) assms by (auto simp: discipline_def line_ok_def)
    qed
  next
    case store
    then show ?thesis by (rule consoleintr_store [OF assms])
  next
    case skip
    have "cons_e s - cons_r s < 128 \<longleftrightarrow> length (committed s) + length (editing s) < INPUT_BUF"
      using cons_split(2) [OF ok(1)] by (simp add: word_less_nat_alt)
    then show ?thesis using skip assms by (auto simp: consoleintr_def discipline_def)
  qed
qed

section \<open>A console in use\<close>

text \<open>Two bytes wait for the transmitter, which accepts one; the reader has a line to take, and \<open>a\<close> is being edited.\<close>

definition demo_cons :: consst where
  "demo_cons = logst.extend demo_idle
     \<lparr>sb = demo_sb, icache = [], pipes = \<lambda>_. demo_pipe [], ftable = [],
      uart_tx_buf = [65, 66] @ replicate 30 0, uart_tx_w = 2, uart_tx_r = 0, uart_idle = [True, False], uart_in = [], uart_wr = [],
      panicked = False, cons_buf = [104, 105, 10, 97] @ replicate 124 0, cons_r = 0, cons_w = 3, cons_e = 4\<rparr>"

lemma demo_cons_ok:
  "uart_ok demo_cons" "\<not> panicked demo_cons" "uqueue demo_cons = [65, 66]" "uart_idle demo_cons = [True, False]"
  "line_ok demo_cons" "committed demo_cons = [104, 105, 10]" "editing demo_cons = [97]"
proof -
  show u: "uart_ok demo_cons" "\<not> panicked demo_cons" "uqueue demo_cons = [65, 66]" "uart_idle demo_cons = [True, False]"
    by (simp_all add: demo_cons_def logst.defs uart_ok_def uqueue_def ring_slice_def upt_rec)
  show e: "committed demo_cons = [104, 105, 10]" "editing demo_cons = [97]"
    by (simp_all add: demo_cons_def logst.defs committed_def editing_def ring_slice_def upt_rec)
  show "line_ok demo_cons" using u(2) e by (simp add: line_ok_def) (simp add: demo_cons_def logst.defs cons_ok_def)
qed


theorem consoleintr_discipline_witness:
  "\<exists>t. consoleintr 13 demo_cons = Ok t \<and> committed t = [104, 105, 10, 97, 10] \<and> editing t = []"
  using consoleintr_discipline [OF demo_cons_ok(5), of 13] by (auto simp: demo_cons_ok discipline_def)

end
