(* ===== verification/FsAlloc.thy ===== *)
theory FsAlloc
  imports Fs Transaction
begin

text \<open>
  The block allocator of the file system inside a transaction: \<open>balloc\<close> finds the first free block, marks it
  and zeroes it; \<open>bfree\<close> gives a block back. Blocks are seen through \<open>content\<close>, the store of theory
  Transaction, and the steps are those of \<open>tx_step\<close>.
\<close>

section \<open>File-system state across block operations\<close>

lemma bio_frame_fs: "bio_frame s t \<Longrightarrow> sb t = sb s \<and> icache t = icache (s :: 'a fsst_scheme)"
  by (auto simp: bio_frame_def)

lemma tx_frame_fs: "tx_frame s t \<Longrightarrow> sb t = sb s \<and> icache t = icache (s :: 'a fsst_scheme)"
  unfolding tx_frame_def using bio_frame_fs by fastforce

lemma tx_step_fs:
  assumes "tx_step dev s B c H t"
  shows "sb t = sb s" "icache t = icache (s :: 'a fsst_scheme)"
  using tx_frame_fs [OF tx_stepD(2) [OF assms]] by auto

text \<open>How full the log is, and what one more block needs.\<close>

abbreviation nlogged :: "'a logst_scheme \<Rightarrow> nat" where
  "nlogged s \<equiv> card (set (logged s))"

lemma tx_step_card:
  assumes "tx_step dev s B c H t" "finite B"
  shows "nlogged t \<le> nlogged s + card B"
  unfolding tx_stepD(3) [OF assms(1)] using card_Un_le [of "set (logged s)" B] by simp

lemma spare_buffer:
  assumes "nlogged s + card H < NBUF"
  shows "card (set (logged s) \<union> H) < NBUF"
  using assms card_Un_le [of "set (logged s)" H] by simp

text \<open>A block read, possibly changed and logged, and released.\<close>

definition visit :: "u32 \<Rightarrow> u32 set \<Rightarrow> 'a fsst_scheme \<Rightarrow> u32 \<Rightarrow> nat \<Rightarrow> 'a fsst_scheme \<Rightarrow> bool" where
  "visit dev H s n i t \<longleftrightarrow> b_data (bufs t ! i) = content dev s n \<and> sb t = sb s \<and> icache t = icache s \<and>
     (\<exists>u. brelse i t = Ok u \<and> tx_step dev s {} (content dev s) H u) \<and>
     (nlogged s < LOGSIZE - 1 \<longrightarrow> (\<forall>v. length v = BSIZE \<longrightarrow>
        (\<exists>u w. log_write i (set_data i v t) = Ok u \<and> brelse i u = Ok w \<and> tx_step dev s {n} ((content dev s)(n := v)) H w)))"

lemma visit_fs:
  assumes "visit dev H s n i t"
  shows "b_data (bufs t ! i) = content dev s n" "sb t = sb s" "icache t = icache s"
  using assms unfolding visit_def by blast+

lemma visit_release:
  assumes "visit dev H s n i t"
  obtains u where "brelse i t = Ok u" "tx_step dev s {} (content dev s) H u"
  using assms unfolding visit_def by blast

lemma visit_log:
  assumes "visit dev H s n i t" "nlogged s < LOGSIZE - 1" "length v = BSIZE"
  obtains u w where "log_write i (set_data i v t) = Ok u" "brelse i u = Ok w" "tx_step dev s {n} ((content dev s)(n := v)) H w"
  using assms unfolding visit_def by blast

lemma tx_visit:
  fixes s :: "'a fsst_scheme"
  assumes tx: "in_tx dev H s" and n: "n \<notin> H" "nlogged s + card H < NBUF"
  obtains i s1 where "bread dev n s = Ok (i, s1)" "visit dev H s n i s1"
proof -
  obtain i s1 where b: "bread dev n s = Ok (i, s1)" "holds dev s1 n i" "b_data (bufs s1 ! i) = content dev s n"
    "tx_step dev s {} (content dev s) (insert n H) s1" "bio_frame s s1"
    using tx_bread [OF tx n(1)] spare_buffer [OF n(2)] by blast
  note e = tx_stepD [OF b(4)]
  have del: "insert n H - {n} = H" using n(1) by simp
  have "\<exists>t. brelse i s1 = Ok t \<and> tx_step dev s {} (content dev s) H t"
  proof -
    obtain t where t: "brelse i s1 = Ok t" "tx_step dev s1 {} (content dev s1) (insert n H - {n}) t"
      by (rule tx_brelse [OF e(1) b(2)])
    have "tx_step dev s ({} \<union> {}) (content dev s1) H t"
      by (rule tx_step_trans [OF b(4) t(2) [unfolded del]]) auto
    then show ?thesis using t(1) e(4) by simp
  qed
  moreover have "\<exists>s2 t. log_write i (set_data i v s1) = Ok s2 \<and> brelse i s2 = Ok t \<and> tx_step dev s {n} ((content dev s)(n := v)) H t"
    if l: "nlogged s < LOGSIZE - 1" and v: "length v = BSIZE" for v
  proof -
    have r: "room s1" using room_card [OF e(1)] e(3) l by simp
    obtain s2 where w: "log_write i (set_data i v s1) = Ok s2"
      "tx_step dev s1 {n} ((content dev s1)(n := v)) (insert n H) s2" "holds dev s2 n i"
      by (rule tx_log_write [OF e(1) b(2) r v])
    obtain t where t: "brelse i s2 = Ok t" "tx_step dev s2 {} (content dev s2) (insert n H - {n}) t"
      by (rule tx_brelse [OF tx_stepD(1) [OF w(2)] w(3)])
    have "tx_step dev s ({} \<union> {n}) ((content dev s1)(n := v)) (insert n H) s2"
      by (rule tx_step_trans [OF b(4) w(2)]) auto
    from tx_step_trans [OF this t(2) [unfolded del]]
    have "tx_step dev s {n} ((content dev s)(n := v)) H t" using e(4) tx_stepD(4) [OF w(2)] by auto
    then show ?thesis using w(1) t(1) by blast
  qed
  ultimately have "visit dev H s n i s1" unfolding visit_def using b(3) bio_frame_fs [OF b(5)] by blast
  then show ?thesis by (rule that [OF b(1)])
qed

section \<open>The bitmap\<close>

text \<open>Block \<open>b\<close> is marked in the bitmap.\<close>

definition used :: "(u32 \<Rightarrow> block) \<Rightarrow> superblock \<Rightarrow> nat \<Rightarrow> bool" where
  "used c sp b \<longleftrightarrow> bit (c (BBLOCK (of_nat b) sp) ! (b mod BPB div 8)) (b mod 8)"

text \<open>
  The geometry that \<open>mkfs\<close> lays out: the bitmap blocks follow each other below the size of the file
  system, and the blocks up to the end of the bitmap are in use.
\<close>

definition bitmap_ok :: "(u32 \<Rightarrow> block) \<Rightarrow> superblock \<Rightarrow> bool" where
  "bitmap_ok c sp \<longleftrightarrow>
     unat (sb_bmapstart sp) + unat (sb_size sp) div BPB < unat (sb_size sp) \<and>
     (\<forall>b \<le> unat (sb_bmapstart sp) + unat (sb_size sp) div BPB. used c sp b)"

lemma unat_BBLOCK:
  assumes "bitmap_ok c sp" "b < unat (sb_size sp)"
  shows "unat (BBLOCK (of_nat b) sp) = unat (sb_bmapstart sp) + b div BPB"
proof -
  have b: "b < 4294967296" by (rule order_less_trans [OF assms(2) unat_u32_lt])
  have d: "b div BPB \<le> unat (sb_size sp) div BPB" using assms(2) by (intro div_le_mono) simp
  have "unat (of_nat b div 8192 :: u32) = b div BPB"
    using b by (simp add: unat_div_distrib unat_of_nat_u32)
  moreover have "b div BPB + unat (sb_bmapstart sp) < unat (sb_size sp)"
    using assms(1) d unfolding bitmap_ok_def by linarith
  then have "b div BPB + unat (sb_bmapstart sp) < 4294967296" by (rule order_less_trans [OF _ unat_u32_lt])
  ultimately show ?thesis unfolding BBLOCK_def by (subst unat_add_lem [THEN iffD1]) auto
qed

lemma BBLOCK_eq_iff:
  assumes "bitmap_ok c sp" "b < unat (sb_size sp)" "b' < unat (sb_size sp)"
  shows "BBLOCK (of_nat b) sp = BBLOCK (of_nat b') sp \<longleftrightarrow> b div BPB = b' div BPB"
proof -
  have "BBLOCK (of_nat b) sp = BBLOCK (of_nat b') sp \<longleftrightarrow> unat (BBLOCK (of_nat b) sp) = unat (BBLOCK (of_nat b') sp)"
    by (simp only: word_unat_eq_iff)
  then show ?thesis unfolding unat_BBLOCK [OF assms(1,2)] unat_BBLOCK [OF assms(1,3)] by simp
qed

text \<open>A free block is not one of the bitmap.\<close>

lemma free_not_bitmap:
  assumes "bitmap_ok c sp" "b < unat (sb_size sp)" "\<not> used c sp b" "b' < unat (sb_size sp)"
  shows "of_nat b \<noteq> BBLOCK (of_nat b') sp"
proof
  assume "of_nat b = BBLOCK (of_nat b') sp"
  then have "unat (of_nat b :: u32) = unat (sb_bmapstart sp) + b' div BPB" using unat_BBLOCK [OF assms(1,4)] by simp
  moreover have "unat (of_nat b :: u32) = b" using order_less_trans [OF assms(2) unat_u32_lt] by (rule unat_of_nat_u32)
  moreover have "b' div BPB \<le> unat (sb_size sp) div BPB" using assms(4) by (intro div_le_mono) simp
  ultimately show False using assms(1,3) unfolding bitmap_ok_def by auto
qed

text \<open>Changing one bit of a bitmap block.\<close>

definition mark :: "bool \<Rightarrow> superblock \<Rightarrow> nat \<Rightarrow> (u32 \<Rightarrow> block) \<Rightarrow> u32 \<Rightarrow> block" where
  "mark v sp b c =
     (let n = BBLOCK (of_nat b) sp; k = b mod BPB
      in c(n := (if v then set_bitmap k (c n) else clear_bitmap k (c n))))"

lemma bit_set_bitmap:
  assumes "length d = BSIZE" "k < BPB" "j < BPB"
  shows "bit (set_bitmap k d ! (j div 8)) (j mod 8) \<longleftrightarrow> j = k \<or> bit (d ! (j div 8)) (j mod 8)"
    "bit (clear_bitmap k d ! (j div 8)) (j mod 8) \<longleftrightarrow> j \<noteq> k \<and> bit (d ! (j div 8)) (j mod 8)"
proof -
  have l: "k div 8 < length d" "j div 8 < length d" using assms by (auto simp: less_mult_imp_div_less)
  have e: "j = k \<longleftrightarrow> j div 8 = k div 8 \<and> j mod 8 = k mod 8" by (metis div_mult_mod_eq)
  have m: "j mod 8 < 8" by simp
  show "bit (set_bitmap k d ! (j div 8)) (j mod 8) \<longleftrightarrow> j = k \<or> bit (d ! (j div 8)) (j mod 8)"
    using l m unfolding e by (auto simp: set_bitmap_def nth_list_update bit_simps)
  show "bit (clear_bitmap k d ! (j div 8)) (j mod 8) \<longleftrightarrow> j \<noteq> k \<and> bit (d ! (j div 8)) (j mod 8)"
    using l m unfolding e by (auto simp: clear_bitmap_def nth_list_update bit_simps)
qed

lemma used_mark:
  assumes ok: "bitmap_ok c sp" and len: "\<And>n. length (c n) = BSIZE" and b: "b < unat (sb_size sp)" "b' < unat (sb_size sp)"
  shows "used (mark v sp b c) sp b' \<longleftrightarrow> (if b' = b then v else used c sp b')"
proof (cases "b div BPB = b' div BPB")
  case True
  then have n: "BBLOCK (of_nat b) sp = BBLOCK (of_nat b') sp" using BBLOCK_eq_iff [OF ok b] by simp
  have e: "b' = b \<longleftrightarrow> b' mod BPB = b mod BPB" using True by (metis div_mult_mod_eq)
  have m: "x mod BPB mod 8 = x mod 8" for x :: nat by (simp add: mod_mod_cancel)
  show ?thesis
    using bit_set_bitmap [OF len, of "b mod BPB" "b' mod BPB"] unfolding used_def mark_def Let_def n e
    by (auto simp: m)
next
  case False
  then have "BBLOCK (of_nat b) sp \<noteq> BBLOCK (of_nat b') sp" "b \<noteq> b'" using BBLOCK_eq_iff [OF ok b] by auto
  then show ?thesis by (simp add: used_def mark_def Let_def)
qed

section \<open>balloc\<close>

lemma balloc_scan_Some:
  "balloc_scan d b i sz = Some k \<Longrightarrow> i \<le> k \<and> k < BPB \<and> b + k < sz \<and> \<not> bit (d ! (k div 8)) (k mod 8) \<and>
     (\<forall>j. i \<le> j \<and> j < k \<longrightarrow> bit (d ! (j div 8)) (j mod 8))"
proof (induction d b i sz rule: balloc_scan.induct)
  case (1 d b i sz)
  show ?case
  proof (cases "i < BPB \<and> b + i < sz \<and> bit (d ! (i div 8)) (i mod 8)")
    case True
    then have "balloc_scan d b (i + 1) sz = Some k" using "1.prems" by (subst (asm) balloc_scan.simps) auto
    with 1 True have ih: "i + 1 \<le> k \<and> k < BPB \<and> b + k < sz \<and> \<not> bit (d ! (k div 8)) (k mod 8) \<and>
      (\<forall>j. i + 1 \<le> j \<and> j < k \<longrightarrow> bit (d ! (j div 8)) (j mod 8))" by blast
    have "bit (d ! (j div 8)) (j mod 8)" if "i \<le> j" "j < k" for j
      using ih True that by (cases "j = i") auto
    then show ?thesis using ih by auto
  next
    case False
    then show ?thesis using "1.prems" by (subst (asm) balloc_scan.simps) (auto split: if_splits)
  qed
qed

lemma balloc_scan_None:
  "balloc_scan d b i sz = None \<Longrightarrow> i \<le> j \<Longrightarrow> j < BPB \<Longrightarrow> b + j < sz \<Longrightarrow> bit (d ! (j div 8)) (j mod 8)"
proof (induction d b i sz rule: balloc_scan.induct)
  case (1 d b i sz)
  then have i: "i < BPB \<and> b + i < sz" by auto
  then have c: "bit (d ! (i div 8)) (i mod 8)" "balloc_scan d b (i + 1) sz = None"
    using "1.prems"(1) by (subst (asm) balloc_scan.simps, auto split: if_splits)+
  show ?case
  proof (cases "j = i")
    case False
    then show ?thesis using "1.IH" [OF i c] "1.prems" by simp
  qed (use c in simp)
qed

text \<open>The blocks a process holds while it allocates: none is free, none belongs to the bitmap.\<close>

definition held_ok :: "(u32 \<Rightarrow> block) \<Rightarrow> superblock \<Rightarrow> u32 set \<Rightarrow> bool" where
  "held_ok c sp H \<longleftrightarrow> finite H \<and> (\<forall>b < unat (sb_size sp). BBLOCK (of_nat b) sp \<notin> H \<and> (of_nat b \<in> H \<longrightarrow> used c sp b))"

lemma tx_length: "in_tx dev H s \<Longrightarrow> length (content dev s n) = BSIZE"
  by (rule length_content [OF in_txD(1)])

lemma bzero_tx:
  fixes s :: "'a fsst_scheme"
  assumes "in_tx dev H s" "n \<notin> H" "nlogged s + card H < NBUF" "nlogged s < LOGSIZE - 1"
  obtains t where "bzero dev n s = Ok t" "tx_step dev s {n} ((content dev s)(n := replicate BSIZE 0)) H t"
proof -
  obtain i s1 where b: "bread dev n s = Ok (i, s1)" "visit dev H s n i s1" by (rule tx_visit [OF assms(1-3)])
  obtain u t where "log_write i (set_data i (replicate BSIZE 0) s1) = Ok u" "brelse i u = Ok t"
    "tx_step dev s {n} ((content dev s)(n := replicate BSIZE 0)) H t"
    by (rule visit_log [OF b(2) assms(4) length_replicate])
  then show ?thesis by (intro that) (simp_all add: bzero_def b(1))
qed

definition allocated :: "superblock \<Rightarrow> nat \<Rightarrow> (u32 \<Rightarrow> block) \<Rightarrow> u32 \<Rightarrow> block" where
  "allocated sp k c = (mark True sp k c)(of_nat k := replicate BSIZE 0)"

lemma balloc_loop_spec:
  fixes s :: "'a fsst_scheme"
  assumes "in_tx dev H s" "bitmap_ok (content dev s) (sb s)" "held_ok (content dev s) (sb s) H" "sz = unat (sb_size (sb s))"
    "nlogged s + 1 < LOGSIZE - 1" "nlogged s + 1 + card H < NBUF" "BPB dvd b" "\<forall>j < b. j < sz \<longrightarrow> used (content dev s) (sb s) j"
  shows "(\<exists>k t. k < sz \<and> \<not> used (content dev s) (sb s) k \<and> (\<forall>j < k. used (content dev s) (sb s) j) \<and>
            balloc_loop dev b sz s = Ok (of_nat k, t) \<and>
            tx_step dev s {BBLOCK (of_nat k) (sb s), of_nat k} (allocated (sb s) k (content dev s)) H t) \<or>
         (\<forall>j < sz. used (content dev s) (sb s) j) \<and> balloc_loop dev b sz s = Panic ''balloc: out of blocks''"
  using assms
proof (induction dev b sz s rule: balloc_loop.induct)
  case (1 dev b sz s)
  note tx = "1.prems"(1) and ok = "1.prems"(2) and held = "1.prems"(3) and sz = "1.prems"(4) and full = "1.prems"(5,6)
  let ?c = "content dev s" let ?n = "BBLOCK (of_nat b) (sb s)"
  show ?case
  proof (cases "b < sz")
    case False
    then have "\<forall>j < sz. used ?c (sb s) j" using "1.prems"(8) by auto
    then show ?thesis using False by (simp add: balloc_loop.simps)
  next
    case True
    have n: "?n \<notin> H" using held True sz unfolding held_ok_def by blast
    have spare: "nlogged s + card H < NBUF" using full by simp
    obtain i s1 where b: "bread dev ?n s = Ok (i, s1)" and v: "visit dev H s ?n i s1" by (rule tx_visit [OF tx n spare])
    note d = visit_fs [OF v]
    have bit: "used ?c (sb s) (b + j) \<longleftrightarrow> bit (?c ?n ! (j div 8)) (j mod 8)" if "j < BPB" "b + j < sz" for j
    proof -
      obtain q where q: "b = BPB * q" using "1.prems"(7) by blast
      have "BBLOCK (of_nat (b + j)) (sb s) = ?n"
        using BBLOCK_eq_iff [OF ok, of "b + j" b] that sz by (simp add: q)
      moreover have "(b + j) mod BPB = j" using that(1) by (simp add: q)
      moreover have "(8 * (1024 * q) + j) mod 8 = j mod 8" by (rule mod_mult_self4)
      then have "(b + j) mod 8 = j mod 8" by (simp add: q)
      ultimately show ?thesis by (simp add: used_def)
    qed
    show ?thesis
    proof (cases "balloc_scan (?c ?n) b 0 sz")
      case None
      obtain t where t: "brelse i s1 = Ok t" "tx_step dev s {} ?c H t" by (rule visit_release [OF v])
      note e = tx_stepD [OF t(2)] and fs = tx_step_fs [OF t(2)]
      have used: "used ?c (sb s) j" if "j < b + BPB" "j < sz" for j
      proof (cases "j < b")
        case False
        then have "j = b + (j - b)" "j - b < BPB" using that(1) by auto
        then show ?thesis using bit [of "j - b"] balloc_scan_None [OF None, of "j - b"] that(2) by simp
      qed (use "1.prems"(8) that in blast)
      have loop: "balloc_loop dev b sz s = balloc_loop dev (b + BPB) sz t"
        using True None b d(1) t(1) by (simp add: balloc_loop.simps [of dev b])
      have nl: "nlogged t = nlogged s" using e(3) by simp
      have "balloc_scan (b_data (bufs s1 ! i)) b 0 sz = None" using None d(1) by simp
      note ih = "1.IH" [OF True b refl this t(1) e(1)]
      have "(\<exists>k u. k < sz \<and> \<not> used ?c (sb s) k \<and> (\<forall>j < k. used ?c (sb s) j) \<and>
              balloc_loop dev (b + BPB) sz t = Ok (of_nat k, u) \<and>
              tx_step dev t {BBLOCK (of_nat k) (sb s), of_nat k} (allocated (sb s) k ?c) H u) \<or>
           (\<forall>j < sz. used ?c (sb s) j) \<and> balloc_loop dev (b + BPB) sz t = Panic ''balloc: out of blocks''"
        using ih [unfolded e(4) fs(1) nl, OF ok held sz full] "1.prems"(7) used by (simp add: dvd_add)
      moreover have "tx_step dev s B c' H u" if "tx_step dev t B c' H u" for B c' u
        using tx_step_trans [OF t(2) that] by simp
      ultimately show ?thesis unfolding loop by blast
    next
      case (Some k)
      note k = balloc_scan_Some [OF Some]
      have free: "b + k < sz" "\<not> used ?c (sb s) (b + k)" using k bit [of k] by auto
      have first: "\<forall>j < b + k. used ?c (sb s) j"
      proof (intro allI impI)
        fix j assume j: "j < b + k"
        show "used ?c (sb s) j"
        proof (cases "j < b")
          case False
          then have "j = b + (j - b)" "j - b < k" using j by auto
          then show ?thesis using bit [of "j - b"] k by simp
        qed (use "1.prems"(8) free in auto)
      qed
      have same: "BBLOCK (of_nat (b + k)) (sb s) = ?n" "(b + k) mod BPB = k"
        using BBLOCK_eq_iff [OF ok, of "b + k" b] k sz "1.prems"(7) by (auto elim!: dvdE)
      let ?v = "set_bitmap k (?c ?n)"
      have lv: "length ?v = BSIZE" using tx_length [OF tx] by (simp add: set_bitmap_def)
      obtain u w where u: "log_write i (set_data i ?v s1) = Ok u" "brelse i u = Ok w" "tx_step dev s {?n} (?c(?n := ?v)) H w"
        by (rule visit_log [OF v _ lv]) (use full in simp)
      have mk: "?c(?n := ?v) = mark True (sb s) (b + k) ?c" unfolding mark_def Let_def same by simp
      have cw: "nlogged w \<le> nlogged s + 1" using tx_step_card [OF u(3)] by simp
      have h: "of_nat (b + k) \<notin> H" using held free sz unfolding held_ok_def by blast
      obtain t where t: "bzero dev (of_nat (b + k)) w = Ok t"
        "tx_step dev w {of_nat (b + k)} ((content dev w)(of_nat (b + k) := replicate BSIZE 0)) H t"
        by (rule bzero_tx [OF tx_stepD(1) [OF u(3)] h]) (use cw full in auto)
      have "tx_step dev s {BBLOCK (of_nat (b + k)) (sb s), of_nat (b + k)} (allocated (sb s) (b + k) ?c) H t"
        using tx_step_trans [OF u(3) t(2)] unfolding tx_stepD(4) [OF u(3)] mk allocated_def same(1) by (simp add: insert_commute)
      moreover have "balloc_loop dev b sz s = Ok (of_nat (b + k), t)"
        using True Some d(1) u(1,2) t(1) by (simp add: balloc_loop.simps [of dev b] b)
      ultimately show ?thesis using free first by blast
    qed
  qed
qed

lemma used_allocated:
  assumes ok: "bitmap_ok c sp" and len: "\<And>n. length (c n) = BSIZE" and k: "k < unat (sb_size sp)" "\<not> used c sp k"
  shows "j < unat (sb_size sp) \<Longrightarrow> used (allocated sp k c) sp j \<longleftrightarrow> used c sp j \<or> j = k"
    "bitmap_ok (allocated sp k c) sp" "allocated sp k c (of_nat k) = replicate BSIZE 0"
    "n \<noteq> of_nat k \<Longrightarrow> n \<noteq> BBLOCK (of_nat k) sp \<Longrightarrow> allocated sp k c n = c n"
    "length (allocated sp k c n) = BSIZE"
proof -
  have u: "used (allocated sp k c) sp j \<longleftrightarrow> used c sp j \<or> j = k" if j: "j < unat (sb_size sp)" for j
  proof -
    have "used (allocated sp k c) sp j \<longleftrightarrow> used (mark True sp k c) sp j"
      using free_not_bitmap [OF ok k j] by (simp add: used_def allocated_def)
    then show ?thesis using used_mark [OF ok len k(1) j] by auto
  qed
  then show "j < unat (sb_size sp) \<Longrightarrow> used (allocated sp k c) sp j \<longleftrightarrow> used c sp j \<or> j = k" for j by blast
  show "bitmap_ok (allocated sp k c) sp" using ok u unfolding bitmap_ok_def by auto
  show "allocated sp k c (of_nat k) = replicate BSIZE 0" by (simp add: allocated_def)
  show "n \<noteq> of_nat k \<Longrightarrow> n \<noteq> BBLOCK (of_nat k) sp \<Longrightarrow> allocated sp k c n = c n"
    by (simp add: allocated_def mark_def Let_def)
  show "length (allocated sp k c n) = BSIZE"
    using len by (simp add: allocated_def mark_def Let_def set_bitmap_def)
qed

lemma balloc_tx:
  fixes s :: "'a fsst_scheme"
  assumes "in_tx dev H s" "bitmap_ok (content dev s) (sb s)" "held_ok (content dev s) (sb s) H"
    "nlogged s + 1 < LOGSIZE - 1" "nlogged s + 1 + card H < NBUF"
  shows "(\<exists>k t. k < unat (sb_size (sb s)) \<and> \<not> used (content dev s) (sb s) k \<and> (\<forall>j < k. used (content dev s) (sb s) j) \<and>
            balloc dev s = Ok (of_nat k, t) \<and>
            tx_step dev s {BBLOCK (of_nat k) (sb s), of_nat k} (allocated (sb s) k (content dev s)) H t) \<or>
         (\<forall>j < unat (sb_size (sb s)). used (content dev s) (sb s) j) \<and> balloc dev s = Panic ''balloc: out of blocks''"
  using balloc_loop_spec [OF assms(1-3) refl assms(4,5), of 0] by (simp add: balloc_def)

text \<open>
  C27. The block allocator hands out the first free block, and only that. Inside a transaction, \<open>balloc\<close> returns the lowest-numbered block whose bit is clear: its bit is
  set, its content is zero, no other bit and no other block changes, at most its bitmap block and the
  block itself join the log, and nothing reaches the disk. It panics exactly when every block is used.
\<close>

theorem balloc_first_free:
  assumes "in_tx dev H s" "bitmap_ok (content dev s) (sb s)" "held_ok (content dev s) (sb s) H"
    and "nlogged s + 1 < LOGSIZE - 1" "nlogged s + 1 + card H < NBUF"
  shows "(\<exists>b t. balloc dev s = Ok (of_nat b, t) \<and> b < unat (sb_size (sb s)) \<and> \<not> used (content dev s) (sb s) b \<and>
        (\<forall>j < b. used (content dev s) (sb s) j) \<and>
        (\<forall>j < unat (sb_size (sb s)). used (content dev t) (sb t) j \<longleftrightarrow> used (content dev s) (sb s) j \<or> j = b) \<and>
        content dev t (of_nat b) = replicate BSIZE 0 \<and>
        (\<forall>n. n \<noteq> of_nat b \<and> n \<noteq> BBLOCK (of_nat b) (sb s) \<longrightarrow> content dev t n = content dev s n) \<and>
        set (logged t) \<subseteq> set (logged s) \<union> {BBLOCK (of_nat b) (sb s), of_nat b} \<and> disk t = disk s \<and>
        in_tx dev H t \<and> bitmap_ok (content dev t) (sb t)) \<or>
     (\<forall>j < unat (sb_size (sb s)). used (content dev s) (sb s) j) \<and> balloc dev s = Panic ''balloc: out of blocks''"
  using balloc_tx [OF assms]
proof (elim disjE exE conjE)
  fix k t assume k: "k < unat (sb_size (sb s))" "\<not> used (content dev s) (sb s) k" "\<forall>j < k. used (content dev s) (sb s) j"
    and b: "balloc dev s = Ok (of_nat k, t)" and t: "tx_step dev s {BBLOCK (of_nat k) (sb s), of_nat k} (allocated (sb s) k (content dev s)) H t"
  note e = tx_stepD [OF t] tx_step_fs [OF t]
  note a = used_allocated [OF assms(2) tx_length [OF assms(1)] k(1,2)]
  show ?thesis
    by (rule disjI1, rule exI [of _ k], rule exI [of _ t]) (use k b e a in auto)
qed simp

section \<open>bfree\<close>

text \<open>
  Freeing gives back exactly one block. Inside a transaction, \<open>bfree\<close> of a used block clears its bit and changes no other bit and no block but
  that bitmap block; freeing a block that is already free panics.
\<close>

lemma bfree_frees:
  assumes tx: "in_tx dev H s" and ok: "bitmap_ok (content dev s) (sb s)" and held: "held_ok (content dev s) (sb s) H"
    and full: "nlogged s < LOGSIZE - 1" "nlogged s + card H < NBUF" and b: "b < unat (sb_size (sb s))"
  shows "if used (content dev s) (sb s) b
    then \<exists>t. bfree dev (of_nat b) s = Ok t \<and> in_tx dev H t \<and> disk t = disk s \<and>
       (\<forall>j < unat (sb_size (sb s)). used (content dev t) (sb t) j \<longleftrightarrow> used (content dev s) (sb s) j \<and> j \<noteq> b) \<and>
       (\<forall>n. n \<noteq> BBLOCK (of_nat b) (sb s) \<longrightarrow> content dev t n = content dev s n) \<and>
       set (logged t) = insert (BBLOCK (of_nat b) (sb s)) (set (logged s))
    else bfree dev (of_nat b) s = Panic ''freeing free block''"
proof -
  let ?c = "content dev s" let ?n = "BBLOCK (of_nat b) (sb s)" let ?k = "b mod BPB"
  have n: "?n \<notin> H" using held b unfolding held_ok_def by blast
  obtain i s1 where r: "bread dev ?n s = Ok (i, s1)" and v: "visit dev H s ?n i s1" by (rule tx_visit [OF tx n full(2)])
  note d = visit_fs [OF v]
  have ub: "unat (of_nat b :: u32) = b" by (rule unat_of_nat_u32 [OF order_less_trans [OF b unat_u32_lt]])
  have m: "b mod BPB mod 8 = b mod 8" by (simp add: mod_mod_cancel)
  have u: "used ?c (sb s) b \<longleftrightarrow> bit (?c ?n ! (?k div 8)) (?k mod 8)" by (simp add: used_def m)
  have lv: "length (clear_bitmap ?k (?c ?n)) = BSIZE" using tx_length [OF tx] by (simp add: clear_bitmap_def)
  obtain w t where w: "log_write i (set_data i (clear_bitmap ?k (?c ?n)) s1) = Ok w" "brelse i w = Ok t"
    "tx_step dev s {?n} (?c(?n := clear_bitmap ?k (?c ?n))) H t"
    by (rule visit_log [OF v full(1) lv])
  have mk: "?c(?n := clear_bitmap ?k (?c ?n)) = mark False (sb s) b ?c" by (simp add: mark_def Let_def)
  note e = tx_stepD [OF w(3)] tx_step_fs [OF w(3)]
  show ?thesis
  proof (cases "used ?c (sb s) b")
    case True
    then have "bfree dev (of_nat b) s = Ok t" using u w(1,2) by (simp add: bfree_def r d ub Let_def)
    moreover have "\<forall>j < unat (sb_size (sb s)). used (content dev t) (sb t) j \<longleftrightarrow> used ?c (sb s) j \<and> j \<noteq> b"
      using used_mark [OF ok tx_length [OF tx] b] unfolding e(4,8) mk by simp
    ultimately show ?thesis using True e by auto
  next
    case False
    then show ?thesis using u by (simp add: bfree_def r d ub Let_def)
  qed
qed

section \<open>A small file system\<close>

text \<open>A machine in a transaction on a given disk, with a given inode cache.\<close>

definition demo_fs :: "(u32 \<Rightarrow> block) \<Rightarrow> inode list \<Rightarrow> fsst" where
  "demo_fs d ic = logst.extend ((reboot d demo_log)\<lparr>log_outstanding := 1\<rparr>) \<lparr>sb = demo_sb, icache = ic\<rparr>"

text \<open>The disk of an empty file system: the bitmap block 45 marks blocks 0 to 45.\<close>

definition demo_bitmap :: "u32 \<Rightarrow> block" where
  "demo_bitmap n = (if n = 45 then replicate 5 255 @ 63 # replicate 1018 0 else replicate BSIZE 0)"

lemma extend_views:
  fixes r :: logst
  shows "bcache_ok dev (logst.extend r x) = bcache_ok dev r" "content dev (logst.extend r x) = content dev r"
    "refs dev (logst.extend r x) = refs dev r" "locked dev (logst.extend r x) = locked dev r"
    "running (logst.extend r x) = running r" "logged (logst.extend r x) = logged r"
  by (simp_all add: fun_eq_iff bcache_ok_def content_def refs_def locked_def slot_of_def running_def logged_def logst.defs
      split: option.split)

lemma demo_fs_tx:
  assumes "\<And>n. length (d n) = BSIZE"
  shows "in_tx 1 {} (demo_fs d ic)" "content 1 (demo_fs d ic) = d" "nlogged (demo_fs d ic) = 0" "sb (demo_fs d ic) = demo_sb"
    "icache (demo_fs d ic) = ic" "disk (demo_fs d ic) = d"
proof -
  let ?r = "reboot d demo_log"
  have r: "running demo_log" using demo_views(1) by (simp add: quiet_def)
  have one: "(1 :: u32) \<noteq> 0" by simp
  note q = reboot_ok [OF r one assms]
  have f: "log_dev ?r = 1" "\<not> log_committing ?r" "log_size ?r = int LOGSIZE" "length (lh_block (log_lh ?r)) = LOGSIZE" "lh_n (log_lh ?r) = 0"
    by (simp_all add: reboot_alt demo_log_def)
  have l: "logged ?r = []" using f by (simp add: logged_def)
  have c: "content 1 ?r = d" using content_clean [of 1 ?r] q by (auto simp: quiet_def fun_eq_iff)
  show "in_tx 1 {} (demo_fs d ic)"
    unfolding in_tx_def demo_fs_def extend_views
    using q f l c by (auto simp: quiet_def logged_def logst.defs fun_eq_iff)
  show "content 1 (demo_fs d ic) = d" "nlogged (demo_fs d ic) = 0" unfolding demo_fs_def extend_views using c l by (simp_all add: logged_def)
  show "sb (demo_fs d ic) = demo_sb" "icache (demo_fs d ic) = ic" "disk (demo_fs d ic) = d" using q(3) by (simp_all add: demo_fs_def logst.defs)
qed

lemma demo_used:
  assumes "b < 8192"
  shows "used demo_bitmap demo_sb b \<longleftrightarrow> b < 46"
proof -
  have "unat (of_nat b div 8192 :: u32) = 0" using assms by (simp add: unat_div_distrib unat_of_nat_u32)
  then have n: "BBLOCK (of_nat b) demo_sb = 45" by (simp add: BBLOCK_def demo_sb_def unat_eq_0)
  have ones: "bit (255 :: u8) k" "bit (63 :: u8) k \<longleftrightarrow> k < 6" if "k < 8" for k
  proof -
    have "k \<in> {0, 1, 2, 3, 4, 5, 6, 7}" using that by auto
    then show "bit (255 :: u8) k" "bit (63 :: u8) k \<longleftrightarrow> k < 6" by (auto simp: bit_numeral_rec)
  qed
  have m: "b mod 8 < 8" and e: "b = 8 * (b div 8) + b mod 8" by simp_all
  consider "b div 8 < 5" | "b div 8 = 5" | "5 < b div 8" "b div 8 < 1024" using assms by linarith
  then show ?thesis
  proof cases
    case 1
    then have "b < 46" using e m by linarith
    then show ?thesis using 1 ones(1) [OF m] assms by (simp add: used_def n demo_bitmap_def nth_append)
  next
    case 2
    then have "b < 46 \<longleftrightarrow> b mod 8 < 6" using e by linarith
    then show ?thesis using 2 ones(2) [OF m] assms by (simp add: used_def n demo_bitmap_def nth_append)
  next
    case 3
    then have "\<not> b < 46" using e by linarith
    then show ?thesis using 3 assms by (simp add: used_def n demo_bitmap_def nth_append nth_Cons')
  qed
qed

lemma demo_bitmap_ok: "length (demo_bitmap n) = BSIZE" "bitmap_ok demo_bitmap demo_sb" "held_ok demo_bitmap demo_sb {}"
  using demo_used by (auto simp: demo_bitmap_def bitmap_ok_def held_ok_def demo_sb_def)

theorem balloc_first_free_witness:
  "\<exists>t. balloc 1 (demo_fs demo_bitmap []) = Ok (46, t) \<and> used (content 1 t) (sb t) 46 \<and> \<not> used demo_bitmap demo_sb 46"
proof -
  let ?s = "demo_fs demo_bitmap []"
  note d = demo_fs_tx [of demo_bitmap "[]", OF demo_bitmap_ok(1)]
  have u: "j < 1000 \<Longrightarrow> used demo_bitmap demo_sb j \<longleftrightarrow> j < 46" for j using demo_used [of j] by simp
  have sz: "unat (sb_size demo_sb) = 1000" by (simp add: demo_sb_def)
  have h: "bitmap_ok (content 1 ?s) (sb ?s)" "held_ok (content 1 ?s) (sb ?s) {}" "nlogged ?s + 1 < LOGSIZE - 1" "nlogged ?s + 1 + card {} < NBUF"
    using demo_bitmap_ok(2,3) d(2-4) by simp_all
  have no: "\<not> (\<forall>j < 1000. used demo_bitmap demo_sb j)" using u [of 46] by (auto intro!: exI [of _ 46])
  obtain b t where b: "balloc 1 ?s = Ok (of_nat b, t)" "b < 1000" "\<not> used demo_bitmap demo_sb b" "\<forall>j < b. used demo_bitmap demo_sb j"
    "\<forall>j < 1000. used (content 1 t) (sb t) j \<longleftrightarrow> used demo_bitmap demo_sb j \<or> j = b"
    using balloc_first_free [OF d(1) h, unfolded d(2,4) sz] no by blast
  have "b = 46"
  proof (rule ccontr)
    assume "b \<noteq> 46"
    then have "46 < b" using b(2,3) u [of b] by simp
    then show False using b(4) u [of 46] by simp
  qed
  then show ?thesis using b u [of 46] by auto
qed

theorem bfree_frees_witness:
  "(\<exists>t. bfree 1 45 (demo_fs demo_bitmap []) = Ok t \<and> \<not> used (content 1 t) (sb t) 45 \<and> used (content 1 t) (sb t) 44) \<and>
   bfree 1 46 (demo_fs demo_bitmap []) = Panic ''freeing free block''"
proof -
  let ?s = "demo_fs demo_bitmap []"
  note d = demo_fs_tx [of demo_bitmap "[]", OF demo_bitmap_ok(1)]
  have u: "j < 1000 \<Longrightarrow> used demo_bitmap demo_sb j \<longleftrightarrow> j < 46" for j using demo_used [of j] by simp
  have sz: "unat (sb_size demo_sb) = 1000" by (simp add: demo_sb_def)
  have h: "bitmap_ok (content 1 ?s) (sb ?s)" "held_ok (content 1 ?s) (sb ?s) {}" "nlogged ?s < LOGSIZE - 1" "nlogged ?s + card {} < NBUF"
    using demo_bitmap_ok(2,3) d(2-4) by simp_all
  note b = bfree_frees [OF d(1) h, unfolded d(2,4) sz]
  show ?thesis using b [of 45] b [of 46] u [of 44] u [of 45] u [of 46] by auto
qed

end
