(* ===== verification/FsFile.thy ===== *)
theory FsFile
  imports FsAlloc
begin

text \<open>
  The content of a file inside a transaction: which blocks an inode maps (\<open>fmap\<close>), what \<open>bmap\<close> allocates, and
  that \<open>readi\<close> and \<open>writei\<close> read and write the bytes of the file. Steps are those of theory Transaction,
  with changes of the inode cache allowed (\<open>fs_step\<close>).
\<close>

section \<open>Steps that change the inode cache\<close>

lemma icache_views [simp]:
  "bcache_ok dev (s\<lparr>icache := x\<rparr>) = bcache_ok dev s" "content dev (s\<lparr>icache := x\<rparr>) = content dev s"
  "refs dev (s\<lparr>icache := x\<rparr>) = refs dev s" "locked dev (s\<lparr>icache := x\<rparr>) = locked dev s"
  "running (s\<lparr>icache := x\<rparr>) = running s" "holds dev (s\<lparr>icache := x\<rparr>) n i = holds dev s n i"
  "logged (s\<lparr>icache := x\<rparr>) = logged s"
  by (simp_all add: fun_eq_iff bcache_ok_def content_def refs_def locked_def slot_of_def running_def holds_def mypid_def logged_def
      split: option.split)

lemma in_tx_icache [simp]: "in_tx dev H (s\<lparr>icache := x\<rparr>) = in_tx dev H s"
  by (simp add: in_tx_def)

lemma bio_frame_icache: "bio_frame s t \<Longrightarrow> bio_frame (s\<lparr>icache := x\<rparr>) (t\<lparr>icache := x\<rparr>)"
  unfolding bio_frame_def
proof (elim conjE exE, intro conjI)
  assume "woken s t" then show "woken (s\<lparr>icache := x\<rparr>) (t\<lparr>icache := x\<rparr>)" by (simp add: woken_def)
next
  fix ps dk dw bs l
  assume "t = s\<lparr>procs := ps, disk := dk, dwrites := dw, bufs := bs, lru := l\<rparr>"
  then have "t\<lparr>icache := x\<rparr> = s\<lparr>icache := x\<rparr>\<lparr>procs := ps, disk := dk, dwrites := dw, bufs := bs, lru := l\<rparr>" by simp
  then show "\<exists>ps dk dw bs l. t\<lparr>icache := x\<rparr> = s\<lparr>icache := x\<rparr>\<lparr>procs := ps, disk := dk, dwrites := dw, bufs := bs, lru := l\<rparr>" by blast
qed

lemma tx_step_icache: "tx_step dev s B c H t \<Longrightarrow> tx_step dev (s\<lparr>icache := x\<rparr>) B c H (t\<lparr>icache := x\<rparr>)"
proof -
  assume a: "tx_step dev s B c H t"
  have "tx_frame (s\<lparr>icache := x\<rparr>) (t\<lparr>icache := x\<rparr>)"
    using bio_frame_icache [OF tx_stepD(2) [OF a, unfolded tx_frame_def], of x] unfolding tx_frame_def by (cases s) simp
  then show ?thesis using a by (simp add: tx_step_def)
qed

definition fs_step :: "u32 \<Rightarrow> 'a fsst_scheme \<Rightarrow> u32 set \<Rightarrow> (u32 \<Rightarrow> block) \<Rightarrow> u32 set \<Rightarrow> 'a fsst_scheme \<Rightarrow> bool" where
  "fs_step dev s B c H t \<longleftrightarrow> tx_step dev (s\<lparr>icache := icache t\<rparr>) B c H t"

lemma fs_stepD:
  assumes "fs_step dev s B c H t"
  shows "in_tx dev H t" "set (logged t) = set (logged s) \<union> B" "content dev t = c" "disk t = disk s" "dwrites t = dwrites s"
    "m \<in> H \<Longrightarrow> holds dev s m j \<Longrightarrow> holds dev t m j" "sb t = sb s"
  using tx_stepD [OF assms [unfolded fs_step_def]] tx_step_fs [OF assms [unfolded fs_step_def]] by simp_all

lemma fs_step_tx: "tx_step dev s B c H t \<Longrightarrow> fs_step dev s B c H t"
  using tx_step_fs(2) [of dev s B c H t] by (simp add: fs_step_def)

lemma fs_step_upd: "fs_step dev s B c H t \<Longrightarrow> fs_step dev s B c H (upd_inode i f t)"
  using tx_step_icache [of dev "s\<lparr>icache := icache t\<rparr>" B c H t "(icache t)[i := f (icache t ! i)]"]
  by (simp add: fs_step_def upd_inode_def)

lemma fs_step_trans:
  assumes "fs_step dev s A c H t" "fs_step dev t B c' H' u" "H' \<subseteq> H"
  shows "fs_step dev s (A \<union> B) c' H' u"
proof -
  have "tx_step dev (s\<lparr>icache := icache u\<rparr>) A c H (t\<lparr>icache := icache u\<rparr>)"
    using tx_step_icache [OF assms(1) [unfolded fs_step_def], of "icache u"] by simp
  from tx_step_trans [OF this assms(2) [unfolded fs_step_def] assms(3)] show ?thesis by (simp add: fs_step_def)
qed

lemma fs_step_card:
  assumes "fs_step dev s B c H t" "finite B"
  shows "nlogged t \<le> nlogged s + card B"
  using tx_step_card [OF assms(1) [unfolded fs_step_def] assms(2)] by simp

section \<open>The blocks of a file\<close>

text \<open>
  Block \<open>k\<close> of the file, for \<open>k < MAXFILE\<close>, and as number \<open>MAXFILE\<close> the indirect block; 0 where nothing is
  allocated yet.
\<close>

definition fmap :: "(u32 \<Rightarrow> block) \<Rightarrow> u32 list \<Rightarrow> nat \<Rightarrow> u32" where
  "fmap c addrs k =
     (if k < NDIRECT then addrs ! k else if k = MAXFILE then addrs ! NDIRECT
      else if addrs ! NDIRECT = 0 then 0 else get32 (4 * (k - NDIRECT)) (c (addrs ! NDIRECT)))"

text \<open>A block of the data area, in use.\<close>

definition datablk :: "(u32 \<Rightarrow> block) \<Rightarrow> superblock \<Rightarrow> u32 \<Rightarrow> bool" where
  "datablk c sp b \<longleftrightarrow> unat (sb_bmapstart sp) + unat (sb_size sp) div BPB < unat b \<and> unat b < unat (sb_size sp) \<and> used c sp (unat b)"

definition fmap_ok :: "(u32 \<Rightarrow> block) \<Rightarrow> superblock \<Rightarrow> (nat \<Rightarrow> u32) \<Rightarrow> bool" where
  "fmap_ok c sp F \<longleftrightarrow> (\<forall>k \<le> MAXFILE. F k \<noteq> 0 \<longrightarrow> datablk c sp (F k)) \<and>
     (\<forall>j \<le> MAXFILE. \<forall>k \<le> MAXFILE. F j = F k \<and> F j \<noteq> 0 \<longrightarrow> j = k)"

lemma datablk_not_bitmap:
  assumes "bitmap_ok c sp" "datablk c' sp b" "j < unat (sb_size sp)"
  shows "b \<noteq> BBLOCK (of_nat j) sp"
proof
  assume "b = BBLOCK (of_nat j) sp"
  then have "unat b = unat (sb_bmapstart sp) + j div BPB" using unat_BBLOCK [OF assms(1,3)] by simp
  moreover have "j div BPB \<le> unat (sb_size sp) div BPB" using assms(3) by (intro div_le_mono) simp
  ultimately show False using assms(2) by (simp add: datablk_def)
qed

text \<open>What an allocation leaves of the data blocks and of a file.\<close>

lemma allocated_data:
  assumes ok: "bitmap_ok c sp" and len: "\<And>n. length (c n) = BSIZE" and b: "b < unat (sb_size sp)" "\<not> used c sp b"
    and d: "datablk c sp a"
  shows "allocated sp b c a = c a" "datablk (allocated sp b c) sp a" "a \<noteq> of_nat b"
proof -
  note u = used_allocated [OF ok len b]
  show n: "a \<noteq> of_nat b"
  proof
    assume "a = of_nat b"
    then have "unat a = b" using order_less_trans [OF b(1) unat_u32_lt] by (simp add: unat_of_nat_u32)
    then show False using d b(2) by (simp add: datablk_def)
  qed
  show "allocated sp b c a = c a" by (rule u(4) [OF n datablk_not_bitmap [OF ok d b(1)]])
  show "datablk (allocated sp b c) sp a" using d u(1) [of "unat a"] by (auto simp: datablk_def)
qed

lemma free_is_data:
  assumes ok: "bitmap_ok c sp" and len: "\<And>n. length (c n) = BSIZE" and b: "b < unat (sb_size sp)" "\<not> used c sp b"
  shows "datablk (allocated sp b c) sp (of_nat b)" "of_nat b \<noteq> (0 :: u32)"
proof -
  have ub: "unat (of_nat b :: u32) = b" by (rule unat_of_nat_u32 [OF order_less_trans [OF b(1) unat_u32_lt]])
  have m: "unat (sb_bmapstart sp) + unat (sb_size sp) div BPB < b" using ok b unfolding bitmap_ok_def by (meson not_le)
  then show "datablk (allocated sp b c) sp (of_nat b)" using used_allocated(1) [OF ok len b, of b] b(1) by (simp add: datablk_def ub)
  show "of_nat b \<noteq> (0 :: u32)" using ub m by auto
qed

lemma fmap_ok_alloc:
  assumes ok: "bitmap_ok c sp" and len: "\<And>n. length (c n) = BSIZE" and b: "b < unat (sb_size sp)" "\<not> used c sp b"
    and F: "fmap_ok c sp F"
  shows "fmap_ok (allocated sp b c) sp (F(m := of_nat b))"
proof -
  note n = free_is_data [OF ok len b] and old = allocated_data(2,3) [OF ok len b]
  have d: "datablk c sp (F k)" if "k \<le> MAXFILE" "F k \<noteq> 0" for k using F that unfolding fmap_ok_def by blast
  have i: "j = k" if "j \<le> MAXFILE" "k \<le> MAXFILE" "F j = F k" "F j \<noteq> 0" for j k using F that unfolding fmap_ok_def by blast
  have "datablk (allocated sp b c) sp ((F(m := of_nat b)) k)" if "k \<le> MAXFILE" "(F(m := of_nat b)) k \<noteq> 0" for k
    using that n(1) old(1) [OF d, of k] by (cases "k = m") auto
  moreover have "j = k" if "j \<le> MAXFILE" "k \<le> MAXFILE" "(F(m := of_nat b)) j = (F(m := of_nat b)) k" "(F(m := of_nat b)) j \<noteq> 0" for j k
    using that i [of j k] old(2) [OF d, of j] old(2) [OF d, of k] by (cases "j = m"; cases "k = m") auto
  ultimately show ?thesis unfolding fmap_ok_def by blast
qed

section \<open>bmap\<close>

text \<open>The blocks still free.\<close>

definition nfree :: "(u32 \<Rightarrow> block) \<Rightarrow> superblock \<Rightarrow> nat" where
  "nfree c sp = card {b. b < unat (sb_size sp) \<and> \<not> used c sp b}"

lemma nfree_allocated:
  assumes "bitmap_ok c sp" "\<And>n. length (c n) = BSIZE" "b < unat (sb_size sp)" "\<not> used c sp b"
  shows "nfree c sp = nfree (allocated sp b c) sp + 1"
proof -
  let ?A = "{j. j < unat (sb_size sp) \<and> \<not> used c sp j}"
  have "{j. j < unat (sb_size sp) \<and> \<not> used (allocated sp b c) sp j} = ?A - {b}"
    using used_allocated(1) [OF assms] by auto
  moreover have "finite ?A" "b \<in> ?A" using assms(3,4) by auto
  ultimately show ?thesis unfolding nfree_def using card.remove [of ?A b] by simp
qed

lemma nfree_used: "0 < nfree c sp \<Longrightarrow> \<not> (\<forall>j < unat (sb_size sp). used c sp j)"
  unfolding nfree_def by (rule ccontr) (auto dest: card_gt_0_iff [THEN iffD1])

lemma balloc_free:
  fixes s :: "'a fsst_scheme"
  assumes "in_tx dev H s" "bitmap_ok (content dev s) (sb s)" "held_ok (content dev s) (sb s) H" "0 < nfree (content dev s) (sb s)"
    "nlogged s + 1 < LOGSIZE - 1" "nlogged s + 1 + card H < NBUF"
  obtains b t where "b < unat (sb_size (sb s))" "\<not> used (content dev s) (sb s) b" "balloc dev s = Ok (of_nat b, t)"
    "tx_step dev s {BBLOCK (of_nat b) (sb s), of_nat b} (allocated (sb s) b (content dev s)) H t"
  using balloc_tx [OF assms(1-3,5,6)] nfree_used [OF assms(4)] that by blast

text \<open>The part of \<open>bmap\<close> that looks an entry up in the indirect block \<open>a\<close> and fills it if it is empty.\<close>

definition bmap_look :: "u32 \<Rightarrow> nat \<Rightarrow> u32 \<Rightarrow> 'a fsst_scheme \<Rightarrow> (u32 \<times> 'a fsst_scheme) result" where
  "bmap_look dev off a s =
     andthen (bread dev a s) (\<lambda>(bp, s).
       let addr = get32 off (b_data (bufs s ! bp))
       in andthen (if addr = 0 then
                     andthen (balloc dev s) (\<lambda>(addr, s).
                     andthen (log_write bp (set_data bp (put32 off addr (b_data (bufs s ! bp))) s)) (\<lambda>s.
                       Ok (addr, s)))
                   else Ok (addr, s)) (\<lambda>(addr, s).
          andthen (brelse bp s) (\<lambda>s. Ok (addr, s))))"

lemma bmap_unfold:
  fixes s :: "'a fsst_scheme" and i :: nat
  defines "ip \<equiv> icache s ! i"
  shows "k < NDIRECT \<Longrightarrow> bmap i (of_nat k) s =
      (if i_addrs ip ! k = 0 then
         andthen (balloc (i_dev ip) s) (\<lambda>(addr, s). Ok (addr, upd_inode i (\<lambda>ip. ip\<lparr>i_addrs := (i_addrs ip)[k := addr]\<rparr>) s))
       else Ok (i_addrs ip ! k, s))"
    "NDIRECT \<le> k \<Longrightarrow> k < MAXFILE \<Longrightarrow> bmap i (of_nat k) s =
      (if i_addrs ip ! NDIRECT = 0 then
         andthen (balloc (i_dev ip) s) (\<lambda>(addr, s).
           bmap_look (i_dev ip) (4 * (k - NDIRECT)) addr (upd_inode i (\<lambda>ip. ip\<lparr>i_addrs := (i_addrs ip)[NDIRECT := addr]\<rparr>) s))
       else bmap_look (i_dev ip) (4 * (k - NDIRECT)) (i_addrs ip ! NDIRECT) s)"
proof -
  assume k: "k < NDIRECT"
  then have "unat (of_nat k :: u32) = k" by (intro unat_of_nat_u32) simp
  then show "bmap i (of_nat k) s =
      (if i_addrs ip ! k = 0 then
         andthen (balloc (i_dev ip) s) (\<lambda>(addr, s). Ok (addr, upd_inode i (\<lambda>ip. ip\<lparr>i_addrs := (i_addrs ip)[k := addr]\<rparr>) s))
       else Ok (i_addrs ip ! k, s))" using k by (simp add: bmap_def ip_def Let_def)
next
  assume k: "NDIRECT \<le> k" "k < MAXFILE"
  then have u: "unat (of_nat k :: u32) = k" by (intro unat_of_nat_u32) simp
  have n: "\<not> k < NDIRECT" "k - NDIRECT < NINDIRECT" using k by auto
  show "bmap i (of_nat k) s =
      (if i_addrs ip ! NDIRECT = 0 then
         andthen (balloc (i_dev ip) s) (\<lambda>(addr, s).
           bmap_look (i_dev ip) (4 * (k - NDIRECT)) addr (upd_inode i (\<lambda>ip. ip\<lparr>i_addrs := (i_addrs ip)[NDIRECT := addr]\<rparr>) s))
       else bmap_look (i_dev ip) (4 * (k - NDIRECT)) (i_addrs ip ! NDIRECT) s)"
    unfolding bmap_def ip_def Let_def u if_not_P [OF n(1)] if_P [OF n(2)] bmap_look_def
    by (cases "balloc (i_dev (icache s ! i)) s") (auto split: prod.splits)
qed

lemma bmap_entry:
  fixes s :: "'a fsst_scheme"
  assumes tx: "in_tx dev H s" and ok: "bitmap_ok (content dev s) (sb s)" and held: "held_ok (content dev s) (sb s) H"
    and a: "datablk (content dev s) (sb s) a" "a \<notin> H" and off: "off + 4 \<le> BSIZE"
    and full: "nlogged s + 1 + card H < NBUF"
  shows "get32 off (content dev s a) \<noteq> 0 \<Longrightarrow> \<exists>t. bmap_look dev off a s = Ok (get32 off (content dev s a), t) \<and> tx_step dev s {} (content dev s) H t"
    "get32 off (content dev s a) = 0 \<Longrightarrow> 0 < nfree (content dev s) (sb s) \<Longrightarrow> nlogged s + 3 < LOGSIZE - 1 \<Longrightarrow> nlogged s + 2 + card H < NBUF \<Longrightarrow>
     \<exists>b t. b < unat (sb_size (sb s)) \<and> \<not> used (content dev s) (sb s) b \<and> bmap_look dev off a s = Ok (of_nat b, t) \<and>
       tx_step dev s {BBLOCK (of_nat b) (sb s), of_nat b, a}
         ((allocated (sb s) b (content dev s))(a := put32 off (of_nat b) (content dev s a))) H t"
proof -
  let ?c = "content dev s"
  have spare: "nlogged s + card H < NBUF" using full by simp
  obtain bp s2 where r: "bread dev a s = Ok (bp, s2)" "holds dev s2 a bp" "b_data (bufs s2 ! bp) = ?c a"
    "tx_step dev s {} ?c (insert a H) s2"
    using tx_bread [OF tx a(2)] spare_buffer [OF spare] by blast
  note e = tx_stepD [OF r(4)] and fs = tx_step_fs [OF r(4)]
  have del: "insert a H - {a} = H" using a(2) by simp
  show "\<exists>t. bmap_look dev off a s = Ok (get32 off (?c a), t) \<and> tx_step dev s {} ?c H t" if "get32 off (?c a) \<noteq> 0"
  proof -
    obtain t where t: "brelse bp s2 = Ok t" "tx_step dev s2 {} (content dev s2) (insert a H - {a}) t"
      by (rule tx_brelse [OF e(1) r(2)])
    have "tx_step dev s ({} \<union> {}) (content dev s2) H t" by (rule tx_step_trans [OF r(4) t(2) [unfolded del]]) auto
    then show ?thesis using that t(1) e(4) by (simp add: bmap_look_def r)
  qed
  show "\<exists>b t. b < unat (sb_size (sb s)) \<and> \<not> used ?c (sb s) b \<and> bmap_look dev off a s = Ok (of_nat b, t) \<and>
       tx_step dev s {BBLOCK (of_nat b) (sb s), of_nat b, a} ((allocated (sb s) b ?c)(a := put32 off (of_nat b) (?c a))) H t"
    if z: "get32 off (?c a) = 0" and nf: "0 < nfree ?c (sb s)" and room: "nlogged s + 3 < LOGSIZE - 1" "nlogged s + 2 + card H < NBUF"
  proof -
    have fin: "finite H" using held by (simp add: held_ok_def)
    have "held_ok ?c (sb s) (insert a H)"
    proof -
      have "used ?c (sb s) b" if "b < unat (sb_size (sb s))" "of_nat b = a" for b
        using that a(1) unat_of_nat_u32 [OF order_less_trans [OF that(1) unat_u32_lt]] by (auto simp: datablk_def)
      then show ?thesis using held datablk_not_bitmap [OF ok a(1)] unfolding held_ok_def by auto
    qed
    then have h2: "held_ok (content dev s2) (sb s2) (insert a H)" using e(4) fs(1) by simp
    have ok2: "bitmap_ok (content dev s2) (sb s2)" "0 < nfree (content dev s2) (sb s2)" using ok nf e(4) fs(1) by simp_all
    have n2: "nlogged s2 = nlogged s" using e(3) by simp
    have room2: "nlogged s2 + 1 < LOGSIZE - 1" "nlogged s2 + 1 + card (insert a H) < NBUF"
      using room n2 a(2) fin by simp_all
    obtain b s3 where b: "b < unat (sb_size (sb s2))" "\<not> used (content dev s2) (sb s2) b" "balloc dev s2 = Ok (of_nat b, s3)"
      "tx_step dev s2 {BBLOCK (of_nat b) (sb s2), of_nat b} (allocated (sb s2) b (content dev s2)) (insert a H) s3"
      by (rule balloc_free [OF e(1) ok2(1) h2 ok2(2) room2])
    note b' = b(1,2,4) [unfolded e(4) fs(1)]
    note f = tx_stepD [OF b'(3)]
    have hold: "holds dev s3 a bp" by (rule f(7) [OF _ r(2)]) simp
    have c3: "content dev s3 a = ?c a" unfolding f(4) by (rule allocated_data(1) [OF ok tx_length [OF tx] b'(1,2) a(1)])
    have d3: "b_data (bufs s3 ! bp) = ?c a" using content_holds [OF in_txD(1) [OF f(1)] hold] c3 by simp
    have n3: "nlogged s3 \<le> nlogged s + 2" using tx_step_card [OF b'(3)] n2 card_length [of "[BBLOCK (of_nat b) (sb s), of_nat b]"] by simp
    have r3: "room s3" using room_card [OF f(1)] n3 room by simp
    have lv: "length (put32 off (of_nat b) (?c a)) = BSIZE" using off tx_length [OF tx] by simp
    obtain s4 where w: "log_write bp (set_data bp (put32 off (of_nat b) (?c a)) s3) = Ok s4"
      "tx_step dev s3 {a} ((content dev s3)(a := put32 off (of_nat b) (?c a))) (insert a H) s4" "holds dev s4 a bp"
      by (rule tx_log_write [OF f(1) hold r3 lv])
    obtain t where t: "brelse bp s4 = Ok t" "tx_step dev s4 {} (content dev s4) (insert a H - {a}) t"
      by (rule tx_brelse [OF tx_stepD(1) [OF w(2)] w(3)])
    have s3: "tx_step dev s {BBLOCK (of_nat b) (sb s), of_nat b} (allocated (sb s) b ?c) (insert a H) s3"
      using tx_step_trans [OF r(4) b'(3)] by simp
    have s4: "tx_step dev s ({BBLOCK (of_nat b) (sb s), of_nat b} \<union> {a}) ((allocated (sb s) b ?c)(a := put32 off (of_nat b) (?c a))) (insert a H) s4"
      using tx_step_trans [OF s3 w(2)] unfolding f(4) by simp
    have "tx_step dev s ({BBLOCK (of_nat b) (sb s), of_nat b} \<union> {a} \<union> {}) (content dev s4) H t"
      by (rule tx_step_trans [OF s4 t(2) [unfolded del]]) auto
    then have "tx_step dev s {BBLOCK (of_nat b) (sb s), of_nat b, a} ((allocated (sb s) b ?c)(a := put32 off (of_nat b) (?c a))) H t"
      unfolding tx_stepD(4) [OF s4] by (simp add: insert_commute)
    moreover have "bmap_look dev off a s = Ok (of_nat b, t)" using z d3 w(1) t(1) b(3) by (simp add: bmap_look_def r)
    ultimately show ?thesis using b' by blast
  qed
qed

lemma fmap_ok_cong: "(\<And>k. k \<le> MAXFILE \<Longrightarrow> F k = G k) \<Longrightarrow> fmap_ok c sp F = fmap_ok c sp G"
  unfolding fmap_ok_def by (auto; metis)

lemma fmap_direct:
  assumes "length addrs = NDIRECT + 1" "k < NDIRECT" "addrs ! NDIRECT \<noteq> 0 \<Longrightarrow> c' (addrs ! NDIRECT) = c (addrs ! NDIRECT)"
  shows "fmap c' (addrs[k := a]) j = ((fmap c addrs)(k := a)) j"
  using assms by (auto simp: fmap_def nth_list_update)

lemma get32_zero: "get32 off (replicate BSIZE 0) = 0"
proof -
  have "le_decode (replicate n 0) = (0 :: u32)" for n by (induction n) auto
  then show ?thesis by (simp add: get32_def get_bytes_def)
qed

lemma fmap_indirect:
  assumes "length addrs = NDIRECT + 1" "addrs ! NDIRECT = 0" "a \<noteq> 0" "c' a = replicate BSIZE 0"
  shows "fmap c' (addrs[NDIRECT := a]) j = ((fmap c addrs)(MAXFILE := a)) j"
  using assms get32_zero by (auto simp: fmap_def nth_list_update)

lemma fmap_entry:
  assumes "NDIRECT \<le> k" "k < MAXFILE" "addrs ! NDIRECT \<noteq> 0" "length (c (addrs ! NDIRECT)) = BSIZE" "j \<le> MAXFILE"
    and c': "c' (addrs ! NDIRECT) = put32 (4 * (k - NDIRECT)) b (c (addrs ! NDIRECT))"
  shows "fmap c' addrs j = ((fmap c addrs)(k := b)) j"
proof (cases "j < NDIRECT \<or> j = MAXFILE")
  case False
  then have j: "NDIRECT \<le> j" "j < MAXFILE" using assms(5) by auto
  show ?thesis
  proof (cases "j = k")
    case True
    then show ?thesis using assms j by (simp add: fmap_def get32_put32_same)
  next
    case False
    have "get32 (4 * (j - NDIRECT)) (put32 (4 * (k - NDIRECT)) b (c (addrs ! NDIRECT))) = get32 (4 * (j - NDIRECT)) (c (addrs ! NDIRECT))"
      by (rule get32_put32_other) (use assms j False in auto)
    then show ?thesis using assms j False by (simp add: fmap_def)
  qed
qed (use assms in \<open>auto simp: fmap_def\<close>)

text \<open>A file of a process that holds the buffers \<open>H\<close>, none of them of the file.\<close>

definition file_tx :: "u32 \<Rightarrow> u32 set \<Rightarrow> nat \<Rightarrow> 'a fsst_scheme \<Rightarrow> bool" where
  "file_tx dev H i s \<longleftrightarrow> in_tx dev H s \<and> bitmap_ok (content dev s) (sb s) \<and> held_ok (content dev s) (sb s) H \<and>
     i < length (icache s) \<and> i_dev (icache s ! i) = dev \<and> length (i_addrs (icache s ! i)) = NDIRECT + 1 \<and>
     fmap_ok (content dev s) (sb s) (fmap (content dev s) (i_addrs (icache s ! i))) \<and>
     (\<forall>k \<le> MAXFILE. fmap (content dev s) (i_addrs (icache s ! i)) k \<notin> H)"

lemma file_txD:
  assumes "file_tx dev H i s"
  shows "in_tx dev H s" "bitmap_ok (content dev s) (sb s)" "held_ok (content dev s) (sb s) H"
    "i < length (icache s)" "i_dev (icache s ! i) = dev" "length (i_addrs (icache s ! i)) = NDIRECT + 1"
    "fmap_ok (content dev s) (sb s) (fmap (content dev s) (i_addrs (icache s ! i)))"
    "k \<le> MAXFILE \<Longrightarrow> fmap (content dev s) (i_addrs (icache s ! i)) k \<notin> H"
  using assms unfolding file_tx_def by blast+

lemma fmap_okD:
  assumes "fmap_ok c sp F" "j \<le> MAXFILE" "F j \<noteq> 0"
  shows "datablk c sp (F j)" "k \<le> MAXFILE \<Longrightarrow> F j = F k \<Longrightarrow> j = k"
  using assms unfolding fmap_ok_def by blast+

text \<open>A block that is mapped is found, and nothing changes.\<close>

lemma bmap_mapped:
  fixes s :: "'a fsst_scheme"
  assumes f: "file_tx dev H i s" and k: "k < MAXFILE" "fmap (content dev s) (i_addrs (icache s ! i)) k \<noteq> 0"
    and full: "nlogged s + 1 + card H < NBUF"
  obtains t where "bmap i (of_nat k) s = Ok (fmap (content dev s) (i_addrs (icache s ! i)) k, t)" "tx_step dev s {} (content dev s) H t"
proof -
  note d = file_txD [OF f]
  let ?a = "i_addrs (icache s ! i)"
  show ?thesis
  proof (cases "k < NDIRECT")
    case True
    then have "bmap i (of_nat k) s = Ok (fmap (content dev s) ?a k, s)" using k by (simp add: bmap_unfold(1) fmap_def)
    then show ?thesis by (rule that) (rule tx_step_refl [OF d(1)])
  next
    case False
    then have ind: "?a ! NDIRECT \<noteq> 0" "fmap (content dev s) ?a k = get32 (4 * (k - NDIRECT)) (content dev s (?a ! NDIRECT))"
      using k by (auto simp: fmap_def split: if_splits)
    have m: "fmap (content dev s) ?a MAXFILE = ?a ! NDIRECT" by (simp add: fmap_def)
    have a: "datablk (content dev s) (sb s) (?a ! NDIRECT)" "?a ! NDIRECT \<notin> H"
      using fmap_okD(1) [OF d(7), of MAXFILE] d(8) [of MAXFILE] ind(1) m by simp_all
    have off: "4 * (k - NDIRECT) + 4 \<le> BSIZE" using False k(1) by simp
    have nz: "get32 (4 * (k - NDIRECT)) (content dev s (?a ! NDIRECT)) \<noteq> 0" using ind(2) k(2) by simp
    have "NDIRECT \<le> k" using False by simp
    then show ?thesis
      using bmap_entry(1) [OF d(1-3) a off full nz] bmap_unfold(2) [OF _ k(1), where s = s and i = i] ind d(5) that by auto
  qed
qed

text \<open>
  What \<open>bmap\<close> of block \<open>k\<close> does to the store \<open>c\<close> and to the map \<open>F\<close> of the file: the block is mapped
  afterwards, zero if it is new; no other block of the file moves; and no block in use changes but the
  indirect one.
\<close>

definition grows :: "superblock \<Rightarrow> (u32 \<Rightarrow> block) \<Rightarrow> (nat \<Rightarrow> u32) \<Rightarrow> nat \<Rightarrow> (u32 \<Rightarrow> block) \<Rightarrow> (nat \<Rightarrow> u32) \<Rightarrow> bool" where
  "grows sp c F k c' F' \<longleftrightarrow> F' k \<noteq> 0 \<and> (\<forall>j < MAXFILE. j \<noteq> k \<longrightarrow> F' j = F j) \<and> (F MAXFILE \<noteq> 0 \<longrightarrow> F' MAXFILE = F MAXFILE) \<and>
     (if F k = 0 then c' (F' k) = replicate BSIZE 0 else F' k = F k \<and> c' = c) \<and>
     (\<forall>a. datablk c sp a \<longrightarrow> datablk c' sp a \<and> (a \<noteq> F MAXFILE \<longrightarrow> c' a = c a)) \<and>
     (\<forall>a. unat a < unat (sb_bmapstart sp) \<longrightarrow> c' a = c a) \<and> (\<forall>a. length (c' a) = BSIZE) \<and>
     fmap_ok c' sp F' \<and> bitmap_ok c' sp \<and> (\<forall>j \<le> MAXFILE. F' j = F j \<or> \<not> used c sp (unat (F' j)))"

lemma allocated_meta:
  assumes ok: "bitmap_ok c sp" and len: "\<And>n. length (c n) = BSIZE" and b: "b < unat (sb_size sp)" "\<not> used c sp b"
    and a: "unat a < unat (sb_bmapstart sp)"
  shows "allocated sp b c a = c a"
proof (rule used_allocated(4) [OF ok len b])
  have ub: "unat (of_nat b :: u32) = b" by (rule unat_of_nat_u32 [OF order_less_trans [OF b(1) unat_u32_lt]])
  have "unat (sb_bmapstart sp) + unat (sb_size sp) div BPB < b" using ok b unfolding bitmap_ok_def by (meson not_le)
  then show "a \<noteq> of_nat b" using ub a by auto
  show "a \<noteq> BBLOCK (of_nat b) sp" using unat_BBLOCK [OF ok b(1)] a by auto
qed

lemma grows_alloc:
  assumes ok: "bitmap_ok c sp" and len: "\<And>n. length (c n) = BSIZE" and b: "b < unat (sb_size sp)" "\<not> used c sp b"
    and F: "fmap_ok c sp F" and k: "k < MAXFILE" "F k = 0" and G: "\<And>j. j \<le> MAXFILE \<Longrightarrow> G j = (F(k := of_nat b)) j"
  shows "grows sp c F k (allocated sp b c) G"
  unfolding grows_def
proof (intro conjI allI impI)
  note n = free_is_data [OF ok len b]
  show "G k \<noteq> 0" using G [of k] k n(2) by simp
  show "G j = F j" if "j < MAXFILE" "j \<noteq> k" for j using G [of j] that by simp
  show "G MAXFILE = F MAXFILE" using G [of MAXFILE] k(1) by simp
  show "G j = F j \<or> \<not> used c sp (unat (G j))" if "j \<le> MAXFILE" for j
    using G [OF that] b(2) unat_of_nat_u32 [OF order_less_trans [OF b(1) unat_u32_lt]] by auto
  show "if F k = 0 then allocated sp b c (G k) = replicate BSIZE 0 else G k = F k \<and> allocated sp b c = c"
    using G [of k] k used_allocated(3) [OF ok len b] by simp
  show "fmap_ok (allocated sp b c) sp G"
    using fmap_ok_alloc [OF ok len b F, of k] fmap_ok_cong [of G "F(k := of_nat b)", OF G] by blast
qed (use allocated_data [OF ok len b] allocated_meta [OF ok len b] used_allocated(2,5) [OF ok len b] in auto)

text \<open>Writing a data block leaves the bitmap, and with it every map, intact.\<close>

lemma data_update:
  assumes "bitmap_ok c sp" "datablk c' sp a"
  shows "j < unat (sb_size sp) \<Longrightarrow> used (c(a := v)) sp j \<longleftrightarrow> used c sp j"
    "bitmap_ok (c(a := v)) sp" "datablk (c(a := v)) sp x \<longleftrightarrow> datablk c sp x" "fmap_ok (c(a := v)) sp F \<longleftrightarrow> fmap_ok c sp F"
    "nfree (c(a := v)) sp = nfree c sp" "held_ok (c(a := v)) sp H \<longleftrightarrow> held_ok c sp H"
proof -
  have u: "used (c(a := v)) sp j \<longleftrightarrow> used c sp j" if "j < unat (sb_size sp)" for j
    using datablk_not_bitmap [OF assms that] by (simp add: used_def)
  then show "j < unat (sb_size sp) \<Longrightarrow> used (c(a := v)) sp j \<longleftrightarrow> used c sp j" for j by blast
  show "bitmap_ok (c(a := v)) sp" using u assms(1) unfolding bitmap_ok_def by auto
  show d: "datablk (c(a := v)) sp x \<longleftrightarrow> datablk c sp x" for x using u unfolding datablk_def by auto
  show "fmap_ok (c(a := v)) sp F \<longleftrightarrow> fmap_ok c sp F" unfolding fmap_ok_def d ..
  show "nfree (c(a := v)) sp = nfree c sp" unfolding nfree_def using u by (metis (no_types, lifting))
  show "held_ok (c(a := v)) sp H \<longleftrightarrow> held_ok c sp H" unfolding held_ok_def using u by auto
qed

lemma grows_entry:
  assumes g: "grows sp c F k c' F'" and a: "datablk c sp a" "a = F MAXFILE" "F k = 0" "F' k \<noteq> a" "a \<noteq> 0" and v: "length v = BSIZE"
    and m: "unat (sb_bmapstart sp) \<le> unat a"
  shows "grows sp c F k (c'(a := v)) F'"
proof -
  have ok: "bitmap_ok c' sp" using g by (simp add: grows_def)
  note u = data_update [OF ok a(1), where v = v]
  show ?thesis
    unfolding grows_def u(3-5)
    using g a v m u(2) unfolding grows_def by auto
qed

lemma growsD:
  assumes "grows sp c F k c' F'"
  shows "F' k \<noteq> 0" "j < MAXFILE \<Longrightarrow> j \<noteq> k \<Longrightarrow> F' j = F j" "F k = 0 \<Longrightarrow> c' (F' k) = replicate BSIZE 0" "F k \<noteq> 0 \<Longrightarrow> F' k = F k \<and> c' = c"
    "datablk c sp a \<Longrightarrow> datablk c' sp a" "datablk c sp a \<Longrightarrow> a \<noteq> F MAXFILE \<Longrightarrow> c' a = c a"
    "unat a < unat (sb_bmapstart sp) \<Longrightarrow> c' a = c a" "length (c' a) = BSIZE" "fmap_ok c' sp F'" "bitmap_ok c' sp"
    "F MAXFILE \<noteq> 0 \<Longrightarrow> F' MAXFILE = F MAXFILE" "j \<le> MAXFILE \<Longrightarrow> F' j = F j \<or> \<not> used c sp (unat (F' j))"
  using assms unfolding grows_def by (auto split: if_splits)

lemma grows_after_alloc:
  assumes ok: "bitmap_ok c sp" and len: "\<And>n. length (c n) = BSIZE" and b: "b < unat (sb_size sp)" "\<not> used c sp b"
    and F: "F MAXFILE = 0" "F k = 0" "k < MAXFILE" and g: "grows sp (allocated sp b c) (F(MAXFILE := of_nat b)) k c' F'"
  shows "grows sp c F k c' F'"
  unfolding grows_def
proof (intro conjI allI impI)
  note e = growsD [OF g]
  note d = allocated_data [OF ok len b]
  show "datablk c' sp a" if "datablk c sp a" for a by (rule e(5) [OF d(2) [OF that]])
  show "c' a = c a" if "datablk c sp a" for a
    using e(6) [OF d(2) [OF that]] d(1,3) [OF that] by simp
  show "c' a = c a" if "unat a < unat (sb_bmapstart sp)" for a
    using e(7) [OF that] allocated_meta [OF ok len b that] by simp
  show "F' j = F j \<or> \<not> used c sp (unat (F' j))" if j: "j \<le> MAXFILE" for j
  proof -
    have lt: "unat (F' j) < unat (sb_size sp)"
      using fmap_okD(1) [OF e(9) j] ok by (cases "F' j = 0") (auto simp: datablk_def bitmap_ok_def)
    have ub: "unat (of_nat b :: u32) = b" by (rule unat_of_nat_u32 [OF order_less_trans [OF b(1) unat_u32_lt]])
    show ?thesis using e(12) [OF j] used_allocated(1) [OF ok len b lt] b(2) ub by (auto split: if_splits)
  qed
qed (use F growsD [OF g] in auto)

text \<open>The indirect block exists and its entry for block \<open>k\<close> is empty.\<close>

lemma bmap_look_new:
  fixes s :: "'a fsst_scheme"
  assumes f: "file_tx dev H i s" and k: "NDIRECT \<le> k" "k < MAXFILE" "fmap (content dev s) (i_addrs (icache s ! i)) k = 0"
    and a: "i_addrs (icache s ! i) ! NDIRECT \<noteq> 0"
    and nf: "0 < nfree (content dev s) (sb s)" and full: "nlogged s + 3 < LOGSIZE - 1" "nlogged s + 2 + card H < NBUF"
  obtains t B where "bmap_look dev (4 * (k - NDIRECT)) (i_addrs (icache s ! i) ! NDIRECT) s = Ok (fmap (content dev t) (i_addrs (icache s ! i)) k, t)"
    "tx_step dev s B (content dev t) H t" "finite B" "card B \<le> 3"
    "grows (sb s) (content dev s) (fmap (content dev s) (i_addrs (icache s ! i))) k (content dev t) (fmap (content dev t) (i_addrs (icache s ! i)))"
    "nfree (content dev s) (sb s) = nfree (content dev t) (sb s) + 1"
proof -
  note d = file_txD [OF f]
  let ?c = "content dev s" let ?as = "i_addrs (icache s ! i)" let ?a = "?as ! NDIRECT" let ?F = "fmap ?c ?as" let ?off = "4 * (k - NDIRECT)"
  have m: "?F MAXFILE = ?a" by (simp add: fmap_def)
  have da: "datablk ?c (sb s) ?a" "?a \<notin> H" using fmap_okD(1) [OF d(7), of MAXFILE] d(8) [of MAXFILE] a m by simp_all
  have off: "?off + 4 \<le> BSIZE" using k by simp
  have z: "get32 ?off (?c ?a) = 0" using k a by (simp add: fmap_def)
  have sp: "nlogged s + 1 + card H < NBUF" using full by simp
  obtain b t where b: "b < unat (sb_size (sb s))" "\<not> used ?c (sb s) b" and r: "bmap_look dev ?off ?a s = Ok (of_nat b, t)"
    and t: "tx_step dev s {BBLOCK (of_nat b) (sb s), of_nat b, ?a} ((allocated (sb s) b ?c)(?a := put32 ?off (of_nat b) (?c ?a))) H t"
    using bmap_entry(2) [OF d(1-3) da off sp z nf full] by blast
  let ?c1 = "allocated (sb s) b ?c"
  note len = tx_length [OF d(1)]
  note ad = allocated_data [OF d(2) len b da(1)]
  have ct: "content dev t = ?c1(?a := put32 ?off (of_nat b) (?c ?a))" by (rule tx_stepD(4) [OF t])
  have F: "fmap (content dev t) ?as j = (?F(k := of_nat b)) j" if "j \<le> MAXFILE" for j
    by (rule fmap_entry [OF k(1,2) a len that]) (simp add: ct)
  have g: "grows (sb s) ?c ?F k ?c1 (fmap (content dev t) ?as)"
    by (rule grows_alloc [OF d(2) len b d(7) k(2,3) F])
  have lp: "length (put32 ?off (of_nat b) (?c ?a)) = BSIZE" using off len by simp
  have "grows (sb s) ?c ?F k (content dev t) (fmap (content dev t) ?as)"
    unfolding ct
  proof (rule grows_entry [OF g [unfolded ct] da(1) m [symmetric] k(3) _ a lp])
    show "fmap (?c1(?a := put32 ?off (of_nat b) (?c ?a))) ?as k \<noteq> ?a" using F [of k] k(2) ad(3) by (simp add: ct)
    show "unat (sb_bmapstart (sb s)) \<le> unat ?a" using da(1) by (simp add: datablk_def)
  qed
  moreover have "nfree ?c (sb s) = nfree (content dev t) (sb s) + 1"
    unfolding ct data_update(5) [OF used_allocated(2) [OF d(2) len b] da(1)] by (rule nfree_allocated [OF d(2) len b])
  moreover have "bmap_look dev ?off ?a s = Ok (fmap (content dev t) ?as k, t)" using r F [of k] k(2) by simp
  moreover have "card {BBLOCK (of_nat b) (sb s), of_nat b, ?a} \<le> 3" using card_length [of "[BBLOCK (of_nat b) (sb s), of_nat b, ?a]"] by simp
  ultimately show ?thesis using that t ct by (metis finite.emptyI finite.insertI)
qed

lemma upd_inode_views [simp]:
  "content dev (upd_inode i f s) = content dev s" "logged (upd_inode i f s) = logged s" "sb (upd_inode i f s) = sb s"
  "in_tx dev H (upd_inode i f s) = in_tx dev H s" "disk (upd_inode i f s) = disk s"
  "icache (upd_inode i f s) = (icache s)[i := f (icache s ! i)]" "length (icache (upd_inode i f s)) = length (icache s)"
  by (simp_all add: upd_inode_def)

text \<open>The addresses of inode \<open>i\<close>.\<close>

abbreviation addrs_of :: "nat \<Rightarrow> 'a fsst_scheme \<Rightarrow> u32 list" where
  "addrs_of i s \<equiv> i_addrs (icache s ! i)"

text \<open>The result of \<open>bmap\<close> on a file: only the addresses of its inode change, and the store as \<open>grows\<close> says.\<close>

definition bmapped :: "u32 \<Rightarrow> u32 set \<Rightarrow> nat \<Rightarrow> nat \<Rightarrow> 'a fsst_scheme \<Rightarrow> 'a fsst_scheme \<Rightarrow> bool" where
  "bmapped dev H i k s t \<longleftrightarrow>
     (\<exists>B. finite B \<and> card B \<le> 5 \<and> fs_step dev s B (content dev t) H t) \<and>
     icache t = (icache s)[i := (icache s ! i)\<lparr>i_addrs := addrs_of i t\<rparr>] \<and> length (addrs_of i t) = NDIRECT + 1 \<and>
     grows (sb s) (content dev s) (fmap (content dev s) (addrs_of i s)) k (content dev t) (fmap (content dev t) (addrs_of i t)) \<and>
     nfree (content dev s) (sb s) \<le> nfree (content dev t) (sb s) + 2"

lemma bmappedI:
  assumes "fs_step dev s B (content dev t) H t" "finite B" "card B \<le> 5"
    "icache t = (icache s)[i := (icache s ! i)\<lparr>i_addrs := addrs_of i t\<rparr>]" "length (addrs_of i t) = NDIRECT + 1"
    "grows (sb s) (content dev s) (fmap (content dev s) (addrs_of i s)) k (content dev t) (fmap (content dev t) (addrs_of i t))"
    "nfree (content dev s) (sb s) \<le> nfree (content dev t) (sb s) + 2"
  shows "bmapped dev H i k s t"
  unfolding bmapped_def using assms by (intro conjI exI [of _ B])

text \<open>The file after its indirect block has been allocated.\<close>

lemma bmap_indirect_new:
  fixes s :: "'a fsst_scheme"
  assumes f: "file_tx dev H i s" and a: "addrs_of i s ! NDIRECT = 0"
    and nf: "0 < nfree (content dev s) (sb s)" and full: "nlogged s + 1 < LOGSIZE - 1" "nlogged s + 1 + card H < NBUF"
  obtains b t where "b < unat (sb_size (sb s))" "\<not> used (content dev s) (sb s) b" "balloc dev s = Ok (of_nat b, t)"
    "tx_step dev s {BBLOCK (of_nat b) (sb s), of_nat b} (allocated (sb s) b (content dev s)) H t"
    "file_tx dev H i (upd_inode i (\<lambda>ip. ip\<lparr>i_addrs := (i_addrs ip)[NDIRECT := of_nat b]\<rparr>) t)"
    "fmap (allocated (sb s) b (content dev s)) ((addrs_of i s)[NDIRECT := of_nat b]) = (fmap (content dev s) (addrs_of i s))(MAXFILE := of_nat b)"
proof -
  note d = file_txD [OF f]
  note len = tx_length [OF d(1)]
  let ?c = "content dev s" let ?F = "fmap ?c (addrs_of i s)"
  obtain b t where b: "b < unat (sb_size (sb s))" "\<not> used ?c (sb s) b" and r: "balloc dev s = Ok (of_nat b, t)"
    and t: "tx_step dev s {BBLOCK (of_nat b) (sb s), of_nat b} (allocated (sb s) b ?c) H t"
    by (rule balloc_free [OF d(1-3) nf full])
  note e = tx_stepD [OF t] tx_step_fs [OF t]
  note n = free_is_data [OF d(2) len b]
  have F: "fmap (allocated (sb s) b ?c) ((addrs_of i s)[NDIRECT := of_nat b]) j = (?F(MAXFILE := of_nat b)) j" for j
    by (rule fmap_indirect [of _ _ "allocated (sb s) b ?c", OF d(6) a n(2) used_allocated(3) [OF d(2) len b]])
  have nh: "of_nat b \<notin> H" using d(3) b unfolding held_ok_def by blast
  have held: "held_ok (allocated (sb s) b ?c) (sb s) H"
    using d(3) used_allocated(1) [OF d(2) len b] unfolding held_ok_def by auto
  have fm: "fmap_ok (allocated (sb s) b ?c) (sb s) (fmap (allocated (sb s) b ?c) ((addrs_of i s)[NDIRECT := of_nat b]))"
    using fmap_ok_alloc [OF d(2) len b d(7), of MAXFILE] fmap_ok_cong [of _ "?F(MAXFILE := of_nat b)", OF F] by blast
  have "file_tx dev H i (upd_inode i (\<lambda>ip. ip\<lparr>i_addrs := (i_addrs ip)[NDIRECT := of_nat b]\<rparr>) t)"
    unfolding file_tx_def using e(1,4,8,9) d(4-6,8) used_allocated(2) [OF d(2) len b] held fm nh by (auto simp: F)
  then show ?thesis using that [OF b r t] F by blast
qed

lemma bmapped_direct:
  fixes s :: "'a fsst_scheme"
  assumes f: "file_tx dev H i s" and k: "k < NDIRECT" "addrs_of i s ! k = 0"
    and nf: "0 < nfree (content dev s) (sb s)" and full: "nlogged s + 1 < LOGSIZE - 1" "nlogged s + 1 + card H < NBUF"
  obtains t where "bmap i (of_nat k) s = Ok (fmap (content dev t) (addrs_of i t) k, t)" "bmapped dev H i k s t"
proof -
  note d = file_txD [OF f]
  note len = tx_length [OF d(1)]
  let ?c = "content dev s" let ?F = "fmap ?c (addrs_of i s)"
  obtain b t where b: "b < unat (sb_size (sb s))" "\<not> used ?c (sb s) b" and r: "balloc dev s = Ok (of_nat b, t)"
    and t: "tx_step dev s {BBLOCK (of_nat b) (sb s), of_nat b} (allocated (sb s) b ?c) H t"
    by (rule balloc_free [OF d(1-3) nf full])
  note e = tx_stepD [OF t] tx_step_fs [OF t]
  let ?t = "upd_inode i (\<lambda>ip. ip\<lparr>i_addrs := (i_addrs ip)[k := of_nat b]\<rparr>) t"
  have at: "addrs_of i ?t = (addrs_of i s)[k := of_nat b]" using d(4) e(9) by simp
  have ct: "content dev ?t = allocated (sb s) b ?c" using e(4) by simp
  have ind: "allocated (sb s) b ?c (addrs_of i s ! NDIRECT) = ?c (addrs_of i s ! NDIRECT)" if "addrs_of i s ! NDIRECT \<noteq> 0"
    using allocated_data(1) [OF d(2) len b fmap_okD(1) [OF d(7), of MAXFILE]] that by (simp add: fmap_def)
  have F: "fmap (content dev ?t) (addrs_of i ?t) j = (?F(k := of_nat b)) j" for j
    unfolding at ct by (rule fmap_direct [of _ _ "allocated (sb s) b ?c" ?c, OF d(6) k(1) ind])
  have k': "k < MAXFILE" "?F k = 0" using k by (simp_all add: fmap_def)
  have "bmapped dev H i k s ?t"
  proof (rule bmappedI)
    show "grows (sb s) ?c ?F k (content dev ?t) (fmap (content dev ?t) (addrs_of i ?t))"
      unfolding ct by (rule grows_alloc [OF d(2) len b d(7) k' F [unfolded ct]])
    show "fs_step dev s {BBLOCK (of_nat b) (sb s), of_nat b} (content dev ?t) H ?t"
      unfolding ct by (rule fs_step_upd [OF fs_step_tx [OF t]])
    show "card {BBLOCK (of_nat b) (sb s), of_nat b} \<le> 5" using card_length [of "[BBLOCK (of_nat b) (sb s), of_nat b]"] by simp
    show "icache ?t = (icache s)[i := (icache s ! i)\<lparr>i_addrs := addrs_of i ?t\<rparr>]" unfolding at using e(9) by simp
    show "nfree ?c (sb s) \<le> nfree (content dev ?t) (sb s) + 2" unfolding ct using nfree_allocated [OF d(2) len b] by simp
    show "length (addrs_of i ?t) = NDIRECT + 1" unfolding at using d(6) by simp
  qed simp
  moreover have "bmap i (of_nat k) s = Ok (fmap (content dev ?t) (addrs_of i ?t) k, ?t)"
    unfolding bmap_unfold(1) [OF k(1)] using k(2) d(5) r F [of k] by simp
  ultimately show ?thesis using that by blast
qed

lemma bmapped_indirect:
  fixes s :: "'a fsst_scheme"
  assumes f: "file_tx dev H i s" and k: "NDIRECT \<le> k" "k < MAXFILE" "addrs_of i s ! NDIRECT = 0"
    and nf: "1 < nfree (content dev s) (sb s)" and full: "nlogged s + 5 < LOGSIZE - 1" "nlogged s + 4 + card H < NBUF"
  obtains t where "bmap i (of_nat k) s = Ok (fmap (content dev t) (addrs_of i t) k, t)" "bmapped dev H i k s t"
proof -
  note d = file_txD [OF f]
  note len = tx_length [OF d(1)]
  let ?c = "content dev s" let ?F = "fmap ?c (addrs_of i s)"
  have nf0: "0 < nfree ?c (sb s)" and full0: "nlogged s + 1 < LOGSIZE - 1" "nlogged s + 1 + card H < NBUF" using nf full by simp_all
  obtain b t where b: "b < unat (sb_size (sb s))" "\<not> used ?c (sb s) b" and r: "balloc dev s = Ok (of_nat b, t)"
    and t: "tx_step dev s {BBLOCK (of_nat b) (sb s), of_nat b} (allocated (sb s) b ?c) H t"
    and f1: "file_tx dev H i (upd_inode i (\<lambda>ip. ip\<lparr>i_addrs := (i_addrs ip)[NDIRECT := of_nat b]\<rparr>) t)"
    and F1: "fmap (allocated (sb s) b ?c) ((addrs_of i s)[NDIRECT := of_nat b]) = ?F(MAXFILE := of_nat b)"
    by (rule bmap_indirect_new [OF f k(3) nf0 full0])
  note e = tx_stepD [OF t] tx_step_fs [OF t]
  let ?s1 = "upd_inode i (\<lambda>ip. ip\<lparr>i_addrs := (i_addrs ip)[NDIRECT := of_nat b]\<rparr>) t"
  let ?c1 = "allocated (sb s) b ?c"
  have s1: "addrs_of i ?s1 = (addrs_of i s)[NDIRECT := of_nat b]" "content dev ?s1 = ?c1" "sb ?s1 = sb s"
    using d(4) e(4,8,9) by simp_all
  note n = free_is_data [OF d(2) len b]
  have n12: "addrs_of i ?s1 ! NDIRECT = of_nat b" unfolding s1(1) using d(6) by simp
  have k1: "fmap (content dev ?s1) (addrs_of i ?s1) k = 0" "addrs_of i ?s1 ! NDIRECT \<noteq> 0"
    unfolding n12 unfolding s1 F1 using k n(2) by (simp_all add: fmap_def)
  have nf1: "nfree ?c (sb s) = nfree ?c1 (sb s) + 1" by (rule nfree_allocated [OF d(2) len b])
  have B2: "card {BBLOCK (of_nat b) (sb s), of_nat b} \<le> 2" using card_length [of "[BBLOCK (of_nat b) (sb s), of_nat b]"] by simp
  have nl: "nlogged ?s1 \<le> nlogged s + 2" using tx_step_card [OF t] B2 by simp
  have h: "0 < nfree (content dev ?s1) (sb ?s1)" "nlogged ?s1 + 3 < LOGSIZE - 1" "nlogged ?s1 + 2 + card H < NBUF"
    using nf nf1 nl full unfolding s1 by simp_all
  obtain u B where u: "bmap_look dev (4 * (k - NDIRECT)) (addrs_of i ?s1 ! NDIRECT) ?s1 = Ok (fmap (content dev u) (addrs_of i ?s1) k, u)"
    "tx_step dev ?s1 B (content dev u) H u" "finite B" "card B \<le> 3"
    "grows (sb ?s1) (content dev ?s1) (fmap (content dev ?s1) (addrs_of i ?s1)) k (content dev u) (fmap (content dev u) (addrs_of i ?s1))"
    "nfree (content dev ?s1) (sb ?s1) = nfree (content dev u) (sb ?s1) + 1"
    by (rule bmap_look_new [OF f1 k(1,2) k1 h])
  note u' = u(2,5,6) [unfolded s1 F1] and g = growsD [OF u(5) [unfolded s1 F1]]
  have iu: "icache u = icache ?s1" by (rule tx_step_fs(2) [OF u(2)])
  have au: "addrs_of i u = addrs_of i ?s1" using iu by simp
  have step: "fs_step dev s ({BBLOCK (of_nat b) (sb s), of_nat b} \<union> B) (content dev u) H u"
    by (rule fs_step_trans [OF fs_step_upd [OF fs_step_tx [OF t]] fs_step_tx [OF u(2)]]) simp
  have "bmapped dev H i k s u"
  proof (rule bmappedI [OF step])
    show "finite ({BBLOCK (of_nat b) (sb s), of_nat b} \<union> B)" using u(3) by simp
    show "card ({BBLOCK (of_nat b) (sb s), of_nat b} \<union> B) \<le> 5" using card_Un_le [of "{BBLOCK (of_nat b) (sb s), of_nat b}" B] B2 u(4) by simp
    show "icache u = (icache s)[i := (icache s ! i)\<lparr>i_addrs := addrs_of i u\<rparr>]" unfolding au s1(1) unfolding iu using e(9) by simp
    show "length (addrs_of i u) = NDIRECT + 1" unfolding au s1(1) using d(6) by simp
    show "nfree ?c (sb s) \<le> nfree (content dev u) (sb s) + 2" using nf1 u'(3) by simp
    show "grows (sb s) ?c ?F k (content dev u) (fmap (content dev u) (addrs_of i u))"
      unfolding au s1(1) by (rule grows_after_alloc [OF d(2) len b _ _ k(2) u'(2)]) (use k in \<open>simp_all add: fmap_def\<close>)
  qed
  moreover have "bmap i (of_nat k) s = Ok (fmap (content dev u) (addrs_of i u) k, u)"
    unfolding bmap_unfold(2) [OF k(1,2)] using k(3) d(5) r u(1) n12 au by simp
  ultimately show ?thesis using that by blast
qed

lemma bmappedD:
  assumes "bmapped dev H i k s t"
  shows "icache t = (icache s)[i := (icache s ! i)\<lparr>i_addrs := addrs_of i t\<rparr>]" "length (addrs_of i t) = NDIRECT + 1"
    "grows (sb s) (content dev s) (fmap (content dev s) (addrs_of i s)) k (content dev t) (fmap (content dev t) (addrs_of i t))"
    "nfree (content dev s) (sb s) \<le> nfree (content dev t) (sb s) + 2"
  using assms unfolding bmapped_def by auto

lemma bmapped_step:
  assumes "bmapped dev H i k s t"
  obtains B where "finite B" "card B \<le> 5" "fs_step dev s B (content dev t) H t"
  using assms unfolding bmapped_def by blast

lemma bmap_ok:
  fixes s :: "'a fsst_scheme"
  assumes f: "file_tx dev H i s" and k: "k < MAXFILE"
    and nf: "1 < nfree (content dev s) (sb s)" and full: "nlogged s + 5 < LOGSIZE - 1" "nlogged s + 4 + card H < NBUF"
  obtains t where "bmap i (of_nat k) s = Ok (fmap (content dev t) (addrs_of i t) k, t)" "bmapped dev H i k s t"
proof -
  note d = file_txD [OF f]
  let ?c = "content dev s" let ?F = "fmap ?c (addrs_of i s)"
  have nf0: "0 < nfree ?c (sb s)" and w: "nlogged s + 1 < LOGSIZE - 1" "nlogged s + 1 + card H < NBUF" "nlogged s + 3 < LOGSIZE - 1" "nlogged s + 2 + card H < NBUF"
    using nf full by simp_all
  consider "?F k \<noteq> 0" | "?F k = 0" "k < NDIRECT" | "?F k = 0" "NDIRECT \<le> k" "addrs_of i s ! NDIRECT = 0" | "?F k = 0" "NDIRECT \<le> k" "addrs_of i s ! NDIRECT \<noteq> 0"
    by linarith
  then show ?thesis
  proof cases
    case 1
    obtain t where t: "bmap i (of_nat k) s = Ok (?F k, t)" "tx_step dev s {} ?c H t" by (rule bmap_mapped [OF f k 1 w(2)])
    note e = tx_stepD(4) [OF t(2)] tx_step_fs [OF t(2)]
    have "bmapped dev H i k s t"
      by (rule bmappedI [OF fs_step_tx [OF t(2) [folded e(1)]]])
        (use e d 1 in \<open>auto simp: grows_def tx_length [OF d(1)] list_update_same_conv\<close>)
    then show ?thesis using that t(1) e by simp
  next
    case 2
    then have "addrs_of i s ! k = 0" by (simp add: fmap_def)
    with 2 show ?thesis using bmapped_direct [OF f _ _ nf0 w(1,2)] that by blast
  next
    case 3
    then show ?thesis using bmapped_indirect [OF f _ k _ nf full] that by blast
  next
    case 4
    obtain t B where t: "bmap_look dev (4 * (k - NDIRECT)) (addrs_of i s ! NDIRECT) s = Ok (fmap (content dev t) (addrs_of i s) k, t)"
      "tx_step dev s B (content dev t) H t" "finite B" "card B \<le> 3"
      "grows (sb s) ?c ?F k (content dev t) (fmap (content dev t) (addrs_of i s))" "nfree ?c (sb s) = nfree (content dev t) (sb s) + 1"
      by (rule bmap_look_new [OF f 4(2) k 4(1,3) nf0 w(3,4)])
    note e = tx_step_fs [OF t(2)]
    have "bmapped dev H i k s t"
      by (rule bmappedI [OF fs_step_tx [OF t(2)] t(3)]) (use t(4-6) e d in \<open>auto simp: list_update_same_conv\<close>)
    moreover have "bmap i (of_nat k) s = Ok (fmap (content dev t) (addrs_of i t) k, t)"
      unfolding bmap_unfold(2) [OF 4(2) k] using 4(3) d(5) t(1) e by simp
    ultimately show ?thesis using that by blast
  qed
qed

lemma bmapped_file:
  assumes f: "file_tx dev H i s" and b: "bmapped dev H i k s t"
  shows "file_tx dev H i t" "sb t = sb s" "nlogged t \<le> nlogged s + 5" "disk t = disk s"
proof -
  note d = file_txD [OF f] and m = bmappedD [OF b]
  note g = growsD [OF m(3)]
  obtain B where B: "finite B" "card B \<le> 5" "fs_step dev s B (content dev t) H t" by (rule bmapped_step [OF b])
  note e = fs_stepD [OF B(3)]
  let ?c = "content dev s" let ?F = "fmap ?c (addrs_of i s)" let ?F' = "fmap (content dev t) (addrs_of i t)"
  have used: "used (content dev t) (sb s) b" if u: "b < unat (sb_size (sb s))" "of_nat b \<in> H" for b
  proof (cases "b \<le> unat (sb_bmapstart (sb s)) + unat (sb_size (sb s)) div BPB")
    case True
    then show ?thesis using g(10) unfolding bitmap_ok_def by blast
  next
    case False
    have ub: "unat (of_nat b :: u32) = b" by (rule unat_of_nat_u32 [OF order_less_trans [OF u(1) unat_u32_lt]])
    have "datablk ?c (sb s) (of_nat b)" using False u d(3) unfolding datablk_def held_ok_def ub by auto
    then have "datablk (content dev t) (sb s) (of_nat b)" by (rule g(5))
    then show ?thesis by (simp add: datablk_def ub)
  qed
  have out: "?F' j \<notin> H" if j: "j \<le> MAXFILE" for j
  proof
    assume h: "?F' j \<in> H"
    have lt: "unat (?F' j) < unat (sb_size (sb s))"
      using fmap_okD(1) [OF g(9) j] d(2) by (cases "?F' j = 0") (auto simp: datablk_def bitmap_ok_def)
    have "of_nat (unat (?F' j)) \<in> H" using h by simp
    then have "used ?c (sb s) (unat (?F' j))" using d(3) lt unfolding held_ok_def by blast
    then show False using g(12) [OF j] d(8) [OF j] h by simp
  qed
  have held: "held_ok (content dev t) (sb s) H" using d(3) used unfolding held_ok_def by auto
  have it: "i_dev (icache t ! i) = dev" "i < length (icache t)" by (subst m(1), simp add: d(4,5))+
  show "file_tx dev H i t" unfolding file_tx_def e(7) using e(1) g(9,10) held it m(2) out by blast
  show "sb t = sb s" "disk t = disk s" by (rule e)+
  show "nlogged t \<le> nlogged s + 5" using fs_step_card [OF B(3,1)] B(2) by simp
qed

section \<open>readi\<close>

text \<open>Byte \<open>p\<close> of the file.\<close>

definition fbyte :: "(u32 \<Rightarrow> block) \<Rightarrow> (nat \<Rightarrow> u32) \<Rightarrow> nat \<Rightarrow> u8" where
  "fbyte c F p = c (F (p div BSIZE)) ! (p mod BSIZE)"

lemma unat_block_chunk:
  assumes "tot < n"
  shows "unat (block_chunk n tot off) = min (unat n - unat tot) (BSIZE - unat off mod BSIZE)"
proof -
  have d: "unat (n - tot) = unat n - unat tot" using assms by (simp add: unat_sub_if' word_less_nat_alt)
  have m: "unat (off mod 1024) = unat off mod BSIZE" "unat off mod BSIZE < 1024" by (simp_all add: unat_mod_distrib)
  then have "unat (1024 - off mod 1024) = BSIZE - unat off mod BSIZE"
    by (subst unat_sub) (auto simp: word_le_nat_alt)
  then show ?thesis using d by (auto simp: block_chunk_def word_less_nat_alt)
qed

lemma chunk_div_mod:
  assumes "x < BSIZE - off mod BSIZE"
  shows "(off + x) div BSIZE = off div BSIZE" "(off + x) mod BSIZE = off mod BSIZE + x"
proof -
  have "off + x = off mod BSIZE + x + BSIZE * (off div BSIZE)" by simp
  moreover have "off mod BSIZE + x < BSIZE" using assms by simp
  ultimately show "(off + x) div BSIZE = off div BSIZE" "(off + x) mod BSIZE = off mod BSIZE + x"
    by (metis div_mult_self2 div_less add.right_neutral zero_neq_numeral add_0)
      (metis mod_mult_self2 mod_less \<open>off + x = _\<close> \<open>off mod BSIZE + x < BSIZE\<close>)
qed

lemma get_bytes_fbyte:
  assumes "length (c (F (off div BSIZE))) = BSIZE" "m \<le> BSIZE - off mod BSIZE"
  shows "get_bytes (off mod BSIZE) m (c (F (off div BSIZE))) = map (fbyte c F) [off..<off + m]"
  using assms by (intro nth_equalityI) (auto simp: get_bytes_def fbyte_def chunk_div_mod)

lemma file_tx_step:
  assumes "file_tx dev H i s" "tx_step dev s {} (content dev s) H t"
  shows "file_tx dev H i t"
  using assms(1) tx_stepD(1,4) [OF assms(2)] tx_step_fs [OF assms(2)] by (simp add: file_tx_def)

lemma unat_div_1024: "(off :: u32) div 1024 = of_nat (unat off div BSIZE)"
  by (rule word_unat_eq_iff [THEN iffD2]) (simp add: unat_div_distrib unat_of_nat_u32 order_le_less_trans [OF div_le_dividend unat_u32_lt])

lemma readi_loop_reads:
  fixes s :: "'a fsst_scheme"
  assumes "file_tx dev H i s" "dst = Var ys" "tot \<le> n" "unat off + (unat n - unat tot) \<le> MAXFILE * BSIZE" "nlogged s + 1 + card H < NBUF"
    "\<forall>p. unat off \<le> p \<and> p < unat off + (unat n - unat tot) \<longrightarrow> fmap (content dev s) (addrs_of i s) (p div BSIZE) \<noteq> 0"
  shows "\<exists>t. readi_loop i dst off n tot acc s =
      Ok (n, acc @ map (fbyte (content dev s) (fmap (content dev s) (addrs_of i s))) [unat off..<unat off + (unat n - unat tot)], t) \<and>
    tx_step dev s {} (content dev s) H t"
  using assms
proof (induction i dst off n tot acc s arbitrary: ys rule: readi_loop.induct)
  case (1 i dst off n tot acc s)
  note f = "1.prems"(1) and full = "1.prems"(5)
  note d = file_txD [OF f]
  let ?c = "content dev s" let ?F = "fmap ?c (addrs_of i s)"
  show ?case
  proof (cases "tot < n")
    case False
    then have "tot = n" using "1.prems"(3) by simp
    then show ?thesis using tx_step_refl [OF d(1)] by (simp add: readi_loop.simps [of i dst])
  next
    case lt: True
    let ?m = "block_chunk n tot off" let ?k = "unat off div BSIZE"
    have pos: "unat tot < unat n" using lt by (simp add: word_less_nat_alt)
    have k: "?k < MAXFILE" "?F ?k \<noteq> 0" using "1.prems"(4,6) pos by auto
    have um: "unat ?m = min (unat n - unat tot) (BSIZE - unat off mod BSIZE)" by (rule unat_block_chunk [OF lt])
    obtain s1 where b: "bmap i (off div 1024) s = Ok (?F ?k, s1)" "tx_step dev s {} ?c H s1"
      using bmap_mapped [OF f k full] unfolding unat_div_1024 by blast
    note e1 = tx_stepD(1,3,4) [OF b(2)] tx_step_fs [OF b(2)]
    have h: "?F ?k \<notin> H" using d(8) [of ?k] k(1) by simp
    obtain bp s2 where r: "bread dev (?F ?k) s1 = Ok (bp, s2)" and v: "visit dev H s1 (?F ?k) bp s2"
      by (rule tx_visit [OF e1(1) h]) (use full e1(2) in simp)
    let ?xs = "get_bytes (unat off mod BSIZE) (unat ?m) (b_data (bufs s2 ! bp))"
    have xs: "?xs = map (fbyte ?c ?F) [unat off..<unat off + unat ?m]"
      unfolding visit_fs(1) [OF v] e1(3) by (rule get_bytes_fbyte) (use um tx_length [OF d(1)] in auto)
    obtain s3 where w: "brelse bp s2 = Ok s3" "tx_step dev s1 {} (content dev s1) H s3" by (rule visit_release [OF v])
    have s3: "tx_step dev s {} ?c H s3" using tx_step_trans [OF b(2) w(2)] e1(3) by simp
    note e3 = tx_stepD(3,4) [OF s3] tx_step_fs [OF s3]
    have off': "unat (off + ?m) = unat off + unat ?m"
      using "1.prems"(4) um pos by (subst unat_add_lem [THEN iffD1]) auto
    have tot': "unat (tot + ?m) = unat tot + unat ?m" by (rule unat_block_chunk_add [OF lt])
    have rr: "bread (i_dev (icache s1 ! i)) (?F ?k) s1 = Ok (bp, s2)" using e1(5) d(5) r by simp
    have dl: "deliver dst ?xs s2 = Ok (0, s2)" using "1.prems"(2) by simp
    have sum: "unat off + unat ?m + (unat n - (unat tot + unat ?m)) = unat off + (unat n - unat tot)" using um pos by auto
    have "\<exists>t. readi_loop i (place_add dst ?m) (off + ?m) n (tot + ?m) (acc @ ?xs) s3 =
        Ok (n, (acc @ ?xs) @ map (fbyte (content dev s3) (fmap (content dev s3) (addrs_of i s3))) [unat (off + ?m)..<unat (off + ?m) + (unat n - unat (tot + ?m))], t) \<and>
      tx_step dev s3 {} (content dev s3) H t"
    proof (rule "1.IH" [OF lt b(1) refl rr refl refl refl dl refl w(1)])
      show "(0 :: int) \<noteq> - 1" by simp
      show "file_tx dev H i s3" by (rule file_tx_step [OF f s3])
      show "place_add dst ?m = Var (drop (unat ?m) ys)" using "1.prems"(2) by simp
      show "tot + ?m \<le> n" unfolding word_le_nat_alt tot' using um pos by simp
      show "unat (off + ?m) + (unat n - unat (tot + ?m)) \<le> MAXFILE * BSIZE" unfolding off' tot' sum by (rule "1.prems"(4))
      show "nlogged s3 + 1 + card H < NBUF" using full e3(1) by simp
      show "\<forall>p. unat (off + ?m) \<le> p \<and> p < unat (off + ?m) + (unat n - unat (tot + ?m)) \<longrightarrow>
          fmap (content dev s3) (addrs_of i s3) (p div BSIZE) \<noteq> 0"
        unfolding off' tot' sum e3 using "1.prems"(6) by simp
    qed
    then obtain t where t: "readi_loop i (place_add dst ?m) (off + ?m) n (tot + ?m) (acc @ ?xs) s3 =
        Ok (n, (acc @ ?xs) @ map (fbyte ?c ?F) [unat off + unat ?m..<unat off + (unat n - unat tot)], t)" "tx_step dev s3 {} ?c H t"
      unfolding e3 off' tot' sum by blast
    have "[unat off..<unat off + unat ?m] @ [unat off + unat ?m..<unat off + (unat n - unat tot)] = [unat off..<unat off + (unat n - unat tot)]"
      using upt_add_eq_append [of "unat off" "unat off + unat ?m" "unat n - (unat tot + unat ?m)"] sum by simp
    then have "acc @ ?xs @ map (fbyte ?c ?F) [unat off + unat ?m..<unat off + (unat n - unat tot)] =
        acc @ map (fbyte ?c ?F) [unat off..<unat off + (unat n - unat tot)]" unfolding xs by (metis map_append)
    moreover have "tx_step dev s {} ?c H t" using tx_step_trans [OF s3 t(2)] by simp
    moreover have "readi_loop i dst off n tot acc s = readi_loop i (place_add dst ?m) (off + ?m) n (tot + ?m) (acc @ ?xs) s3"
      using lt b(1) rr w(1) "1.prems"(2) by (simp add: readi_loop.simps [of i "Var ys" off] Let_def)
    ultimately show ?thesis using t(1) by simp
  qed
qed

text \<open>
  A file whose blocks are there up to its size; the hypothesis of every read. It is kept by \<open>writei\<close>.
\<close>

definition covered :: "u32 \<Rightarrow> nat \<Rightarrow> 'a fsst_scheme \<Rightarrow> bool" where
  "covered dev i s \<longleftrightarrow> unat (i_size (icache s ! i)) \<le> MAXFILE * BSIZE \<and>
     (\<forall>p < unat (i_size (icache s ! i)). fmap (content dev s) (addrs_of i s) (p div BSIZE) \<noteq> 0)"

lemma readi_reads:
  fixes s :: "'a fsst_scheme"
  assumes f: "file_tx dev H i s" "covered dev i s" "nlogged s + 1 + card H < NBUF"
    and off: "unat off \<le> unat (i_size (icache s ! i))" "unat off + unat n < 2 ^ 32"
  defines "m \<equiv> min (unat n) (unat (i_size (icache s ! i)) - unat off)"
  obtains t where "readi i (Var ys) off n s =
      Ok (of_nat m, map (fbyte (content dev s) (fmap (content dev s) (addrs_of i s))) [unat off..<unat off + m], t)"
    "tx_step dev s {} (content dev s) H t"
proof -
  let ?sz = "i_size (icache s ! i)" let ?n = "if off + n > ?sz then ?sz - off else n"
  have on: "unat (off + n) = unat off + unat n" using off(2) by (subst unat_add_lem [THEN iffD1]) auto
  have un: "unat ?n = m" using on off(1) by (auto simp: m_def word_less_nat_alt unat_sub_if' word_le_nat_alt)
  moreover have "of_nat (unat ?n) = ?n" by simp
  ultimately have n: "?n = of_nat m" by metis
  have "\<exists>t. readi_loop i (Var ys) off ?n 0 [] s =
      Ok (?n, [] @ map (fbyte (content dev s) (fmap (content dev s) (addrs_of i s))) [unat off..<unat off + (unat ?n - unat (0 :: u32))], t) \<and>
    tx_step dev s {} (content dev s) H t"
    by (rule readi_loop_reads [OF f(1) refl _ _ f(3)]) (use f(2) off un in \<open>auto simp: covered_def m_def\<close>)
  then obtain t where t: "readi_loop i (Var ys) off ?n 0 [] s = Ok (?n, map (fbyte (content dev s) (fmap (content dev s) (addrs_of i s))) [unat off..<unat off + m], t)"
    "tx_step dev s {} (content dev s) H t" unfolding un by auto
  have "readi i (Var ys) off n s = readi_loop i (Var ys) off ?n 0 [] s"
    using off on by (auto simp: readi_def Let_def word_less_nat_alt)
  then show ?thesis using that t n by simp
qed

section \<open>writei\<close>

text \<open>
  What writes to a file leave, over any number of blocks: mapped blocks stay where they are, new ones come
  from the free blocks, and blocks in use outside the file do not change.
\<close>

definition fgrown :: "superblock \<Rightarrow> (u32 \<Rightarrow> block) \<Rightarrow> (nat \<Rightarrow> u32) \<Rightarrow> (u32 \<Rightarrow> block) \<Rightarrow> (nat \<Rightarrow> u32) \<Rightarrow> bool" where
  "fgrown sp c F c' F' \<longleftrightarrow> (\<forall>j \<le> MAXFILE. (F j \<noteq> 0 \<longrightarrow> F' j = F j) \<and> (F' j = F j \<or> \<not> used c sp (unat (F' j)))) \<and>
     (\<forall>a. datablk c sp a \<longrightarrow> datablk c' sp a \<and> ((\<forall>k \<le> MAXFILE. F k \<noteq> a) \<longrightarrow> c' a = c a)) \<and>
     (\<forall>a. unat a < unat (sb_bmapstart sp) \<longrightarrow> c' a = c a) \<and> bitmap_ok c' sp"

lemma fgrownD:
  assumes "fgrown sp c F c' F'"
  shows "j \<le> MAXFILE \<Longrightarrow> F j \<noteq> 0 \<Longrightarrow> F' j = F j" "j \<le> MAXFILE \<Longrightarrow> F' j = F j \<or> \<not> used c sp (unat (F' j))"
    "datablk c sp a \<Longrightarrow> datablk c' sp a" "datablk c sp a \<Longrightarrow> (\<And>k. k \<le> MAXFILE \<Longrightarrow> F k \<noteq> a) \<Longrightarrow> c' a = c a"
    "unat a < unat (sb_bmapstart sp) \<Longrightarrow> c' a = c a" "bitmap_ok c' sp"
  using assms unfolding fgrown_def by blast+

lemma used_mono:
  assumes "bitmap_ok c' sp" "\<And>a. datablk c sp a \<Longrightarrow> datablk c' sp a" "used c sp b" "b < unat (sb_size sp)"
  shows "used c' sp b"
proof (cases "b \<le> unat (sb_bmapstart sp) + unat (sb_size sp) div BPB")
  case True
  then show ?thesis using assms(1) unfolding bitmap_ok_def by blast
next
  case False
  have ub: "unat (of_nat b :: u32) = b" by (rule unat_of_nat_u32 [OF order_less_trans [OF assms(4) unat_u32_lt]])
  have "datablk c sp (of_nat b)" using False assms(3,4) by (simp add: datablk_def ub)
  then have "datablk c' sp (of_nat b)" by (rule assms(2))
  then show ?thesis by (simp add: datablk_def ub)
qed

lemma fgrown_trans:
  assumes a: "fgrown sp c F c1 F1" and b: "fgrown sp c1 F1 c2 F2" and F: "fmap_ok c1 sp F1" "fmap_ok c2 sp F2"
  shows "fgrown sp c F c2 F2"
  unfolding fgrown_def
proof (intro conjI allI impI)
  note a = fgrownD [OF a] and b = fgrownD [OF b]
  show "F2 j = F j" if "j \<le> MAXFILE" "F j \<noteq> 0" for j using a(1) [OF that] b(1) [OF that(1)] that(2) by simp
  show "F2 j = F j \<or> \<not> used c sp (unat (F2 j))" if j: "j \<le> MAXFILE" for j
  proof (cases "F2 j = F1 j")
    case True
    then show ?thesis using a(2) [OF j] by simp
  next
    case False
    then have n: "\<not> used c1 sp (unat (F2 j))" using b(2) [OF j] by simp
    have lt: "unat (F2 j) < unat (sb_size sp)"
      using fmap_okD(1) [OF F(2) j] b(6) by (cases "F2 j = 0") (auto simp: datablk_def bitmap_ok_def)
    then show ?thesis using used_mono [OF a(6,3) _ lt] n by blast
  qed
  show "datablk c2 sp x" if "datablk c sp x" for x using a(3) b(3) that by blast
  show "c2 x = c x" if x: "datablk c sp x" and n: "\<forall>k \<le> MAXFILE. F k \<noteq> x" for x
  proof -
    have "F1 k \<noteq> x" if "k \<le> MAXFILE" for k using a(2) [OF that] n that x by (auto simp: datablk_def)
    then show ?thesis using a(4) [OF x] n b(4) [OF a(3) [OF x]] by simp
  qed
  show "c2 x = c x" if "unat x < unat (sb_bmapstart sp)" for x using a(5) b(5) that by simp
  show "bitmap_ok c2 sp" by (rule b(6))
qed

text \<open>Putting bytes into one block of the file.\<close>

lemma fbyte_put:
  assumes k: "F (off div BSIZE) = a" and inj: "\<And>j. j < MAXFILE \<Longrightarrow> F j = a \<Longrightarrow> j = off div BSIZE" and len: "length (c a) = BSIZE"
    and ys: "length ys \<le> BSIZE - off mod BSIZE" and p: "p < MAXFILE * BSIZE"
  shows "fbyte (c(a := put_bytes (off mod BSIZE) ys (c a))) F p =
    (if off \<le> p \<and> p < off + length ys then ys ! (p - off) else fbyte c F p)"
proof -
  have m: "off mod BSIZE < BSIZE" by simp
  have pk: "p div BSIZE < MAXFILE" using p by (simp add: less_mult_imp_div_less)
  have e: "p = BSIZE * (p div BSIZE) + p mod BSIZE" "off = BSIZE * (off div BSIZE) + off mod BSIZE" by simp_all
  have le: "off mod BSIZE + length ys \<le> length (c a)" using ys m len by linarith
  have nth: "put_bytes (off mod BSIZE) ys (c a) ! (p mod BSIZE) =
      (if off mod BSIZE \<le> p mod BSIZE \<and> p mod BSIZE < off mod BSIZE + length ys then ys ! (p mod BSIZE - off mod BSIZE) else c a ! (p mod BSIZE))"
    using nth_put_bytes [OF le] len by simp
  show ?thesis
  proof (cases "p div BSIZE = off div BSIZE")
    case True
    then have "p - off = p mod BSIZE - off mod BSIZE" "off \<le> p \<longleftrightarrow> off mod BSIZE \<le> p mod BSIZE" "p < off + length ys \<longleftrightarrow> p mod BSIZE < off mod BSIZE + length ys"
      using e by linarith+
    then show ?thesis using True k nth by (simp add: fbyte_def)
  next
    case False
    then have "F (p div BSIZE) \<noteq> a" using inj [OF pk] by blast
    moreover have "\<not> (off \<le> p \<and> p < off + length ys)"
    proof
      assume r: "off \<le> p \<and> p < off + length ys"
      then have "p - off < BSIZE - off mod BSIZE" using ys by linarith
      from chunk_div_mod(1) [OF this] r False show False by simp
    qed
    ultimately show ?thesis by (auto simp: fbyte_def)
  qed
qed

text \<open>The bytes \<open>ys\<close> have been written at offset \<open>off\<close>, touching at most \<open>nb\<close> blocks.\<close>

definition file_wrote :: "u32 \<Rightarrow> u32 set \<Rightarrow> nat \<Rightarrow> nat \<Rightarrow> u8 list \<Rightarrow> nat \<Rightarrow> 'a fsst_scheme \<Rightarrow> 'a fsst_scheme \<Rightarrow> bool" where
  "file_wrote dev H i off ys nb s t \<longleftrightarrow> file_tx dev H i t \<and> sb t = sb s \<and> disk t = disk s \<and>
     icache t = (icache s)[i := (icache s ! i)\<lparr>i_addrs := addrs_of i t\<rparr>] \<and>
     nlogged t \<le> nlogged s + 6 * nb \<and> nfree (content dev s) (sb s) \<le> nfree (content dev t) (sb s) + 2 * nb \<and>
     fgrown (sb s) (content dev s) (fmap (content dev s) (addrs_of i s)) (content dev t) (fmap (content dev t) (addrs_of i t)) \<and>
     (\<forall>p. off \<le> p \<and> p < off + length ys \<longrightarrow> fmap (content dev t) (addrs_of i t) (p div BSIZE) \<noteq> 0 \<and>
        fbyte (content dev t) (fmap (content dev t) (addrs_of i t)) p = ys ! (p - off)) \<and>
     (\<forall>p < MAXFILE * BSIZE. fmap (content dev s) (addrs_of i s) (p div BSIZE) \<noteq> 0 \<and> \<not> (off \<le> p \<and> p < off + length ys) \<longrightarrow>
        fbyte (content dev t) (fmap (content dev t) (addrs_of i t)) p = fbyte (content dev s) (fmap (content dev s) (addrs_of i s)) p)"

lemma file_wroteD:
  assumes "file_wrote dev H i off ys nb s t"
  shows "file_tx dev H i t" "sb t = sb s" "disk t = disk s" "icache t = (icache s)[i := (icache s ! i)\<lparr>i_addrs := addrs_of i t\<rparr>]"
    "nlogged t \<le> nlogged s + 6 * nb" "nfree (content dev s) (sb s) \<le> nfree (content dev t) (sb s) + 2 * nb"
    "fgrown (sb s) (content dev s) (fmap (content dev s) (addrs_of i s)) (content dev t) (fmap (content dev t) (addrs_of i t))"
    "off \<le> p \<Longrightarrow> p < off + length ys \<Longrightarrow> fmap (content dev t) (addrs_of i t) (p div BSIZE) \<noteq> 0"
    "off \<le> p \<Longrightarrow> p < off + length ys \<Longrightarrow> fbyte (content dev t) (fmap (content dev t) (addrs_of i t)) p = ys ! (p - off)"
    "p < MAXFILE * BSIZE \<Longrightarrow> fmap (content dev s) (addrs_of i s) (p div BSIZE) \<noteq> 0 \<Longrightarrow> \<not> (off \<le> p \<and> p < off + length ys) \<Longrightarrow>
     fbyte (content dev t) (fmap (content dev t) (addrs_of i t)) p = fbyte (content dev s) (fmap (content dev s) (addrs_of i s)) p"
  using assms unfolding file_wrote_def by blast+

lemma fmap_same_ind: "(addrs ! NDIRECT \<noteq> 0 \<Longrightarrow> c' (addrs ! NDIRECT) = c (addrs ! NDIRECT)) \<Longrightarrow> fmap c' addrs = fmap c addrs"
  by (rule ext) (auto simp: fmap_def)

lemma grows_fgrown:
  assumes g: "grows sp c F k c' F'" and k: "k \<le> MAXFILE"
  shows "fgrown sp c F c' F'"
proof -
  note e = growsD [OF g]
  have "F' j = F j" if "j \<le> MAXFILE" "F j \<noteq> 0" for j
    using that e(2) [of j] e(4,11) by (cases "j = k"; cases "j = MAXFILE") auto
  then show ?thesis unfolding fgrown_def using e(5,6,7,10,12) by auto
qed

lemma fgrown_put:
  assumes g: "fgrown sp c F c' F'" and a: "a = F' j" "j \<le> MAXFILE" "F' j \<noteq> 0" "datablk c' sp a" and c: "bitmap_ok c sp"
  shows "fgrown sp c F (c'(a := v)) F'"
  unfolding fgrown_def
proof (intro conjI allI impI)
  note e = fgrownD [OF g]
  note u = data_update [OF e(6) a(4), where v = v]
  show "datablk (c'(a := v)) sp x" if "datablk c sp x" for x unfolding u(3) by (rule e(3) [OF that])
  show "(c'(a := v)) x = c x" if x: "datablk c sp x" and n: "\<forall>k \<le> MAXFILE. F k \<noteq> x" for x
  proof -
    have "x \<noteq> a" using e(2) [OF a(2)] n x a(1,2) by (auto simp: datablk_def)
    then show ?thesis using e(4) [OF x] n by simp
  qed
  show "(c'(a := v)) x = c x" if "unat x < unat (sb_bmapstart sp)" for x
    using e(5) [OF that] that a(4) by (auto simp: datablk_def)
  show "bitmap_ok (c'(a := v)) sp" by (rule u(2))
qed (use fgrownD [OF g] in auto)

lemma write_step:
  fixes s :: "'a fsst_scheme"
  assumes f: "file_tx dev H i s" and k: "unat off div BSIZE < MAXFILE" and ys: "length ys \<le> BSIZE - unat off mod BSIZE"
    and nf: "1 < nfree (content dev s) (sb s)" and full: "nlogged s + 5 < LOGSIZE - 1" "nlogged s + 5 + card H < NBUF"
  obtains a s1 bp s2 s3 t where "bmap i (off div 1024) s = Ok (a, s1)" "bread (i_dev (icache s1 ! i)) a s1 = Ok (bp, s2)"
    "log_write bp (set_data bp (put_bytes (unat off mod BSIZE) ys (b_data (bufs s2 ! bp))) s2) = Ok s3" "brelse bp s3 = Ok t"
    "file_wrote dev H i (unat off) ys 1 s t"
proof -
  note d = file_txD [OF f]
  let ?k = "unat off div BSIZE" let ?c = "content dev s" let ?F = "fmap ?c (addrs_of i s)"
  have full': "nlogged s + 4 + card H < NBUF" using full by simp
  obtain s1 where b: "bmap i (of_nat ?k) s = Ok (fmap (content dev s1) (addrs_of i s1) ?k, s1)" "bmapped dev H i ?k s s1"
    by (rule bmap_ok [OF f k nf full(1) full'])
  let ?c1 = "content dev s1" let ?F1 = "fmap ?c1 (addrs_of i s1)" let ?a = "?F1 ?k"
  note m = bmappedD [OF b(2)] and f1 = bmapped_file [OF f b(2)]
  note g = growsD [OF m(3)] and d1 = file_txD [OF f1(1)]
  have h: "?a \<notin> H" using d1(8) [of ?k] k by simp
  obtain bp s2 where r: "bread dev ?a s1 = Ok (bp, s2)" and v: "visit dev H s1 ?a bp s2"
    by (rule tx_visit [OF d1(1) h]) (use f1(3) full in simp)
  let ?v = "put_bytes (unat off mod BSIZE) ys (?c1 ?a)"
  have lv: "length ?v = BSIZE"
    using ys tx_length [OF d1(1), of ?a] mod_less_divisor [of BSIZE "unat off"] by (subst length_put_bytes) auto
  have nl1: "nlogged s1 < LOGSIZE - 1" using f1(3) full by simp
  obtain s3 t where w: "log_write bp (set_data bp ?v s2) = Ok s3" "brelse bp s3 = Ok t" "tx_step dev s1 {?a} (?c1(?a := ?v)) H t"
    by (rule visit_log [OF v nl1 lv])
  note e = tx_stepD [OF w(3)] tx_step_fs [OF w(3)]
  have da: "datablk ?c1 (sb s) ?a" using fmap_okD(1) [OF g(9), of ?k] k g(1) by simp
  have inj: "j = ?k" if "j \<le> MAXFILE" "?F1 j = ?a" for j
    by (rule fmap_okD(2) [OF g(9) less_imp_le [OF k] g(1) that(1) that(2) [symmetric], symmetric])
  have Ft: "fmap (content dev t) (addrs_of i t) = ?F1"
    unfolding e(4,9)
  proof (rule fmap_same_ind)
    have "?F1 MAXFILE = addrs_of i s1 ! NDIRECT" by (simp add: fmap_def)
    then have "addrs_of i s1 ! NDIRECT \<noteq> ?a" using inj [of MAXFILE] k by auto
    then show "(?c1(?a := ?v)) (addrs_of i s1 ! NDIRECT) = ?c1 (addrs_of i s1 ! NDIRECT)" by simp
  qed
  note u = data_update [OF g(10) da, where v = ?v]
  have "file_wrote dev H i (unat off) ys 1 s t"
    unfolding file_wrote_def
  proof (intro conjI allI impI)
    show "file_tx dev H i t" unfolding file_tx_def Ft using e(1,4,8,9) d1(3-6,8) u(2,4,6) g(9,10) f1(2) by auto
    show "sb t = sb s" "disk t = disk s" using e(5,8) f1(2,4) by simp_all
    show "icache t = (icache s)[i := (icache s ! i)\<lparr>i_addrs := addrs_of i t\<rparr>]" unfolding e(9) by (rule m(1))
    show "nlogged t \<le> nlogged s + 6 * 1" using tx_step_card [OF w(3)] f1(3) by simp
    show "nfree ?c (sb s) \<le> nfree (content dev t) (sb s) + 2 * 1" unfolding e(4) u(5) using m(4) by simp
    show "fgrown (sb s) ?c ?F (content dev t) (fmap (content dev t) (addrs_of i t))"
      unfolding Ft unfolding e(4) using k g(1) da by (intro fgrown_put [OF grows_fgrown [OF m(3)] refl _ _ _ d(2)]) auto
  next
    fix p assume p: "unat off \<le> p \<and> p < unat off + length ys"
    then have "p - unat off < BSIZE - unat off mod BSIZE" using ys by linarith
    from chunk_div_mod [OF this] p have pk: "p div BSIZE = ?k" by simp
    then show "fmap (content dev t) (addrs_of i t) (p div BSIZE) \<noteq> 0" unfolding Ft using g(1) by simp
    have "p < MAXFILE * BSIZE" using pk k by (metis div_less_iff_less_mult zero_less_numeral)
    then show "fbyte (content dev t) (fmap (content dev t) (addrs_of i t)) p = ys ! (p - unat off)"
      unfolding Ft unfolding e(4) using fbyte_put [of ?F1 "unat off" ?a ?c1 ys p] inj ys tx_length [OF d1(1), of ?a] p by simp
  next
    fix p assume p: "p < MAXFILE * BSIZE" "?F (p div BSIZE) \<noteq> 0 \<and> \<not> (unat off \<le> p \<and> p < unat off + length ys)"
    have pk: "p div BSIZE < MAXFILE" using p(1) by (simp add: less_mult_imp_div_less)
    have F1: "?F1 (p div BSIZE) = ?F (p div BSIZE)" using fgrownD(1) [OF grows_fgrown [OF m(3)], of "p div BSIZE"] k pk p(2) by simp
    have "?F (p div BSIZE) \<noteq> ?F MAXFILE" using fmap_okD(2) [OF d(7) _ _ order_refl, of "p div BSIZE"] pk p(2) by auto
    then have nb: "?c1 (?F (p div BSIZE)) = ?c (?F (p div BSIZE))"
      by (intro g(6) [OF fmap_okD(1) [OF d(7)]]) (use pk p(2) in simp_all)
    show "fbyte (content dev t) (fmap (content dev t) (addrs_of i t)) p = fbyte ?c ?F p"
      unfolding Ft unfolding e(4) using fbyte_put [of ?F1 "unat off" ?a ?c1 ys p] inj ys tx_length [OF d1(1), of ?a] p F1 nb
      by (simp add: fbyte_def)
  qed
  moreover have "bread (i_dev (icache s1 ! i)) ?a s1 = Ok (bp, s2)" using r d1(5) by simp
  ultimately show ?thesis using that b(1) w(1,2) visit_fs(1) [OF v] unfolding unat_div_1024 by metis
qed

lemma file_wrote_nil:
  assumes "file_tx dev H i s"
  shows "file_wrote dev H i off [] 0 s s"
  using assms file_txD(2) [OF assms] by (auto simp: file_wrote_def fgrown_def)

lemma file_wrote_trans:
  assumes a: "file_wrote dev H i off xs m s t" and b: "file_wrote dev H i (off + length xs) ys n t u"
    and f: "file_tx dev H i s" and fit: "off + length xs + length ys \<le> MAXFILE * BSIZE"
  shows "file_wrote dev H i off (xs @ ys) (m + n) s u"
  unfolding file_wrote_def
proof (intro conjI allI impI)
  note A = file_wroteD [OF a] and B = file_wroteD [OF b]
  let ?F = "\<lambda>s. fmap (content dev s) (addrs_of i s)"
  show "file_tx dev H i u" "sb u = sb s" "disk u = disk s" using A(2,3) B(1-3) by simp_all
  have il: "i < length (icache s)" by (rule file_txD(4) [OF f])
  have "icache u = (icache t)[i := (icache t ! i)\<lparr>i_addrs := addrs_of i u\<rparr>]" by (rule B(4))
  also have "\<dots> = (icache s)[i := (icache s ! i)\<lparr>i_addrs := addrs_of i u\<rparr>]" by (subst (1 2) A(4)) (simp add: il)
  finally show "icache u = (icache s)[i := (icache s ! i)\<lparr>i_addrs := addrs_of i u\<rparr>]" .
  show "nlogged u \<le> nlogged s + 6 * (m + n)" using A(5) B(5) by simp
  show "nfree (content dev s) (sb s) \<le> nfree (content dev u) (sb s) + 2 * (m + n)" using A(2,6) B(6) by simp
  have g: "fgrown (sb s) (content dev t) (?F t) (content dev u) (?F u)" using A(2) B(7) by simp
  show "fgrown (sb s) (content dev s) (?F s) (content dev u) (?F u)"
    using file_txD(7) [OF A(1)] file_txD(7) [OF B(1)] A(2) B(2) by (intro fgrown_trans [OF A(7) g]) simp_all
  fix p
  show "?F u (p div BSIZE) \<noteq> 0" "fbyte (content dev u) (?F u) p = (xs @ ys) ! (p - off)"
    if p: "off \<le> p \<and> p < off + length (xs @ ys)"
  proof -
    have pm: "p < MAXFILE * BSIZE" "p div BSIZE \<le> MAXFILE" using p fit by (simp_all add: less_mult_imp_div_less less_imp_le)
    have "?F u (p div BSIZE) \<noteq> 0 \<and> fbyte (content dev u) (?F u) p = (xs @ ys) ! (p - off)"
    proof (cases "p < off + length xs")
      case True
      then have "?F t (p div BSIZE) \<noteq> 0" "fbyte (content dev t) (?F t) p = xs ! (p - off)" using A(8,9) p by simp_all
      then show ?thesis using B(10) [OF pm(1)] fgrownD(1) [OF g pm(2)] True p by (auto simp: nth_append)
    next
      case False
      then show ?thesis using B(8,9) [of p] p by (auto simp: nth_append)
    qed
    then show "?F u (p div BSIZE) \<noteq> 0" "fbyte (content dev u) (?F u) p = (xs @ ys) ! (p - off)" by simp_all
  qed
  show "fbyte (content dev u) (?F u) p = fbyte (content dev s) (?F s) p"
    if p: "p < MAXFILE * BSIZE" "?F s (p div BSIZE) \<noteq> 0 \<and> \<not> (off \<le> p \<and> p < off + length (xs @ ys))"
  proof -
    have pm: "p div BSIZE \<le> MAXFILE" using p(1) by (simp add: less_mult_imp_div_less less_imp_le)
    have "?F t (p div BSIZE) \<noteq> 0" using fgrownD(1) [OF A(7) pm] p(2) by simp
    then show ?thesis using A(10) [OF p(1)] B(10) [OF p(1)] p(2) by auto
  qed
qed

text \<open>The blocks that \<open>r\<close> bytes at offset \<open>off\<close> touch.\<close>

definition nblk :: "nat \<Rightarrow> nat \<Rightarrow> nat" where
  "nblk off r = (if r = 0 then 0 else (off + r - 1) div BSIZE - off div BSIZE + 1)"

lemma nblk_chunk:
  assumes "0 < r" "m = min r (BSIZE - off mod BSIZE)"
  shows "nblk off r = 1 + nblk (off + m) (r - m)"
proof (cases "r \<le> BSIZE - off mod BSIZE")
  case True
  then have "r - 1 < BSIZE - off mod BSIZE" using assms(1) by linarith
  from chunk_div_mod(1) [OF this] have "(off + r - 1) div BSIZE = off div BSIZE" using assms(1) by simp
  then show ?thesis using True assms by (simp add: nblk_def)
next
  case False
  then have m: "m = BSIZE - off mod BSIZE" "m < r" using assms(2) by auto
  have "off mod BSIZE < BSIZE" by simp
  then have "m + off mod BSIZE = BSIZE" using m(1) by linarith
  moreover have "off + m = off div BSIZE * BSIZE + (m + off mod BSIZE)" using div_mult_mod_eq [of off BSIZE] by (metis add.assoc add.commute)
  ultimately have "off + m = BSIZE * (off div BSIZE + 1)" by simp
  then have d: "(off + m) div BSIZE = off div BSIZE + 1" by simp
  have "(off + m) div BSIZE \<le> (off + r - 1) div BSIZE" using m(2) by (intro div_le_mono) simp
  then obtain q where "(off + r - 1) div BSIZE = off div BSIZE + 1 + q" unfolding d by (metis le_Suc_ex)
  then show ?thesis using m(2) d by (simp add: nblk_def)
qed

lemma writei_loop_writes:
  fixes s :: "'a fsst_scheme"
  assumes "file_tx dev H i s" "src = Var xs" "tot \<le> n" "length xs = unat n - unat tot" "unat off + length xs \<le> MAXFILE * BSIZE"
    "2 * nblk (unat off) (length xs) \<le> nfree (content dev s) (sb s)"
    "nlogged s + 6 * nblk (unat off) (length xs) < LOGSIZE" "nlogged s + 6 * nblk (unat off) (length xs) + card H \<le> NBUF"
  shows "\<exists>t. writei_loop i src off n tot s = Ok (of_nat (unat off + length xs), t) \<and>
    file_wrote dev H i (unat off) xs (nblk (unat off) (length xs)) s t"
  using assms
proof (induction i src off n tot s arbitrary: xs rule: writei_loop.induct)
  case (1 i src off n tot s)
  note f = "1.prems"(1) and len = "1.prems"(4)
  show ?case
  proof (cases "tot < n")
    case False
    then have "xs = []" "tot = n" using "1.prems"(3) len by simp_all
    then show ?thesis using file_wrote_nil [OF f] by (simp add: writei_loop.simps [of i src] nblk_def)
  next
    case lt: True
    let ?m = "block_chunk n tot off" let ?ys = "take (unat ?m) xs" let ?zs = "drop (unat ?m) xs"
    have pos: "unat tot < unat n" using lt by (simp add: word_less_nat_alt)
    have um: "unat ?m = min (length xs) (BSIZE - unat off mod BSIZE)" using unat_block_chunk [OF lt] len by simp
    have nz: "0 < length xs" using pos len by simp
    note nb = nblk_chunk [OF nz um]
    have ly: "length ?ys = unat ?m" "length ?zs = length xs - unat ?m" using um by auto
    have k: "unat off div BSIZE < MAXFILE" by (rule less_mult_imp_div_less) (use "1.prems"(5) nz in linarith)
    have ys: "length ?ys \<le> BSIZE - unat off mod BSIZE" using um by simp
    have h: "1 < nfree (content dev s) (sb s)" "nlogged s + 5 < LOGSIZE - 1" "nlogged s + 5 + card H < NBUF"
      using "1.prems"(6-8) unfolding nb by simp_all
    obtain a s1 bp s2 s3 t where b: "bmap i (off div 1024) s = Ok (a, s1)" "bread (i_dev (icache s1 ! i)) a s1 = Ok (bp, s2)"
      "log_write bp (set_data bp (put_bytes (unat off mod BSIZE) ?ys (b_data (bufs s2 ! bp))) s2) = Ok s3" "brelse bp s3 = Ok t"
      "file_wrote dev H i (unat off) ?ys 1 s t"
      by (rule write_step [OF f k ys h])
    note w = file_wroteD [OF b(5)]
    have off': "unat (off + ?m) = unat off + unat ?m"
      using "1.prems"(5) um by (subst unat_add_lem [THEN iffD1]) auto
    have tot': "unat (tot + ?m) = unat tot + unat ?m" by (rule unat_block_chunk_add [OF lt])
    have ft: "fetch src ?m s2 = Ok (0, ?ys)" using "1.prems"(2) by simp
    have "\<exists>u. writei_loop i (place_add src ?m) (off + ?m) n (tot + ?m) t = Ok (of_nat (unat (off + ?m) + length ?zs), u) \<and>
      file_wrote dev H i (unat (off + ?m)) ?zs (nblk (unat (off + ?m)) (length ?zs)) t u"
    proof (rule "1.IH" [OF lt b(1) refl b(2) refl refl ft refl refl _ b(3,4) w(1)])
      show "(0 :: int) \<noteq> - 1" by simp
      show "place_add src ?m = Var ?zs" using "1.prems"(2) by simp
      show "tot + ?m \<le> n" unfolding word_le_nat_alt tot' using um len pos by (auto simp: min_def)
      show "length ?zs = unat n - unat (tot + ?m)" unfolding ly tot' using len by simp
      show "unat (off + ?m) + length ?zs \<le> MAXFILE * BSIZE" unfolding ly off' using um "1.prems"(5) by simp
      show "2 * nblk (unat (off + ?m)) (length ?zs) \<le> nfree (content dev t) (sb t)"
        using "1.prems"(6) w(2,6) unfolding nb ly off' by simp
      show "nlogged t + 6 * nblk (unat (off + ?m)) (length ?zs) < LOGSIZE" "nlogged t + 6 * nblk (unat (off + ?m)) (length ?zs) + card H \<le> NBUF"
        using "1.prems"(7,8) w(5) unfolding nb ly off' by simp_all
    qed
    then obtain u where u: "writei_loop i (place_add src ?m) (off + ?m) n (tot + ?m) t = Ok (of_nat (unat off + length xs), u)"
      "file_wrote dev H i (unat off + length ?ys) ?zs (nblk (unat off + unat ?m) (length xs - unat ?m)) t u"
      unfolding ly off' using um by auto
    have "file_wrote dev H i (unat off) (?ys @ ?zs) (1 + nblk (unat off + unat ?m) (length xs - unat ?m)) s u"
      by (rule file_wrote_trans [OF b(5) u(2) f]) (use um "1.prems"(5) in auto)
    then have "file_wrote dev H i (unat off) xs (nblk (unat off) (length xs)) s u" unfolding nb by simp
    moreover have "writei_loop i src off n tot s = writei_loop i (place_add src ?m) (off + ?m) n (tot + ?m) t"
      using lt b(1-4) "1.prems"(2) by (simp add: writei_loop.simps [of i "Var xs" off] Let_def)
    ultimately show ?thesis using u(1) by auto
  qed
qed

end
