(* ===== verification/FsInode.thy ===== *)
theory FsInode
  imports FsFile
begin

text \<open>
  Inodes on the disk: the layout of \<open>struct dinode\<close> in an inode block, \<open>iupdate\<close>, and with them the whole of
  \<open>writei\<close> and its agreement with \<open>readi\<close>.
\<close>

section \<open>The dinode layout\<close>

lemma take_drop_concat:
  assumes "\<And>x. length (f x) = m" "j < length as"
  shows "take m (drop (m * j) (concat (map f as))) = f (as ! j)"
  using assms(2)
proof (induction as arbitrary: j)
  case (Cons a as)
  then show ?case using assms(1) by (cases j) (simp_all add: take_drop)
qed simp

lemma length_encode_dinode: "length (d_addrs di) = NDIRECT + 1 \<Longrightarrow> length (encode_dinode di) = 64"
proof -
  assume "length (d_addrs di) = NDIRECT + 1"
  moreover have "length (concat (map (le_encode 4) as)) = 4 * length as" for as :: "u32 list" by (induction as) auto
  ultimately show ?thesis by (simp add: encode_dinode_def)
qed

lemma encode_dinode_fields:
  assumes "length (d_addrs di) = NDIRECT + 1"
  shows "take 2 (encode_dinode di) = le_encode 2 (d_type di)" "take 2 (drop 2 (encode_dinode di)) = le_encode 2 (d_major di)"
    "take 2 (drop 4 (encode_dinode di)) = le_encode 2 (d_minor di)" "take 2 (drop 6 (encode_dinode di)) = le_encode 2 (d_nlink di)"
    "take 4 (drop 8 (encode_dinode di)) = le_encode 4 (d_size di)"
    "j \<le> NDIRECT \<Longrightarrow> take 4 (drop (12 + 4 * j) (encode_dinode di)) = le_encode 4 (d_addrs di ! j)"
proof -
  have "drop (12 + 4 * j) (encode_dinode di) = drop (4 * j) (concat (map (le_encode 4) (d_addrs di)))" by (simp add: encode_dinode_def)
  then show "j \<le> NDIRECT \<Longrightarrow> take 4 (drop (12 + 4 * j) (encode_dinode di)) = le_encode 4 (d_addrs di ! j)"
    using take_drop_concat [of "le_encode 4" 4 j "d_addrs di"] assms by simp
qed (simp_all add: encode_dinode_def)

text \<open>A dinode reads back as it was put, and putting one leaves the fifteen others of its block alone.\<close>

lemma dinode_put_get:
  assumes k: "k < IPB" and d: "length d = BSIZE" and a: "length (d_addrs di) = NDIRECT + 1"
  shows "get_dinode k (put_dinode k di d) = di"
proof -
  note l = length_encode_dinode [OF a]
  have g: "get_bytes (64 * k + o') n (put_bytes (64 * k) (encode_dinode di) d) = take n (drop o' (encode_dinode di))" if "o' + n \<le> 64" for o' n
    using get_put_bytes_within [of "64 * k" "encode_dinode di" d "64 * k + o'" n] that k d l by (simp add: get_bytes_def [of o'])
  have ad: "map (\<lambda>j. get32 (64 * k + 12 + 4 * j) (put_bytes (64 * k) (encode_dinode di) d)) [0..<NDIRECT + 1] = d_addrs di"
  proof (rule nth_equalityI)
    fix j assume "j < length (map (\<lambda>j. get32 (64 * k + 12 + 4 * j) (put_bytes (64 * k) (encode_dinode di) d)) [0..<NDIRECT + 1])"
    then have j: "j \<le> NDIRECT" by simp
    have "get32 (64 * k + 12 + 4 * j) (put_bytes (64 * k) (encode_dinode di) d) = d_addrs di ! j"
      using g [of "12 + 4 * j" 4] j encode_dinode_fields(6) [OF a j] by (simp add: get32_def add.assoc)
    then show "map (\<lambda>j. get32 (64 * k + 12 + 4 * j) (put_bytes (64 * k) (encode_dinode di) d)) [0..<NDIRECT + 1] ! j = d_addrs di ! j"
      using j by (simp only: nth_map_upt length_upt)  simp
  qed (use a in simp)
  show ?thesis
    unfolding get_dinode_def put_dinode_def Let_def ad
    using g [of 0 2] g [of 2 2] g [of 4 2] g [of 6 2] g [of 8 4] encode_dinode_fields(1-5) [OF a]
    by (simp add: get16_def get32_def)
qed

lemma dinode_put_other:
  assumes "k < IPB" "j < IPB" "j \<noteq> k" and d: "length d = BSIZE" and a: "length (d_addrs di) = NDIRECT + 1"
  shows "get_dinode j (put_dinode k di d) = get_dinode j d"
proof -
  have g: "get_bytes (64 * j + o') n (put_bytes (64 * k) (encode_dinode di) d) = get_bytes (64 * j + o') n d" if "o' + n \<le> 64" for o' n
    using assms(1-3) d that by (intro get_put_bytes_other) (auto simp: length_encode_dinode [OF a])
  have "map (\<lambda>x. get32 (64 * j + 12 + 4 * x) (put_bytes (64 * k) (encode_dinode di) d)) [0..<NDIRECT + 1] =
      map (\<lambda>x. get32 (64 * j + 12 + 4 * x) d) [0..<NDIRECT + 1]"
    using g [of "12 + 4 * x" 4 for x] by (auto simp: get32_def add.assoc)
  then show ?thesis
    unfolding get_dinode_def put_dinode_def Let_def
    using g [of 0 2] g [of 2 2] g [of 4 2] g [of 6 2] g [of 8 4] by (simp add: get16_def get32_def)
qed

section \<open>iupdate\<close>

text \<open>The block of the inode lies below the bitmap, and its buffer is free.\<close>

definition inode_ok :: "u32 set \<Rightarrow> nat \<Rightarrow> 'a fsst_scheme \<Rightarrow> bool" where
  "inode_ok H i s \<longleftrightarrow> (let n = IBLOCK (i_inum (icache s ! i)) (sb s) in unat n < unat (sb_bmapstart (sb s)) \<and> n \<notin> H)"

lemma islot_less: "islot inum < IPB"
  by (simp add: islot_def)

lemma length_put_dinode:
  assumes "k < IPB" "length d = BSIZE" "length (d_addrs di) = NDIRECT + 1"
  shows "length (put_dinode k di d) = BSIZE"
  using assms length_encode_dinode [OF assms(3)] by (simp add: put_dinode_def)

lemma iupdate_tx:
  fixes s :: "'a fsst_scheme"
  assumes f: "file_tx dev H i s" and ok: "inode_ok H i s" and full: "nlogged s < LOGSIZE - 1" "nlogged s + card H < NBUF"
  defines "n \<equiv> IBLOCK (i_inum (icache s ! i)) (sb s)"
  obtains t where "iupdate i s = Ok t"
    "tx_step dev s {n} ((content dev s)(n := put_dinode (islot (i_inum (icache s ! i))) (dinode_of (icache s ! i)) (content dev s n))) H t"
proof -
  note d = file_txD [OF f]
  let ?v = "put_dinode (islot (i_inum (icache s ! i))) (dinode_of (icache s ! i)) (content dev s n)"
  have n: "n \<notin> H" using ok by (simp add: inode_ok_def n_def Let_def)
  obtain bp s1 where b: "bread dev n s = Ok (bp, s1)" and v: "visit dev H s n bp s1" by (rule tx_visit [OF d(1) n full(2)])
  have lv: "length ?v = BSIZE" by (rule length_put_dinode) (use d(6) tx_length [OF d(1)] in \<open>auto simp: islot_less dinode_of_def\<close>)
  obtain s2 t where w: "log_write bp (set_data bp ?v s1) = Ok s2" "brelse bp s2 = Ok t" "tx_step dev s {n} ((content dev s)(n := ?v)) H t"
    by (rule visit_log [OF v full(1) lv])
  then have "iupdate i s = Ok t" using b d(5) visit_fs(1) [OF v] by (simp add: iupdate_def Let_def n_def)
  then show ?thesis using that w(3) by blast
qed

text \<open>Writing a block below the bitmap leaves the bitmap and every file alone.\<close>

lemma meta_update:
  assumes "bitmap_ok c sp" "unat n < unat (sb_bmapstart sp)"
  shows "j < unat (sb_size sp) \<Longrightarrow> used (c(n := v)) sp j \<longleftrightarrow> used c sp j" "bitmap_ok (c(n := v)) sp"
    "datablk (c(n := v)) sp x \<longleftrightarrow> datablk c sp x" "fmap_ok (c(n := v)) sp F \<longleftrightarrow> fmap_ok c sp F"
    "held_ok (c(n := v)) sp H \<longleftrightarrow> held_ok c sp H" "datablk c sp x \<Longrightarrow> (c(n := v)) x = c x"
proof -
  have u: "used (c(n := v)) sp j \<longleftrightarrow> used c sp j" if "j < unat (sb_size sp)" for j
    using unat_BBLOCK [OF assms(1) that] assms(2) by (auto simp: used_def)
  then show "j < unat (sb_size sp) \<Longrightarrow> used (c(n := v)) sp j \<longleftrightarrow> used c sp j" for j by blast
  show "bitmap_ok (c(n := v)) sp" using u assms(1) unfolding bitmap_ok_def by auto
  show d: "datablk (c(n := v)) sp x \<longleftrightarrow> datablk c sp x" for x using u unfolding datablk_def by auto
  show "fmap_ok (c(n := v)) sp F \<longleftrightarrow> fmap_ok c sp F" unfolding fmap_ok_def d ..
  show "held_ok (c(n := v)) sp H \<longleftrightarrow> held_ok c sp H" unfolding held_ok_def using u by auto
  show "datablk c sp x \<Longrightarrow> (c(n := v)) x = c x" using assms(2) by (auto simp: datablk_def)
qed

lemma fmap_meta:
  assumes "bitmap_ok c sp" "unat n < unat (sb_bmapstart sp)" "fmap_ok c sp (fmap c addrs)"
  shows "fmap (c(n := v)) addrs = fmap c addrs" "k \<le> MAXFILE \<Longrightarrow> fmap c addrs k \<noteq> 0 \<Longrightarrow> (c(n := v)) (fmap c addrs k) = c (fmap c addrs k)"
proof -
  note m = meta_update(6) [OF assms(1,2)]
  have "fmap c addrs MAXFILE = addrs ! NDIRECT" by (simp add: fmap_def)
  then show "fmap (c(n := v)) addrs = fmap c addrs" using m [OF fmap_okD(1) [OF assms(3), of MAXFILE]] by (intro fmap_same_ind) simp
  show "k \<le> MAXFILE \<Longrightarrow> fmap c addrs k \<noteq> 0 \<Longrightarrow> (c(n := v)) (fmap c addrs k) = c (fmap c addrs k)"
    using m [OF fmap_okD(1) [OF assms(3)]] by blast
qed

text \<open>The inode is brought up to date on its block and no file is touched.\<close>

lemma iupdate_file:
  fixes s :: "'a fsst_scheme"
  assumes f: "file_tx dev H i s" and ok: "inode_ok H i s" and full: "nlogged s < LOGSIZE - 1" "nlogged s + card H < NBUF"
  obtains t where "iupdate i s = Ok t" "file_tx dev H i t" "icache t = icache s" "sb t = sb s" "disk t = disk s" "nlogged t \<le> nlogged s + 1"
    "fmap (content dev t) (addrs_of i t) = fmap (content dev s) (addrs_of i s)"
    "\<forall>a. datablk (content dev s) (sb s) a \<longrightarrow> content dev t a = content dev s a"
    "get_dinode (islot (i_inum (icache s ! i))) (content dev t (IBLOCK (i_inum (icache s ! i)) (sb s))) = dinode_of (icache s ! i)"
proof -
  note d = file_txD [OF f]
  define b v where b: "b = IBLOCK (i_inum (icache s ! i)) (sb s)"
    and v: "v = put_dinode (islot (i_inum (icache s ! i))) (dinode_of (icache s ! i)) (content dev s b)"
  obtain t where t: "iupdate i s = Ok t" "tx_step dev s {b} ((content dev s)(b := v)) H t"
    unfolding v b by (rule iupdate_tx [OF f ok full])
  note e = tx_stepD [OF t(2)] tx_step_fs [OF t(2)]
  have mb: "unat b < unat (sb_bmapstart (sb s))" using ok by (simp add: inode_ok_def Let_def b)
  note m = meta_update [OF d(2) mb, where v = v] and fm = fmap_meta [OF d(2) mb d(7), where v = v]
  have F: "fmap (content dev t) (addrs_of i t) = fmap (content dev s) (addrs_of i s)" unfolding e(4,9) by (rule fm(1))
  have "file_tx dev H i t" unfolding file_tx_def F unfolding e(4,8,9) using e(1) d m(2,4,5) by blast
  moreover have "get_dinode (islot (i_inum (icache s ! i))) (content dev t b) = dinode_of (icache s ! i)"
    unfolding e(4) fun_upd_same v by (rule dinode_put_get [OF islot_less]) (use d(6) tx_length [OF d(1)] in \<open>auto simp: dinode_of_def\<close>)
  moreover have "nlogged t \<le> nlogged s + 1" using tx_step_card [OF t(2)] by simp
  moreover have "\<forall>a. datablk (content dev s) (sb s) a \<longrightarrow> content dev t a = content dev s a" unfolding e(4) using m(6) by blast
  ultimately show ?thesis using that [OF t(1) _ e(9,8,5) _ F] unfolding b by blast
qed

section \<open>writei and readi\<close>

lemma upd_inode_file:
  assumes "file_tx dev H i s" "\<And>ip. i_addrs (f ip) = i_addrs ip" "\<And>ip. i_dev (f ip) = i_dev ip"
  shows "file_tx dev H i (upd_inode i f s)" "addrs_of i (upd_inode i f s) = addrs_of i s"
  using assms(1) file_txD(4) [OF assms(1)] assms(2,3) by (simp_all add: file_tx_def)

text \<open>What the end of \<open>writei\<close> does: the new size and \<open>iupdate\<close>.\<close>

definition grow_size :: "u32 \<Rightarrow> inode \<Rightarrow> inode" where
  "grow_size off ip = (if off > i_size ip then ip\<lparr>i_size := off\<rparr> else ip)"

lemma grow_size_fields [simp]:
  "i_addrs (grow_size off ip) = i_addrs ip" "i_dev (grow_size off ip) = i_dev ip" "i_inum (grow_size off ip) = i_inum ip"
  "unat (i_size (grow_size off ip)) = max (unat (i_size ip)) (unat off)"
  by (auto simp: grow_size_def word_less_nat_alt)

lemma writei_Var:
  fixes s v :: "'a fsst_scheme"
  assumes "unat off \<le> unat (i_size (icache s ! i))" "unat off + length xs \<le> MAXFILE * BSIZE" "xs \<noteq> []"
    and v: "writei_loop i (Var xs) off (of_nat (length xs)) 0 s = Ok (of_nat (unat off + length xs), v)"
    and t: "iupdate i (upd_inode i (grow_size (of_nat (unat off + length xs))) v) = Ok t"
  shows "writei i (Var xs) off (of_nat (length xs)) s = Ok (int (length xs), t)"
proof -
  have n: "unat (of_nat (length xs) :: u32) = length xs" using assms(2) by (intro unat_of_nat_u32) simp
  have on: "unat (off + of_nat (length xs)) = unat off + length xs" using assms(2) n by (subst unat_add_lem [THEN iffD1]) auto
  have pos: "(0 :: u32) < of_nat (length xs)" using n assms(3) by (simp add: word_less_nat_alt)
  have sn: "sint (of_nat (length xs) :: u32) = int (length xs)"
    using assms(2) by (simp add: signed_of_nat signed_take_bit_int_eq_self)
  have c: "\<not> (off > i_size (icache s ! i) \<or> off + of_nat (length xs) < off)" "\<not> unat (off + of_nat (length xs)) > MAXFILE * BSIZE"
    using assms(1,2) on by (simp_all add: word_less_nat_alt)
  show ?thesis
    unfolding writei_def if_not_P [OF c(1)] if_not_P [OF c(2)] v andthen.simps prod.case if_P [OF pos]
      t [unfolded grow_size_def [abs_def]] sn ..
qed

text \<open>The whole of \<open>writei\<close> on bytes held by value.\<close>

lemma writei_file:
  fixes s :: "'a fsst_scheme"
  assumes f: "file_tx dev H i s" "covered dev i s" "inode_ok H i s"
    and off: "unat off \<le> unat (i_size (icache s ! i))" "unat off + length xs \<le> MAXFILE * BSIZE" "xs \<noteq> []"
    and full: "2 * nblk (unat off) (length xs) \<le> nfree (content dev s) (sb s)"
      "nlogged s + 6 * nblk (unat off) (length xs) < LOGSIZE - 1" "nlogged s + 6 * nblk (unat off) (length xs) + card H < NBUF"
  obtains t where "writei i (Var xs) off (of_nat (length xs)) s = Ok (int (length xs), t)"
    "unat (i_size (icache t ! i)) = max (unat (i_size (icache s ! i))) (unat off + length xs)"
    "\<forall>p < unat (i_size (icache t ! i)). fbyte (content dev t) (fmap (content dev t) (addrs_of i t)) p =
       (if unat off \<le> p \<and> p < unat off + length xs then xs ! (p - unat off)
        else fbyte (content dev s) (fmap (content dev s) (addrs_of i s)) p)"
    "get_dinode (islot (i_inum (icache t ! i))) (content dev t (IBLOCK (i_inum (icache t ! i)) (sb t))) = dinode_of (icache t ! i)"
    "\<forall>a. datablk (content dev s) (sb s) a \<and> (\<forall>k \<le> MAXFILE. fmap (content dev s) (addrs_of i s) k \<noteq> a) \<longrightarrow>
       content dev t a = content dev s a"
    "disk t = disk s" "file_tx dev H i t" "covered dev i t" "nlogged t \<le> nlogged s + 6 * nblk (unat off) (length xs) + 1" "sb t = sb s"
    "icache t = (icache s)[i := icache t ! i]" "icache t ! i = (icache s ! i)\<lparr>i_addrs := addrs_of i t, i_size := i_size (icache t ! i)\<rparr>"
proof -
  let ?n = "of_nat (length xs) :: u32" let ?nb = "nblk (unat off) (length xs)" let ?stop = "unat off + length xs"
  let ?F = "\<lambda>s :: 'a fsst_scheme. fmap (content dev s) (addrs_of i s)"
  have un: "unat ?n = length xs" using off(2) by (intro unat_of_nat_u32) simp
  have ue: "unat (of_nat ?stop :: u32) = ?stop" using off(2) by (intro unat_of_nat_u32) simp
  have lim: "2 * ?nb \<le> nfree (content dev s) (sb s)" "nlogged s + 6 * ?nb < LOGSIZE" "nlogged s + 6 * ?nb + card H \<le> NBUF" "length xs = unat ?n - unat (0 :: u32)"
    using full un by simp_all
  obtain v where v: "writei_loop i (Var xs) off ?n 0 s = Ok (of_nat ?stop, v)" "file_wrote dev H i (unat off) xs ?nb s v"
    using writei_loop_writes [OF f(1) refl word_zero_le lim(4) off(2) lim(1-3)] by blast
  note w = file_wroteD [OF v(2)]
  define u where u: "u = upd_inode i (grow_size (of_nat ?stop)) v"
  have fu: "file_tx dev H i u" "addrs_of i u = addrs_of i v" "content dev u = content dev v" "sb u = sb s" "disk u = disk s" "nlogged u = nlogged v"
    using upd_inode_file [OF w(1), of "grow_size (of_nat ?stop)"] w(2,3) by (simp_all add: u)
  have iu: "icache u ! i = grow_size (of_nat ?stop) ((icache s ! i)\<lparr>i_addrs := addrs_of i v\<rparr>)"
    unfolding u using w(4) file_txD(4) [OF f(1)] by (metis length_list_update nth_list_update_eq upd_inode_views(6))
  have iok: "inode_ok H i u" using f(3) unfolding inode_ok_def iu fu(4) by (simp add: Let_def)
  have lu: "nlogged u < LOGSIZE - 1" "nlogged u + card H < NBUF" using w(5) full fu(6) by simp_all
  obtain t where t: "iupdate i u = Ok t" "file_tx dev H i t" "icache t = icache u" "sb t = sb u" "disk t = disk u" "nlogged t \<le> nlogged u + 1"
    "?F t = ?F u" "\<forall>a. datablk (content dev u) (sb u) a \<longrightarrow> content dev t a = content dev u a"
    "get_dinode (islot (i_inum (icache u ! i))) (content dev t (IBLOCK (i_inum (icache u ! i)) (sb u))) = dinode_of (icache u ! i)"
    by (rule iupdate_file [OF fu(1) iok lu])
  have Ft: "?F t = ?F v" using t(7) fu(2,3) by simp
  have size: "unat (i_size (icache t ! i)) = max (unat (i_size (icache s ! i))) ?stop" unfolding t(3) iu grow_size_fields(4) ue by simp
  have sz: "unat (i_size (icache s ! i)) \<le> MAXFILE * BSIZE" using f(2) by (simp add: covered_def)
  have byte: "?F t (p div BSIZE) \<noteq> 0 \<and> fbyte (content dev t) (?F t) p =
      (if unat off \<le> p \<and> p < ?stop then xs ! (p - unat off) else fbyte (content dev s) (?F s) p)"
    if p: "p < unat (i_size (icache t ! i))" for p
  proof -
    have pm: "p < MAXFILE * BSIZE" using p size sz off(2) by linarith
    then have pk: "p div BSIZE \<le> MAXFILE" by (simp add: less_mult_imp_div_less less_imp_le)
    have Fp: "?F v (p div BSIZE) \<noteq> 0 \<and> fbyte (content dev v) (?F v) p =
      (if unat off \<le> p \<and> p < ?stop then xs ! (p - unat off) else fbyte (content dev s) (?F s) p)"
    proof (cases "unat off \<le> p \<and> p < ?stop")
      case True
      then show ?thesis using w(8,9) by simp
    next
      case False
      then have "p < unat (i_size (icache s ! i))" using p size off(1) by linarith
      then have "?F s (p div BSIZE) \<noteq> 0" using f(2) by (simp add: covered_def)
      then show ?thesis using w(10) [OF pm] fgrownD(1) [OF w(7) pk] False by auto
    qed
    have "datablk (content dev u) (sb u) (?F v (p div BSIZE))"
      using fmap_okD(1) [OF file_txD(7) [OF fu(1)] pk] Fp unfolding fu(2,3) by blast
    then have "content dev t (?F v (p div BSIZE)) = content dev v (?F v (p div BSIZE))" using t(8) fu(3) by simp
    then show ?thesis using Fp unfolding Ft by (simp add: fbyte_def)
  qed
  have cov: "covered dev i t" unfolding covered_def using byte size sz off(2) by simp
  have "content dev t a = content dev s a" if a: "datablk (content dev s) (sb s) a" "\<forall>k \<le> MAXFILE. ?F s k \<noteq> a" for a
    using fgrownD(3,4) [OF w(7) a(1)] a(2) t(8) fu(3,4) by simp
  moreover have "writei i (Var xs) off ?n s = Ok (int (length xs), t)" by (rule writei_Var [OF off v(1) t(1) [unfolded u]])
  moreover have "disk t = disk s" using t(5) fu(5) by simp
  moreover have "nlogged t \<le> nlogged s + 6 * ?nb + 1" using t(6) fu(6) w(5) by simp
  moreover have "icache t = (icache s)[i := icache t ! i]"
    unfolding t(3) u upd_inode_views(6) by (subst (1 2 3) w(4)) (simp add: file_txD(4) [OF f(1)])
  moreover have "icache t ! i = (icache s ! i)\<lparr>i_addrs := addrs_of i t, i_size := i_size (icache t ! i)\<rparr>"
    unfolding t(3) iu by (simp add: grow_size_def)
  ultimately show ?thesis using that size byte t(2) cov t(9) [folded t(3,4)] t(4) fu(4) by metis
qed


definition demo_inode :: inode where
  "demo_inode = \<lparr>i_dev = 1, i_inum = 1, i_ref = 1, i_lock = \<lparr>sl_locked = True, sl_pid = 1\<rparr>, i_valid = True, i_type = T_FILE, i_major = 0,
     i_minor = 0, i_nlink = 1, i_size = 0, i_addrs = replicate 13 0\<rparr>"

lemma demo_file:
  fixes s :: fsst
  defines "s \<equiv> demo_fs demo_bitmap [demo_inode]"
  shows "file_tx 1 {} 0 s" "covered 1 0 s" "inode_ok {} 0 s" "nfree (content 1 s) (sb s) = 954" "nlogged s = 0" "i_size (icache s ! 0) = 0"
proof -
  note d = demo_fs_tx [of demo_bitmap "[demo_inode]", OF demo_bitmap_ok(1), folded s_def]
  have F: "fmap demo_bitmap (replicate 13 0) k = 0" if "k \<le> MAXFILE" for k using that by (auto simp: fmap_def)
  have sz: "unat (sb_size demo_sb) = 1000" by (simp add: demo_sb_def)
  show "file_tx 1 {} 0 s"
    unfolding file_tx_def using d demo_bitmap_ok(2,3) F by (auto simp: demo_inode_def fmap_ok_def)
  show "covered 1 0 s" "i_size (icache s ! 0) = 0" using d(5) by (simp_all add: covered_def demo_inode_def)
  show "inode_ok {} 0 s" using d(4,5) by (simp add: inode_ok_def Let_def demo_inode_def IBLOCK_def demo_sb_def)
  have "{b. b < 1000 \<and> \<not> used demo_bitmap demo_sb b} = {46..<1000}" using demo_used by auto
  then show "nfree (content 1 s) (sb s) = 954" unfolding nfree_def d(2,4) sz by simp
  show "nlogged s = 0" by (rule d(3))
qed


end
