(* ===== verification/FsDir.thy ===== *)
theory FsDir
  imports FsInode
begin

text \<open>
  Directories: a directory is the list of its 16-byte entries. \<open>dirlookup\<close> finds the first entry in use with
  the name, \<open>dirlink\<close> fills the first unused entry or adds one, and a name that has been linked is found.
\<close>

section \<open>Names and entries\<close>

text \<open>The name as a C string of at most \<open>DIRSIZ\<close> bytes.\<close>

definition cname :: "u8 list \<Rightarrow> u8 list" where
  "cname xs = takeWhile (\<lambda>b. b \<noteq> 0) (take DIRSIZ xs)"

lemma strncmp_bytes_eq: "strncmp_bytes n p q = 0 \<longleftrightarrow> takeWhile (\<lambda>b. b \<noteq> 0) (take n p) = takeWhile (\<lambda>b. b \<noteq> 0) (take n q)"
proof (induction n p q rule: strncmp_bytes.induct)
  case (2 n p q)
  have u: "uint a = uint b \<longleftrightarrow> a = b" "uint a = 0 \<longleftrightarrow> a = 0" for a b :: u8 by (simp_all add: word_uint_eq_iff)
  show ?case using 2 by (cases p; cases q) (auto simp: Let_def u)
qed simp

lemma namecmp_eq: "namecmp p q = 0 \<longleftrightarrow> cname p = cname q"
  by (simp add: namecmp_def cname_def strncmp_bytes_eq)

lemma cname_dirname14: "cname (dirname14 name) = cname name"
proof -
  have "takeWhile (\<lambda>b. b \<noteq> 0) (take n (xs @ replicate k 0)) = takeWhile (\<lambda>b. b \<noteq> 0) (take n xs)" for n k and xs :: "u8 list"
  proof (induction xs arbitrary: n)
    case Nil
    have "takeWhile (\<lambda>b. b \<noteq> 0) (replicate j (0 :: u8)) = []" for j by (cases j) auto
    then show ?case by simp
  next
    case (Cons x xs)
    then show ?case by (cases n) auto
  qed
  from this [of DIRSIZ name DIRSIZ] show ?thesis unfolding cname_def dirname14_def take_take min.idem .
qed

lemma dirent_decode_encode:
  assumes "length (de_name de) = DIRSIZ"
  shows "decode_dirent (encode_dirent de) = de" "length (encode_dirent de) = 16"
  using assms by (simp_all add: decode_dirent_def encode_dirent_def)

lemma length_dirname14: "length (dirname14 name) = DIRSIZ"
  by (simp add: dirname14_def)

text \<open>Entry \<open>k\<close> of the directory, and the directory.\<close>

definition entry :: "(nat \<Rightarrow> u8) \<Rightarrow> nat \<Rightarrow> dirent" where
  "entry f k = decode_dirent (map f [16 * k..<16 * k + 16])"

definition names :: "u8 list \<Rightarrow> dirent \<Rightarrow> bool" where
  "names name de \<longleftrightarrow> de_inum de \<noteq> 0 \<and> cname name = cname (de_name de)"

abbreviation dbytes :: "u32 \<Rightarrow> nat \<Rightarrow> 'a fsst_scheme \<Rightarrow> nat \<Rightarrow> u8" where
  "dbytes dev i s \<equiv> fbyte (content dev s) (fmap (content dev s) (addrs_of i s))"

definition dir_ok :: "u32 \<Rightarrow> u32 set \<Rightarrow> nat \<Rightarrow> 'a fsst_scheme \<Rightarrow> bool" where
  "dir_ok dev H i s \<longleftrightarrow> file_tx dev H i s \<and> covered dev i s \<and> i_type (icache s ! i) = T_DIR \<and> 16 dvd unat (i_size (icache s ! i)) \<and>
     nlogged s + 1 + card H < NBUF"

definition dents :: "'a fsst_scheme \<Rightarrow> nat \<Rightarrow> nat" where
  "dents s i = unat (i_size (icache s ! i)) div 16"

lemma dir_ok_step:
  assumes "dir_ok dev H i s" "tx_step dev s {} (content dev s) H t"
  shows "dir_ok dev H i t" "dbytes dev i t = dbytes dev i s" "icache t = icache s" "dents t i = dents s i"
proof -
  note e = tx_stepD(3,4) [OF assms(2)] tx_step_fs [OF assms(2)]
  show "dir_ok dev H i t"
    using assms(1) file_tx_step [OF _ assms(2)] e by (simp add: dir_ok_def covered_def)
  show "dbytes dev i t = dbytes dev i s" "icache t = icache s" "dents t i = dents s i" using e by (simp_all add: dents_def)
qed

text \<open>Reading one entry.\<close>

lemma readi_entry:
  fixes s :: "'a fsst_scheme"
  assumes d: "dir_ok dev H i s" and k: "k < dents s i"
  obtains t where "readi i (Var []) (of_nat (16 * k)) 16 s = Ok (16, map (dbytes dev i s) [16 * k..<16 * k + 16], t)"
    "tx_step dev s {} (content dev s) H t"
proof -
  have f: "file_tx dev H i s" "covered dev i s" "nlogged s + 1 + card H < NBUF" using d by (simp_all add: dir_ok_def)
  have "16 * k + 16 \<le> unat (i_size (icache s ! i))" using d k by (auto simp: dir_ok_def dents_def elim!: dvdE)
  moreover have "unat (i_size (icache s ! i)) \<le> MAXFILE * BSIZE" using f(2) by (simp add: covered_def)
  ultimately have b: "16 * k + 16 \<le> unat (i_size (icache s ! i))" "16 * k + 16 \<le> MAXFILE * BSIZE" by simp_all
  have uk: "unat (of_nat (16 * k) :: u32) = 16 * k" using b(2) by (intro unat_of_nat_u32) simp
  have o: "unat (of_nat (16 * k) :: u32) \<le> unat (i_size (icache s ! i))" "unat (of_nat (16 * k) :: u32) + unat (16 :: u32) < 2 ^ 32"
    unfolding uk using b by simp_all
  have m: "min (unat (16 :: u32)) (unat (i_size (icache s ! i)) - unat (of_nat (16 * k) :: u32)) = 16" unfolding uk using b by simp
  obtain t where "readi i (Var []) (of_nat (16 * k)) 16 s =
      Ok (of_nat 16, map (dbytes dev i s) [unat (of_nat (16 * k) :: u32)..<unat (of_nat (16 * k) :: u32) + 16], t)"
    "tx_step dev s {} (content dev s) H t"
    by (rule readi_reads [OF f o, of "[]", unfolded m])
  then show ?thesis using that unfolding uk by simp
qed

section \<open>dirlookup\<close>

lemma dirlookup_loop_step:
  fixes s :: "'a fsst_scheme"
  assumes d: "dir_ok dev H i s" and k: "k < dents s i"
  obtains t where "tx_step dev s {} (content dev s) H t"
    "dirlookup_loop i name (16 * k) (16 * dents s i) s =
      (if names name (entry (dbytes dev i s) k)
       then andthen (iget dev (ucast (de_inum (entry (dbytes dev i s) k))) t) (\<lambda>(ip, u). Ok (Some (ip, of_nat (16 * k)), u))
       else dirlookup_loop i name (16 * k + 16) (16 * dents s i) t)"
proof -
  obtain t where t: "readi i (Var []) (of_nat (16 * k)) 16 s = Ok (16, map (dbytes dev i s) [16 * k..<16 * k + 16], t)"
    "tx_step dev s {} (content dev s) H t" by (rule readi_entry [OF d k])
  have dev: "i_dev (icache t ! i) = dev" using d dir_ok_step(3) [OF d t(2)] file_txD(5) by (auto simp: dir_ok_def)
  have "16 * k < 16 * dents s i" using k by simp
  then show ?thesis
    by (intro that [OF t(2)])
      (subst dirlookup_loop.simps, unfold t(1) entry_def [symmetric] namecmp_eq, auto simp: names_def dev entry_def Let_def)
qed

lemma dirlookup_loop_finds:
  fixes s :: "'a fsst_scheme"
  assumes "dir_ok dev H i s" "k \<le> dents s i"
  shows "\<exists>t. tx_step dev s {} (content dev s) H t \<and> dirlookup_loop i name (16 * k) (16 * dents s i) s =
    (case find (\<lambda>j. names name (entry (dbytes dev i s) j)) [k..<dents s i] of
       None \<Rightarrow> Ok (None, t)
     | Some j \<Rightarrow> andthen (iget dev (ucast (de_inum (entry (dbytes dev i s) j))) t) (\<lambda>(ip, u). Ok (Some (ip, of_nat (16 * j)), u)))"
  using assms
proof (induction "dents s i - k" arbitrary: k s)
  case 0
  then have "k = dents s i" by simp
  moreover have "in_tx dev H s" using 0(2) file_txD(1) by (auto simp: dir_ok_def)
  ultimately show ?case using tx_step_refl by (subst dirlookup_loop.simps) fastforce
next
  case (Suc n)
  then have k: "k < dents s i" by simp
  obtain t where t: "tx_step dev s {} (content dev s) H t"
    "dirlookup_loop i name (16 * k) (16 * dents s i) s =
      (if names name (entry (dbytes dev i s) k)
       then andthen (iget dev (ucast (de_inum (entry (dbytes dev i s) k))) t) (\<lambda>(ip, u). Ok (Some (ip, of_nat (16 * k)), u))
       else dirlookup_loop i name (16 * k + 16) (16 * dents s i) t)"
    by (rule dirlookup_loop_step [OF Suc.prems(1) k])
  note s = dir_ok_step [OF Suc.prems(1) t(1)]
  have up: "[k..<dents s i] = k # [k + 1..<dents s i]" using k by (simp add: upt_conv_Cons)
  have n: "n = dents t i - (k + 1)" "k + 1 \<le> dents t i" using Suc.hyps(2) k s(4) by simp_all
  have sk: "16 * (k + 1) = 16 * k + (16 :: nat)" by simp
  obtain u where u: "tx_step dev t {} (content dev t) H u" "dirlookup_loop i name (16 * k + 16) (16 * dents s i) t =
      (case find (\<lambda>j. names name (entry (dbytes dev i s) j)) [k + 1..<dents s i] of
         None \<Rightarrow> Ok (None, u)
       | Some j \<Rightarrow> andthen (iget dev (ucast (de_inum (entry (dbytes dev i s) j))) u) (\<lambda>(ip, w). Ok (Some (ip, of_nat (16 * j)), w)))"
    using Suc.hyps(1) [OF n(1) s(1) n(2)] unfolding s(2,4) sk by blast
  have st: "tx_step dev s {} (content dev s) H u" using tx_step_trans [OF t(1) u(1)] tx_stepD(4) [OF t(1)] by simp
  show ?case
  proof (cases "names name (entry (dbytes dev i s) k)")
    case True
    then show ?thesis using t up by auto
  next
    case False
    then show ?thesis using t(2) u(2) st up by auto
  qed
qed

text \<open>The entry of a name, as \<open>dirlookup\<close> searches for it.\<close>

definition found :: "u32 \<Rightarrow> nat \<Rightarrow> u8 list \<Rightarrow> 'a fsst_scheme \<Rightarrow> nat option" where
  "found dev i name s = find (\<lambda>j. names name (entry (dbytes dev i s) j)) [0..<dents s i]"

lemma dirlookup_tx:
  fixes s :: "'a fsst_scheme"
  assumes d: "dir_ok dev H i s"
  shows "\<exists>t. tx_step dev s {} (content dev s) H t \<and> dirlookup i name s =
    (case found dev i name s of
       None \<Rightarrow> Ok (None, t)
     | Some j \<Rightarrow> andthen (iget dev (ucast (de_inum (entry (dbytes dev i s) j))) t) (\<lambda>(ip, u). Ok (Some (ip, of_nat (16 * j)), u)))"
proof -
  have "unat (i_size (icache s ! i)) = 16 * dents s i" and ty: "i_type (icache s ! i) = T_DIR"
    using d by (auto simp: dir_ok_def dents_def)
  then have "dirlookup i name s = dirlookup_loop i name (16 * 0) (16 * dents s i) s" by (simp add: dirlookup_def)
  then show ?thesis using dirlookup_loop_finds [OF d, of 0 name] by (simp add: found_def)
qed


definition demo_dir :: fsst where
  "demo_dir = demo_fs demo_bitmap [demo_inode\<lparr>i_type := T_DIR\<rparr>]"

lemma demo_dir_ok:
  "dir_ok 1 {} 0 demo_dir" "inode_ok {} 0 demo_dir" "dents demo_dir 0 = 0" "nfree (content 1 demo_dir) (sb demo_dir) = 954" "nlogged demo_dir = 0"
proof -
  note d = demo_fs_tx [OF demo_bitmap_ok(1)]
  have f: "file_tx 1 {} 0 demo_dir" "covered 1 0 demo_dir" "inode_ok {} 0 demo_dir"
    using demo_file(1-3) by (simp_all add: demo_dir_def file_tx_def covered_def inode_ok_def d)
  have sz: "i_size (icache demo_dir ! 0) = 0" "i_type (icache demo_dir ! 0) = T_DIR" by (simp_all add: demo_dir_def d demo_inode_def)
  show "nfree (content 1 demo_dir) (sb demo_dir) = 954" "nlogged demo_dir = 0"
    using demo_file(4) by (simp_all add: demo_dir_def d)
  then show "dir_ok 1 {} 0 demo_dir" using f sz by (simp add: dir_ok_def)
  show "inode_ok {} 0 demo_dir" "dents demo_dir 0 = 0" using f(3) sz(1) by (simp_all add: dents_def)
qed


section \<open>dirlink\<close>

text \<open>The entry \<open>dirlink\<close> writes: the first unused one, or one more.\<close>

definition dslot :: "u32 \<Rightarrow> nat \<Rightarrow> nat \<Rightarrow> 'a fsst_scheme \<Rightarrow> nat" where
  "dslot dev i k s = (case find (\<lambda>j. de_inum (entry (dbytes dev i s) j) = 0) [k..<dents s i] of None \<Rightarrow> dents s i | Some j \<Rightarrow> j)"

lemma dslot_le:
  assumes "k \<le> dents s i"
  shows "dslot dev i k s \<le> dents s i" "dslot dev i k s < dents s i \<Longrightarrow> de_inum (entry (dbytes dev i s) (dslot dev i k s)) = 0"
proof -
  have "dslot dev i k s \<le> dents s i \<and> (dslot dev i k s < dents s i \<longrightarrow> de_inum (entry (dbytes dev i s) (dslot dev i k s)) = 0)"
  proof (cases "find (\<lambda>j. de_inum (entry (dbytes dev i s) j) = 0) [k..<dents s i]")
    case (Some j)
    from find_SomeD [OF this] show ?thesis using Some by (simp add: dslot_def)
  qed (simp add: dslot_def)
  then show "dslot dev i k s \<le> dents s i" "dslot dev i k s < dents s i \<Longrightarrow> de_inum (entry (dbytes dev i s) (dslot dev i k s)) = 0" by auto
qed

lemma dirlink_loop_finds:
  fixes s :: "'a fsst_scheme"
  assumes "dir_ok dev H i s" "k \<le> dents s i"
  shows "\<exists>t. tx_step dev s {} (content dev s) H t \<and> dirlink_loop i (16 * k) (16 * dents s i) s = Ok (16 * dslot dev i k s, t)"
  using assms
proof (induction "dents s i - k" arbitrary: k s)
  case 0
  then have "k = dents s i" by simp
  moreover have "in_tx dev H s" using 0(2) file_txD(1) by (auto simp: dir_ok_def)
  ultimately show ?case using tx_step_refl [of dev H s] by (subst dirlink_loop.simps) (auto simp: dslot_def)
next
  case (Suc n)
  then have k: "k < dents s i" by simp
  obtain t where t: "readi i (Var []) (of_nat (16 * k)) 16 s = Ok (16, map (dbytes dev i s) [16 * k..<16 * k + 16], t)"
    "tx_step dev s {} (content dev s) H t" by (rule readi_entry [OF Suc.prems(1) k])
  note s = dir_ok_step [OF Suc.prems(1) t(2)]
  have up: "[k..<dents s i] = k # [k + 1..<dents s i]" using k by (simp add: upt_conv_Cons)
  have n: "n = dents t i - (k + 1)" "k + 1 \<le> dents t i" using Suc.hyps(2) k s(4) by simp_all
  have sk: "16 * (k + 1) = 16 * k + (16 :: nat)" by simp
  have step: "dirlink_loop i (16 * k) (16 * dents s i) s =
      (if de_inum (entry (dbytes dev i s) k) = 0 then Ok (16 * k, t) else dirlink_loop i (16 * k + 16) (16 * dents s i) t)"
    using k by (subst dirlink_loop.simps, unfold t(1) entry_def [symmetric]) (auto simp: entry_def)
  obtain u where u: "tx_step dev t {} (content dev t) H u" "dirlink_loop i (16 * k + 16) (16 * dents s i) t = Ok (16 * dslot dev i (k + 1) t, u)"
    using Suc.hyps(1) [OF n(1) s(1) n(2)] unfolding s(4) sk by blast
  have st: "tx_step dev s {} (content dev s) H u" using tx_step_trans [OF t(2) u(1)] tx_stepD(4) [OF t(2)] by simp
  have eq: "dslot dev i (k + 1) t = dslot dev i (k + 1) s" unfolding dslot_def s(2,4) ..
  show ?case
  proof (cases "de_inum (entry (dbytes dev i s) k) = 0")
    case True
    then show ?thesis using step t(2) up by (auto simp: dslot_def)
  next
    case False
    then have "dslot dev i k s = dslot dev i (k + 1) s" using up by (simp add: dslot_def)
    then show ?thesis using step u(2) st False eq by auto
  qed
qed

lemma find_cong: "(\<And>x. x \<in> set xs \<Longrightarrow> P x = Q x) \<Longrightarrow> find P xs = find Q xs"
  by (induction xs) auto

lemma find_append: "find P (xs @ ys) = (case find P xs of None \<Rightarrow> find P ys | Some x \<Rightarrow> Some x)"
  by (induction xs) auto

lemma find_unique: "x \<in> set xs \<Longrightarrow> P x \<Longrightarrow> (\<And>y. y \<in> set xs \<Longrightarrow> P y \<Longrightarrow> y = x) \<Longrightarrow> find P xs = Some x"
  by (metis find_SomeD find_ex)

text \<open>The entries after a write of one of them.\<close>

lemma entry_put:
  assumes "\<forall>p < sz. f p = (if 16 * k \<le> p \<and> p < 16 * k + 16 then e ! (p - 16 * k) else g p)" "length e = 16" "16 * j + 16 \<le> sz"
  shows "entry f j = (if j = k then decode_dirent e else entry g j)"
proof (cases "j = k")
  case True
  have "map f [16 * k..<16 * k + 16] = e" by (rule nth_equalityI) (use assms True in auto)
  then show ?thesis using True by (simp add: entry_def)
next
  case False
  have "f p = g p" if "16 * j \<le> p" "p < 16 * j + 16" for p
  proof -
    have "\<not> (16 * k \<le> p \<and> p < 16 * k + 16)" using that False by auto
    then show ?thesis using assms that by auto
  qed
  then have "map f [16 * j..<16 * j + 16] = map g [16 * j..<16 * j + 16]" by simp
  then show ?thesis using False unfolding entry_def by metis
qed

lemma nblk_entry: "nblk (16 * k) 16 = 1"
proof -
  have "(16 * k + 15) div BSIZE = 16 * k div BSIZE"
  proof -
    have "16 * k mod BSIZE = 16 * (k mod 64)" by (simp add: mult_mod_right)
    then have "15 < BSIZE - 16 * k mod BSIZE" using mod_less_divisor [of 64 k] by linarith
    from chunk_div_mod(1) [OF this] show ?thesis .
  qed
  then show ?thesis by (simp add: nblk_def)
qed

text \<open>What \<open>dirlink\<close> leaves when the name is new and there is room.\<close>

lemma dirlink_tx:
  fixes s :: "'a fsst_scheme"
  assumes d: "dir_ok dev H i s" "inode_ok H i s" and new: "found dev i name s = None"
    and room: "16 * dents s i + 16 \<le> MAXFILE * BSIZE" "2 \<le> nfree (content dev s) (sb s)" "nlogged s + 6 < LOGSIZE - 1" "nlogged s + 8 + card H < NBUF"
  obtains t where "dirlink i name inum s = Ok (0, t)" "dir_ok dev H i t" "dents t i = max (dents s i) (dslot dev i 0 s + 1)"
    "\<forall>j < dents t i. entry (dbytes dev i t) j =
       (if j = dslot dev i 0 s then \<lparr>de_inum = ucast inum, de_name = dirname14 name\<rparr> else entry (dbytes dev i s) j)"
    "disk t = disk s"
    "\<forall>a. datablk (content dev s) (sb s) a \<and> (\<forall>k \<le> MAXFILE. fmap (content dev s) (addrs_of i s) k \<noteq> a) \<longrightarrow> content dev t a = content dev s a"
proof -
  let ?de = "\<lparr>de_inum = ucast inum, de_name = dirname14 name\<rparr> :: dirent" let ?k = "dslot dev i 0 s"
  note en = dirent_decode_encode [of ?de, simplified, OF length_dirname14]
  obtain s1 where s1: "tx_step dev s {} (content dev s) H s1" "dirlookup i name s = Ok (None, s1)"
    using dirlookup_tx [OF d(1), of name] new by auto
  note a = dir_ok_step [OF d(1) s1(1)]
  have sl: "dslot dev i 0 s1 = ?k" unfolding dslot_def a(2,4) ..
  obtain s2 where s2: "tx_step dev s1 {} (content dev s1) H s2" "dirlink_loop i 0 (16 * dents s i) s1 = Ok (16 * ?k, s2)"
    using dirlink_loop_finds [OF a(1), of 0] unfolding sl a(4) by auto
  note b = dir_ok_step [OF a(1) s2(1)]
  have st: "tx_step dev s {} (content dev s) H s2" using tx_step_trans [OF s1(1) s2(1)] tx_stepD(4) [OF s1(1)] by simp
  note e = tx_stepD [OF st] tx_step_fs [OF st]
  have f2: "file_tx dev H i s2" "covered dev i s2" using b(1) by (simp_all add: dir_ok_def)
  have size: "unat (i_size (icache s ! i)) = 16 * dents s i" using d(1) by (auto simp: dir_ok_def dents_def)
  have kb: "16 * ?k + 16 \<le> MAXFILE * BSIZE" "?k \<le> dents s i" using dslot_le(1) [of 0 s i dev] room(1) by simp_all
  have uk: "unat (of_nat (16 * ?k) :: u32) = 16 * ?k" using kb by (intro unat_of_nat_u32) simp
  let ?xs = "encode_dirent ?de"
  have off: "unat (of_nat (16 * ?k) :: u32) \<le> unat (i_size (icache s2 ! i))" "unat (of_nat (16 * ?k) :: u32) + length ?xs \<le> MAXFILE * BSIZE" "?xs \<noteq> []"
    unfolding uk en(2) e(9) size using kb en(2) by auto
  have full: "2 * nblk (unat (of_nat (16 * ?k) :: u32)) (length ?xs) \<le> nfree (content dev s2) (sb s2)"
    "nlogged s2 + 6 * nblk (unat (of_nat (16 * ?k) :: u32)) (length ?xs) < LOGSIZE - 1"
    "nlogged s2 + 6 * nblk (unat (of_nat (16 * ?k) :: u32)) (length ?xs) + card H < NBUF"
    unfolding uk en(2) nblk_entry e(4,8) using e(3) room by simp_all
  have iok: "inode_ok H i s2" using d(2) e(8,9) by (simp add: inode_ok_def)
  obtain t where t: "writei i (Var ?xs) (of_nat (16 * ?k)) (of_nat (length ?xs)) s2 = Ok (int (length ?xs), t)"
    "unat (i_size (icache t ! i)) = max (unat (i_size (icache s2 ! i))) (unat (of_nat (16 * ?k) :: u32) + length ?xs)"
    "\<forall>p < unat (i_size (icache t ! i)). dbytes dev i t p =
       (if unat (of_nat (16 * ?k) :: u32) \<le> p \<and> p < unat (of_nat (16 * ?k) :: u32) + length ?xs then ?xs ! (p - unat (of_nat (16 * ?k) :: u32)) else dbytes dev i s2 p)"
    "\<forall>a. datablk (content dev s2) (sb s2) a \<and> (\<forall>k \<le> MAXFILE. fmap (content dev s2) (addrs_of i s2) k \<noteq> a) \<longrightarrow> content dev t a = content dev s2 a"
    "disk t = disk s2" "file_tx dev H i t" "covered dev i t"
    "nlogged t \<le> nlogged s2 + 6 * nblk (unat (of_nat (16 * ?k) :: u32)) (length ?xs) + 1"
    "icache t ! i = (icache s2 ! i)\<lparr>i_addrs := addrs_of i t, i_size := i_size (icache t ! i)\<rparr>"
    by (rule writei_file [OF f2 iok off full])
  note t' = t(2,8) [unfolded uk en(2) nblk_entry e(9) size] and byt = t(3) [unfolded uk en(2) b(2) a(2)]
  have sz: "unat (i_size (icache t ! i)) = 16 * max (dents s i) (?k + 1)" unfolding t'(1) by (simp add: max_def)
  have nt: "dents t i = max (dents s i) (?k + 1)" using sz by (simp add: dents_def)
  have ty: "i_type (icache t ! i) = T_DIR" using d(1) e(9) by (subst t(9)) (simp add: dir_ok_def)
  have "dir_ok dev H i t" unfolding dir_ok_def using t(6,7) ty sz t'(2) e(3) room by simp
  moreover have "\<forall>j < dents t i. entry (dbytes dev i t) j = (if j = ?k then ?de else entry (dbytes dev i s) j)"
    using entry_put [OF byt en(2)] en(1) unfolding sz nt by simp
  moreover have "dirlink i name inum s = Ok (0, t)"
    using s1(2) s2(2) t(1) size a(3) unfolding dirlink_def by (simp add: en(2))
  moreover have "disk t = disk s" using t(5) e(5) by simp
  ultimately show ?thesis using that nt t(4) unfolding e(4,8,9) by blast
qed

lemma found_after:
  fixes s t :: "'a fsst_scheme"
  assumes n: "dents t i = max (dents s i) (dslot dev i 0 s + 1)" and inum: "inum \<noteq> 0" and new: "found dev i name s = None"
    and e: "\<forall>j < dents t i. entry (dbytes dev i t) j =
       (if j = dslot dev i 0 s then \<lparr>de_inum = inum, de_name = dirname14 name\<rparr> else entry (dbytes dev i s) j)"
  shows "found dev i name t = Some (dslot dev i 0 s)" "cname name' \<noteq> cname name \<Longrightarrow> found dev i name' t = found dev i name' s"
proof -
  let ?k = "dslot dev i 0 s"
  note k = dslot_le [of 0 s i dev]
  have nm: "names x (entry (dbytes dev i t) j) = (if j = ?k then cname x = cname name else names x (entry (dbytes dev i s) j))"
    if "j < dents t i" for x j
    using e that inum by (simp add: names_def cname_dirname14)
  have no: "\<not> names name (entry (dbytes dev i s) j)" if "j < dents s i" for j
    using new that by (auto simp: found_def find_None_iff)
  show "found dev i name t = Some ?k"
    unfolding found_def
  proof (rule find_unique)
    show "?k \<in> set [0..<dents t i]" using n by simp
    show "names name (entry (dbytes dev i t) ?k)" using nm [of ?k name] n by simp
    show "j = ?k" if j: "j \<in> set [0..<dents t i]" "names name (entry (dbytes dev i t) j)" for j
    proof (rule ccontr)
      assume ne: "j \<noteq> ?k"
      then have "j < dents s i" using j(1) n k(1) by (simp add: max_def split: if_splits)
      then show False using no [of j] nm [of j name] j ne by simp
    qed
  qed
  assume x: "cname name' \<noteq> cname name"
  have "names name' (entry (dbytes dev i t) j) = names name' (entry (dbytes dev i s) j)" if "j < dents s i" for j
    using nm [of j name'] n that x k(2) by (auto simp: names_def)
  then have s: "find (\<lambda>j. names name' (entry (dbytes dev i t) j)) [0..<dents s i] = found dev i name' s"
    unfolding found_def by (intro find_cong) auto
  show "found dev i name' t = found dev i name' s"
  proof (cases "?k < dents s i")
    case True
    then have "dents t i = dents s i" using n by simp
    then show ?thesis unfolding s [symmetric] by (simp add: found_def)
  next
    case False
    then have kn: "?k = dents s i" "dents t i = dents s i + 1" using k(1) n by simp_all
    have "\<not> names name' (entry (dbytes dev i t) (dents s i))" using nm [of "dents s i" name'] kn x by simp
    then show ?thesis unfolding s [symmetric] by (simp add: found_def kn(2) find_append split: option.split)
  qed
qed

text \<open>
  C8. A name that has been linked is found, and no other name is affected. When a directory has no entry for a name, \<open>dirlink\<close> succeeds; afterwards
  \<open>dirlookup\<close> of that name takes a reference to exactly the linked inode at the entry that was written, and
  every other name is found at the same entry as before or still not at all.
\<close>

theorem dirlink_dirlookup:
  fixes s :: "'a fsst_scheme"
  assumes "dir_ok dev H i s" "inode_ok H i s" "found dev i name s = None" "(ucast inum :: u16) \<noteq> 0"
    and "16 * dents s i + 16 \<le> MAXFILE * BSIZE" "2 \<le> nfree (content dev s) (sb s)" "nlogged s + 6 < LOGSIZE - 1" "nlogged s + 8 + card H < NBUF"
  shows "\<exists>t u. dirlink i name inum s = Ok (0, t) \<and> disk t = disk s \<and> tx_step dev t {} (content dev t) H u \<and>
    dirlookup i name t = andthen (iget dev (ucast (ucast inum :: u16)) u) (\<lambda>(ip, w). Ok (Some (ip, of_nat (16 * dslot dev i 0 s)), w)) \<and>
    (\<forall>name'. cname name' \<noteq> cname name \<longrightarrow> found dev i name' t = found dev i name' s)"
proof -
  obtain t where t: "dirlink i name inum s = Ok (0, t)" "dir_ok dev H i t" "dents t i = max (dents s i) (dslot dev i 0 s + 1)"
    "\<forall>j < dents t i. entry (dbytes dev i t) j =
       (if j = dslot dev i 0 s then \<lparr>de_inum = ucast inum, de_name = dirname14 name\<rparr> else entry (dbytes dev i s) j)"
    "disk t = disk s"
    by (rule dirlink_tx [OF assms(1-3,5-8), of inum])
  note f = found_after [OF t(3) assms(4,3) t(4)]
  have e: "entry (dbytes dev i t) (dslot dev i 0 s) = \<lparr>de_inum = ucast inum, de_name = dirname14 name\<rparr>" using t(3,4) by simp
  obtain u where "tx_step dev t {} (content dev t) H u"
    "dirlookup i name t = andthen (iget dev (ucast (ucast inum :: u16)) u) (\<lambda>(ip, w). Ok (Some (ip, of_nat (16 * dslot dev i 0 s)), w))"
    using dirlookup_tx [OF t(2), of name] unfolding f(1) option.case e by auto
  then show ?thesis using t(1,5) f(2) by blast
qed

theorem dirlink_dirlookup_witness:
  "\<exists>t u. dirlink 0 [97] 7 demo_dir = Ok (0, t) \<and> dirlookup 0 [97] t = andthen (iget 1 7 u) (\<lambda>(ip, w). Ok (Some (ip, 0), w))"
proof -
  have n: "found 1 0 [97] demo_dir = None" "dslot 1 0 0 demo_dir = 0" using demo_dir_ok(3) by (simp_all add: found_def dslot_def)
  show ?thesis using dirlink_dirlookup [OF demo_dir_ok(1,2) n(1), of 7] demo_dir_ok(3-5) n(2) by auto
qed

end
