(* ===== verification/Mkfs.thy ===== *)
theory Mkfs
  imports FsInode
begin

text \<open>
  The program that builds the image of the file system (mkfs/mkfs.c), run on the host. The image is a function from
  sectors to blocks, with the number of sectors written so far: reading behind them fails and ends the program. The
  structures on the disk are those of theory Fs, so that the image is described in the terms of the kernel: its bitmap
  (\<open>bitmap_ok\<close>), the blocks of a file (\<open>fmap\<close>) and their bytes (\<open>fbyte\<close>). A failing \<open>assert\<close> and \<open>exit(1)\<close> are \<open>Panic\<close>.
  The host is little-endian, as those of the build are; calls that seek and write on the image succeed.
\<close>

section \<open>Definitions\<close>

record mkst =
  img :: "u32 \<Rightarrow> block"
  nsect :: nat
  freeinode :: u32
  freeblock :: u32

abbreviation (input) FSSIZE :: nat where "FSSIZE \<equiv> 1000"
abbreviation (input) NINODES :: nat where "NINODES \<equiv> 200"

abbreviation zeroes :: block where "zeroes \<equiv> replicate BSIZE 0"

definition nbitmap :: nat where "nbitmap = FSSIZE div (BSIZE * 8) + 1"
definition ninodeblocks :: nat where "ninodeblocks = NINODES div IPB + 1"
definition nlog :: nat where "nlog = LOGSIZE"
definition nmeta :: nat where "nmeta = 2 + nlog + ninodeblocks + nbitmap"
definition nblocks :: nat where "nblocks = FSSIZE - nmeta"

text \<open>The bytes of the number in the order of the disk, read as a number of the host.\<close>

definition xshort :: "u16 \<Rightarrow> u16" where
  "xshort x = le_decode [ucast x, ucast (drop_bit 8 x)]"

definition xint :: "u32 \<Rightarrow> u32" where
  "xint x = le_decode [ucast x, ucast (drop_bit 8 x), ucast (drop_bit 16 x), ucast (drop_bit 24 x)]"

definition mkfs_sb :: superblock where
  "mkfs_sb = \<lparr>sb_magic = FSMAGIC, sb_size = xint (of_nat FSSIZE), sb_nblocks = xint (of_nat nblocks),
     sb_ninodes = xint (of_nat NINODES), sb_nlog = xint (of_nat nlog), sb_logstart = xint 2,
     sb_inodestart = xint (2 + of_nat nlog), sb_bmapstart = xint (2 + of_nat nlog + of_nat ninodeblocks)\<rparr>"

definition encode_sb :: "superblock \<Rightarrow> u8 list" where
  "encode_sb sp =
     le_encode 4 (sb_magic sp) @ le_encode 4 (sb_size sp) @ le_encode 4 (sb_nblocks sp) @ le_encode 4 (sb_ninodes sp) @
     le_encode 4 (sb_nlog sp) @ le_encode 4 (sb_logstart sp) @ le_encode 4 (sb_inodestart sp) @ le_encode 4 (sb_bmapstart sp)"

definition wsect :: "u32 \<Rightarrow> block \<Rightarrow> mkst \<Rightarrow> mkst" where
  "wsect sec buf s = s\<lparr>img := (img s)(sec := buf), nsect := max (nsect s) (unat sec + 1)\<rparr>"

definition rsect :: "u32 \<Rightarrow> mkst \<Rightarrow> block result" where
  "rsect sec s = (if unat sec < nsect s then Ok (img s sec) else Panic ''read'')"

definition winode :: "u32 \<Rightarrow> dinode \<Rightarrow> mkst \<Rightarrow> mkst result" where
  "winode inum ip s =
     (let bn = IBLOCK inum mkfs_sb
      in andthen (rsect bn s) (\<lambda>buf. Ok (wsect bn (put_dinode (islot inum) ip buf) s)))"

definition rinode :: "u32 \<Rightarrow> mkst \<Rightarrow> dinode result" where
  "rinode inum s = andthen (rsect (IBLOCK inum mkfs_sb) s) (\<lambda>buf. Ok (get_dinode (islot inum) buf))"

definition mk_ialloc :: "u16 \<Rightarrow> mkst \<Rightarrow> (u32 \<times> mkst) result" where
  "mk_ialloc type s =
     (let inum = freeinode s;
          s = s\<lparr>freeinode := inum + 1\<rparr>;
          din = \<lparr>d_type = xshort type, d_major = 0, d_minor = 0, d_nlink = xshort 1, d_size = xint 0,
                 d_addrs = replicate (NDIRECT + 1) 0\<rparr>
      in andthen (winode inum din s) (\<lambda>s. Ok (inum, s)))"

definition mk_balloc :: "u32 \<Rightarrow> mkst \<Rightarrow> mkst result" where
  "mk_balloc nused s =
     (if \<not> unat nused < BSIZE * 8 then Panic ''assert''
      else Ok (wsect (sb_bmapstart mkfs_sb) (fold set_bitmap [0..<unat nused] zeroes) s))"

text \<open>The block of the file that holds its block number \<open>fbn\<close>, allocated when there is none yet; for the blocks listed in
  the indirect block \<open>ind\<close> by \<open>iappend_entry\<close>.\<close>

definition iappend_entry :: "nat \<Rightarrow> u32 \<Rightarrow> mkst \<Rightarrow> (u32 \<times> mkst) result" where
  "iappend_entry fbn ind s =
     andthen (rsect ind s) (\<lambda>indirect.
       let off = 4 * (fbn - NDIRECT);
           (indirect, s) =
             (if get32 off indirect = 0
              then let indirect = put32 off (xint (freeblock s)) indirect
                   in (indirect, wsect ind indirect (s\<lparr>freeblock := freeblock s + 1\<rparr>))
              else (indirect, s))
       in Ok (xint (get32 off indirect), s))"

definition iappend_block :: "nat \<Rightarrow> dinode \<Rightarrow> mkst \<Rightarrow> (u32 \<times> dinode \<times> mkst) result" where
  "iappend_block fbn din s =
     (if fbn < NDIRECT then
        let (din, s) =
          (if xint (d_addrs din ! fbn) = 0
           then (din\<lparr>d_addrs := (d_addrs din)[fbn := xint (freeblock s)]\<rparr>, s\<lparr>freeblock := freeblock s + 1\<rparr>)
           else (din, s))
        in Ok (xint (d_addrs din ! fbn), din, s)
      else
        let (din, s) =
          (if xint (d_addrs din ! NDIRECT) = 0
           then (din\<lparr>d_addrs := (d_addrs din)[NDIRECT := xint (freeblock s)]\<rparr>, s\<lparr>freeblock := freeblock s + 1\<rparr>)
           else (din, s))
        in andthen (iappend_entry fbn (xint (d_addrs din ! NDIRECT)) s) (\<lambda>(x, s). Ok (x, din, s)))"

function iappend_loop :: "dinode \<Rightarrow> u32 \<Rightarrow> u8 list \<Rightarrow> mkst \<Rightarrow> (dinode \<times> u32 \<times> mkst) result" where
  "iappend_loop din off p s =
     (if p = [] then Ok (din, off, s)
      else let fbn = unat off div BSIZE
           in if \<not> fbn < MAXFILE then Panic ''assert''
              else andthen (iappend_block fbn din s) (\<lambda>(x, din, s).
                let n1 = min (length p) ((fbn + 1) * BSIZE - unat off)
                in andthen (rsect x s) (\<lambda>buf.
                     iappend_loop din (off + of_nat n1) (drop n1 p)
                       (wsect x (put_bytes (unat off - fbn * BSIZE) (take n1 p) buf) s))))"
  by pat_completeness auto
termination
proof (relation "measure (\<lambda>(_, _, p, _). length p)", simp)
  fix off :: u32 and p :: "u8 list" and n1 :: nat and fbn din s din' s' x buf and y :: "u32 \<times> dinode \<times> mkst" and z
  assume "p \<noteq> []" "fbn = unat off div BSIZE" "n1 = min (length p) ((fbn + 1) * BSIZE - unat off)"
  moreover have "unat off < (unat off div BSIZE + 1) * BSIZE" using div_mult_mod_eq [of "unat off" BSIZE] mod_less_divisor [of BSIZE "unat off"] by simp
  ultimately have "0 < n1" by simp
  then show "((din', off + of_nat n1, drop n1 p, wsect x (put_bytes (unat off - fbn * BSIZE) (take n1 p) buf) s'), din, off, p, s)
    \<in> measure (\<lambda>(_, _, p, _). length p)" using \<open>p \<noteq> []\<close> by simp
qed

declare iappend_loop.simps [simp del]

definition iappend :: "u32 \<Rightarrow> u8 list \<Rightarrow> mkst \<Rightarrow> mkst result" where
  "iappend inum xp s =
     andthen (rinode inum s) (\<lambda>din.
     andthen (iappend_loop din (xint (d_size din)) xp s) (\<lambda>(din, off, s).
       winode inum (din\<lparr>d_size := xint off\<rparr>) s))"

fun iappends :: "u32 \<Rightarrow> u8 list list \<Rightarrow> mkst \<Rightarrow> mkst result" where
  "iappends inum [] s = Ok s"
| "iappends inum (piece # pieces) s = andthen (iappend inum piece s) (iappends inum pieces)"

text \<open>\<open>strncpy\<close> into the name of an entry.\<close>

definition dirent_bytes :: "u32 \<Rightarrow> u8 list \<Rightarrow> u8 list" where
  "dirent_bytes inum name =
     encode_dirent \<lparr>de_inum = xshort (ucast inum), de_name = take DIRSIZ name @ replicate (DIRSIZ - length name) 0\<rparr>"

definition shortname :: "u8 list \<Rightarrow> u8 list" where
  "shortname arg = (if take 5 arg = [117, 115, 101, 114, 47] then drop 5 arg else arg)"

definition strip_underscore :: "u8 list \<Rightarrow> u8 list" where
  "strip_underscore name = (case name of c # cs \<Rightarrow> if c = 95 then cs else name | [] \<Rightarrow> [])"

text \<open>The loop over the files. \<open>files\<close> gives for a file of the host the pieces in which \<open>read\<close> returns it.\<close>

fun add_files :: "(u8 list \<Rightarrow> u8 list list option) \<Rightarrow> u32 \<Rightarrow> u8 list list \<Rightarrow> mkst \<Rightarrow> mkst result" where
  "add_files files rootino [] s = Ok s"
| "add_files files rootino (arg # args) s =
     (if 47 \<in> set (shortname arg) then Panic ''assert''
      else case files arg of
        None \<Rightarrow> Panic ''open''
      | Some pieces \<Rightarrow>
          andthen (mk_ialloc T_FILE s) (\<lambda>(inum, s).
          andthen (iappend rootino (dirent_bytes inum (strip_underscore (shortname arg))) s) (\<lambda>s.
          andthen (iappends inum pieces s)
            (add_files files rootino args))))"

definition fix_root :: "u32 \<Rightarrow> mkst \<Rightarrow> mkst result" where
  "fix_root rootino s =
     andthen (rinode rootino s) (\<lambda>din.
       let off = xint (d_size din);
           off = (off div 1024 + 1) * 1024
       in winode rootino (din\<lparr>d_size := xint off\<rparr>) s)"

definition mkfs_main :: "(u8 list \<Rightarrow> u8 list list option) \<Rightarrow> u8 list list \<Rightarrow> mkst result" where
  "mkfs_main files args =
     (let s = \<lparr>img = \<lambda>_. zeroes, nsect = 0, freeinode = 1, freeblock = of_nat nmeta\<rparr>;
          s = fold (\<lambda>i. wsect (of_nat i) zeroes) [0..<FSSIZE] s;
          s = wsect 1 (put_bytes 0 (encode_sb mkfs_sb) zeroes) s
      in andthen (mk_ialloc T_DIR s) (\<lambda>(rootino, s).
           if rootino \<noteq> ROOTINO then Panic ''assert''
           else
             andthen (iappend rootino (dirent_bytes rootino [46]) s) (\<lambda>s.
             andthen (iappend rootino (dirent_bytes rootino [46, 46]) s) (\<lambda>s.
             andthen (add_files files rootino args s) (\<lambda>s.
             andthen (fix_root rootino s) (\<lambda>s.
               mk_balloc (freeblock s) s))))))"

section \<open>Numbers\<close>

lemma xint [simp]: "xint x = x"
proof -
  have "xint x = le_decode (le_encode 4 x)" by (simp add: xint_def numeral_eq_Suc drop_bit_drop_bit)
  then show ?thesis by simp
qed

lemma xshort [simp]: "xshort x = x"
proof -
  have "xshort x = le_decode (le_encode 2 x)" by (simp add: xshort_def numeral_eq_Suc drop_bit_drop_bit)
  then show ?thesis by simp
qed

lemma nmeta: "nmeta = 46"
  by (simp add: nmeta_def nlog_def ninodeblocks_def nbitmap_def)

lemma mkfs_sb [simp]:
  "sb_magic mkfs_sb = FSMAGIC" "sb_size mkfs_sb = 1000" "sb_inodestart mkfs_sb = 32" "sb_bmapstart mkfs_sb = 45"
  "sb_nlog mkfs_sb = 30" "sb_logstart mkfs_sb = 2" "sb_ninodes mkfs_sb = 200" "sb_nblocks mkfs_sb = 954"
  by (simp_all add: mkfs_sb_def nblocks_def nmeta nlog_def ninodeblocks_def)

section \<open>Blocks for a file\<close>

text \<open>The image between two steps: every sector has been written, and nothing is in the blocks that are still free.\<close>

definition image_ok :: "mkst \<Rightarrow> bool" where
  "image_ok s \<longleftrightarrow>
     (\<forall>b. length (img s b) = BSIZE) \<and> nsect s = FSSIZE \<and> nmeta \<le> unat (freeblock s) \<and> unat (freeblock s) \<le> FSSIZE \<and>
     (\<forall>b. unat (freeblock s) \<le> unat b \<longrightarrow> img s b = zeroes)"

abbreviation fblocks :: "mkst \<Rightarrow> dinode \<Rightarrow> nat \<Rightarrow> u32" where
  "fblocks s di \<equiv> fmap (img s) (d_addrs di)"

text \<open>The blocks of a file are data blocks that have been handed out, each of them once.\<close>

definition blocks_ok :: "mkst \<Rightarrow> dinode \<Rightarrow> bool" where
  "blocks_ok s di \<longleftrightarrow>
     length (d_addrs di) = NDIRECT + 1 \<and>
     (\<forall>k \<le> MAXFILE. fblocks s di k \<noteq> 0 \<longrightarrow> nmeta \<le> unat (fblocks s di k) \<and> unat (fblocks s di k) < unat (freeblock s)) \<and>
     (\<forall>j \<le> MAXFILE. \<forall>k \<le> MAXFILE. fblocks s di j = fblocks s di k \<and> fblocks s di j \<noteq> 0 \<longrightarrow> j = k)"

definition dmeta :: "dinode \<Rightarrow> u16 \<times> u16 \<times> u16 \<times> u16 \<times> u32" where
  "dmeta di = (d_type di, d_major di, d_minor di, d_nlink di, d_size di)"

lemma dmeta_addrs [simp]: "dmeta (di\<lparr>d_addrs := a\<rparr>) = dmeta di"
  by (simp add: dmeta_def)

text \<open>The next free block becomes block \<open>k\<close> of the file; only its indirect block is written.\<close>

definition grow :: "nat \<Rightarrow> mkst \<Rightarrow> dinode \<Rightarrow> mkst \<Rightarrow> dinode \<Rightarrow> bool" where
  "grow k s di t dj \<longleftrightarrow>
     (\<forall>j \<le> MAXFILE. fblocks t dj j = ((fblocks s di)(k := freeblock s)) j) \<and> length (d_addrs dj) = NDIRECT + 1 \<and>
     freeblock t = freeblock s + 1 \<and> nsect t = nsect s \<and> freeinode t = freeinode s \<and> dmeta dj = dmeta di \<and>
     (\<forall>b. length (img t b) = BSIZE) \<and> (\<forall>b. fblocks s di MAXFILE = 0 \<or> b \<noteq> fblocks s di MAXFILE \<longrightarrow> img t b = img s b)"

lemma unat_freeblock_next: "unat (freeblock s) \<le> FSSIZE \<Longrightarrow> unat (freeblock s + 1) = unat (freeblock s) + 1"
  by (subst unat_add_lem [THEN iffD1]) auto

lemma grow_ok:
  assumes im: "image_ok s" and di: "blocks_ok s di" and k: "k \<le> MAXFILE" "unat (freeblock s) < FSSIZE" and g: "grow k s di t dj"
  shows "image_ok t" "blocks_ok t dj" "unat (freeblock t) = unat (freeblock s) + 1" "freeblock s \<noteq> 0"
proof -
  have F: "fblocks t dj j = (if j = k then freeblock s else fblocks s di j)" if "j \<le> MAXFILE" for j using g that by (simp add: grow_def)
  have ft: "freeblock t = freeblock s + 1" "nsect t = nsect s" "\<And>b. length (img t b) = BSIZE" "length (d_addrs dj) = NDIRECT + 1"
    using g by (simp_all add: grow_def)
  show fb: "unat (freeblock t) = unat (freeblock s) + 1" using k unat_freeblock_next [of s] by (simp add: ft(1))
  have m: "nmeta \<le> unat (freeblock s)" using im by (simp add: image_ok_def)
  then show "freeblock s \<noteq> 0" by (auto simp: nmeta)
  have "img t b = zeroes" if "unat (freeblock t) \<le> unat b" for b
  proof -
    have "fblocks s di MAXFILE \<noteq> 0 \<longrightarrow> unat (fblocks s di MAXFILE) < unat (freeblock s)" using di by (auto simp: blocks_ok_def)
    then have "fblocks s di MAXFILE = 0 \<or> b \<noteq> fblocks s di MAXFILE" using that fb by auto
    then have "img t b = img s b" using g unfolding grow_def by blast
    then show ?thesis using im that fb by (simp add: image_ok_def)
  qed
  then show "image_ok t" using im ft(2,3) fb k by (simp add: image_ok_def)
  have "nmeta \<le> unat (fblocks t dj j) \<and> unat (fblocks t dj j) < unat (freeblock t)" if "j \<le> MAXFILE" "fblocks t dj j \<noteq> 0" for j
    using that di m fb unfolding F [OF that(1)] by (auto simp: blocks_ok_def split: if_splits intro: less_SucI)
  moreover have "i = j" if "i \<le> MAXFILE" "j \<le> MAXFILE" "fblocks t dj i = fblocks t dj j" "fblocks t dj i \<noteq> 0" for i j
  proof -
    have "fblocks s di x \<noteq> freeblock s" if "x \<le> MAXFILE" "fblocks s di x \<noteq> 0" for x using di that by (fastforce simp: blocks_ok_def)
    then show ?thesis using that di unfolding F [OF that(1)] F [OF that(2)] by (auto simp: blocks_ok_def split: if_splits)
  qed
  ultimately show "blocks_ok t dj" unfolding blocks_ok_def using ft(4) by blast
qed

text \<open>The three ways to grow: a direct block, the indirect block, a block listed in the indirect block.\<close>

lemma grow_direct:
  assumes "image_ok s" "blocks_ok s di" "k < NDIRECT"
  shows "grow k s di (s\<lparr>freeblock := freeblock s + 1\<rparr>) (di\<lparr>d_addrs := (d_addrs di)[k := freeblock s]\<rparr>)"
  using assms fmap_direct [of "d_addrs di" k "img s" "img s" "freeblock s"] by (simp add: grow_def image_ok_def blocks_ok_def)

lemma grow_indirect:
  assumes "image_ok s" "blocks_ok s di" "d_addrs di ! NDIRECT = 0"
  shows "grow MAXFILE s di (s\<lparr>freeblock := freeblock s + 1\<rparr>) (di\<lparr>d_addrs := (d_addrs di)[NDIRECT := freeblock s]\<rparr>)"
proof -
  have "freeblock s \<noteq> 0" "img s (freeblock s) = zeroes" using assms(1) by (auto simp: image_ok_def nmeta)
  then show ?thesis
    using assms fmap_indirect [where addrs = "d_addrs di" and a = "freeblock s" and c = "img s" and c' = "img s"]
    by (simp add: grow_def image_ok_def blocks_ok_def)
qed

lemma grow_entry:
  assumes im: "image_ok s" and di: "blocks_ok s di" and k: "NDIRECT \<le> k" "k < MAXFILE" and a: "d_addrs di ! NDIRECT \<noteq> 0"
  shows "grow k s di (wsect (d_addrs di ! NDIRECT) (put32 (4 * (k - NDIRECT)) (freeblock s) (img s (d_addrs di ! NDIRECT)))
    (s\<lparr>freeblock := freeblock s + 1\<rparr>)) di"
proof -
  let ?a = "d_addrs di ! NDIRECT" and ?v = "put32 (4 * (k - NDIRECT)) (freeblock s) (img s (d_addrs di ! NDIRECT))"
  have m: "fblocks s di MAXFILE = ?a" by (simp add: fmap_def)
  then have "unat ?a < unat (freeblock s)" using di a by (auto simp: blocks_ok_def)
  then have n: "max (nsect s) (unat ?a + 1) = nsect s" using im by (simp add: image_ok_def)
  have l: "length (img s ?a) = BSIZE" using im by (simp add: image_ok_def)
  then have "length ?v = BSIZE" using k by simp
  moreover have "fmap ((img s)(?a := ?v)) (d_addrs di) j = ((fblocks s di)(k := freeblock s)) j" if "j \<le> MAXFILE" for j
    by (rule fmap_entry [where c = "img s", OF k a l that]) simp
  moreover have "length (d_addrs di) = NDIRECT + 1" "\<And>b. length (img s b) = BSIZE" using im di by (simp_all add: image_ok_def blocks_ok_def)
  ultimately show ?thesis using m n a by (simp add: grow_def wsect_def)
qed

text \<open>
  The file has got the blocks of numbers \<open>K\<close>, \<open>n\<close> of them; those it had are where they were, and nothing is written
  but its indirect block.
\<close>

definition extended :: "nat set \<Rightarrow> nat \<Rightarrow> mkst \<Rightarrow> dinode \<Rightarrow> mkst \<Rightarrow> dinode \<Rightarrow> bool" where
  "extended K n s di t dj \<longleftrightarrow>
     image_ok t \<and> blocks_ok t dj \<and> dmeta dj = dmeta di \<and> freeinode t = freeinode s \<and>
     unat (freeblock t) = unat (freeblock s) + n \<and>
     (\<forall>k \<le> MAXFILE. fblocks s di k \<noteq> 0 \<longrightarrow> fblocks t dj k = fblocks s di k) \<and>
     (\<forall>k \<le> MAXFILE. fblocks s di k = 0 \<longrightarrow> (if k \<in> K then unat (freeblock s) \<le> unat (fblocks t dj k) \<and> fblocks t dj k \<noteq> 0 else fblocks t dj k = 0)) \<and>
     (\<forall>b. fblocks t dj MAXFILE = 0 \<or> b \<noteq> fblocks t dj MAXFILE \<longrightarrow> img t b = img s b)"

lemma extendedD:
  assumes "extended K n s di t dj"
  shows "image_ok t" "blocks_ok t dj" "dmeta dj = dmeta di" "freeinode t = freeinode s"
    "unat (freeblock t) = unat (freeblock s) + n"
    "k \<le> MAXFILE \<Longrightarrow> fblocks s di k \<noteq> 0 \<Longrightarrow> fblocks t dj k = fblocks s di k"
    "k \<le> MAXFILE \<Longrightarrow> fblocks s di k = 0 \<Longrightarrow> k \<in> K \<Longrightarrow> unat (freeblock s) \<le> unat (fblocks t dj k) \<and> fblocks t dj k \<noteq> 0"
    "k \<le> MAXFILE \<Longrightarrow> fblocks s di k = 0 \<Longrightarrow> k \<notin> K \<Longrightarrow> fblocks t dj k = 0"
    "fblocks t dj MAXFILE = 0 \<or> b \<noteq> fblocks t dj MAXFILE \<Longrightarrow> img t b = img s b"
proof -
  note a = assms [unfolded extended_def]
  note b = a [THEN conjunct2, THEN conjunct2, THEN conjunct2, THEN conjunct2, THEN conjunct2]
  show "image_ok t" "blocks_ok t dj" "dmeta dj = dmeta di" "freeinode t = freeinode s" "unat (freeblock t) = unat (freeblock s) + n"
    by (rule a [THEN conjunct1] a [THEN conjunct2, THEN conjunct1] a [THEN conjunct2, THEN conjunct2, THEN conjunct1]
      a [THEN conjunct2, THEN conjunct2, THEN conjunct2, THEN conjunct1]
      a [THEN conjunct2, THEN conjunct2, THEN conjunct2, THEN conjunct2, THEN conjunct1])+
  show "k \<le> MAXFILE \<Longrightarrow> fblocks s di k \<noteq> 0 \<Longrightarrow> fblocks t dj k = fblocks s di k" by (rule b [THEN conjunct1, rule_format])
  have c: "if k \<in> K then unat (freeblock s) \<le> unat (fblocks t dj k) \<and> fblocks t dj k \<noteq> 0 else fblocks t dj k = 0"
    if "k \<le> MAXFILE" "fblocks s di k = 0" using b [THEN conjunct2, THEN conjunct1] that by blast
  show "k \<le> MAXFILE \<Longrightarrow> fblocks s di k = 0 \<Longrightarrow> k \<in> K \<Longrightarrow> unat (freeblock s) \<le> unat (fblocks t dj k) \<and> fblocks t dj k \<noteq> 0"
    using c by simp
  show "k \<le> MAXFILE \<Longrightarrow> fblocks s di k = 0 \<Longrightarrow> k \<notin> K \<Longrightarrow> fblocks t dj k = 0" using c by simp
  show "fblocks t dj MAXFILE = 0 \<or> b \<noteq> fblocks t dj MAXFILE \<Longrightarrow> img t b = img s b" by (rule b [THEN conjunct2, THEN conjunct2, rule_format])
qed

lemma extended_refl: "image_ok s \<Longrightarrow> blocks_ok s di \<Longrightarrow> \<forall>k \<in> K. k \<le> MAXFILE \<longrightarrow> fblocks s di k \<noteq> 0 \<Longrightarrow> extended K 0 s di s di"
  by (auto simp: extended_def)

lemma extended_grow:
  assumes "image_ok s" "blocks_ok s di" "k \<le> MAXFILE" "unat (freeblock s) < FSSIZE" "fblocks s di k = 0" "grow k s di t dj"
  shows "extended {k} 1 s di t dj"
proof -
  note g = grow_ok [OF assms(1-4) assms(6)]
  have F: "fblocks t dj j = (if j = k then freeblock s else fblocks s di j)" if "j \<le> MAXFILE" for j
    using assms(6) that by (simp add: grow_def)
  have d: "dmeta dj = dmeta di" "freeinode t = freeinode s" using assms(6) by (simp_all add: grow_def)
  have same: "img t b = img s b" if "fblocks t dj MAXFILE = 0 \<or> b \<noteq> fblocks t dj MAXFILE" for b
  proof -
    have "fblocks s di MAXFILE = 0 \<or> b \<noteq> fblocks s di MAXFILE"
      using that assms(5) F [OF order_refl] by (auto split: if_splits)
    then show ?thesis using assms(6) unfolding grow_def by blast
  qed
  show ?thesis
    unfolding extended_def
    by (intro conjI allI impI)
      (fact g(1), fact g(2), fact d(1), fact d(2), fact g(3), use F assms(5) in force, use F g(4) in force, erule same)
qed

lemma extended_trans:
  assumes a: "extended K m s di t dj" and b: "extended L n t dj u dk"
  shows "extended (K \<union> L) (m + n) s di u dk"
proof -
  note A = extendedD [OF a] and B = extendedD [OF b]
  have keep: "fblocks u dk k = fblocks s di k" if "k \<le> MAXFILE" "fblocks s di k \<noteq> 0" for k
    using A(6) [OF that] B(6) [OF that(1)] that(2) by simp
  have new: "if k \<in> K \<union> L then unat (freeblock s) \<le> unat (fblocks u dk k) \<and> fblocks u dk k \<noteq> 0 else fblocks u dk k = 0"
    if k: "k \<le> MAXFILE" "fblocks s di k = 0" for k
  proof (cases "k \<in> K")
    case True
    then show ?thesis using A(7) [OF k True] B(6) [OF k(1)] by simp
  next
    case False
    then have z: "fblocks t dj k = 0" using A(8) [OF k] by simp
    show ?thesis using False B(7) [OF k(1) z] B(8) [OF k(1) z] A(5) by auto
  qed
  have same: "img u b = img s b" if "fblocks u dk MAXFILE = 0 \<or> b \<noteq> fblocks u dk MAXFILE" for b
  proof -
    have "fblocks t dj MAXFILE = 0 \<or> b \<noteq> fblocks t dj MAXFILE" using that B(6) [OF order_refl] by metis
    then show ?thesis using A(9) B(9) [OF that] by simp
  qed
  show ?thesis
    unfolding extended_def
    by (intro conjI allI impI) (fact B(1), fact B(2), simp add: A(3) B(3), simp add: A(4) B(4), simp add: A(5) B(5), erule (1) keep, erule (1) new, erule same)
qed

text \<open>How many blocks \<open>iappend_block\<close> takes, and which.\<close>

definition nnew :: "(nat \<Rightarrow> u32) \<Rightarrow> nat \<Rightarrow> nat" where
  "nnew F fbn = (if F fbn = 0 then 1 else 0) + (if NDIRECT \<le> fbn \<and> F MAXFILE = 0 then 1 else 0)"

definition anew :: "nat \<Rightarrow> nat set" where
  "anew fbn = (if NDIRECT \<le> fbn then {MAXFILE, fbn} else {fbn})"

lemma iappend_entry_ok:
  assumes im: "image_ok s" and di: "blocks_ok s di" and k: "NDIRECT \<le> fbn" "fbn < MAXFILE" and a: "d_addrs di ! NDIRECT \<noteq> 0"
    and room: "unat (freeblock s) + (if fblocks s di fbn = 0 then 1 else 0) \<le> FSSIZE"
  defines "ind \<equiv> d_addrs di ! NDIRECT" and "off \<equiv> 4 * (fbn - NDIRECT)"
  obtains x t where "iappend_entry fbn ind s = Ok (x, t)"
    "extended {fbn} (if fblocks s di fbn = 0 then 1 else 0) s di t di" "fblocks t di fbn = x"
proof -
  have m: "fblocks s di MAXFILE = ind" by (simp add: fmap_def ind_def)
  then have "unat ind < FSSIZE" using di im a by (force simp: blocks_ok_def image_ok_def ind_def)
  then have r: "rsect ind s = Ok (img s ind)" using im by (simp add: rsect_def image_ok_def)
  have l: "length (img s ind) = BSIZE" using im by (simp add: image_ok_def)
  have e: "fblocks s di fbn = get32 off (img s ind)" using k a by (simp add: fmap_def ind_def off_def)
  show ?thesis
  proof (cases "fblocks s di fbn = 0")
    case True
    let ?v = "put32 off (freeblock s) (img s ind)" let ?t = "wsect ind ?v (s\<lparr>freeblock := freeblock s + 1\<rparr>)"
    have g: "grow fbn s di ?t di" unfolding ind_def off_def by (rule grow_entry [OF im di k a])
    have "fblocks ?t di fbn = freeblock s" using g k by (simp add: grow_def)
    moreover have "get32 off ?v = freeblock s" using l k by (simp add: off_def get32_put32_same)
    moreover have "extended {fbn} 1 s di ?t di" using extended_grow [OF im di _ _ True g] k room True by simp
    moreover have "get32 off (img s ind) = 0" using True e by simp
    ultimately show ?thesis by (intro that [of "freeblock s" ?t]) (simp_all only: iappend_entry_def r andthen.simps Let_def xint prod.case if_True True simp_thms flip: off_def)
  next
    case False
    have "extended {fbn} 0 s di s di" using extended_refl [OF im di] False by simp
    moreover have "get32 off (img s ind) \<noteq> 0" using False e by simp
    ultimately show ?thesis by (intro that [of "fblocks s di fbn" s]) (simp_all only: iappend_entry_def r andthen.simps Let_def xint prod.case if_False False e simp_thms flip: off_def)
  qed
qed

lemma iappend_direct_ok:
  assumes im: "image_ok s" and di: "blocks_ok s di" and k: "fbn < NDIRECT" and room: "unat (freeblock s) + nnew (fblocks s di) fbn \<le> FSSIZE"
  obtains x dj t where "iappend_block fbn di s = Ok (x, dj, t)" "extended {fbn} (nnew (fblocks s di) fbn) s di t dj" "fblocks t dj fbn = x"
proof (cases "d_addrs di ! fbn = 0")
  case True
  let ?d = "di\<lparr>d_addrs := (d_addrs di)[fbn := freeblock s]\<rparr>" and ?t = "s\<lparr>freeblock := freeblock s + 1\<rparr>"
  have e: "fblocks s di fbn = 0" "nnew (fblocks s di) fbn = 1" using k True by (simp_all add: fmap_def nnew_def)
  have g: "grow fbn s di ?t ?d" by (rule grow_direct [OF im di k])
  have l: "length (d_addrs di) = NDIRECT + 1" using di by (simp add: blocks_ok_def)
  have "iappend_block fbn di s = Ok (freeblock s, ?d, ?t)" using k True l by (simp add: iappend_block_def)
  moreover have "extended {fbn} 1 s di ?t ?d" by (rule extended_grow [OF im di _ _ e(1) g]) (use k room e in auto)
  moreover have "fblocks ?t ?d fbn = freeblock s" using k l by (simp add: fmap_def)
  ultimately show ?thesis using that e(2) by metis
next
  case False
  have e: "fblocks s di fbn = d_addrs di ! fbn" "nnew (fblocks s di) fbn = 0" using k False by (simp_all add: fmap_def nnew_def)
  have "iappend_block fbn di s = Ok (d_addrs di ! fbn, di, s)" using k False by (simp add: iappend_block_def)
  moreover have "extended {fbn} 0 s di s di" by (rule extended_refl [OF im di]) (use False e in simp)
  ultimately show ?thesis using that e by metis
qed

lemma iappend_indirect_ok:
  assumes im: "image_ok s" and di: "blocks_ok s di" and k: "NDIRECT \<le> fbn" "fbn < MAXFILE"
    and room: "unat (freeblock s) + nnew (fblocks s di) fbn \<le> FSSIZE"
  obtains x dj t where "iappend_block fbn di s = Ok (x, dj, t)" "extended {MAXFILE, fbn} (nnew (fblocks s di) fbn) s di t dj" "fblocks t dj fbn = x"
proof (cases "d_addrs di ! NDIRECT = 0")
  case True
  let ?d = "di\<lparr>d_addrs := (d_addrs di)[NDIRECT := freeblock s]\<rparr>" and ?t = "s\<lparr>freeblock := freeblock s + 1\<rparr>"
  have e: "fblocks s di MAXFILE = 0" "fblocks s di fbn = 0" "nnew (fblocks s di) fbn = 2" using k True by (simp_all add: fmap_def nnew_def)
  have g: "grow MAXFILE s di ?t ?d" by (rule grow_indirect [OF im di True])
  have x: "extended {MAXFILE} 1 s di ?t ?d" by (rule extended_grow [OF im di _ _ e(1) g]) (use room e in auto)
  have l: "length (d_addrs di) = NDIRECT + 1" using di by (simp add: blocks_ok_def)
  have z: "fblocks ?t ?d fbn = 0" using extendedD(8) [OF x _ e(2)] k by simp
  have a: "d_addrs ?d ! NDIRECT \<noteq> 0" using im l by (auto simp: image_ok_def nmeta)
  have r: "unat (freeblock ?t) + (if fblocks ?t ?d fbn = 0 then 1 else 0) \<le> FSSIZE" using extendedD(5) [OF x] room e(3) z by simp
  from iappend_entry_ok [OF extendedD(1,2) [OF x] k a r] obtain y u where
    y: "iappend_entry fbn (d_addrs ?d ! NDIRECT) ?t = Ok (y, u)"
    "extended {fbn} (if fblocks ?t ?d fbn = 0 then 1 else 0) ?t ?d u ?d" "fblocks u ?d fbn = y" .
  have "iappend_block fbn di s = Ok (y, ?d, u)" using k(1) True y(1) by (simp add: iappend_block_def)
  moreover have "extended {MAXFILE, fbn} 2 s di u ?d" using extended_trans [OF x y(2)] z by (simp add: insert_commute numeral_2_eq_2)
  ultimately show ?thesis using that y(3) e(3) by metis
next
  case False
  have e: "nnew (fblocks s di) fbn = (if fblocks s di fbn = 0 then 1 else 0)" "fblocks s di MAXFILE \<noteq> 0"
    using False by (simp_all add: fmap_def nnew_def)
  from iappend_entry_ok [OF im di k False room [unfolded e(1)]] obtain y u where
    y: "iappend_entry fbn (d_addrs di ! NDIRECT) s = Ok (y, u)"
    "extended {fbn} (if fblocks s di fbn = 0 then 1 else 0) s di u di" "fblocks u di fbn = y" .
  have "iappend_block fbn di s = Ok (y, di, u)" using k(1) False y(1) by (simp add: iappend_block_def)
  moreover have "extended {MAXFILE} 0 s di s di" by (rule extended_refl [OF im di]) (use e(2) in simp)
  from extended_trans [OF this y(2)] have "extended {MAXFILE, fbn} (nnew (fblocks s di) fbn) s di u di" by (simp only: e(1) add_0 insert_is_Un [symmetric])
  ultimately show ?thesis using that y(3) by metis
qed

lemma iappend_block_ok:
  assumes "image_ok s" "blocks_ok s di" "fbn < MAXFILE" "unat (freeblock s) + nnew (fblocks s di) fbn \<le> FSSIZE"
  obtains x dj t where "iappend_block fbn di s = Ok (x, dj, t)" "extended (anew fbn) (nnew (fblocks s di) fbn) s di t dj" "fblocks t dj fbn = x"
proof (cases "fbn < NDIRECT")
  case True
  then show ?thesis using iappend_direct_ok [OF assms(1,2) True assms(4)] that by (auto simp: anew_def)
next
  case False
  then have "NDIRECT \<le> fbn" by simp
  from iappend_indirect_ok [OF assms(1,2) this assms(3,4)] show ?thesis using that False by (auto simp: anew_def)
qed

section \<open>Appending to a file\<close>

text \<open>The file holds the bytes \<open>bs\<close>, in as many blocks as they need.\<close>

definition file_in :: "mkst \<Rightarrow> dinode \<Rightarrow> u8 list \<Rightarrow> bool" where
  "file_in s di bs \<longleftrightarrow>
     blocks_ok s di \<and> length bs \<le> MAXFILE * BSIZE \<and>
     (\<forall>k < MAXFILE. fblocks s di k \<noteq> 0 \<longleftrightarrow> k * BSIZE < length bs) \<and> (fblocks s di MAXFILE \<noteq> 0 \<longleftrightarrow> NDIRECT * BSIZE < length bs) \<and>
     (\<forall>p < length bs. fbyte (img s) (fblocks s di) p = bs ! p)"

definition need :: "nat \<Rightarrow> nat" where
  "need n = (n + (BSIZE - 1)) div BSIZE + (if NDIRECT * BSIZE < n then 1 else 0)"

text \<open>What appending to a file leaves of everything else: only its blocks are written, and those it gets were free.\<close>

definition appended :: "mkst \<Rightarrow> dinode \<Rightarrow> mkst \<Rightarrow> dinode \<Rightarrow> bool" where
  "appended s di t dj \<longleftrightarrow>
     dmeta dj = dmeta di \<and> freeinode t = freeinode s \<and> unat (freeblock s) \<le> unat (freeblock t) \<and>
     (\<forall>k \<le> MAXFILE. fblocks t dj k \<noteq> 0 \<longrightarrow> fblocks t dj k = fblocks s di k \<or> unat (freeblock s) \<le> unat (fblocks t dj k)) \<and>
     (\<forall>k \<le> MAXFILE. fblocks s di k \<noteq> 0 \<longrightarrow> fblocks t dj k = fblocks s di k) \<and>
     (\<forall>b. b = 0 \<or> (\<forall>k \<le> MAXFILE. fblocks t dj k \<noteq> b) \<longrightarrow> img t b = img s b)"

lemma appended_refl: "appended s di s di"
  by (simp add: appended_def)

lemma appended_trans:
  assumes a: "appended s di t dj" and b: "appended t dj u dk"
  shows "appended s di u dk"
  unfolding appended_def
proof (intro conjI allI impI)
  show "dmeta dk = dmeta di" "freeinode u = freeinode s" "unat (freeblock s) \<le> unat (freeblock u)"
    using a b by (simp_all add: appended_def)
  have le: "unat (freeblock s) \<le> unat (freeblock t)" using a by (simp add: appended_def)
  have A: "fblocks t dj k = fblocks s di k" if "k \<le> MAXFILE" "fblocks s di k \<noteq> 0" for k using a that unfolding appended_def by blast
  have B: "fblocks u dk k = fblocks t dj k" if "k \<le> MAXFILE" "fblocks t dj k \<noteq> 0" for k using b that unfolding appended_def by blast
  fix k :: nat assume k: "k \<le> MAXFILE"
  { assume "fblocks s di k \<noteq> 0"
    then show "fblocks u dk k = fblocks s di k" using A [OF k] B [OF k] by simp }
  { assume nz: "fblocks u dk k \<noteq> 0"
    have "fblocks u dk k = fblocks t dj k \<or> unat (freeblock t) \<le> unat (fblocks u dk k)" using b k nz unfolding appended_def by blast
    moreover have "fblocks t dj k = fblocks s di k \<or> unat (freeblock s) \<le> unat (fblocks t dj k)" if "fblocks t dj k \<noteq> 0"
      using a k that unfolding appended_def by blast
    ultimately show "fblocks u dk k = fblocks s di k \<or> unat (freeblock s) \<le> unat (fblocks u dk k)" using nz le by force }
next
  fix b' assume u: "b' = 0 \<or> (\<forall>k \<le> MAXFILE. fblocks u dk k \<noteq> b')"
  then have "img u b' = img t b'" using b unfolding appended_def by blast
  moreover have "b' = 0 \<or> (\<forall>k \<le> MAXFILE. fblocks t dj k \<noteq> b')"
  proof (cases "b' = 0")
    case False
    have "fblocks t dj k \<noteq> b'" if "k \<le> MAXFILE" for k
    proof
      assume "fblocks t dj k = b'"
      then have "fblocks u dk k = b'" using b that False unfolding appended_def by metis
      then show False using u that False by blast
    qed
    then show ?thesis by blast
  qed simp
  then have "img t b' = img s b'" using a unfolding appended_def by blast
  ultimately show "img u b' = img s b'" by simp
qed

lemma need_next:
  assumes fbn: "fbn = len div BSIZE" and n1: "0 < n1" "n1 \<le> (fbn + 1) * BSIZE - len"
  shows "need (len + n1) = need len + (if len mod BSIZE = 0 then 1 else 0) + (if NDIRECT \<le> fbn \<and> len \<le> NDIRECT * BSIZE then 1 else 0)"
proof -
  obtain r where r: "len = fbn * BSIZE + r" "r < BSIZE" using fbn by (metis div_mult_mod_eq mod_less_divisor zero_less_numeral)
  have "len + n1 + (BSIZE - 1) = (fbn + 1) * BSIZE + (r + n1 - 1)" "r + n1 - 1 < BSIZE" using r n1 by auto
  then have a: "(len + n1 + (BSIZE - 1)) div BSIZE = fbn + 1" by (simp del: mult_Suc)
  have b: "(len + (BSIZE - 1)) div BSIZE = fbn + (if r = 0 then 0 else 1)"
  proof (cases "r = 0")
    case False
    then have "(len + (BSIZE - 1)) div BSIZE = fbn + 1" using r by (intro div_nat_eqI) auto
    then show ?thesis using False by simp
  qed (simp add: r)
  have "len mod BSIZE = r" using r by simp
  moreover have "NDIRECT * BSIZE < len + n1 \<longleftrightarrow> NDIRECT \<le> fbn" using r n1 by auto
  ultimately show ?thesis unfolding need_def a b using r by auto
qed

lemma extended_nonzero:
  assumes "extended K n s di t dj" "k \<le> MAXFILE"
  shows "fblocks t dj k \<noteq> 0 \<longleftrightarrow> fblocks s di k \<noteq> 0 \<or> k \<in> K"
  using extendedD(6,7,8) [OF assms(1,2)] by (cases "fblocks s di k = 0"; cases "k \<in> K") auto

lemma extended_appended: "extended K n s di t dj \<Longrightarrow> appended s di t dj"
proof -
  assume e: "extended K n s di t dj"
  note D = extendedD [OF e]
  have "fblocks t dj k = fblocks s di k \<or> unat (freeblock s) \<le> unat (fblocks t dj k)" if "k \<le> MAXFILE" "fblocks t dj k \<noteq> 0" for k
    using D(6,7,8) [OF that(1)] that(2) by (cases "fblocks s di k = 0"; cases "k \<in> K") auto
  moreover have "img t b = img s b" if "b = 0 \<or> (\<forall>k \<le> MAXFILE. fblocks t dj k \<noteq> b)" for b
    using D(9) [of b] that by fastforce
  ultimately show ?thesis unfolding appended_def using D(3,4,5) D(6) by simp
qed

text \<open>The bytes stay where they are when the file gets more blocks.\<close>

lemma extended_bytes:
  assumes e: "extended K n s di t dj" and f: "file_in s di bs" and p: "p < length bs"
  shows "fbyte (img t) (fblocks t dj) p = bs ! p"
proof -
  let ?k = "p div BSIZE"
  have k: "?k < MAXFILE" "?k * BSIZE < length bs" using f p by (auto simp: file_in_def less_mult_imp_div_less intro: le_less_trans [OF div_times_less_eq_dividend])
  then have nz: "fblocks s di ?k \<noteq> 0" using f by (simp add: file_in_def)
  have F: "fblocks t dj ?k = fblocks s di ?k" using extendedD(6) [OF e _ nz] k by simp
  have "fblocks t dj MAXFILE = 0 \<or> fblocks s di ?k \<noteq> fblocks t dj MAXFILE"
  proof (rule ccontr)
    assume "\<not> ?thesis"
    then have "fblocks t dj ?k = fblocks t dj MAXFILE" "fblocks t dj ?k \<noteq> 0" using F by auto
    then have "?k = MAXFILE" using extendedD(2) [OF e] k unfolding blocks_ok_def by (meson less_imp_le order_refl)
    then show False using k by simp
  qed
  then have "img t (fblocks s di ?k) = img s (fblocks s di ?k)" by (rule extendedD(9) [OF e])
  then show ?thesis using f p F by (simp add: file_in_def fbyte_def)
qed

text \<open>Writing the data block \<open>fbn\<close> of a file.\<close>

lemma write_block:
  assumes im: "image_ok t" and dj: "blocks_ok t dj" and k: "fbn < MAXFILE" "fblocks t dj fbn = x" "x \<noteq> 0" and v: "length v = BSIZE"
  shows "image_ok (wsect x v t)" "fblocks (wsect x v t) dj = fblocks t dj" "blocks_ok (wsect x v t) dj"
    "freeblock (wsect x v t) = freeblock t" "freeinode (wsect x v t) = freeinode t" "img (wsect x v t) = (img t)(x := v)"
    "rsect x t = Ok (img t x)"
proof -
  have x: "unat x < unat (freeblock t)" using dj k unfolding blocks_ok_def by (metis less_imp_le)
  have n: "max (nsect t) (unat x + 1) = nsect t" "unat x < nsect t" using x im by (auto simp: image_ok_def)
  show "rsect x t = Ok (img t x)" using n by (simp add: rsect_def)
  show "image_ok (wsect x v t)" using im x n v by (auto simp: image_ok_def wsect_def)
  show s: "freeblock (wsect x v t) = freeblock t" "freeinode (wsect x v t) = freeinode t" "img (wsect x v t) = (img t)(x := v)"
    by (simp_all add: wsect_def)
  have "d_addrs dj ! NDIRECT \<noteq> x \<or> d_addrs dj ! NDIRECT = 0"
  proof (rule ccontr)
    assume "\<not> ?thesis"
    then have "fblocks t dj MAXFILE = fblocks t dj fbn" "fblocks t dj MAXFILE \<noteq> 0" using k by (auto simp: fmap_def)
    then have "MAXFILE = fbn" using dj k(1) unfolding blocks_ok_def by (meson less_imp_le order_refl)
    then show False using k by simp
  qed
  then show F: "fblocks (wsect x v t) dj = fblocks t dj" unfolding s by (intro fmap_same_ind) auto
  show "blocks_ok (wsect x v t) dj" using dj unfolding blocks_ok_def F s(1) .
qed

lemma file_in_shape:
  assumes len: "fbn = len div BSIZE" and n1: "0 < n1" "n1 \<le> (fbn + 1) * BSIZE - len"
  shows "k * BSIZE < len \<or> k = fbn \<longleftrightarrow> k * BSIZE < len + n1" "NDIRECT * BSIZE < len \<or> NDIRECT \<le> fbn \<longleftrightarrow> NDIRECT * BSIZE < len + n1"
proof -
  obtain r where r: "len = fbn * BSIZE + r" "r < BSIZE" using len by (metis div_mult_mod_eq mod_less_divisor zero_less_numeral)
  have "k * BSIZE < len + n1 \<longleftrightarrow> k \<le> fbn" using r n1 by auto
  moreover have "k * BSIZE < len \<or> k = fbn \<longleftrightarrow> k \<le> fbn" using r by auto
  ultimately show "k * BSIZE < len \<or> k = fbn \<longleftrightarrow> k * BSIZE < len + n1" by simp
  show "NDIRECT * BSIZE < len \<or> NDIRECT \<le> fbn \<longleftrightarrow> NDIRECT * BSIZE < len + n1" using r n1 by auto
qed

lemma iappend_step:
  assumes im: "image_ok s" and f: "file_in s di bs" and ys: "ys \<noteq> []" "length ys \<le> (fbn + 1) * BSIZE - length bs"
    and fbn: "fbn = length bs div BSIZE" "fbn < MAXFILE" and room: "unat (freeblock s) + need (length bs + length ys) \<le> FSSIZE + need (length bs)"
  obtains x dj t u where "iappend_block fbn di s = Ok (x, dj, t)" "rsect x t = Ok (img t x)"
    "u = wsect x (put_bytes (length bs - fbn * BSIZE) ys (img t x)) t" "image_ok u" "file_in u dj (bs @ ys)"
    "unat (freeblock u) + need (length bs) = unat (freeblock s) + need (length bs + length ys)" "appended s di u dj"
proof -
  let ?l = "length bs" and ?n1 = "length ys" and ?F = "fblocks s di"
  have n1: "0 < ?n1" using ys(1) by simp
  have bo: "blocks_ok s di" using f by (simp add: file_in_def)
  have z: "?F fbn = 0 \<longleftrightarrow> ?l mod BSIZE = 0" "?F MAXFILE = 0 \<longleftrightarrow> ?l \<le> NDIRECT * BSIZE"
  proof -
    have "?F fbn \<noteq> 0 \<longleftrightarrow> fbn * BSIZE < ?l" "?F MAXFILE \<noteq> 0 \<longleftrightarrow> NDIRECT * BSIZE < ?l" using f fbn(2) by (simp_all add: file_in_def)
    moreover have "fbn * BSIZE + ?l mod BSIZE = ?l" using fbn(1) by simp
    ultimately show "?F fbn = 0 \<longleftrightarrow> ?l mod BSIZE = 0" "?F MAXFILE = 0 \<longleftrightarrow> ?l \<le> NDIRECT * BSIZE" by linarith+
  qed
  then have nn: "need (?l + ?n1) = need ?l + nnew ?F fbn" using need_next [OF fbn(1) n1 ys(2)] by (auto simp: nnew_def)
  then have "unat (freeblock s) + nnew ?F fbn \<le> FSSIZE" using room by simp
  from iappend_block_ok [OF im bo fbn(2) this] obtain x dj t where
    x: "iappend_block fbn di s = Ok (x, dj, t)" and e: "extended (anew fbn) (nnew ?F fbn) s di t dj" and k: "fblocks t dj fbn = x" .
  note D = extendedD [OF e]
  have xz: "x \<noteq> 0" using extended_nonzero [OF e, of fbn] k fbn(2) by (auto simp: anew_def)
  have off: "?l - fbn * BSIZE = ?l mod BSIZE" using fbn(1) by (simp add: minus_div_mult_eq_mod)
  have yl: "?n1 \<le> BSIZE - ?l mod BSIZE" using ys(2) off fbn(1) div_mult_mod_eq [of ?l BSIZE] by (simp add: algebra_simps)
  have lx: "length (img t x) = BSIZE" using D(1) by (simp add: image_ok_def)
  define v where "v = put_bytes (?l mod BSIZE) ys (img t x)"
  have lv: "length v = BSIZE" unfolding v_def using lx yl mod_less_divisor [of BSIZE ?l] by simp
  define u where "u = wsect x v t"
  note W = write_block [OF D(1,2) fbn(2) k xz lv, folded u_def]
  have le: "length (bs @ ys) \<le> MAXFILE * BSIZE"
  proof -
    have "length (bs @ ys) \<le> (fbn + 1) * BSIZE" using ys(2) n1 unfolding length_append by arith
    also have "\<dots> \<le> MAXFILE * BSIZE" using fbn(2) by (intro mult_le_mono1) simp
    finally show ?thesis .
  qed
  have "fbyte (img u) (fblocks u dj) p = (bs @ ys) ! p" if p: "p < length (bs @ ys)" for p
  proof -
    have "j = fbn" if "j < MAXFILE" "fblocks t dj j = x" for j
      using D(2) that k xz fbn(2) unfolding blocks_ok_def by (metis less_imp_le)
    then have "fbyte ((img t)(x := v)) (fblocks t dj) p = (if ?l \<le> p \<and> p < ?l + ?n1 then ys ! (p - ?l) else fbyte (img t) (fblocks t dj) p)"
      unfolding v_def using k lx yl p le fbn(1) by (intro fbyte_put) auto
    then show ?thesis unfolding W(2) unfolding W(6) using p extended_bytes [OF e f, of p] by (auto simp: nth_append)
  qed
  moreover have "fblocks u dj k \<noteq> 0 \<longleftrightarrow> k * BSIZE < length (bs @ ys)" if "k < MAXFILE" for k
  proof -
    have "fblocks t dj k \<noteq> 0 \<longleftrightarrow> k * BSIZE < ?l \<or> k = fbn"
      using extended_nonzero [OF e, of k] f that by (auto simp: file_in_def anew_def)
    then show ?thesis unfolding W(2) using file_in_shape(1) [OF fbn(1) n1 ys(2), of k] by simp
  qed
  moreover have "fblocks u dj MAXFILE \<noteq> 0 \<longleftrightarrow> NDIRECT * BSIZE < length (bs @ ys)"
  proof -
    have "fblocks t dj MAXFILE \<noteq> 0 \<longleftrightarrow> NDIRECT * BSIZE < ?l \<or> NDIRECT \<le> fbn"
      using extended_nonzero [OF e, of MAXFILE] f fbn(2) by (auto simp: file_in_def anew_def)
    then show ?thesis unfolding W(2) using file_in_shape(2) [OF fbn(1) n1 ys(2)] by simp
  qed
  ultimately have "file_in u dj (bs @ ys)" unfolding file_in_def using W(3) le by blast
  moreover have "unat (freeblock u) + need ?l = unat (freeblock s) + need (?l + ?n1)" using D(5) nn by (simp add: W(4))
  moreover have "appended s di u dj"
  proof (rule appended_trans [OF extended_appended [OF e]])
    have "img u b = img t b" if "b = 0 \<or> (\<forall>k \<le> MAXFILE. fblocks u dj k \<noteq> b)" for b
    proof -
      have "b \<noteq> x" using that k xz fbn(2) unfolding W(2) by (metis less_imp_le)
      then show ?thesis by (simp add: W(6))
    qed
    then show "appended t dj u dj" unfolding appended_def W(2,4,5) by simp
  qed
  ultimately show ?thesis using that [OF x W(7) _ W(1)] unfolding off u_def v_def by blast
qed

lemma need_mono: "m \<le> n \<Longrightarrow> need m \<le> need n"
  unfolding need_def by (intro add_mono div_le_mono) auto

lemma iappend_loop_ok:
  assumes "image_ok s" "file_in s di bs" "unat off = length bs" "length bs + length p \<le> MAXFILE * BSIZE"
    "unat (freeblock s) + need (length bs + length p) \<le> FSSIZE + need (length bs)"
  shows "\<exists>dj t. iappend_loop di off p s = Ok (dj, off + of_nat (length p), t) \<and> image_ok t \<and> file_in t dj (bs @ p) \<and>
    unat (freeblock t) + need (length bs) = unat (freeblock s) + need (length bs + length p) \<and> appended s di t dj"
  using assms
proof (induction "length p" arbitrary: s di bs off p rule: less_induct)
  case less
  show ?case
  proof (cases "p = []")
    case True
    then show ?thesis using less.prems(1,2) appended_refl by (simp add: iappend_loop.simps [of di off "[]"])
  next
    case False
    define fbn where "fbn = length bs div BSIZE"
    define n1 where "n1 = min (length p) ((fbn + 1) * BSIZE - length bs)"
    have lt: "length bs < (fbn + 1) * BSIZE" unfolding fbn_def by (simp add: dividend_less_div_times)
    then have n1: "0 < n1" "n1 \<le> length p" using False by (auto simp: n1_def)
    have fbn: "fbn < MAXFILE" 
    proof -
      have "0 < length p" using False by simp
      then have "length bs < MAXFILE * BSIZE" using less.prems(4) by linarith
      then show ?thesis unfolding fbn_def by (rule less_mult_imp_div_less)
    qed
    define ys where "ys = take n1 p"
    have ys: "ys \<noteq> []" "length ys = n1" "length ys \<le> (fbn + 1) * BSIZE - length bs" using n1 False by (auto simp: ys_def n1_def)
    have mono: "need (length bs + n1) \<le> need (length bs + length p)" using n1(2) by (intro need_mono) simp
    have "unat (freeblock s) + need (length bs + length ys) \<le> FSSIZE + need (length bs)" using less.prems(5) mono ys(2) by simp
    from iappend_step [OF less.prems(1,2) ys(1,3) fbn_def fbn this] obtain x dj t u where
      x: "iappend_block fbn di s = Ok (x, dj, t)" "rsect x t = Ok (img t x)"
        "u = wsect x (put_bytes (length bs - fbn * BSIZE) ys (img t x)) t"
      and u: "image_ok u" "file_in u dj (bs @ ys)" "unat (freeblock u) + need (length bs) = unat (freeblock s) + need (length bs + n1)"
        "appended s di u dj" unfolding ys(2) .
    have step: "iappend_loop di off p s = iappend_loop dj (off + of_nat n1) (drop n1 p) u"
      unfolding iappend_loop.simps [of di off p s] less.prems(3) fbn_def [symmetric] Let_def n1_def [symmetric] ys_def [symmetric]
      using False fbn x by (simp add: n1_def [symmetric] ys_def [symmetric])
    have len: "length bs + n1 + length (drop n1 p) = length bs + length p" "length (bs @ ys) = length bs + n1" using ys(2) n1 by simp_all
    have off: "unat (off + of_nat n1) = length (bs @ ys)"
    proof -
      have "length bs + n1 < 2 ^ 32" using less.prems(4) n1(2) by simp
      then show ?thesis using less.prems(3) len(2) by (simp add: unat_word_ariths unat_of_nat)
    qed
    have "\<exists>dk v. iappend_loop dj (off + of_nat n1) (drop n1 p) u = Ok (dk, off + of_nat n1 + of_nat (length (drop n1 p)), v) \<and>
      image_ok v \<and> file_in v dk ((bs @ ys) @ drop n1 p) \<and>
      unat (freeblock v) + need (length (bs @ ys)) = unat (freeblock u) + need (length (bs @ ys) + length (drop n1 p)) \<and> appended u dj v dk"
    proof (rule less.hyps [OF _ u(1,2) off])
      show "length (drop n1 p) < length p" using n1 by simp
      show "length (bs @ ys) + length (drop n1 p) \<le> MAXFILE * BSIZE" unfolding len(2) len(1) by (rule less.prems(4))
      show "unat (freeblock u) + need (length (bs @ ys) + length (drop n1 p)) \<le> FSSIZE + need (length (bs @ ys))"
        unfolding len(2) unfolding len(1) using less.prems(5) u(3) by linarith
    qed
    then obtain dk v where v: "iappend_loop dj (off + of_nat n1) (drop n1 p) u = Ok (dk, off + of_nat n1 + of_nat (length (drop n1 p)), v)"
      "image_ok v" "file_in v dk ((bs @ ys) @ drop n1 p)" "appended u dj v dk"
      "unat (freeblock v) + need (length bs + n1) = unat (freeblock u) + need (length bs + length p)" unfolding len(2) unfolding len(1) by blast
    have "off + of_nat n1 + of_nat (length (drop n1 p)) = off + of_nat (length p)"
      using n1(2) by (simp add: of_nat_diff)
    moreover have "(bs @ ys) @ drop n1 p = bs @ p" by (simp add: ys_def)
    ultimately show ?thesis
      using v u(3) appended_trans [OF u(4) v(4)] by (intro exI [of _ dk] exI [of _ v]) (simp add: step)
  qed
qed

section \<open>Inodes\<close>

abbreviation dinode_at :: "mkst \<Rightarrow> u32 \<Rightarrow> dinode" where
  "dinode_at s i \<equiv> get_dinode (islot i) (img s (IBLOCK i mkfs_sb))"

text \<open>The inodes that fit into the blocks reserved for them.\<close>

abbreviation max_inodes :: nat where "max_inodes \<equiv> 208"

lemma unat_IBLOCK: "unat (IBLOCK i mkfs_sb) = unat i div IPB + 32" if "unat i < max_inodes"
proof -
  have "unat (i div 16) = unat i div IPB" by (simp add: unat_div_distrib)
  moreover have "unat i div IPB < 13" using that by (simp add: less_mult_imp_div_less)
  ultimately show ?thesis unfolding IBLOCK_def by (subst unat_add_lem [THEN iffD1]) auto
qed

lemma IBLOCK_range: "unat i < max_inodes \<Longrightarrow> 32 \<le> unat (IBLOCK i mkfs_sb) \<and> unat (IBLOCK i mkfs_sb) < 45"
proof -
  assume i: "unat i < max_inodes"
  then have "unat i div IPB < 13" by (simp add: less_mult_imp_div_less)
  then show ?thesis by (simp add: unat_IBLOCK [OF i])
qed

lemma inode_slot_eq:
  assumes "unat i < max_inodes" "unat j < max_inodes" "IBLOCK i mkfs_sb = IBLOCK j mkfs_sb" "islot i = islot j"
  shows "i = j"
proof -
  have "unat i div IPB = unat j div IPB" using assms(3) unat_IBLOCK [OF assms(1)] unat_IBLOCK [OF assms(2)] by simp
  then have "unat i = unat j" using assms(4) unfolding islot_def by (metis div_mult_mod_eq)
  then show ?thesis by (rule word_unat_eq_iff [THEN iffD2])
qed

lemma length_get_dinode [simp]: "length (d_addrs (get_dinode k d)) = NDIRECT + 1"
  by (simp add: get_dinode_def Let_def)

lemma rinode_ok: "image_ok s \<Longrightarrow> unat i < max_inodes \<Longrightarrow> rinode i s = Ok (dinode_at s i)"
  using IBLOCK_range [of i] by (simp add: rinode_def rsect_def image_ok_def)

definition wrote_inode :: "u32 \<Rightarrow> dinode \<Rightarrow> mkst \<Rightarrow> mkst \<Rightarrow> bool" where
  "wrote_inode i di s t \<longleftrightarrow>
     image_ok t \<and> freeblock t = freeblock s \<and> freeinode t = freeinode s \<and> dinode_at t i = di \<and>
     (\<forall>j. unat j < max_inodes \<and> j \<noteq> i \<longrightarrow> dinode_at t j = dinode_at s j) \<and> (\<forall>b. b \<noteq> IBLOCK i mkfs_sb \<longrightarrow> img t b = img s b)"

lemma wrote_inodeD:
  assumes "wrote_inode i di s t"
  shows "image_ok t" "freeblock t = freeblock s" "freeinode t = freeinode s" "dinode_at t i = di"
    "unat j < max_inodes \<Longrightarrow> j \<noteq> i \<Longrightarrow> dinode_at t j = dinode_at s j" "b \<noteq> IBLOCK i mkfs_sb \<Longrightarrow> img t b = img s b"
  using assms by (simp_all add: wrote_inode_def)

lemma winode_ok:
  assumes im: "image_ok s" and i: "unat i < max_inodes" and a: "length (d_addrs di) = NDIRECT + 1"
  obtains t where "winode i di s = Ok t" "wrote_inode i di s t"
proof -
  let ?n = "IBLOCK i mkfs_sb"
  let ?v = "put_dinode (islot i) di (img s ?n)"
  have r: "unat ?n < 45" "32 \<le> unat ?n" using IBLOCK_range [OF i] by simp_all
  have l: "length (img s ?n) = BSIZE" using im by (simp add: image_ok_def)
  note lv = length_put_dinode [OF islot_less l a]
  have w: "winode i di s = Ok (wsect ?n ?v s)" using im r by (simp add: winode_def rsect_def image_ok_def Let_def)
  have "max (nsect s) (unat ?n + 1) = nsect s" using im r by (simp add: image_ok_def)
  then have "image_ok (wsect ?n ?v s)" using im r lv by (auto simp: image_ok_def wsect_def nmeta)
  moreover have "dinode_at (wsect ?n ?v s) i = di" by (simp add: wsect_def dinode_put_get [OF islot_less l a])
  moreover have "dinode_at (wsect ?n ?v s) j = dinode_at s j" if "unat j < max_inodes" "j \<noteq> i" for j
  proof (cases "IBLOCK j mkfs_sb = ?n")
    case True
    then have "islot j \<noteq> islot i" using inode_slot_eq [OF that(1) i] that(2) by blast
    then show ?thesis using True by (simp add: wsect_def dinode_put_other [OF islot_less islot_less _ l a])
  qed (simp add: wsect_def)
  ultimately have "wrote_inode i di s (wsect ?n ?v s)" unfolding wrote_inode_def by (simp add: wsect_def)
  then show ?thesis by (rule that [OF w])
qed

section \<open>The files of the image\<close>

definition ino :: "nat \<Rightarrow> u32" where
  "ino k = of_nat (k + 1)"

lemma unat_ino: "k < max_inodes \<Longrightarrow> unat (ino k) = k + 1"
  unfolding ino_def by (subst unat_of_nat_u32) auto

lemma ino_eq: "j < max_inodes \<Longrightarrow> k < max_inodes \<Longrightarrow> ino j = ino k \<longleftrightarrow> j = k"
  using unat_ino [of j] unat_ino [of k] by (metis add_right_cancel)

lemma ino_next: "ino k + 1 = ino (k + 1)"
  by (simp add: ino_def)

definition file_at :: "mkst \<Rightarrow> u32 \<Rightarrow> u16 \<times> u8 list \<Rightarrow> bool" where
  "file_at s i f \<longleftrightarrow> file_in s (dinode_at s i) (snd f) \<and> dmeta (dinode_at s i) = (fst f, 0, 0, 1, of_nat (length (snd f)))"

definition no_shared :: "(nat \<Rightarrow> u32) \<Rightarrow> (nat \<Rightarrow> u32) \<Rightarrow> bool" where
  "no_shared F G \<longleftrightarrow> (\<forall>m \<le> MAXFILE. \<forall>n \<le> MAXFILE. F m \<noteq> 0 \<longrightarrow> F m \<noteq> G n)"

lemma no_shared_sym: "no_shared F G \<longleftrightarrow> no_shared G F"
  unfolding no_shared_def by metis

definition blocks_needed :: "(u16 \<times> u8 list) list \<Rightarrow> nat" where
  "blocks_needed fs = (\<Sum>f \<leftarrow> fs. need (length (snd f)))"

text \<open>
  The image holds the files \<open>fs\<close>, the file of number \<open>k\<close> of the list in inode \<open>k + 1\<close>; no two files share a block, they
  take the blocks they need, and in front of the inodes and in the bitmap nothing is written but the super block.
\<close>

definition mk_ok :: "mkst \<Rightarrow> (u16 \<times> u8 list) list \<Rightarrow> bool" where
  "mk_ok s fs \<longleftrightarrow>
     image_ok s \<and> length fs + 1 < max_inodes \<and> freeinode s = ino (length fs) \<and> unat (freeblock s) = nmeta + blocks_needed fs \<and>
     (\<forall>k < length fs. file_at s (ino k) (fs ! k)) \<and>
     (\<forall>j < length fs. \<forall>k < length fs. j \<noteq> k \<longrightarrow> no_shared (fblocks s (dinode_at s (ino j))) (fblocks s (dinode_at s (ino k)))) \<and>
     (\<forall>b. unat b < 32 \<or> b = 45 \<longrightarrow> img s b = (if b = 1 then put_bytes 0 (encode_sb mkfs_sb) zeroes else zeroes))"

text \<open>A file of which no block is written stays as it is.\<close>

lemma file_in_frame:
  assumes f: "file_in s di bs" and same: "\<And>k. k \<le> MAXFILE \<Longrightarrow> fblocks s di k \<noteq> 0 \<Longrightarrow> img t (fblocks s di k) = img s (fblocks s di k)"
    and fb: "unat (freeblock s) \<le> unat (freeblock t)"
  shows "fblocks t di = fblocks s di" "file_in t di bs"
proof -
  have "fblocks s di MAXFILE = d_addrs di ! NDIRECT" by (simp add: fmap_def)
  then show F: "fblocks t di = fblocks s di" using same [of MAXFILE] by (intro fmap_same_ind) simp
  have "fbyte (img t) (fblocks s di) p = bs ! p" if p: "p < length bs" for p
  proof -
    have "p div BSIZE < MAXFILE" "p div BSIZE * BSIZE < length bs"
      using f p by (auto simp: file_in_def less_mult_imp_div_less intro: le_less_trans [OF div_times_less_eq_dividend])
    then have "img t (fblocks s di (p div BSIZE)) = img s (fblocks s di (p div BSIZE))" using f by (intro same) (auto simp: file_in_def)
    then show ?thesis using f p by (simp add: file_in_def fbyte_def)
  qed
  moreover have "blocks_ok t di"
  proof -
    have "blocks_ok s di" using f by (simp add: file_in_def)
    then show ?thesis unfolding blocks_ok_def F using fb by (meson less_le_trans)
  qed
  ultimately show "file_in t di bs" using f unfolding file_in_def F by blast
qed

lemma mk_okD:
  assumes "mk_ok s fs"
  shows "image_ok s" "length fs + 1 < max_inodes" "freeinode s = ino (length fs)" "unat (freeblock s) = nmeta + blocks_needed fs"
    "k < length fs \<Longrightarrow> file_at s (ino k) (fs ! k)"
    "j < length fs \<Longrightarrow> k < length fs \<Longrightarrow> j \<noteq> k \<Longrightarrow> no_shared (fblocks s (dinode_at s (ino j))) (fblocks s (dinode_at s (ino k)))"
    "unat b < 32 \<or> b = 45 \<Longrightarrow> img s b = (if b = 1 then put_bytes 0 (encode_sb mkfs_sb) zeroes else zeroes)"
  using assms unfolding mk_ok_def by blast+

lemma blocks_needed_update: "k < length fs \<Longrightarrow> blocks_needed (fs[k := f]) + need (length (snd (fs ! k))) = blocks_needed fs + need (length (snd f))"
  unfolding blocks_needed_def by (induction fs arbitrary: k) (auto split: nat.split simp: nth_Cons)

lemma file_in_size [simp]: "file_in s (di\<lparr>d_size := n\<rparr>) bs = file_in s di bs"
  by (simp add: file_in_def blocks_ok_def)

lemma file_at_blocks:
  assumes "file_at s i f" "m \<le> MAXFILE" "fblocks s (dinode_at s i) m \<noteq> 0"
  shows "nmeta \<le> unat (fblocks s (dinode_at s i) m)" "unat (fblocks s (dinode_at s i) m) < unat (freeblock s)"
  using assms unfolding file_at_def file_in_def blocks_ok_def by blast+

text \<open>A file whose blocks are new or its own shares none with a file that was there before.\<close>

lemma no_shared_appended:
  assumes n: "no_shared (fblocks s di) G" and a: "appended s di t dj" and G: "\<And>n. n \<le> MAXFILE \<Longrightarrow> G n \<noteq> 0 \<Longrightarrow> unat (G n) < unat (freeblock s)"
  shows "no_shared (fblocks t dj) G"
  unfolding no_shared_def
proof (intro allI impI notI)
  fix m l assume m: "m \<le> MAXFILE" "l \<le> MAXFILE" "fblocks t dj m \<noteq> 0" "fblocks t dj m = G l"
  then consider "fblocks t dj m = fblocks s di m" | "unat (freeblock s) \<le> unat (fblocks t dj m)" using a unfolding appended_def by blast
  then show False
  proof cases
    case 1
    then show False using n m unfolding no_shared_def by metis
  next
    case 2
    then show False using G [OF m(2)] m by simp
  qed
qed

text \<open>What the operations on the inode of one file leave of the others.\<close>

lemma mk_ok_other:
  assumes ok: "mk_ok s fs" and k: "k < length fs" and j: "j < length fs" "j \<noteq> k" and a: "appended s (dinode_at s (ino k)) t1 dj"
    and fb: "unat (freeblock t) = unat (freeblock t1)"
    and img: "\<And>b. nmeta \<le> unat b \<Longrightarrow> img t b = img t1 b" and di: "dinode_at t (ino j) = dinode_at s (ino j)"
  shows "file_at t (ino j) (fs ! j)" "fblocks t (dinode_at t (ino j)) = fblocks s (dinode_at s (ino j))"
    "no_shared (fblocks t1 dj) (fblocks t (dinode_at t (ino j)))"
proof -
  let ?F = "fblocks s (dinode_at s (ino j))"
  note f = mk_okD(5) [OF ok j(1)]
  have F: "file_in s (dinode_at s (ino j)) (snd (fs ! j))" using f by (simp add: file_at_def)
  note r = file_at_blocks [OF f]
  have n: "no_shared (fblocks t1 dj) ?F"
    by (rule no_shared_appended [OF mk_okD(6) [OF ok k j(1)] a]) (use j r in auto)
  have same: "img t (?F m) = img s (?F m)" if "m \<le> MAXFILE" "?F m \<noteq> 0" for m
  proof -
    have "fblocks t1 dj l \<noteq> ?F m" if "l \<le> MAXFILE" for l using n that \<open>m \<le> MAXFILE\<close> \<open>?F m \<noteq> 0\<close> unfolding no_shared_def by metis
    then have "img t1 (?F m) = img s (?F m)" using a unfolding appended_def by blast
    then show ?thesis using img [of "?F m"] r(1) [OF that] by simp
  qed
  have le: "unat (freeblock s) \<le> unat (freeblock t)" using a fb by (simp add: appended_def)
  note fr = file_in_frame [OF F same le]
  show "fblocks t (dinode_at t (ino j)) = ?F" using fr(1) by (simp add: di)
  then show "no_shared (fblocks t1 dj) (fblocks t (dinode_at t (ino j)))" using n by simp
  show "file_at t (ino j) (fs ! j)" using fr(2) f by (simp add: file_at_def di)
qed

text \<open>\<open>iappend\<close> appends.\<close>

lemma iappend_ok:
  assumes ok: "mk_ok s fs" and k: "k < length fs" "fs ! k = (ty, bs)" and len: "length bs + length p \<le> MAXFILE * BSIZE"
    and room: "nmeta + blocks_needed (fs[k := (ty, bs @ p)]) \<le> FSSIZE"
  obtains t where "iappend (ino k) p s = Ok t" "mk_ok t (fs[k := (ty, bs @ p)])"
proof -
  let ?di = "dinode_at s (ino k)" and ?fs = "fs[k := (ty, bs @ p)]"
  note im = mk_okD(1) [OF ok] and lfs = mk_okD(2) [OF ok]
  have i: "unat (ino j) < max_inodes" if "j < length fs" for j using that lfs unat_ino [of j] by simp
  have f: "file_in s ?di bs" "dmeta ?di = (ty, 0, 0, 1, of_nat (length bs))" using mk_okD(5) [OF ok k(1)] by (simp_all add: file_at_def k(2))
  have sz: "d_size ?di = of_nat (length bs)" "unat (d_size ?di) = length bs" using f(2) len by (auto simp: dmeta_def unat_of_nat_u32)
  have tot: "blocks_needed ?fs + need (length bs) = blocks_needed fs + need (length bs + length p)" using blocks_needed_update [OF k(1), of "(ty, bs @ p)"] k(2) by simp
  have "unat (freeblock s) + need (length bs + length p) \<le> FSSIZE + need (length bs)" using tot room mk_okD(4) [OF ok] by simp
  from iappend_loop_ok [OF im f(1) sz(2) len this] obtain dj t1 where
    l: "iappend_loop ?di (d_size ?di) p s = Ok (dj, d_size ?di + of_nat (length p), t1)" and t1: "image_ok t1" "file_in t1 dj (bs @ p)"
    "unat (freeblock t1) + need (length bs) = unat (freeblock s) + need (length bs + length p)" and a: "appended s ?di t1 dj" by blast
  let ?dk = "dj\<lparr>d_size := of_nat (length (bs @ p))\<rparr>"
  have "length (d_addrs ?dk) = NDIRECT + 1" using t1(2) by (simp add: file_in_def blocks_ok_def)
  from winode_ok [OF t1(1) i [OF k(1)] this] obtain t where w1: "winode (ino k) ?dk t1 = Ok t"
    and wi: "wrote_inode (ino k) ?dk t1 t" .
  note w = w1 wrote_inodeD [OF wi]
  have ap: "iappend (ino k) p s = Ok t"
    unfolding iappend_def rinode_ok [OF im i [OF k(1)]] using l w(1) sz(1) by simp
  have low: "img t1 b = img s b" if "unat b < nmeta" for b
  proof -
    have "b = 0 \<or> (\<forall>m \<le> MAXFILE. fblocks t1 dj m \<noteq> b)" using t1(2) that unfolding file_in_def blocks_ok_def by (metis not_less)
    then show ?thesis using a unfolding appended_def by blast
  qed
  have high: "img t b = img t1 b" if "nmeta \<le> unat b" for b
    by (rule w(7)) (use IBLOCK_range [OF i [OF k(1)]] that in \<open>auto simp: nmeta\<close>)
  have other: "dinode_at t (ino j) = dinode_at s (ino j)" if "j < length fs" "j \<noteq> k" for j
  proof -
    have "ino j \<noteq> ino k" using that k lfs ino_eq [of j k] by simp
    moreover have "img t1 (IBLOCK (ino j) mkfs_sb) = img s (IBLOCK (ino j) mkfs_sb)" using IBLOCK_range [OF i [OF that(1)]] by (intro low) (simp add: nmeta)
    ultimately show ?thesis using w(6) [OF i [OF that(1)]] by simp
  qed
  have O: "file_at t (ino j) (fs ! j)" "fblocks t (dinode_at t (ino j)) = fblocks s (dinode_at s (ino j))"
    "no_shared (fblocks t1 dj) (fblocks t (dinode_at t (ino j)))" if "j < length fs" "j \<noteq> k" for j
    by (rule mk_ok_other [OF ok k(1) that a _ _ other [OF that]], simp add: w(3), erule high)+
  have F: "fblocks t ?dk = fblocks t1 ?dk" "file_in t ?dk (bs @ p)"
    by (rule file_in_frame [of t1 ?dk "bs @ p" t]; use t1(2) w(3) high in \<open>auto simp: file_in_def blocks_ok_def\<close>)+
  have at: "file_at t (ino j) (?fs ! j)" if "j < length fs" for j
  proof (cases "j = k")
    case True
    have "dmeta ?dk = (ty, 0, 0, 1, of_nat (length (bs @ p)))" using a f(2) by (simp add: appended_def dmeta_def)
    then show ?thesis using True k F(2) by (simp add: file_at_def w(5))
  qed (use O(1) that in simp)
  have shared: "no_shared (fblocks t (dinode_at t (ino k))) (fblocks t (dinode_at t (ino j)))" if "j < length fs" "j \<noteq> k" for j
    using O(3) [OF that] unfolding w(5) F(1) by simp
  have "no_shared (fblocks t (dinode_at t (ino j))) (fblocks t (dinode_at t (ino l)))" if "j < length fs" "l < length fs" "j \<noteq> l" for j l
  proof -
    consider "j = k" | "l = k" | "j \<noteq> k" "l \<noteq> k" by blast
    then show ?thesis
    proof cases
      case 2
      then show ?thesis using shared [OF that(1)] that(3) no_shared_sym by simp
    next
      case 3
      then show ?thesis using O(2) [OF that(1)] O(2) [OF that(2)] mk_okD(6) [OF ok that] by simp
    qed (use shared that in simp)
  qed
  moreover have "img t b = (if b = 1 then put_bytes 0 (encode_sb mkfs_sb) zeroes else zeroes)" if "unat b < 32 \<or> b = 45" for b
  proof -
    have "b \<noteq> IBLOCK (ino k) mkfs_sb" "unat b < nmeta" using that IBLOCK_range [OF i [OF k(1)]] by (auto simp: nmeta)
    then show ?thesis using w(7) low mk_okD(7) [OF ok that] by simp
  qed
  moreover have "unat (freeblock t) = nmeta + blocks_needed ?fs" using t1(3) tot mk_okD(4) [OF ok] by (simp add: w(3))
  moreover have "freeinode t = ino (length ?fs)" using a mk_okD(3) [OF ok] by (simp add: w(4) appended_def)
  ultimately have "mk_ok t ?fs" unfolding mk_ok_def length_list_update using w(2) lfs at by blast
  then show ?thesis by (rule that [OF ap])
qed

lemma fmap_empty: "fmap c (replicate (NDIRECT + 1) 0) k = 0"
  by (simp add: fmap_def del: replicate_Suc)

lemma blocks_needed_append [simp]: "blocks_needed (fs @ gs) = blocks_needed fs + blocks_needed gs"
  by (simp add: blocks_needed_def)

lemma need_0 [simp]: "need 0 = 0"
  by (simp add: need_def)

text \<open>\<open>ialloc\<close> adds an empty file.\<close>

lemma mk_ialloc_ok:
  assumes ok: "mk_ok s fs" and room: "length fs + 2 < max_inodes"
  obtains t where "mk_ialloc ty s = Ok (ino (length fs), t)" "mk_ok t (fs @ [(ty, [])])"
proof -
  let ?i = "ino (length fs)" and ?s = "s\<lparr>freeinode := ino (length fs) + 1\<rparr>" and ?fs = "fs @ [(ty, [])]"
  let ?di = "\<lparr>d_type = ty, d_major = 0, d_minor = 0, d_nlink = 1, d_size = 0, d_addrs = replicate (NDIRECT + 1) 0\<rparr>"
  have im: "image_ok ?s" using mk_okD(1) [OF ok] by (simp add: image_ok_def)
  have i: "unat (ino j) < max_inodes" if "j \<le> length fs" for j using that room unat_ino [of j] by simp
  have "length (d_addrs ?di) = NDIRECT + 1" by simp
  from winode_ok [OF im i [OF order_refl] this] obtain t where w1: "winode ?i ?di ?s = Ok t"
    and wi: "wrote_inode ?i ?di ?s t" .
  note w = w1 wrote_inodeD [OF wi]
  have al: "mk_ialloc ty s = Ok (?i, t)" using w(1) mk_okD(3) [OF ok] by (simp add: mk_ialloc_def Let_def del: replicate.simps)
  have old: "dinode_at t (ino j) = dinode_at s (ino j)" if "j < length fs" for j
    using w(6) [OF i, of j] that room ino_eq [of j "length fs"] by simp
  have high: "img t b = img s b" if "nmeta \<le> unat b" for b
  proof -
    have "b \<noteq> IBLOCK ?i mkfs_sb" using IBLOCK_range [OF i [OF order_refl]] that by (auto simp: nmeta)
    then show ?thesis using w(7) by simp
  qed
  have O: "file_at t (ino j) (fs ! j)" "fblocks t (dinode_at t (ino j)) = fblocks s (dinode_at s (ino j))" if j: "j < length fs" for j
  proof -
    note f = mk_okD(5) [OF ok j]
    have "file_in s (dinode_at s (ino j)) (snd (fs ! j))" using f by (simp add: file_at_def)
    from file_in_frame [OF this, of t] high file_at_blocks(1) [OF f] w(3)
    have "fblocks t (dinode_at s (ino j)) = fblocks s (dinode_at s (ino j))" "file_in t (dinode_at s (ino j)) (snd (fs ! j))" by auto
    then show "file_at t (ino j) (fs ! j)" "fblocks t (dinode_at t (ino j)) = fblocks s (dinode_at s (ino j))"
      using f by (simp_all add: file_at_def old [OF j])
  qed
  have z: "fblocks t (dinode_at t ?i) m = 0" for m unfolding w(5) using fmap_empty by simp
  have "file_in t ?di []" using z unfolding w(5) by (auto simp: file_in_def blocks_ok_def simp del: replicate.simps)
  then have new: "file_at t ?i (ty, [])" by (simp add: file_at_def w(5) dmeta_def del: replicate.simps)
  have "file_at t (ino j) (?fs ! j)" if "j < length ?fs" for j using that new O(1) [of j] by (cases "j = length fs") (auto simp: nth_append)
  moreover have "no_shared (fblocks t (dinode_at t (ino j))) (fblocks t (dinode_at t (ino l)))" if "j < length ?fs" "l < length ?fs" "j \<noteq> l" for j l
  proof (cases "j = length fs \<or> l = length fs")
    case True
    then show ?thesis using z by (auto simp: no_shared_def)
  next
    case False
    then show ?thesis using that O(2) [of j] O(2) [of l] mk_okD(6) [OF ok, of j l] by simp
  qed
  moreover have "img t b = (if b = 1 then put_bytes 0 (encode_sb mkfs_sb) zeroes else zeroes)" if "unat b < 32 \<or> b = 45" for b
  proof -
    have "b \<noteq> IBLOCK ?i mkfs_sb" using that IBLOCK_range [OF i [OF order_refl]] by auto
    then show ?thesis using w(7) mk_okD(7) [OF ok that] by simp
  qed
  moreover have "unat (freeblock t) = nmeta + blocks_needed ?fs" using mk_okD(4) [OF ok] by (simp add: w(3) blocks_needed_def)
  moreover have "freeinode t = ino (length ?fs)" "length ?fs + 1 < max_inodes" using room ino_next by (simp_all add: w(4))
  ultimately have "mk_ok t ?fs" unfolding mk_ok_def using w(2) by blast
  then show ?thesis by (rule that [OF al])
qed

lemma blocks_needed_mono: "k < length fs \<Longrightarrow> length bs \<le> length bs' \<Longrightarrow> blocks_needed (fs[k := (ty, bs)]) \<le> blocks_needed (fs[k := (ty', bs')])"
  using blocks_needed_update [of k fs "(ty, bs)"] blocks_needed_update [of k fs "(ty', bs')"] need_mono [of "length bs" "length bs'"] by simp

lemma iappends_ok:
  assumes "mk_ok s fs" "k < length fs" "fs ! k = (ty, bs)" "length bs + length (concat ps) \<le> MAXFILE * BSIZE"
    "nmeta + blocks_needed (fs[k := (ty, bs @ concat ps)]) \<le> FSSIZE"
  shows "\<exists>t. iappends (ino k) ps s = Ok t \<and> mk_ok t (fs[k := (ty, bs @ concat ps)])"
  using assms
proof (induction ps arbitrary: s fs bs)
  case Nil
  then show ?case by (simp add: list_update_same_conv [THEN iffD2])
next
  case (Cons p ps)
  have "blocks_needed (fs[k := (ty, bs @ p)]) \<le> blocks_needed (fs[k := (ty, bs @ concat (p # ps))])" by (rule blocks_needed_mono [OF Cons.prems(2)]) simp
  then have "nmeta + blocks_needed (fs[k := (ty, bs @ p)]) \<le> FSSIZE" using Cons.prems(5) by linarith
  moreover have "length bs + length p \<le> MAXFILE * BSIZE" using Cons.prems(4) by simp
  ultimately obtain t where t: "iappend (ino k) p s = Ok t" "mk_ok t (fs[k := (ty, bs @ p)])"
    using iappend_ok [OF Cons.prems(1-3)] by blast
  have "\<exists>u. iappends (ino k) ps t = Ok u \<and> mk_ok u (fs[k := (ty, bs @ p), k := (ty, (bs @ p) @ concat ps)])"
    by (rule Cons.IH [OF t(2)]) (use Cons.prems in \<open>simp_all add: add.assoc\<close>)
  then show ?case using t(1) by simp
qed

lemma length_entry [simp]: "length (dirent_bytes i name) = 16"
  by (simp add: dirent_bytes_def encode_dirent_def)

definition file_content :: "(u8 list \<Rightarrow> u8 list list option) \<Rightarrow> u8 list \<Rightarrow> u8 list" where
  "file_content files arg = (case files arg of None \<Rightarrow> [] | Some ps \<Rightarrow> concat ps)"

text \<open>The entries of the root directory for the files, of inodes \<open>n + 1\<close>, \<open>n + 2\<close> and so on.\<close>

fun dir_entries :: "nat \<Rightarrow> u8 list list \<Rightarrow> u8 list" where
  "dir_entries n [] = []"
| "dir_entries n (arg # args) = dirent_bytes (ino n) (strip_underscore (shortname arg)) @ dir_entries (n + 1) args"

lemma length_dir_entries [simp]: "length (dir_entries n args) = 16 * length args"
  by (induction args arbitrary: n) auto

abbreviation new_files :: "(u8 list \<Rightarrow> u8 list list option) \<Rightarrow> u8 list list \<Rightarrow> (u16 \<times> u8 list) list" where
  "new_files files args \<equiv> map (\<lambda>arg. (T_FILE, file_content files arg)) args"

definition arg_ok :: "(u8 list \<Rightarrow> u8 list list option) \<Rightarrow> u8 list \<Rightarrow> bool" where
  "arg_ok files arg \<longleftrightarrow> files arg \<noteq> None \<and> 47 \<notin> set (shortname arg) \<and> length (file_content files arg) \<le> MAXFILE * BSIZE"

lemma blocks_needed_simps [simp]: "blocks_needed [] = 0" "blocks_needed (f # fs) = need (length (snd f)) + blocks_needed fs"
  by (simp_all add: blocks_needed_def)

lemma ino_0: "ino 0 = ROOTINO"
  by (simp add: ino_def)

lemma add_files_ok:
  assumes "mk_ok s ((T_DIR, rb) # gs)" "\<forall>arg \<in> set args. arg_ok files arg" "length gs + length args + 2 < max_inodes"
    "length rb + 16 * length args \<le> MAXFILE * BSIZE"
    "nmeta + need (length rb + 16 * length args) + blocks_needed gs + blocks_needed (new_files files args) \<le> FSSIZE"
  shows "\<exists>t. add_files files ROOTINO args s = Ok t \<and> mk_ok t ((T_DIR, rb @ dir_entries (length gs + 1) args) # gs @ new_files files args)"
  using assms
proof (induction args arbitrary: s rb gs)
  case Nil
  then show ?case by simp
next
  case (Cons arg args)
  let ?n = "length gs + 1" let ?e = "dirent_bytes (ino ?n) (strip_underscore (shortname arg))"
  have arg: "arg_ok files arg" using Cons.prems(2) by simp
  then obtain ps where ps: "files arg = Some ps" "file_content files arg = concat ps" by (auto simp: arg_ok_def file_content_def)
  obtain t1 where t1: "mk_ialloc T_FILE s = Ok (ino ?n, t1)" "mk_ok t1 (((T_DIR, rb) # gs) @ [(T_FILE, [])])"
    using mk_ialloc_ok [OF Cons.prems(1), of T_FILE] Cons.prems(3) by auto
  have m1: "need (length rb + 16) \<le> need (length rb + 16 * length (arg # args))" by (rule need_mono) simp
  obtain t2 where t2: "iappend ROOTINO ?e t1 = Ok t2" "mk_ok t2 ((T_DIR, rb @ ?e) # gs @ [(T_FILE, [])])"
    using iappend_ok [OF t1(2), of 0 T_DIR rb ?e] Cons.prems(4,5) m1 by (auto simp: ino_0)
  have "\<exists>t3. iappends (ino ?n) ps t2 = Ok t3 \<and> mk_ok t3 (((T_DIR, rb @ ?e) # gs @ [(T_FILE, [])])[?n := (T_FILE, [] @ concat ps)])"
    by (rule iappends_ok [OF t2(2)]) (use Cons.prems(4,5) m1 ps(2) arg in \<open>auto simp: nth_append arg_ok_def\<close>)
  then obtain t3 where t3: "iappends (ino ?n) ps t2 = Ok t3" "mk_ok t3 ((T_DIR, rb @ ?e) # gs @ [(T_FILE, concat ps)])" by auto
  have "\<exists>t. add_files files ROOTINO args t3 = Ok t \<and>
    mk_ok t ((T_DIR, (rb @ ?e) @ dir_entries (length (gs @ [(T_FILE, concat ps)]) + 1) args) # (gs @ [(T_FILE, concat ps)]) @ new_files files args)"
    by (rule Cons.IH [OF t3(2)]) (use Cons.prems ps(2) in \<open>simp_all add: add.assoc add.commute\<close>)
  then show ?case using arg ps t1(1) t2(1) t3(1) by (auto simp: arg_ok_def)
qed

section \<open>The whole image\<close>

lemma decode_encode_sb: "decode_sb (put_bytes 0 (encode_sb sp) zeroes) = sp"
proof -
  have l: "length (encode_sb sp) = 32" by (simp add: encode_sb_def)
  have "get32 off (put_bytes 0 (encode_sb sp) zeroes) = le_decode (take 4 (drop off (encode_sb sp)))" if "off + 4 \<le> 32" for off
    using get_put_bytes_within [of 0 "encode_sb sp" zeroes off 4] that l by (simp add: get32_def get_bytes_def)
  then show ?thesis by (cases sp) (simp add: decode_sb_def encode_sb_def)
qed

lemma set_bitmap_fold:
  assumes "n \<le> BPB"
  shows "length (fold set_bitmap [0..<n] zeroes) = BSIZE \<and>
    (\<forall>j < BPB. bit (fold set_bitmap [0..<n] zeroes ! (j div 8)) (j mod 8) \<longleftrightarrow> j < n)"
  using assms
proof (induction n)
  case 0
  have "j div 8 < BSIZE" if "j < BPB" for j :: nat using that by (simp add: less_mult_imp_div_less)
  then show ?case by simp
next
  case (Suc n)
  then have l: "length (fold set_bitmap [0..<n] zeroes) = BSIZE"
    and b: "\<And>j. j < BPB \<Longrightarrow> bit (fold set_bitmap [0..<n] zeroes ! (j div 8)) (j mod 8) \<longleftrightarrow> j < n" by simp_all
  have "length (set_bitmap n (fold set_bitmap [0..<n] zeroes)) = BSIZE" using l by (simp add: set_bitmap_def)
  moreover have "bit (set_bitmap n (fold set_bitmap [0..<n] zeroes) ! (j div 8)) (j mod 8) \<longleftrightarrow> j < Suc n" if "j < BPB" for j
    using bit_set_bitmap(1) [OF l _ that, of n] b [OF that] Suc.prems by auto
  ultimately show ?case by simp
qed

lemma init_fold:
  assumes "n \<le> FSSIZE"
  shows "fold (\<lambda>i. wsect (of_nat i) zeroes) [0..<n] \<lparr>img = \<lambda>_. zeroes, nsect = 0, freeinode = i, freeblock = f\<rparr> =
    \<lparr>img = \<lambda>_. zeroes, nsect = n, freeinode = i, freeblock = f\<rparr>"
  using assms by (induction n) (simp_all add: wsect_def fun_upd_idem unat_of_nat_u32)

lemma init_ok:
  "mk_ok (wsect 1 (put_bytes 0 (encode_sb mkfs_sb) zeroes)
     \<lparr>img = \<lambda>_. zeroes, nsect = FSSIZE, freeinode = 1, freeblock = of_nat nmeta\<rparr>) []"
proof -
  have "length (encode_sb mkfs_sb) = 32" by (simp add: encode_sb_def)
  then have "length (put_bytes 0 (encode_sb mkfs_sb) zeroes) = BSIZE" by simp
  then show ?thesis by (auto simp: mk_ok_def image_ok_def wsect_def nmeta ino_def)
qed

text \<open>
  What the kernel finds on a disk: inode \<open>i\<close> is a file of the type and the size given, of which the first bytes are \<open>bs\<close>,
  in blocks of the data area that the bitmap marks as used.
\<close>

definition image_file :: "(u32 \<Rightarrow> block) \<Rightarrow> u32 \<Rightarrow> u16 \<Rightarrow> nat \<Rightarrow> u8 list \<Rightarrow> bool" where
  "image_file c i ty sz bs \<longleftrightarrow>
     (let di = get_dinode (islot i) (c (IBLOCK i mkfs_sb)); F = fmap c (d_addrs di)
      in dmeta di = (ty, 0, 0, 1, of_nat sz) \<and> fmap_ok c mkfs_sb F \<and>
         (\<forall>p < length bs. F (p div BSIZE) \<noteq> 0 \<and> fbyte c F p = bs ! p))"

definition root_size :: "nat \<Rightarrow> nat" where
  "root_size n = (n div BSIZE + 1) * BSIZE"

lemma fix_root_ok:
  assumes ok: "mk_ok s fs" and fs: "fs \<noteq> []" "fs ! 0 = (ty, rb)"
  obtains t where "fix_root ROOTINO s = Ok t" "image_ok t" "freeblock t = freeblock s"
    "dinode_at t (ino 0) = (dinode_at s (ino 0))\<lparr>d_size := of_nat (root_size (length rb))\<rparr>"
    "\<And>k. 0 < k \<Longrightarrow> k < length fs \<Longrightarrow> dinode_at t (ino k) = dinode_at s (ino k)"
    "\<And>b. unat b < 32 \<or> 45 \<le> unat b \<Longrightarrow> img t b = img s b"
proof -
  note im = mk_okD(1) [OF ok]
  have i: "unat (ino k) < max_inodes" if "k < length fs" for k using that mk_okD(2) [OF ok] unat_ino [of k] by simp
  have z: "0 < length fs" using fs(1) by simp
  have f: "file_at s (ino 0) (ty, rb)" using mk_okD(5) [OF ok z] fs(2) by simp
  then have sz: "d_size (dinode_at s (ino 0)) = of_nat (length rb)" "length rb \<le> MAXFILE * BSIZE"
    by (simp_all add: file_at_def dmeta_def file_in_def)
  then have "unat (of_nat (length rb) :: u32) = length rb" by (intro unat_of_nat_u32) simp
  then have off: "(d_size (dinode_at s (ino 0)) div 1024 + 1) * 1024 = of_nat (root_size (length rb))"
    unfolding sz(1) unat_div_1024 by (simp add: root_size_def)
  have "length (d_addrs ((dinode_at s (ino 0))\<lparr>d_size := of_nat (root_size (length rb))\<rparr>)) = NDIRECT + 1" by simp
  from winode_ok [OF im i [OF z] this] obtain t where w1: "winode (ino 0) ((dinode_at s (ino 0))\<lparr>d_size := of_nat (root_size (length rb))\<rparr>) s = Ok t"
    and wi: "wrote_inode (ino 0) ((dinode_at s (ino 0))\<lparr>d_size := of_nat (root_size (length rb))\<rparr>) s t" .
  note w = w1 wrote_inodeD [OF wi]
  have fx: "fix_root ROOTINO s = Ok t"
    unfolding fix_root_def rinode_ok [OF im i [OF z], unfolded ino_0] andthen.simps Let_def xint off [unfolded ino_0] by (rule w(1) [unfolded ino_0])
  have old: "dinode_at t (ino k) = dinode_at s (ino k)" if "0 < k" "k < length fs" for k
    using w(6) [OF i [OF that(2)]] ino_eq [of k 0] that mk_okD(2) [OF ok] by simp
  have im': "img t b = img s b" if "unat b < 32 \<or> 45 \<le> unat b" for b
    by (rule w(7)) (use IBLOCK_range [OF i [OF z]] that in auto)
  show ?thesis by (rule that [OF fx w(2,3,5) old im'])
qed

lemma used_bitmap:
  assumes "c 45 = fold set_bitmap [0..<n] zeroes" "n \<le> FSSIZE" "b < FSSIZE"
  shows "used c mkfs_sb b \<longleftrightarrow> b < n"
proof -
  have "unat (of_nat b div 8192 :: u32) = 0" using assms(3) by (simp add: unat_div_distrib unat_of_nat_u32)
  then have "BBLOCK (of_nat b) mkfs_sb = 45" by (simp add: BBLOCK_def unat_eq_0)
  then show ?thesis using set_bitmap_fold [of n] assms by (simp add: used_def)
qed

text \<open>The steps at the end of \<open>main\<close> turn the files of the invariant into files the kernel finds.\<close>

lemma file_in_image:
  assumes f: "file_in s di bs" and im: "unat (freeblock s) \<le> FSSIZE" "nmeta \<le> unat (freeblock s)"
    and u: "\<And>b. nmeta \<le> unat b \<Longrightarrow> img u b = img s b" "freeblock u = freeblock s"
    and bm: "img u 45 = fold set_bitmap [0..<unat (freeblock s)] zeroes"
  shows "fblocks u di = fblocks s di" "fmap_ok (img u) mkfs_sb (fblocks u di)"
    "p < length bs \<Longrightarrow> fblocks u di (p div BSIZE) \<noteq> 0 \<and> fbyte (img u) (fblocks u di) p = bs ! p"
proof -
  have bo: "blocks_ok s di" using f by (simp add: file_in_def)
  have same: "img u (fblocks s di k) = img s (fblocks s di k)" if "k \<le> MAXFILE" "fblocks s di k \<noteq> 0" for k
    by (rule u(1)) (use bo that in \<open>simp add: blocks_ok_def\<close>)
  note fr = file_in_frame [OF f same eq_imp_le [OF arg_cong [OF u(2) [symmetric]]]]
  show F: "fblocks u di = fblocks s di" by (rule fr(1))
  have data: "datablk (img u) mkfs_sb (fblocks s di k)" if "k \<le> MAXFILE" "fblocks s di k \<noteq> 0" for k
  proof -
    have r: "nmeta \<le> unat (fblocks s di k)" "unat (fblocks s di k) < unat (freeblock s)" using bo that by (simp_all add: blocks_ok_def)
    then show ?thesis using used_bitmap [where c = "img u", OF bm im(1), of "unat (fblocks s di k)"] im by (simp add: datablk_def nmeta)
  qed
  have inj: "\<forall>j \<le> MAXFILE. \<forall>k \<le> MAXFILE. fblocks s di j = fblocks s di k \<and> fblocks s di j \<noteq> 0 \<longrightarrow> j = k"
    using bo unfolding blocks_ok_def by (elim conjE)
  show "fmap_ok (img u) mkfs_sb (fblocks u di)"
    unfolding F fmap_ok_def by (intro conjI inj allI impI) (erule (1) data)
  assume p: "p < length bs"
  have "p div BSIZE < MAXFILE" "p div BSIZE * BSIZE < length bs"
    using f p by (auto simp: file_in_def less_mult_imp_div_less intro: le_less_trans [OF div_times_less_eq_dividend])
  then show "fblocks u di (p div BSIZE) \<noteq> 0 \<and> fbyte (img u) (fblocks u di) p = bs ! p" using fr(2) p by (simp add: file_in_def)
qed

definition fits :: "(u8 list \<Rightarrow> u8 list list option) \<Rightarrow> u8 list list \<Rightarrow> bool" where
  "fits files args \<longleftrightarrow>
     (\<forall>arg \<in> set args. arg_ok files arg) \<and> length args + 1 < NINODES \<and>
     nmeta + need (32 + 16 * length args) + blocks_needed (new_files files args) \<le> FSSIZE"

definition root_bytes :: "u8 list list \<Rightarrow> u8 list" where
  "root_bytes args = dirent_bytes ROOTINO [46] @ dirent_bytes ROOTINO [46, 46] @ dir_entries 1 args"

lemma length_root_bytes [simp]: "length (root_bytes args) = 32 + 16 * length args"
  by (simp add: root_bytes_def)

lemma mkfs_files_ok:
  assumes "fits files args"
  obtains s where "mk_ok s ((T_DIR, root_bytes args) # new_files files args)"
    "mkfs_main files args = andthen (fix_root ROOTINO s) (\<lambda>s. mk_balloc (freeblock s) s)"
proof -
  let ?s0 = "wsect 1 (put_bytes 0 (encode_sb mkfs_sb) zeroes) \<lparr>img = \<lambda>_. zeroes, nsect = FSSIZE, freeinode = 1, freeblock = of_nat nmeta\<rparr>"
  let ?d = "dirent_bytes ROOTINO [46]" and ?dd = "dirent_bytes ROOTINO [46, 46]"
  obtain s1 where s1: "mk_ialloc T_DIR ?s0 = Ok (ROOTINO, s1)" "mk_ok s1 [(T_DIR, [])]"
    using mk_ialloc_ok [OF init_ok, of T_DIR] by (auto simp: ino_0)
  have n: "need 16 \<le> 1" "need 32 \<le> 1" by (simp_all add: need_def)
  obtain s2 where s2: "iappend ROOTINO ?d s1 = Ok s2" "mk_ok s2 [(T_DIR, ?d)]"
    using iappend_ok [OF s1(2), of 0 T_DIR "[]" ?d] n by (auto simp: ino_0 nmeta)
  obtain s3 where s3: "iappend ROOTINO ?dd s2 = Ok s3" "mk_ok s3 [(T_DIR, ?d @ ?dd)]"
    using iappend_ok [OF s2(2), of 0 T_DIR ?d ?dd] n by (auto simp: ino_0 nmeta)
  have "\<exists>s4. add_files files ROOTINO args s3 = Ok s4 \<and>
    mk_ok s4 ((T_DIR, (?d @ ?dd) @ dir_entries (length ([] :: (u16 \<times> u8 list) list) + 1) args) # [] @ new_files files args)"
    by (rule add_files_ok [OF s3(2)]) (use assms in \<open>auto simp: fits_def\<close>)
  then obtain s4 where s4: "add_files files ROOTINO args s3 = Ok s4" "mk_ok s4 ((T_DIR, root_bytes args) # new_files files args)"
    by (auto simp: root_bytes_def)
  have "mkfs_main files args = andthen (fix_root ROOTINO s4) (\<lambda>s. mk_balloc (freeblock s) s)"
    unfolding mkfs_main_def Let_def init_fold [OF order_refl] s1(1) using s2(1) s3(1) s4(1) by simp
  then show ?thesis by (rule that [OF s4(2)])
qed

abbreviation iblocks :: "(u32 \<Rightarrow> block) \<Rightarrow> u32 \<Rightarrow> nat \<Rightarrow> u32" where
  "iblocks c i \<equiv> fmap c (d_addrs (get_dinode (islot i) (c (IBLOCK i mkfs_sb))))"

text \<open>
  The disk of a file system with the root directory \<open>rb\<close> and the files \<open>gs\<close> in the inodes behind it: the super block says
  where its parts are, the log is empty, the bitmap marks the blocks in front of the data and as many as the files
  need, the files are there, and no two of them share a block.
\<close>

definition mkfs_image :: "(u32 \<Rightarrow> block) \<Rightarrow> u8 list \<Rightarrow> (u16 \<times> u8 list) list \<Rightarrow> bool" where
  "mkfs_image c rb gs \<longleftrightarrow>
     (\<forall>b. length (c b) = BSIZE) \<and> decode_sb (c 1) = mkfs_sb \<and> c (sb_logstart mkfs_sb) = zeroes \<and> bitmap_ok c mkfs_sb \<and>
     (\<forall>b < FSSIZE. used c mkfs_sb b \<longleftrightarrow> b < nmeta + need (length rb) + blocks_needed gs) \<and>
     image_file c ROOTINO T_DIR (root_size (length rb)) rb \<and>
     (\<forall>k < length gs. image_file c (ino (k + 1)) (fst (gs ! k)) (length (snd (gs ! k))) (snd (gs ! k))) \<and>
     (\<forall>j \<le> length gs. \<forall>k \<le> length gs. j \<noteq> k \<longrightarrow> no_shared (iblocks c (ino j)) (iblocks c (ino k)))"

lemma mkfs_finish:
  assumes ok: "mk_ok s ((T_DIR, rb) # gs)"
  shows "\<exists>u. andthen (fix_root ROOTINO s) (\<lambda>s. mk_balloc (freeblock s) s) = Ok u \<and> mkfs_image (img u) rb gs"
proof -
  let ?fs = "(T_DIR, rb) # gs"
  note im = mk_okD(1) [OF ok]
  have fb: "unat (freeblock s) \<le> FSSIZE" "nmeta \<le> unat (freeblock s)" using im by (simp_all add: image_ok_def)
  obtain t where t: "fix_root ROOTINO s = Ok t" "image_ok t" "freeblock t = freeblock s"
    "dinode_at t (ino 0) = (dinode_at s (ino 0))\<lparr>d_size := of_nat (root_size (length rb))\<rparr>"
    "\<And>k. 0 < k \<Longrightarrow> k < length ?fs \<Longrightarrow> dinode_at t (ino k) = dinode_at s (ino k)"
    "\<And>b. unat b < 32 \<or> 45 \<le> unat b \<Longrightarrow> img t b = img s b"
    by (rule fix_root_ok [OF ok, of T_DIR rb]) simp_all
  let ?bm = "fold set_bitmap [0..<unat (freeblock s)] zeroes"
  define u where "u = wsect 45 ?bm t"
  have iu: "img u = (img t)(45 := ?bm)" "freeblock u = freeblock s" by (simp_all add: u_def wsect_def t(3))
  have r: "andthen (fix_root ROOTINO s) (\<lambda>s. mk_balloc (freeblock s) s) = Ok u" using fb(1) by (simp add: t(1,3) mk_balloc_def u_def)
  have bm: "img u 45 = ?bm" by (simp add: iu)
  have len: "length (img u b) = BSIZE" for b using t(2) set_bitmap_fold [of "unat (freeblock s)"] fb by (simp add: iu image_ok_def)
  have low: "img u b = img s b" if "unat b < 32" for b using t(6) that by (auto simp: iu)
  have high: "img u b = img s b" if "nmeta \<le> unat b" for b using t(6) [of b] that by (auto simp: iu nmeta)
  have i: "unat (ino k) < max_inodes" if "k \<le> length gs" for k using that mk_okD(2) [OF ok] unat_ino [of k] by simp
  have ad: "d_addrs (dinode_at u (ino k)) = d_addrs (dinode_at s (ino k))" and me: "0 < k \<Longrightarrow> dmeta (dinode_at u (ino k)) = dmeta (dinode_at s (ino k))"
    if "k \<le> length gs" for k
  proof -
    have "IBLOCK (ino k) mkfs_sb \<noteq> 45" using IBLOCK_range [OF i [OF that]] by auto
    then have e: "dinode_at u (ino k) = dinode_at t (ino k)" by (simp add: iu)
    have p: "0 < k \<Longrightarrow> dinode_at t (ino k) = dinode_at s (ino k)" using t(5) [of k] that by simp
    show "d_addrs (dinode_at u (ino k)) = d_addrs (dinode_at s (ino k))" unfolding e using p arg_cong [OF t(4), of d_addrs] by (cases "k = 0") simp_all
    show "0 < k \<Longrightarrow> dmeta (dinode_at u (ino k)) = dmeta (dinode_at s (ino k))" unfolding e using p by simp
  qed
  have me0: "dmeta (dinode_at u (ino 0)) = (T_DIR, 0, 0, 1, of_nat (root_size (length rb)))"
  proof -
    have "IBLOCK (ino 0) mkfs_sb \<noteq> 45" using IBLOCK_range [OF i [of 0]] by auto
    then show ?thesis using mk_okD(5) [OF ok, of 0] t(4) by (simp add: iu file_at_def dmeta_def)
  qed
  have f: "fblocks u (dinode_at u (ino k)) = fblocks s (dinode_at s (ino k))" "fmap_ok (img u) mkfs_sb (fblocks u (dinode_at u (ino k)))"
    "\<forall>p < length (snd (?fs ! k)). fblocks u (dinode_at u (ino k)) (p div BSIZE) \<noteq> 0 \<and> fbyte (img u) (fblocks u (dinode_at u (ino k))) p = snd (?fs ! k) ! p"
    if "k \<le> length gs" for k
  proof -
    have "file_in s (dinode_at s (ino k)) (snd (?fs ! k))" using mk_okD(5) [OF ok, of k] that by (simp add: file_at_def)
    note F = file_in_image [OF this fb high iu(2) bm]
    show "fblocks u (dinode_at u (ino k)) = fblocks s (dinode_at s (ino k))" "fmap_ok (img u) mkfs_sb (fblocks u (dinode_at u (ino k)))"
      "\<forall>p < length (snd (?fs ! k)). fblocks u (dinode_at u (ino k)) (p div BSIZE) \<noteq> 0 \<and> fbyte (img u) (fblocks u (dinode_at u (ino k))) p = snd (?fs ! k) ! p"
      unfolding ad [OF that] using F by blast+
  qed
  have used: "used (img u) mkfs_sb b \<longleftrightarrow> b < nmeta + need (length rb) + blocks_needed gs" if "b < FSSIZE" for b
    using used_bitmap [where c = "img u", OF bm fb(1) that] mk_okD(4) [OF ok] by (simp add: add.assoc)
  have bo: "bitmap_ok (img u) mkfs_sb" using used by (simp add: bitmap_ok_def nmeta)
  have ro: "image_file (img u) ROOTINO T_DIR (root_size (length rb)) rb"
    using f(2,3) [of 0] me0 unfolding ino_0 by (simp add: image_file_def Let_def)
  have fi: "image_file (img u) (ino (k + 1)) (fst (gs ! k)) (length (snd (gs ! k))) (snd (gs ! k))" if "k < length gs" for k
    using f(2,3) [of "k + 1"] me [of "k + 1"] mk_okD(5) [OF ok, of "k + 1"] that by (simp add: image_file_def Let_def file_at_def)
  have ns: "no_shared (iblocks (img u) (ino j)) (iblocks (img u) (ino k))" if "j \<le> length gs" "k \<le> length gs" "j \<noteq> k" for j k
    using f(1) [OF that(1)] f(1) [OF that(2)] mk_okD(6) [OF ok, of j k] that by simp
  have sb: "decode_sb (img u 1) = mkfs_sb" "img u (sb_logstart mkfs_sb) = zeroes"
    using low [of 1] low [of 2] mk_okD(7) [OF ok, of 1] mk_okD(7) [OF ok, of 2] decode_encode_sb by simp_all
  have "mkfs_image (img u) rb gs"
    unfolding mkfs_image_def
    by (intro conjI allI impI) (rule len, rule sb(1), rule sb(2), rule bo, erule used, rule ro, erule fi, erule (2) ns)
  then show ?thesis using r by blast
qed

lemma mkfs_image_ok:
  assumes "fits files args"
  shows "\<exists>s. mkfs_main files args = Ok s \<and> mkfs_image (img s) (root_bytes args) (new_files files args)"
proof -
  obtain s where s: "mk_ok s ((T_DIR, root_bytes args) # new_files files args)"
    "mkfs_main files args = andthen (fix_root ROOTINO s) (\<lambda>s. mk_balloc (freeblock s) s)"
    by (rule mkfs_files_ok [OF assms])
  show ?thesis unfolding s(2) by (rule mkfs_finish [OF s(1)])
qed

text \<open>
  C6. \<open>mkfs\<close> builds the file system it is asked for. When the files exist, fit and are at most 198, \<open>main\<close> ends without an
  error, and in the image the kernel finds the super block it expects, an empty log, a bitmap that marks exactly as many
  blocks as the files need, a root directory with the entries of the files, and every file with its bytes, in
  blocks of its own.
\<close>

theorem mkfs_builds_image:
  assumes "fits files args"
  shows "\<exists>s. mkfs_main files args = Ok s \<and> mkfs_image (img s) (root_bytes args) (new_files files args)"
  by (rule mkfs_image_ok [OF assms])

lemma demo_fits: "fits (\<lambda>_. Some [[104], [105]]) [[95, 97]]"
  by (simp add: fits_def arg_ok_def file_content_def shortname_def need_def nmeta)

theorem mkfs_builds_image_witness:
  "fits (\<lambda>_. Some [[104], [105]]) [[95, 97]] \<and>
   (\<exists>s. mkfs_main (\<lambda>_. Some [[104], [105]]) [[95, 97]] = Ok s \<and> image_file (img s) 2 T_FILE 2 [104, 105] \<and>
      bitmap_ok (img s) mkfs_sb)"
proof -
  have i: "ino (Suc 0) = 2" by (simp add: ino_def)
  show ?thesis using demo_fits mkfs_builds_image [OF demo_fits] by (auto simp: mkfs_image_def file_content_def i numeral_2_eq_2)
qed

text \<open>
  C5. The kernel reads the files that \<open>mkfs\<close> wrote: in a kernel that is in a transaction on the disk \<open>mkfs\<close> has built, with
  the inode of one of the files in its inode cache, \<open>readi\<close> returns the bytes the file had on the host.
\<close>

theorem kernel_reads_mkfs_file:
  fixes s :: "'a fsst_scheme" and dev :: u32
  assumes fits: "fits files args" and m: "mkfs_main files args = Ok m" and k: "k < length args"
    and s: "in_tx dev {} s" "content dev s = img m" "sb s = mkfs_sb" "nlogged s + 1 < NBUF"
    and i: "i < length (icache s)" "i_dev (icache s ! i) = dev" "i_addrs (icache s ! i) = d_addrs (dinode_at m (ino (k + 1)))"
      "i_size (icache s ! i) = d_size (dinode_at m (ino (k + 1)))"
  shows "\<exists>t. readi i (Var ys) 0 (of_nat (length (file_content files (args ! k)))) s =
    Ok (of_nat (length (file_content files (args ! k))), file_content files (args ! k), t)"
proof -
  let ?bs = "file_content files (args ! k)" and ?F = "fmap (img m) (d_addrs (dinode_at m (ino (k + 1))))"
  have im: "mkfs_image (img m) (root_bytes args) (new_files files args)" using mkfs_image_ok [OF fits] m by auto
  then have f: "image_file (img m) (ino (k + 1)) T_FILE (length ?bs) ?bs" and bo: "bitmap_ok (img m) mkfs_sb"
    using k by (auto simp: mkfs_image_def)
  have le: "length ?bs \<le> MAXFILE * BSIZE" using fits k by (simp add: fits_def arg_ok_def)
  have sz: "unat (i_size (icache s ! i)) = length ?bs" using f le i(4) by (auto simp: image_file_def Let_def dmeta_def unat_of_nat_u32)
  have F: "fmap_ok (img m) mkfs_sb ?F" "\<forall>p < length ?bs. ?F (p div BSIZE) \<noteq> 0 \<and> fbyte (img m) ?F p = ?bs ! p"
    using f by (simp_all add: image_file_def Let_def)
  have tx: "file_tx dev {} i s" using s i bo F(1) by (simp add: file_tx_def held_ok_def)
  have cov: "covered dev i s" using F(2) le by (simp add: covered_def sz s(2) i(3))
  have n: "unat (of_nat (length ?bs) :: u32) = length ?bs" using le by (intro unat_of_nat_u32) simp
  obtain t where "readi i (Var ys) 0 (of_nat (length ?bs)) s =
      Ok (of_nat (length ?bs), map (fbyte (img m) ?F) [0..<length ?bs], t)"
    using readi_reads [OF tx cov, of 0 "of_nat (length ?bs)" ys] s(2,4) i(3) n sz le by auto
  moreover have "map (fbyte (img m) ?F) [0..<length ?bs] = ?bs" using F(2) by (intro nth_equalityI) simp_all
  ultimately show ?thesis by auto
qed

lemma demo_sb_mkfs: "demo_sb = mkfs_sb"
  by (simp add: demo_sb_def mkfs_sb_def nblocks_def nmeta nlog_def ninodeblocks_def)

theorem kernel_reads_mkfs_file_witness:
  "\<exists>m s t. mkfs_main (\<lambda>_. Some [[104], [105]]) [[95, 97]] = Ok m \<and> in_tx 1 {} (s :: fsst) \<and> content 1 s = img m \<and>
     readi 0 (Var []) 0 2 s = Ok (2, [104, 105], t)"
proof -
  obtain m where m: "mkfs_main (\<lambda>_. Some [[104], [105]]) [[95, 97]] = Ok m"
    "mkfs_image (img m) (root_bytes [[95, 97]]) (new_files (\<lambda>_. Some [[104], [105]]) [[95, 97]])"
    using mkfs_image_ok [OF demo_fits] by blast
  have len: "length (img m b) = BSIZE" for b using m(2) unfolding mkfs_image_def by blast
  let ?di = "dinode_at m (ino (0 + 1))"
  obtain ip :: inode where ip: "i_dev ip = 1" "i_addrs ip = d_addrs ?di" "i_size ip = d_size ?di"
    by (rule that [of "demo_inode\<lparr>i_addrs := d_addrs ?di, i_size := d_size ?di\<rparr>"]) (simp_all add: demo_inode_def)
  let ?s = "demo_fs (img m) [ip]"
  note d = demo_fs_tx [where d = "img m" and ic = "[ip]", OF len]
  have c: "file_content (\<lambda>_. Some [[104], [105]]) ([[95, 97]] ! 0) = [104, 105]" by (simp add: file_content_def)
  have "\<exists>t. readi 0 (Var []) 0 (of_nat (length (file_content (\<lambda>_. Some [[104], [105]]) ([[95, 97]] ! 0)))) ?s =
    Ok (of_nat (length (file_content (\<lambda>_. Some [[104], [105]]) ([[95, 97]] ! 0))), file_content (\<lambda>_. Some [[104], [105]]) ([[95, 97]] ! 0), t)"
    by (rule kernel_reads_mkfs_file [OF demo_fits m(1), of 0 1 ?s 0 "[]"]) (simp_all add: d demo_sb_mkfs ip)
  then show ?thesis unfolding c using m(1) d(1,2) by auto
qed

end
