(* ===== verification/Sh.thy ===== *)
theory Sh
  imports Prelude
begin

text \<open>
  The shell's command parser (user/sh.c). A pointer into the command line is the list of bytes from it to the
  end \<open>es\<close> of the line, so \<open>s < es\<close> is a nonempty list, and the byte at \<open>es\<close> is the terminating zero. A word is
  the pair \<open>(q, eq)\<close> of the pointers around it. The recursive functions of the parser have fuel; the fuel
  that \<open>parsecmd\<close> gives them is proved sufficient. \<open>panic\<close> prints its message and exits, the result \<open>Panic\<close>.
\<close>

section \<open>Commands\<close>

type_synonym ptr = "u8 list"

text \<open>A command over words of type \<open>'w\<close>: the parser builds it over pairs of pointers, and its text is over byte lists.\<close>

datatype 'w cmd =
    EXEC "'w list"
  | REDIR "'w cmd" 'w int int
  | PIPE "'w cmd" "'w cmd"
  | LIST "'w cmd" "'w cmd"
  | BACK "'w cmd"

type_synonym pcmd = "(ptr \<times> ptr) cmd"

abbreviation (input) MAXARGS :: nat where "MAXARGS \<equiv> 10"
abbreviation (input) o_wronly :: int where "o_wronly \<equiv> 1"
abbreviation (input) o_create :: int where "o_create \<equiv> 0x200"
abbreviation (input) o_trunc :: int where "o_trunc \<equiv> 0x400"

text \<open>While \<open>parseexec\<close> runs, its \<open>ret\<close> is the \<open>EXEC\<close> node it fills, below the redirections met so far.\<close>

fun add_arg :: "'w cmd \<Rightarrow> 'w \<Rightarrow> 'w cmd" where
  "add_arg (EXEC argv) a = EXEC (argv @ [a])"
| "add_arg (REDIR c w mode fd) a = REDIR (add_arg c a) w mode fd"
| "add_arg c a = c"

section \<open>Tokens\<close>

definition whitespace :: "u8 list" where
  "whitespace = [32, 9, 13, 10, 11]"

definition symbols :: "u8 list" where
  "symbols = [60, 124, 62, 38, 59, 40, 41]"

definition skip_ws :: "ptr \<Rightarrow> ptr" where
  "skip_ws s = dropWhile (\<lambda>c. c \<in> set whitespace) s"

definition wordchar :: "u8 \<Rightarrow> bool" where
  "wordchar c \<longleftrightarrow> c \<notin> set whitespace \<and> c \<notin> set symbols"

text \<open>The token, the pointers \<open>q\<close> and \<open>eq\<close> around it, and the pointer behind it.\<close>

definition gettoken :: "ptr \<Rightarrow> u8 \<times> ptr \<times> ptr \<times> ptr" where
  "gettoken ps =
     (let s = skip_ws ps
      in case s of
           [] \<Rightarrow> (0, s, s, s)
         | c # r \<Rightarrow>
             if c = 0 then (0, s, s, skip_ws s)
             else if c \<in> {124, 40, 41, 59, 38, 60} then (c, s, r, skip_ws r)
             else if c = 62 then
               (case r of
                  d # r' \<Rightarrow> if d = 62 then (43, s, r', skip_ws r') else (62, s, r, skip_ws r)
                | [] \<Rightarrow> (62, s, r, skip_ws r))
             else let e = dropWhile wordchar s in (97, s, e, skip_ws e))"

definition peek :: "ptr \<Rightarrow> u8 list \<Rightarrow> ptr \<times> bool" where
  "peek ps toks = (let s = skip_ws ps in (s, case s of [] \<Rightarrow> False | c # _ \<Rightarrow> c \<noteq> 0 \<and> c \<in> set toks))"

lemma skip_ws_length: "length (skip_ws s) \<le> length s"
  by (simp add: skip_ws_def length_dropWhile_le)

lemma skip_ws_idem [simp]: "skip_ws (skip_ws s) = skip_ws s"
  by (simp add: skip_ws_def)

lemma peek_True:
  assumes "peek ps toks = (s, True)"
  obtains c r where "s = c # r" "c \<in> set toks" "c \<noteq> 0" "s = skip_ws ps"
  using assms by (auto simp: peek_def Let_def split: list.splits)

lemma skip_ws_Nil [simp]: "skip_ws [] = []"
  by (simp add: skip_ws_def)

lemma skip_ws_hd: "skip_ws ps = c # r \<Longrightarrow> c \<notin> set whitespace"
  by (metis hd_dropWhile list.distinct(1) list.sel(1) skip_ws_def)

text \<open>The three kinds of token: the end of the line, an operator, a word.\<close>

lemma gettoken_cases:
  assumes "gettoken ps = (t, q, e, s)"
  obtains (End) "t = 0" "q = skip_ws ps" "q = [] \<or> hd q = 0" "e = q" "s = skip_ws e"
  | (Op) "t \<in> {124, 40, 41, 59, 38, 60, 62}" "q = skip_ws ps" "q = t # e" "s = skip_ws e"
  | (Append) "t = 43" "q = skip_ws ps" "q = 62 # 62 # e" "s = skip_ws e"
  | (Word) c r where "t = 97" "q = skip_ws ps" "q = c # r" "wordchar c" "c \<noteq> 0" "e = dropWhile wordchar r" "s = skip_ws e"
proof (cases "skip_ws ps")
  case Nil
  then show ?thesis using assms that(1) by (auto simp: gettoken_def Let_def)
next
  case (Cons c r)
  note simps = gettoken_def Let_def Cons
  consider "c = 0" | "c \<in> {124, 40, 41, 59, 38, 60}" | "c = 62" "r \<noteq> [] \<and> hd r = 62" | "c = 62" "\<not> (r \<noteq> [] \<and> hd r = 62)"
    | "c \<notin> {0, 124, 40, 41, 59, 38, 60, 62}" by blast
  then show ?thesis
  proof cases
    case 1
    then have "t = 0 \<and> q = 0 # r \<and> e = q \<and> s = skip_ws e" using assms by (auto simp: simps)
    then show ?thesis using Cons 1 by (intro that(1)) simp_all
  next
    case 2
    then have "t = c \<and> q = c # r \<and> e = r \<and> s = skip_ws r" using assms by (auto simp: simps)
    then show ?thesis using Cons 2 by (intro that(2)) auto
  next
    case 3
    then obtain r' where "r = 62 # r'" by (cases r) auto
    then have "t = 43 \<and> q = 62 # r \<and> r = 62 # e \<and> s = skip_ws e" using assms 3 by (auto simp: simps)
    then show ?thesis using Cons 3 by (intro that(3)) simp_all
  next
    case 4
    then have "t = 62 \<and> q = 62 # r \<and> e = r \<and> s = skip_ws r" using assms by (cases r) (auto simp: simps)
    then show ?thesis using Cons 4 by (intro that(2)) simp_all
  next
    case 5
    then have w: "wordchar c" using skip_ws_hd [OF Cons] by (auto simp: wordchar_def symbols_def)
    then have "t = 97 \<and> q = c # r \<and> e = dropWhile wordchar r \<and> s = skip_ws e" using assms 5 by (auto simp: simps)
    then show ?thesis using Cons 5 w by (intro that(4) [of c r]) simp_all
  qed
qed

lemma gettoken_length:
  assumes "gettoken ps = (t, q, e, s)"
  shows "length s \<le> length ps" "t \<noteq> 0 \<Longrightarrow> length s < length ps"
proof -
  have k: "length (skip_ws ps) \<le> length ps" by (rule skip_ws_length)
  have e: "length (skip_ws (dropWhile wordchar r)) \<le> length r" for r
    using skip_ws_length [of "dropWhile wordchar r"] length_dropWhile_le [of wordchar r] by linarith
  have "length s \<le> length ps \<and> (t \<noteq> 0 \<longrightarrow> length s < length ps)"
    using assms
  proof (cases rule: gettoken_cases)
    case End
    then show ?thesis using k by simp
  next
    case Op
    from Op(3) have "length q = Suc (length e)" by (rule ssubst) simp
    then show ?thesis using Op(2,4) k skip_ws_length [of e] by simp
  next
    case Append
    from Append(3) have "length q = Suc (Suc (length e))" by (rule ssubst) simp
    then show ?thesis using Append(2,4) k skip_ws_length [of e] by simp
  next
    case (Word c r)
    from Word(3) have "length q = Suc (length r)" by (rule ssubst) simp
    then show ?thesis using Word(2,6,7) k e [of r] by simp
  qed
  then show "length s \<le> length ps" "t \<noteq> 0 \<Longrightarrow> length s < length ps" by auto
qed

lemma peek_length: "peek ps toks = (s, b) \<Longrightarrow> length s \<le> length ps"
  using skip_ws_length [of ps] by (auto simp: peek_def Let_def)

lemma peek_gettoken:
  assumes "peek ps toks = (s, True)" "gettoken s = (t, q, e, s')"
  shows "t \<noteq> 0"
proof -
  obtain c r where s: "s = c # r" "c \<noteq> 0" "skip_ws s = s" using peek_True [OF assms(1)] by (metis skip_ws_idem)
  from assms(2) show ?thesis by (cases rule: gettoken_cases) (use s in auto)
qed

section \<open>The parser\<close>

definition redir :: "u8 \<Rightarrow> pcmd \<Rightarrow> ptr \<Rightarrow> ptr \<Rightarrow> pcmd" where
  "redir tok cmd q eq =
     (if tok = 60 then REDIR cmd (q, eq) 0 0
      else if tok = 62 then REDIR cmd (q, eq) (o_wronly + o_create + o_trunc) 1
      else if tok = 43 then REDIR cmd (q, eq) (o_wronly + o_create) 1
      else cmd)"

function parseredirs :: "pcmd \<Rightarrow> ptr \<Rightarrow> (pcmd \<times> ptr) result" where
  "parseredirs cmd ps =
     (case peek ps [60, 62] of (ps, more) \<Rightarrow>
      if \<not> more then Ok (cmd, ps)
      else case gettoken ps of (tok, _, _, ps) \<Rightarrow>
           case gettoken ps of (t, q, eq, ps) \<Rightarrow>
           if t \<noteq> 97 then Panic ''missing file for redirection''
           else parseredirs (redir tok cmd q eq) ps)"
  by pat_completeness auto
termination
proof (relation "measure (\<lambda>(_, ps). length ps)", goal_cases)
  case 1
  then show ?case by simp
next
  case (2 cmd ps s more t1 r1 q1 r1' e1 s1 t2 r2 q2 r2' e2 s2)
  then have "peek ps [60, 62] = (s, more)" "gettoken s = (t1, q1, e1, s1)" "gettoken s1 = (t2, q2, e2, s2)" "t2 \<noteq> 0" by auto
  then have "length s2 < length ps" using peek_length gettoken_length by (meson le_less_trans less_le_trans order_trans)
  then show ?case by simp
qed

declare parseredirs.simps [simp del]

lemma parseredirs_cases:
  assumes "parseredirs cmd ps = Ok (cmd', s)"
  obtains (Stop) "peek ps [60, 62] = (s, False)" "cmd' = cmd"
  | (Redir) s0 t1 q1 e1 s1 q e s2 where "peek ps [60, 62] = (s0, True)" "gettoken s0 = (t1, q1, e1, s1)"
      "gettoken s1 = (97, q, e, s2)" "parseredirs (redir t1 cmd q e) s2 = Ok (cmd', s)"
proof -
  obtain s0 more where p: "peek ps [60, 62] = (s0, more)" by fastforce
  obtain t1 q1 e1 s1 where g1: "gettoken s0 = (t1, q1, e1, s1)" by (metis prod_cases4)
  obtain t2 q2 e2 s2 where g2: "gettoken s1 = (t2, q2, e2, s2)" by (metis prod_cases4)
  show ?thesis using assms p g1 g2 that unfolding parseredirs.simps [of cmd ps] by (auto split: if_splits)
qed

lemma parseredirs_induct [consumes 1, case_names Stop Redir]:
  assumes ok: "parseredirs cmd ps = Ok (cmd', s)"
    and Stop: "\<And>cmd ps. peek ps [60, 62] = (s, False) \<Longrightarrow> P cmd ps cmd"
    and Redir: "\<And>cmd ps s0 t1 q1 e1 s1 q e s2. peek ps [60, 62] = (s0, True) \<Longrightarrow> gettoken s0 = (t1, q1, e1, s1)
      \<Longrightarrow> gettoken s1 = (97, q, e, s2) \<Longrightarrow> P (redir t1 cmd q e) s2 cmd' \<Longrightarrow> P cmd ps cmd'"
  shows "P cmd ps cmd'"
  using ok
proof (induction "length ps" arbitrary: cmd ps rule: less_induct)
  case less
  from less.prems show ?case
  proof (cases rule: parseredirs_cases)
    case Stop
    then show ?thesis using assms(2) by simp
  next
    case (Redir s0 t1 q1 e1 s1 q e s2)
    have "length s2 < length s1" using gettoken_length(2) [OF Redir(3)] by simp
    then have "length s2 < length ps" using peek_length [OF Redir(1)] gettoken_length(1) [OF Redir(2)] by linarith
    then show ?thesis using assms(3) [OF Redir(1-3)] less.hyps Redir(4) by blast
  qed
qed

lemma parseredirs_length: "parseredirs cmd ps = Ok (cmd', s) \<Longrightarrow> length s \<le> length ps"
proof (induction rule: parseredirs_induct)
  case (Stop cmd ps)
  then show ?case by (rule peek_length)
next
  case (Redir cmd ps s0 t1 q1 e1 s1 q e s2)
  then show ?case using peek_length [OF Redir(1)] gettoken_length(1) [OF Redir(2)] gettoken_length(1) [OF Redir(3)] by linarith
qed

text \<open>The loop of \<open>parseexec\<close> over the arguments; \<open>argc\<close> is the number of them so far.\<close>

function parseargs :: "nat \<Rightarrow> pcmd \<Rightarrow> ptr \<Rightarrow> (pcmd \<times> ptr) result" where
  "parseargs argc ret ps =
     (case peek ps [124, 41, 38, 59] of (ps, stop) \<Rightarrow>
      if stop then Ok (ret, ps)
      else case gettoken ps of (tok, q, eq, ps) \<Rightarrow>
           if tok = 0 then Ok (ret, ps)
           else if tok \<noteq> 97 then Panic ''syntax''
           else if argc + 1 \<ge> MAXARGS then Panic ''too many args''
           else andthen (parseredirs (add_arg ret (q, eq)) ps) (\<lambda>(ret, ps). parseargs (argc + 1) ret ps))"
  by pat_completeness auto
termination
proof (relation "measure (\<lambda>(_, _, ps). length ps)", goal_cases)
  case 1
  then show ?case by simp
next
  case (2 argc ret ps s stop t r q r' e s1 x ret' s2)
  then have "peek ps [124, 41, 38, 59] = (s, stop)" "gettoken s = (t, q, e, s1)" "t \<noteq> 0"
    "parseredirs (add_arg ret (q, e)) s1 = Ok (ret', s2)" by auto
  then have "length s2 < length ps" using peek_length gettoken_length parseredirs_length by (meson le_less_trans less_le_trans)
  then show ?case by simp
qed

declare parseargs.simps [simp del]

text \<open>The loop of \<open>parseline\<close> over trailing ampersands.\<close>

function parsebacks :: "pcmd \<Rightarrow> ptr \<Rightarrow> pcmd \<times> ptr" where
  "parsebacks cmd ps =
     (case peek ps [38] of (ps, more) \<Rightarrow>
      if more then case gettoken ps of (_, _, _, ps) \<Rightarrow> parsebacks (BACK cmd) ps else (cmd, ps))"
  by pat_completeness auto
termination
proof (relation "measure (\<lambda>(_, ps). length ps)", goal_cases)
  case 1
  then show ?case by simp
next
  case (2 cmd ps s more t r q r' e s1)
  then have p: "peek ps [38] = (s, True)" and g: "gettoken s = (t, q, e, s1)" by auto
  have "t \<noteq> 0" using peek_gettoken [OF p g] by simp
  then show ?case using peek_length [OF p] gettoken_length(2) [OF g] by simp
qed

declare parsebacks.simps [simp del]

fun parseline :: "nat \<Rightarrow> ptr \<Rightarrow> (pcmd \<times> ptr) result"
  and parsepipe :: "nat \<Rightarrow> ptr \<Rightarrow> (pcmd \<times> ptr) result"
  and parseblock :: "nat \<Rightarrow> ptr \<Rightarrow> (pcmd \<times> ptr) result"
  and parseexec :: "nat \<Rightarrow> ptr \<Rightarrow> (pcmd \<times> ptr) result" where
  "parseline 0 ps = Undef ''fuel''"
| "parseline (Suc n) ps =
     andthen (parsepipe n ps) (\<lambda>(cmd, ps).
     case parsebacks cmd ps of (cmd, ps) \<Rightarrow>
     case peek ps [59] of (ps, more) \<Rightarrow>
     if more then case gettoken ps of (_, _, _, ps) \<Rightarrow>
       andthen (parseline n ps) (\<lambda>(right, ps). Ok (LIST cmd right, ps))
     else Ok (cmd, ps))"
| "parsepipe 0 ps = Undef ''fuel''"
| "parsepipe (Suc n) ps =
     andthen (parseexec n ps) (\<lambda>(cmd, ps).
     case peek ps [124] of (ps, more) \<Rightarrow>
     if more then case gettoken ps of (_, _, _, ps) \<Rightarrow>
       andthen (parsepipe n ps) (\<lambda>(right, ps). Ok (PIPE cmd right, ps))
     else Ok (cmd, ps))"
| "parseblock 0 ps = Undef ''fuel''"
| "parseblock (Suc n) ps =
     (case peek ps [40] of (ps, open) \<Rightarrow>
      if \<not> open then Panic ''parseblock''
      else case gettoken ps of (_, _, _, ps) \<Rightarrow>
        andthen (parseline n ps) (\<lambda>(cmd, ps).
        case peek ps [41] of (ps, close) \<Rightarrow>
        if \<not> close then Panic ''syntax - missing )''
        else case gettoken ps of (_, _, _, ps) \<Rightarrow> parseredirs cmd ps))"
| "parseexec 0 ps = Undef ''fuel''"
| "parseexec (Suc n) ps =
     (case peek ps [40] of (ps, open) \<Rightarrow>
      if open then parseblock n ps
      else andthen (parseredirs (EXEC []) ps) (\<lambda>(ret, ps). parseargs 0 ret ps))"

text \<open>Every byte of the line costs at most four calls.\<close>

definition parse_fuel :: "ptr \<Rightarrow> nat" where
  "parse_fuel s = 4 * length s + 4"

text \<open>\<open>nulterminate\<close> writes a zero at the end of every word of the command, in the line \<open>buf\<close> of \<open>n\<close> bytes and
  its terminating zero.\<close>

fun nulterminate :: "nat \<Rightarrow> pcmd \<Rightarrow> u8 list \<Rightarrow> u8 list" where
  "nulterminate n (EXEC argv) buf = fold (\<lambda>(q, eq) buf. buf[n - length eq := 0]) argv buf"
| "nulterminate n (REDIR c (q, eq) mode fd) buf = (nulterminate n c buf)[n - length eq := 0]"
| "nulterminate n (PIPE l r) buf = nulterminate n r (nulterminate n l buf)"
| "nulterminate n (LIST l r) buf = nulterminate n r (nulterminate n l buf)"
| "nulterminate n (BACK c) buf = nulterminate n c buf"

definition parsecmd :: "u8 list \<Rightarrow> (pcmd \<times> u8 list) result" where
  "parsecmd s =
     andthen (parseline (parse_fuel s) s) (\<lambda>(cmd, ps).
     case peek ps [] of (ps, _) \<Rightarrow>
     if ps \<noteq> [] then Panic ''syntax''
     else Ok (cmd, nulterminate (length s) cmd (s @ [0])))"

end
