(* ===== verification/ShParse.thy ===== *)
theory ShParse
  imports Sh "HOL-Library.Sublist"
begin

text \<open>
  The command parser of user/sh.c: it always ends, with a command or a syntax error; every word of the command it
  builds is a maximal run of word characters of the line, and \<open>nulterminate\<close> makes each of them the C string of
  its bytes; every command has a text that parses back to it.
\<close>

section \<open>Well-formed commands\<close>

definition word :: "ptr \<times> ptr \<Rightarrow> u8 list" where
  "word = (\<lambda>(q, eq). take (length q - length eq) q)"

text \<open>The word is a maximal run of word characters of the line \<open>s\<close>, and not empty.\<close>

definition wf_word :: "u8 list \<Rightarrow> ptr \<times> ptr \<Rightarrow> bool" where
  "wf_word s = (\<lambda>(q, eq). suffix q s \<and> q \<noteq> [] \<and> wordchar (hd q) \<and> eq = dropWhile wordchar q)"

text \<open>The types of \<open>sh.c\<close>'s structures: at most nine arguments, below the zero that ends \<open>argv\<close>, and only the three kinds
  of redirection.\<close>

fun wf_cmd :: "('w \<Rightarrow> bool) \<Rightarrow> 'w cmd \<Rightarrow> bool" where
  "wf_cmd W (EXEC argv) \<longleftrightarrow> length argv < MAXARGS \<and> list_all W argv"
| "wf_cmd W (REDIR c w mode fd) \<longleftrightarrow> wf_cmd W c \<and> W w \<and>
     (mode, fd) \<in> {(0, 0), (o_wronly + o_create + o_trunc, 1), (o_wronly + o_create, 1)}"
| "wf_cmd W (PIPE l r) \<longleftrightarrow> wf_cmd W l \<and> wf_cmd W r"
| "wf_cmd W (LIST l r) \<longleftrightarrow> wf_cmd W l \<and> wf_cmd W r"
| "wf_cmd W (BACK c) \<longleftrightarrow> wf_cmd W c"

text \<open>The command \<open>parseexec\<close> is filling: an \<open>EXEC\<close> with \<open>argc\<close> arguments below its redirections.\<close>

fun argc :: "'w cmd \<Rightarrow> nat option" where
  "argc (EXEC argv) = Some (length argv)"
| "argc (REDIR c w mode fd) = argc c"
| "argc c = None"

lemma add_arg_wf:
  "wf_cmd W c \<Longrightarrow> argc c = Some n \<Longrightarrow> n + 1 < MAXARGS \<Longrightarrow> W w \<Longrightarrow> wf_cmd W (add_arg c w) \<and> argc (add_arg c w) = Some (n + 1)"
  by (induction c rule: argc.induct) auto

lemma redir_wf: "wf_cmd W c \<Longrightarrow> W (q, e) \<Longrightarrow> wf_cmd W (redir t c q e)"
  by (simp add: redir_def)

lemma redir_argc [simp]: "argc (redir t c q e) = argc c"
  by (simp add: redir_def)

section \<open>The parser ends, in a well-formed command or a syntax error\<close>

lemma suffix_skip_ws: "suffix (skip_ws s) s"
  by (simp add: skip_ws_def suffix_dropWhile)

lemma peek_suffix: "peek ps toks = (s, b) \<Longrightarrow> suffix s ps"
  using suffix_skip_ws by (auto simp: peek_def Let_def)

lemma gettoken_suffix:
  assumes "gettoken ps = (t, q, e, s)"
  shows "suffix s ps" "suffix q ps"
proof -
  have "suffix (skip_ws e) q"
    using assms
  proof (cases rule: gettoken_cases)
    case End
    then show ?thesis by (simp add: suffix_skip_ws)
  next
    case Op
    show ?thesis unfolding Op(3) by (intro suffix_ConsI suffix_skip_ws)
  next
    case Append
    show ?thesis unfolding Append(3) by (intro suffix_ConsI suffix_skip_ws)
  next
    case (Word c r)
    have "suffix (skip_ws e) r" unfolding Word(6) by (rule suffix_order.trans [OF suffix_skip_ws suffix_dropWhile])
    then show ?thesis unfolding Word(3) by (rule suffix_ConsI)
  qed
  moreover have "s = skip_ws e" "q = skip_ws ps" using assms by (auto elim: gettoken_cases)
  ultimately show "suffix s ps" "suffix q ps" using suffix_skip_ws [of ps] by (auto intro: suffix_order.trans)
qed

lemma gettoken_word:
  assumes "gettoken ps = (97, q, e, s)" "suffix ps l"
  shows "wf_word l (q, e)"
proof -
  have "suffix q l" using gettoken_suffix(2) [OF assms(1)] assms(2) by (rule suffix_order.trans)
  moreover from assms(1) have "q \<noteq> [] \<and> wordchar (hd q) \<and> e = dropWhile wordchar q"
  proof (cases rule: gettoken_cases)
    case (Word c r)
    show ?thesis unfolding Word(3) using Word(4,6) by simp
  qed simp_all
  ultimately show ?thesis by (simp add: wf_word_def)
qed

text \<open>What a function of the parser does from \<open>ps\<close> in the line \<open>l\<close>.\<close>

definition parses :: "u8 list \<Rightarrow> ptr \<Rightarrow> (pcmd \<times> ptr) result \<Rightarrow> bool" where
  "parses l ps r \<longleftrightarrow>
     (case r of Ok (c, s) \<Rightarrow> suffix s ps \<and> wf_cmd (wf_word l) c | Panic m \<Rightarrow> True | _ \<Rightarrow> False)"

lemma parses_Panic [simp]: "parses l ps (Panic m)"
  by (simp add: parses_def)

lemma parses_Ok [simp]: "parses l ps (Ok (c, s)) \<longleftrightarrow> suffix s ps \<and> wf_cmd (wf_word l) c"
  by (simp add: parses_def)

lemma parses_suffix: "parses l s r \<Longrightarrow> suffix s ps \<Longrightarrow> parses l ps r"
  by (auto simp: parses_def split: result.splits intro: suffix_order.trans)

lemma parses_andthen:
  assumes "parses l ps r" "\<forall>c s. suffix s ps \<longrightarrow> wf_cmd (wf_word l) c \<longrightarrow> parses l ps (f (c, s))"
  shows "parses l ps (andthen r f)"
proof (cases r)
  case (Ok x)
  obtain c s where "x = (c, s)" by (cases x)
  then show ?thesis using Ok assms by simp
qed (use assms(1) in \<open>simp_all add: parses_def\<close>)

lemma parseredirs_total: "\<exists>r. parseredirs c ps = Ok r \<or> parseredirs c ps = Panic ''missing file for redirection''"
proof (induction "length ps" arbitrary: c ps rule: less_induct)
  case less
  obtain s0 more where p: "peek ps [60, 62] = (s0, more)" by fastforce
  obtain t1 q1 e1 s1 where g1: "gettoken s0 = (t1, q1, e1, s1)" by (metis prod_cases4)
  obtain t2 q2 e2 s2 where g2: "gettoken s1 = (t2, q2, e2, s2)" by (metis prod_cases4)
  have "length s2 < length ps" if "t2 = 97"
    using peek_length [OF p] gettoken_length(1) [OF g1] gettoken_length(2) [OF g2] that by simp
  then show ?case using less.hyps [of s2] p g1 g2 unfolding parseredirs.simps [of c ps] by simp
qed

lemma parseredirs_ok:
  assumes "parseredirs c ps = Ok (c', s)"
  shows "suffix s ps" "argc c' = argc c" "suffix ps l \<Longrightarrow> wf_cmd (wf_word l) c \<Longrightarrow> wf_cmd (wf_word l) c'"
proof -
  have "suffix s ps \<and> argc c' = argc c \<and> (suffix ps l \<longrightarrow> wf_cmd (wf_word l) c \<longrightarrow> wf_cmd (wf_word l) c')"
    using assms
  proof (induction rule: parseredirs_induct)
    case (Stop c ps)
    then show ?case by (simp add: peek_suffix)
  next
    case (Redir c ps s0 t1 q1 e1 s1 q e s2)
    have s: "suffix s1 ps" using gettoken_suffix(1) [OF Redir(2)] peek_suffix [OF Redir(1)] by (rule suffix_order.trans)
    then have s2: "suffix s2 ps" using gettoken_suffix(1) [OF Redir(3)] suffix_order.trans by blast
    have "wf_cmd (wf_word l) (redir t1 c q e)" if "suffix ps l" "wf_cmd (wf_word l) c"
      using that gettoken_word [OF Redir(3)] s suffix_order.trans by (blast intro: redir_wf)
    then show ?case using Redir(4) s2 by (auto intro: suffix_order.trans)
  qed
  then show "suffix s ps" "argc c' = argc c" "suffix ps l \<Longrightarrow> wf_cmd (wf_word l) c \<Longrightarrow> wf_cmd (wf_word l) c'" by auto
qed

lemma parseredirs_parses: "suffix ps l \<Longrightarrow> wf_cmd (wf_word l) c \<Longrightarrow> parses l ps (parseredirs c ps)"
  using parseredirs_total [of c ps] parseredirs_ok [of c ps] by (auto simp: parses_def)

lemma parseargs_parses:
  "suffix ps l \<Longrightarrow> wf_cmd (wf_word l) c \<Longrightarrow> argc c = Some n \<Longrightarrow> parses l ps (parseargs n c ps)"
proof (induction "length ps" arbitrary: n c ps rule: less_induct)
  case less
  obtain s0 stop where p: "peek ps [124, 41, 38, 59] = (s0, stop)" by fastforce
  obtain t q e s1 where g: "gettoken s0 = (t, q, e, s1)" by (metis prod_cases4)
  have s0: "suffix s0 ps" using p by (rule peek_suffix)
  have s1: "suffix s1 ps" using gettoken_suffix(1) [OF g] s0 by (rule suffix_order.trans)
  have more: "parses l ps (parseargs (n + 1) c' s2)"
    if "t = 97" "n + 1 < MAXARGS" "parseredirs (add_arg c (q, e)) s1 = Ok (c', s2)" for c' s2
  proof -
    have "wf_word l (q, e)" using gettoken_word g that(1) s0 less.prems(1) suffix_order.trans by blast
    note a = add_arg_wf [OF less.prems(2,3) that(2) this]
    have "suffix s2 ps" using parseredirs_ok(1) [OF that(3)] s1 by (rule suffix_order.trans)
    moreover have "length s2 < length ps"
      using peek_length [OF p] gettoken_length(2) [OF g] parseredirs_length [OF that(3)] that(1) by simp
    moreover have "argc c' = Some (n + 1)" "wf_cmd (wf_word l) c'"
      using parseredirs_ok(2) [OF that(3)] parseredirs_ok(3) [OF that(3), of l] a suffix_order.trans [OF s1 less.prems(1)] by simp_all
    ultimately show ?thesis
      using parses_suffix [OF less.hyps [of s2 c' "n + 1"], of ps] suffix_order.trans [OF _ less.prems(1), of s2] by simp
  qed
  then show ?case
    using p g s0 s1 less.prems(2) parseredirs_total [of "add_arg c (q, e)" s1]
    unfolding parseargs.simps [of n c ps] by auto
qed

lemma parsebacks_ok:
  "wf_cmd W c \<Longrightarrow> wf_cmd W (fst (parsebacks c ps)) \<and> suffix (snd (parsebacks c ps)) ps"
proof (induction "length ps" arbitrary: c ps rule: less_induct)
  case less
  obtain s0 more where p: "peek ps [38] = (s0, more)" by fastforce
  obtain t q e s1 where g: "gettoken s0 = (t, q, e, s1)" by (metis prod_cases4)
  have s: "suffix s0 ps" "suffix s1 ps"
    using peek_suffix [OF p] gettoken_suffix(1) [OF g] by (auto intro: suffix_order.trans)
  show ?case
  proof (cases more)
    case True
    then have "length s1 < length ps" using p g peek_gettoken [of ps "[38]" s0 t q e s1] peek_length [OF p] gettoken_length(2) [OF g] by simp
    then show ?thesis using less.hyps [of s1 "BACK c"] less.prems p g s True
      unfolding parsebacks.simps [of c ps] by (auto intro: suffix_order.trans)
  qed (use less.prems p s in \<open>simp add: parsebacks.simps [of c ps]\<close>)
qed

text \<open>Each function of the parser, with fuel for the bytes that are left.\<close>

definition fuelled :: "nat \<Rightarrow> nat \<Rightarrow> (nat \<Rightarrow> ptr \<Rightarrow> (pcmd \<times> ptr) result) \<Rightarrow> bool" where
  "fuelled n k f \<longleftrightarrow> (\<forall>l ps. suffix ps l \<longrightarrow> 4 * length ps + k \<le> n \<longrightarrow> parses l ps (f n ps))"

lemma fuelledD: "fuelled n k f \<Longrightarrow> suffix ps l \<Longrightarrow> suffix s ps \<Longrightarrow> 4 * length s + k \<le> n \<Longrightarrow> parses l ps (f n s)"
  unfolding fuelled_def by (blast intro: parses_suffix suffix_order.trans)

lemma peek_gettoken_shorter:
  assumes "peek ps toks = (s, True)" "gettoken s = (t, q, e, s')"
  shows "length s' < length ps" "suffix s' ps"
  using peek_length [OF assms(1)] gettoken_length(2) [OF assms(2)] peek_gettoken [OF assms]
    suffix_order.trans [OF gettoken_suffix(1) [OF assms(2)] peek_suffix [OF assms(1)]] by simp_all

text \<open>The tail that \<open>parseline\<close> and \<open>parsepipe\<close> share: an operator and another operand, or nothing.\<close>

lemma parses_operator:
  assumes f: "fuelled n k f" and l: "suffix ps l" and s: "suffix s ps" and c: "wf_cmd (wf_word l) c"
    and n: "4 * length ps + k \<le> n + 4" and K: "\<forall>r. wf_cmd (wf_word l) r \<longrightarrow> wf_cmd (wf_word l) (K c r)"
  shows "parses l ps (case peek s toks of (s, more) \<Rightarrow> if more then case gettoken s of (_, _, _, s) \<Rightarrow>
      andthen (f n s) (\<lambda>(right, s). Ok (K c right, s)) else Ok (c, s))"
proof -
  obtain s0 more where p: "peek s toks = (s0, more)" by fastforce
  obtain t q e s1 where g: "gettoken s0 = (t, q, e, s1)" by (metis prod_cases4)
  have "parses l ps (andthen (f n s1) (\<lambda>(right, s). Ok (K c right, s)))" if more
  proof (rule parses_andthen)
    have "length s1 < length s" "suffix s1 s" using peek_gettoken_shorter p g that by auto
    then show "parses l ps (f n s1)"
      using fuelledD [OF f l, of s1] n suffix_length_le [OF s] suffix_order.trans [of s1 s ps] s by simp
  qed (use K in simp)
  then show ?thesis using p g peek_suffix [OF p] s c suffix_order.trans [of s0 s ps] by simp
qed

lemma parsepipe_fuelled:
  assumes "fuelled n 2 parseexec" "fuelled n 3 parsepipe"
  shows "fuelled (Suc n) 3 parsepipe"
  unfolding fuelled_def parsepipe.simps
proof (intro allI impI parses_andthen)
  fix l ps :: "u8 list" and c s
  assume l: "suffix ps l" and n: "4 * length ps + 3 \<le> Suc n"
  show "parses l ps (parseexec n ps)" using fuelledD [OF assms(1) l suffix_order.refl] n by simp
  assume "suffix s ps" "wf_cmd (wf_word l) c"
  then show "parses l ps (case (c, s) of (cmd, ps) \<Rightarrow> case peek ps [124] of (ps, more) \<Rightarrow>
      if more then case gettoken ps of (_, _, _, ps) \<Rightarrow> andthen (parsepipe n ps) (\<lambda>(right, ps). Ok (PIPE cmd right, ps))
      else Ok (cmd, ps))"
    using parses_operator [OF assms(2) l, of s c PIPE] n by simp
qed

lemma parseline_fuelled:
  assumes "fuelled n 3 parsepipe" "fuelled n 4 parseline"
  shows "fuelled (Suc n) 4 parseline"
  unfolding fuelled_def parseline.simps
proof (intro allI impI parses_andthen)
  fix l ps :: "u8 list" and c s
  assume l: "suffix ps l" and n: "4 * length ps + 4 \<le> Suc n"
  show "parses l ps (parsepipe n ps)" using fuelledD [OF assms(1) l suffix_order.refl] n by simp
  assume s: "suffix s ps" "wf_cmd (wf_word l) c"
  obtain c' s' where b: "parsebacks c s = (c', s')" by fastforce
  then have "suffix s' ps" "wf_cmd (wf_word l) c'"
    using parsebacks_ok [OF s(2), of s] s(1) by (auto intro: suffix_order.trans)
  then show "parses l ps (case (c, s) of (cmd, ps) \<Rightarrow> case parsebacks cmd ps of (cmd, ps) \<Rightarrow> case peek ps [59] of (ps, more) \<Rightarrow>
      if more then case gettoken ps of (_, _, _, ps) \<Rightarrow> andthen (parseline n ps) (\<lambda>(right, ps). Ok (LIST cmd right, ps))
      else Ok (cmd, ps))"
    using parses_operator [OF assms(2) l, of s' c' LIST] n b by simp
qed

lemma parseblock_parses:
  assumes f: "fuelled n 4 parseline" and l: "suffix ps l" and n: "4 * length ps \<le> n"
  shows "parses l ps (parseblock (Suc n) ps)"
proof -
  obtain s0 b where p: "peek ps [40] = (s0, b)" by fastforce
  obtain t q e s1 where g: "gettoken s0 = (t, q, e, s1)" by (metis prod_cases4)
  show ?thesis
  proof (cases b)
    case True
    then have s1: "length s1 < length ps" "suffix s1 ps" using peek_gettoken_shorter p g by auto
    have "parses l ps (andthen (parseline n s1) (\<lambda>(cmd, ps). case peek ps [41] of (ps, close) \<Rightarrow>
        if \<not> close then Panic ''syntax - missing )'' else case gettoken ps of (_, _, _, ps) \<Rightarrow> parseredirs cmd ps))"
    proof (intro parses_andthen allI impI)
      show "parses l ps (parseline n s1)" using fuelledD [OF f l s1(2)] s1(1) n by simp
      fix c s
      assume s: "suffix s ps" "wf_cmd (wf_word l) c"
      obtain s2 cl where p2: "peek s [41] = (s2, cl)" by fastforce
      obtain t q e s3 where g2: "gettoken s2 = (t, q, e, s3)" by (metis prod_cases4)
      have s3: "suffix s3 ps"
        using gettoken_suffix(1) [OF g2] peek_suffix [OF p2] s(1) by (auto intro: suffix_order.trans)
      have "parses l ps (parseredirs c s3)"
        using parses_suffix [OF parseredirs_parses [OF suffix_order.trans [OF s3 l] s(2)] s3] .
      then show "parses l ps (case (c, s) of (cmd, ps) \<Rightarrow> case peek ps [41] of (ps, close) \<Rightarrow>
          if \<not> close then Panic ''syntax - missing )'' else case gettoken ps of (_, _, _, ps) \<Rightarrow> parseredirs cmd ps)"
        using p2 g2 by simp
    qed
    then show ?thesis using p g True by simp
  qed (use p in simp)
qed

lemma parseexec_fuelled:
  assumes "fuelled n 4 parseline"
  shows "fuelled (Suc (Suc n)) 2 parseexec"
  unfolding fuelled_def
proof (intro allI impI)
  fix l ps :: "u8 list"
  assume l: "suffix ps l" and n: "4 * length ps + 2 \<le> Suc (Suc n)"
  obtain s b where p: "peek ps [40] = (s, b)" by fastforce
  have s: "suffix s ps" using p by (rule peek_suffix)
  then have sl: "suffix s l" using l suffix_order.trans by blast
  have "parses l s (andthen (parseredirs (EXEC []) s) (\<lambda>(ret, ps). parseargs 0 ret ps))"
  proof (cases "parseredirs (EXEC []) s")
    case (Ok x)
    then obtain c s' where x: "parseredirs (EXEC []) s = Ok (c, s')" by (cases x) auto
    have "argc c = Some 0" "wf_cmd (wf_word l) c" "suffix s' s"
      using parseredirs_ok(1,2) [OF x] parseredirs_ok(3) [OF x sl] by simp_all
    then show ?thesis using x parseargs_parses [of s' l c 0] sl by (auto intro: parses_suffix suffix_order.trans)
  qed (use parseredirs_total [of "EXEC []" s] in auto)
  moreover have "parses l s (parseblock (Suc n) s)"
    using parseblock_parses [OF assms sl] n suffix_length_le [OF s] by simp
  ultimately show "parses l ps (parseexec (Suc (Suc n)) ps)"
    using p parses_suffix [OF _ s] by (simp del: parseblock.simps)
qed

lemma parser_fuelled:
  "fuelled n 4 parseline \<and> fuelled n 3 parsepipe \<and> fuelled n 2 parseexec"
proof (induction n rule: less_induct)
  case (less n)
  have exec: "fuelled n 2 parseexec"
  proof (cases n)
    case (Suc m)
    show ?thesis
    proof (cases m)
      case 0
      then show ?thesis using Suc by (simp add: fuelled_def)
    next
      case (Suc k)
      then show ?thesis using \<open>n = Suc m\<close> less parseexec_fuelled [of k] by simp
    qed
  qed (simp add: fuelled_def)
  show ?case
  proof (cases n)
    case (Suc m)
    then show ?thesis using exec less [of m] parseline_fuelled [of m] parsepipe_fuelled [of m] by simp
  qed (simp add: fuelled_def)
qed

lemma parseline_parses: "parses s s (parseline (parse_fuel s) s)"
  using fuelledD [of "parse_fuel s" 4 parseline s s s] parser_fuelled by (simp add: parse_fuel_def)

lemma parsecmd_Ok:
  "parsecmd s = Ok (c, buf) \<longleftrightarrow>
     (\<exists>ps. parseline (parse_fuel s) s = Ok (c, ps) \<and> skip_ws ps = [] \<and> buf = nulterminate (length s) c (s @ [0]))"
  by (auto simp: parsecmd_def peek_def Let_def split: if_splits)

text \<open>C34. The recursive descent of the shell ends on every line: \<open>parsecmd\<close> returns a command or stops at a
  syntax error, and never runs out of fuel.\<close>

theorem parsecmd_ends: "(\<exists>cmd buf. parsecmd s = Ok (cmd, buf)) \<or> (\<exists>m. parsecmd s = Panic m)"
  using parseline_parses [of s]
  by (cases "parseline (parse_fuel s) s") (simp_all add: parsecmd_def parses_def peek_def Let_def split: prod.splits)

text \<open>C35. The command that \<open>parsecmd\<close> builds is well typed: an \<open>argv\<close> has room for its terminating zero, the mode and
  descriptor of a redirection are one of the three that \<open>parseredirs\<close> knows, and every word is a nonempty run of
  word characters of the line, ended by the end of the line or by a byte that is no word character.\<close>

theorem parsecmd_well_typed: "parsecmd s = Ok (cmd, buf) \<Longrightarrow> wf_cmd (wf_word s) cmd"
  using parseline_parses [of s] by (auto simp: parsecmd_Ok)

section \<open>The words as C strings\<close>

text \<open>The positions at which \<open>nulterminate\<close> writes.\<close>

definition nul_at :: "nat \<Rightarrow> pcmd \<Rightarrow> nat set" where
  "nul_at n c = (\<lambda>(q, eq). n - length eq) ` set_cmd c"

lemma fold_nul_nth:
  "length (fold (\<lambda>(q, eq) buf. buf[n - length eq := 0]) ws buf) = length buf \<and>
   (\<forall>k < length buf. fold (\<lambda>(q, eq) buf. buf[n - length eq := 0]) ws buf ! k =
      (if k \<in> (\<lambda>(q, eq). n - length eq) ` set ws then 0 else buf ! k))"
  by (induction ws arbitrary: buf) (auto simp: nth_list_update)

lemma update_nth: "k < length xs \<Longrightarrow> xs[j := x] ! k = (if k = j then x else xs ! k)"
  by (cases "k = j") simp_all

lemma nulterminate_nth:
  "length (nulterminate n c buf) = length buf \<and>
   (\<forall>k < length buf. nulterminate n c buf ! k = (if k \<in> nul_at n c then 0 else buf ! k))"
proof (induction n c buf rule: nulterminate.induct)
  case (1 n argv buf)
  then show ?case using fold_nul_nth [of n argv buf] by (simp add: nul_at_def)
next
  case (2 n c q eq mode fd buf)
  have "nul_at n (REDIR c (q, eq) mode fd) = insert (n - length eq) (nul_at n c)" by (auto simp: nul_at_def)
  then show ?case using 2 by (simp add: update_nth)
qed (simp_all add: nul_at_def image_Un)

lemma wf_cmd_words: "wf_cmd W c \<longleftrightarrow> wf_cmd (\<lambda>_. True) c \<and> (\<forall>w \<in> set_cmd c. W w)"
  by (induction c) (auto simp: list_all_iff)

text \<open>The C string at position \<open>i\<close> of a buffer.\<close>

definition cstr_at :: "u8 list \<Rightarrow> nat \<Rightarrow> u8 list" where
  "cstr_at buf i = takeWhile (\<lambda>b. b \<noteq> 0) (drop i buf)"

lemma suffix_nth: "suffix q s \<Longrightarrow> k < length q \<Longrightarrow> s ! (length s - length q + k) = q ! k"
  by (auto simp: suffix_def nth_append)

lemma nul_outside_words:
  assumes "wf_word s (q, e)" "wf_word s (q', e')" "k < length q - length e"
  shows "length s - length e' \<noteq> length s - length q + k"
proof
  assume eq: "length s - length e' = length s - length q + k"
  have q: "suffix q s" "e = dropWhile wordchar q" and e': "e' = dropWhile wordchar q'" and q': "suffix q' s"
    using assms(1,2) by (auto simp: wf_word_def)
  have "length q - length e = length (takeWhile wordchar q)"
    unfolding q(2) by (metis add_diff_cancel_right' length_append takeWhile_dropWhile_id)
  then have w: "wordchar (q ! k)" and k: "k < length q"
    using assms(3) by (metis nth_mem set_takeWhileD takeWhile_nth, simp)
  have s: "suffix e' s" using q' e' suffix_dropWhile suffix_order.trans by blast
  have "e' \<noteq> []" using eq k suffix_length_le [OF q(1)] by auto
  then have "s ! (length s - length e') = hd e'" using suffix_nth [OF s, of 0] by (simp add: hd_conv_nth)
  moreover have "\<not> wordchar (hd e')" using \<open>e' \<noteq> []\<close> unfolding e' by (rule hd_dropWhile)
  ultimately show False using w suffix_nth [OF q(1) k] eq by simp
qed

lemma nulterminate_word:
  assumes c: "wf_cmd (wf_word s) c" and w: "(q, e) \<in> set_cmd c" and z: "0 \<notin> set s"
  shows "cstr_at (nulterminate (length s) c (s @ [0])) (length s - length q) = word (q, e)"
proof -
  define buf i m where "buf = nulterminate (length s) c (s @ [0])" and "i = length s - length q" and "m = length q - length e"
  have wf: "\<forall>w \<in> set_cmd c. wf_word s w" using wf_cmd_words [of "wf_word s" c] c by simp
  then have q: "wf_word s (q, e)" using w by blast
  then have sq: "suffix q s" and e: "e = dropWhile wordchar q" by (auto simp: wf_word_def)
  have le: "length e \<le> length q" "length q \<le> length s" using e suffix_length_le [OF sq] by (auto simp: length_dropWhile_le)
  have nth: "length buf = Suc (length s)" "\<forall>k < Suc (length s). buf ! k = (if k \<in> nul_at (length s) c then 0 else (s @ [0]) ! k)"
    using nulterminate_nth [of "length s" c "s @ [0]"] by (simp_all add: buf_def)
  have out: "i + k \<notin> nul_at (length s) c" if "k < m" for k
    using wf nul_outside_words [OF q] that by (force simp: nul_at_def i_def m_def)
  have in_word: "buf ! (i + k) = q ! k \<and> q ! k \<noteq> 0" if "k < m" for k
  proof -
    have k: "k < length q" "i + k < length s" using that le by (auto simp: i_def m_def)
    then have "buf ! (i + k) = s ! (i + k)" using nth(2) out [OF that] by (simp add: nth_append)
    then have "buf ! (i + k) = q ! k" using suffix_nth [OF sq k(1)] by (simp add: i_def)
    then show ?thesis using nth_mem [OF k(1)] set_mono_suffix [OF sq] z by (metis subsetD)
  qed
  have "i + m = length s - length e" using le by (simp add: i_def m_def)
  then have "i + m \<in> nul_at (length s) c" using w by (force simp: nul_at_def)
  then have "buf ! (i + m) = 0" using nth(2) le by (simp add: i_def m_def)
  moreover have "i + m < length buf" "m \<le> length q" using nth(1) le by (simp_all add: i_def m_def)
  ultimately have "takeWhile (\<lambda>b. b \<noteq> 0) (drop i buf) = take m (drop i buf)"
    using in_word by (intro takeWhile_eq_take_P_nth) auto
  also have "\<dots> = take m q"
    using \<open>i + m < length buf\<close> \<open>m \<le> length q\<close> in_word by (intro nth_equalityI) auto
  finally show ?thesis by (simp add: cstr_at_def word_def buf_def i_def m_def)
qed

text \<open>C33. After \<open>nulterminate\<close> every word of the command is the C string of exactly its own bytes: for each argument and
  each file name of the command, the string \<open>exec\<close> and \<open>open\<close> read at its pointer ends where the word
  ends, and none of the zeros falls into another word.\<close>

theorem parsecmd_words:
  assumes "0 \<notin> set s" "parsecmd s = Ok (cmd, buf)" "(q, eq) \<in> set_cmd cmd"
  shows "cstr_at buf (length s - length q) = word (q, eq)"
  using assms nulterminate_word [of s cmd q eq] parseline_parses [of s] by (auto simp: parsecmd_Ok)

section \<open>The text of a command\<close>

definition redir_op :: "int \<Rightarrow> u8 list" where
  "redir_op mode = (if mode = 0 then [60] else if mode = o_wronly + o_create + o_trunc then [62] else [62, 62])"

fun show_cmd :: "u8 list cmd \<Rightarrow> u8 list" where
  "show_cmd (EXEC argv) = concat (map (\<lambda>w. 32 # w) argv)"
| "show_cmd (REDIR c f mode fd) = show_cmd c @ redir_op mode @ f"
| "show_cmd (PIPE l r) = 40 # show_cmd l @ 124 # show_cmd r @ [41]"
| "show_cmd (LIST l r) = 40 # show_cmd l @ 59 # show_cmd r @ [41]"
| "show_cmd (BACK c) = 40 # show_cmd c @ [38, 41]"

definition text_word :: "u8 list \<Rightarrow> bool" where
  "text_word w \<longleftrightarrow> w \<noteq> [] \<and> list_all wordchar w \<and> 0 \<notin> set w"

text \<open>What may stand behind a command, and what behind one of its words.\<close>

definition stop :: "ptr \<Rightarrow> bool" where
  "stop r \<longleftrightarrow> r = [] \<or> hd r \<in> {124, 41, 38, 59}"

definition ends :: "ptr \<Rightarrow> bool" where
  "ends r \<longleftrightarrow> stop r \<or> hd r \<in> {60, 62}"

lemma ends_skip [simp]: "ends r \<Longrightarrow> skip_ws r = r"
  by (cases r) (auto simp: ends_def stop_def skip_ws_def whitespace_def)

lemma stop_ends: "stop r \<Longrightarrow> ends r"
  by (simp add: ends_def)

lemma ends_word: "ends r \<Longrightarrow> r = [] \<or> \<not> wordchar (hd r)"
  by (auto simp: ends_def stop_def wordchar_def symbols_def)

lemma space_skip [simp]: "skip_ws (32 # s) = skip_ws s"
  by (simp add: skip_ws_def whitespace_def)

lemma text_word_Cons: "text_word w \<Longrightarrow> \<exists>c v. w = c # v \<and> wordchar c \<and> c \<noteq> 0"
  by (cases w) (auto simp: text_word_def)

lemma text_word_skip [simp]: "text_word w \<Longrightarrow> skip_ws (w @ r) = w @ r"
  using text_word_Cons [of w] by (auto simp: skip_ws_def wordchar_def)

lemma dropWhile_word: "list_all wordchar w \<Longrightarrow> r = [] \<or> \<not> wordchar (hd r) \<Longrightarrow> dropWhile wordchar (w @ r) = r"
  by (induction w) (auto simp: neq_Nil_conv, cases r, auto)

lemma gettoken_text_word:
  assumes "text_word w" "r = [] \<or> \<not> wordchar (hd r)"
  shows "gettoken (w @ r) = (97, w @ r, r, skip_ws r)"
proof -
  obtain c v where w: "w = c # v" "wordchar c" "c \<noteq> 0" using text_word_Cons [OF assms(1)] by blast
  then have "c \<notin> {124, 40, 41, 59, 38, 60, 62}" by (auto simp: wordchar_def symbols_def)
  moreover have "dropWhile wordchar (w @ r) = r" using assms by (intro dropWhile_word) (auto simp: text_word_def)
  ultimately show ?thesis using text_word_skip [OF assms(1), of r] w by (auto simp: gettoken_def Let_def)
qed

lemma word_text [simp]: "word (w @ r, r) = w"
  by (simp add: word_def)

lemma gettoken_op: "c \<in> {124, 40, 41, 59, 38} \<Longrightarrow> gettoken (c # r) = (c, c # r, r, skip_ws r)"
  by (auto simp: gettoken_def Let_def skip_ws_def whitespace_def)

lemma peek_op: "c \<in> {124, 40, 41, 59, 38, 60, 62} \<Longrightarrow> peek (c # r) toks = (c # r, c \<in> set toks)"
  by (auto simp: peek_def Let_def skip_ws_def whitespace_def)

lemma peek_text_word: "text_word w \<Longrightarrow> set toks \<subseteq> set symbols \<Longrightarrow> peek (w @ r) toks = (w @ r, False)"
  using text_word_Cons [of w] text_word_skip [of w r] by (auto simp: peek_def Let_def wordchar_def)

lemma peek_stop: "stop r \<Longrightarrow> peek r toks = (r, r \<noteq> [] \<and> hd r \<in> set toks)"
  by (cases r) (auto simp: stop_def peek_op, simp add: peek_def Let_def)

lemma peek_skip [simp]: "peek (skip_ws s) toks = peek s toks"
  by (simp add: peek_def)

lemma parse_skip [simp]:
  "parseredirs c (skip_ws s) = parseredirs c s" "parseargs k c (skip_ws s) = parseargs k c s"
  "parseexec n (skip_ws s) = parseexec n s" "parsepipe n (skip_ws s) = parsepipe n s" "parseline n (skip_ws s) = parseline n s"
proof -
  show "parseredirs c (skip_ws s) = parseredirs c s" by (simp add: parseredirs.simps [of c])
  show "parseargs k c (skip_ws s) = parseargs k c s" by (simp add: parseargs.simps [of k c])
  have e: "parseexec n (skip_ws s) = parseexec n s" for n by (cases n) simp_all
  have p: "parsepipe n (skip_ws s) = parsepipe n s" for n using e by (cases n) simp_all
  show "parseexec n (skip_ws s) = parseexec n s" "parsepipe n (skip_ws s) = parsepipe n s" "parseline n (skip_ws s) = parseline n s"
    using e p by (simp, simp, cases n, simp_all)
qed

text \<open>A run of redirections, in the order they are written.\<close>

definition text_redir :: "u8 list \<times> int \<times> int \<Rightarrow> bool" where
  "text_redir = (\<lambda>(f, mode, fd). text_word f \<and>
     (mode, fd) \<in> {(0, 0), (o_wronly + o_create + o_trunc, 1), (o_wronly + o_create, 1)})"

definition show_redirs :: "(u8 list \<times> int \<times> int) list \<Rightarrow> u8 list" where
  "show_redirs rs = concat (map (\<lambda>(f, mode, fd). redir_op mode @ f) rs)"

definition redirs :: "'w cmd \<Rightarrow> ('w \<times> int \<times> int) list \<Rightarrow> 'w cmd" where
  "redirs c rs = foldl (\<lambda>c (f, mode, fd). REDIR c f mode fd) c rs"

lemma ends_show_redirs: "stop r \<Longrightarrow> ends (show_redirs rs @ r)"
  by (cases rs) (simp_all add: show_redirs_def redir_op_def ends_def split: prod.splits)

lemma parse_redir_op:
  assumes "text_redir (f, mode, fd)" "ends r"
  shows "\<exists>q. map_cmd word q = REDIR (map_cmd word c) f mode fd \<and>
    parseredirs c (redir_op mode @ f @ r) = parseredirs q r"
proof -
  have f: "text_word f" using assms(1) by (simp add: text_redir_def)
  obtain d v where v: "f = d # v" "wordchar d" "d \<noteq> 0" using text_word_Cons [OF f] by blast
  then have d: "d \<noteq> 62" by (auto simp: wordchar_def symbols_def)
  obtain tok where tok: "gettoken (redir_op mode @ f @ r) = (tok, redir_op mode @ f @ r, f @ r, f @ r)"
      "redir tok c (f @ r) r = REDIR c (f @ r, r) mode fd"
    using assms(1) d v text_word_skip [OF f, of r]
    by (auto simp: text_redir_def redir_op_def redir_def gettoken_def Let_def skip_ws_def whitespace_def)
  have "peek (redir_op mode @ f @ r) [60, 62] = (redir_op mode @ f @ r, True)"
    by (simp add: redir_op_def peek_op)
  then have "parseredirs c (redir_op mode @ f @ r) = parseredirs (REDIR c (f @ r, r) mode fd) r"
    using tok gettoken_text_word [OF f ends_word [OF assms(2)]] assms(2)
    by (subst parseredirs.simps) simp
  then show ?thesis by (intro exI [of _ "REDIR c (f @ r, r) mode fd"]) simp
qed

lemma parse_redirs:
  assumes "list_all text_redir rs" "stop r"
  shows "\<exists>c'. parseredirs c (show_redirs rs @ r) = Ok (c', r) \<and> map_cmd word c' = redirs (map_cmd word c) rs"
  using assms(1)
proof (induction rs arbitrary: c)
  case Nil
  have "peek r [60, 62] = (r, False)" using assms(2) by (auto simp: peek_stop stop_def)
  then show ?case by (subst parseredirs.simps) (simp add: show_redirs_def redirs_def)
next
  case (Cons x rs)
  obtain f mode fd where x: "x = (f, mode, fd)" by (cases x)
  have "text_redir (f, mode, fd)" using Cons.prems x by simp
  from parse_redir_op [OF this ends_show_redirs [OF assms(2), of rs], of c]
  obtain q where "map_cmd word q = REDIR (map_cmd word c) f mode fd"
    "parseredirs c (show_redirs (x # rs) @ r) = parseredirs q (show_redirs rs @ r)"
    by (auto simp: show_redirs_def x)
  then show ?case using Cons.IH [of q] Cons.prems by (simp add: redirs_def x)
qed

lemma parseredirs_word:
  assumes "text_word w"
  shows "parseredirs c (32 # w @ r) = Ok (c, w @ r)"
proof -
  have "peek (32 # w @ r) [60, 62] = (w @ r, False)"
    using peek_text_word [OF assms, of "[60, 62]" r] peek_skip [of "32 # w @ r"] text_word_skip [OF assms]
    by (simp add: symbols_def)
  then show ?thesis by (subst parseredirs.simps) simp
qed

lemma parseargs_stop: "stop r \<Longrightarrow> parseargs k c r = Ok (c, r)"
  by (subst parseargs.simps) (auto simp: peek_stop stop_def gettoken_def)

text \<open>A word and what follows it.\<close>

lemma parseargs_word:
  assumes w: "text_word w" and k: "k + 1 < MAXARGS" and r: "r = [] \<or> \<not> wordchar (hd r)"
  shows "parseargs k (EXEC a) (32 # w @ r) =
    andthen (parseredirs (EXEC (a @ [(w @ r, r)])) r) (\<lambda>(c, s). parseargs (k + 1) c s)"
proof -
  have "peek (32 # w @ r) [124, 41, 38, 59] = (w @ r, False)"
    using peek_text_word [OF w, of "[124, 41, 38, 59]" r] peek_skip [of "32 # w @ r"] text_word_skip [OF w]
    by (simp add: symbols_def)
  then show ?thesis
    using gettoken_text_word [OF w r] k by (subst parseargs.simps) (simp split: result.splits)
qed

lemma parse_args:
  assumes "list_all text_word ws" "ws \<noteq> []" "k + length ws < MAXARGS" "list_all text_redir rs" "stop r"
  shows "\<exists>c'. parseargs k (EXEC a) (show_cmd (EXEC ws) @ show_redirs rs @ r) = Ok (c', r) \<and>
    map_cmd word c' = redirs (EXEC (map word a @ ws)) rs"
  using assms(1-3)
proof (induction ws arbitrary: k a)
  case (Cons w ws)
  note w = Cons.prems
  define rest where "rest = show_cmd (EXEC ws) @ show_redirs rs @ r"
  have r: "rest = [] \<or> \<not> wordchar (hd rest)"
    using ends_word [OF ends_show_redirs [OF assms(5), of rs]]
    by (cases ws) (auto simp: rest_def wordchar_def whitespace_def)
  have step: "parseargs k (EXEC a) (32 # w @ rest) =
      andthen (parseredirs (EXEC (a @ [(w @ rest, rest)])) rest) (\<lambda>(c, s). parseargs (k + 1) c s)"
    using parseargs_word [OF _ _ r] w by simp
  show ?case
  proof (cases ws)
    case Nil
    then have "\<exists>c'. parseredirs (EXEC (a @ [(w @ rest, rest)])) rest = Ok (c', r) \<and>
        map_cmd word c' = redirs (EXEC (map word a @ [w])) rs"
      using parse_redirs [OF assms(4,5), of "EXEC (a @ [(w @ rest, rest)])"] by (simp add: rest_def)
    then show ?thesis using step parseargs_stop [OF assms(5)] Nil by (auto simp: rest_def)
  next
    case (Cons v vs)
    have "parseredirs c rest = Ok (c, skip_ws rest)" for c
      using parseredirs_word [of v c] w(1) Cons by (simp add: rest_def)
    then have "parseargs k (EXEC a) (32 # w @ rest) = parseargs (k + 1) (EXEC (a @ [(w @ rest, rest)])) rest"
      using step parse_skip(2) [of "k + 1" _ rest] by simp
    then show ?thesis using Cons.IH [of "k + 1" "a @ [(w @ rest, rest)]"] w Cons by (simp add: rest_def)
  qed
qed simp

section \<open>Every command can be written\<close>

text \<open>What the induction shows of a command, in front of redirections and of what stops it.\<close>

definition reads_back :: "u8 list cmd \<Rightarrow> bool" where
  "reads_back c \<longleftrightarrow> (\<forall>rs r n. list_all text_redir rs \<longrightarrow> stop r \<longrightarrow> 4 * length (show_cmd c @ show_redirs rs @ r) + 2 \<le> n \<longrightarrow>
     (\<exists>c'. parseexec n (show_cmd c @ show_redirs rs @ r) = Ok (c', r) \<and> map_cmd word c' = redirs c rs))"

lemma reads_backD:
  assumes "reads_back c" "stop r" "4 * length (show_cmd c @ r) + 2 \<le> n"
  shows "\<exists>c'. parseexec n (show_cmd c @ r) = Ok (c', r) \<and> map_cmd word c' = c"
  using assms(1) [unfolded reads_back_def, rule_format, of "[]" r n] assms(2,3) by (simp add: show_redirs_def redirs_def)

lemma read_pipe:
  assumes "reads_back c" "stop r" "r = [] \<or> hd r \<noteq> 124" "4 * length (show_cmd c @ r) + 3 \<le> n"
  shows "\<exists>c'. parsepipe n (show_cmd c @ r) = Ok (c', r) \<and> map_cmd word c' = c"
proof -
  obtain m where n: "n = Suc m" using assms(4) by (cases n) auto
  have "peek r [124] = (r, False)" using assms(3) by (auto simp: peek_stop [OF assms(2)])
  then show ?thesis using reads_backD [OF assms(1,2), of m] assms(4) n by auto
qed

text \<open>A line in parentheses, and the redirections behind it.\<close>

lemma read_block:
  assumes line: "parseline n s = Ok (c, 41 # show_redirs rs @ r)"
    and rs: "list_all text_redir rs" and r: "stop r"
  shows "\<exists>c'. parseexec (Suc (Suc n)) (40 # s) = Ok (c', r) \<and> map_cmd word c' = redirs (map_cmd word c) rs"
  using parse_redirs [OF rs r, of c] line ends_skip [OF ends_show_redirs [OF r, of rs]]
  by (simp add: peek_op gettoken_op)

lemma reads_back_block:
  assumes "\<And>y n. 4 * length (s @ 41 # y) + 4 \<le> n \<Longrightarrow> \<exists>c'. parseline n (s @ 41 # y) = Ok (c', 41 # y) \<and> map_cmd word c' = c"
    and "show_cmd c = 40 # s @ [41]"
  shows "reads_back c"
  unfolding reads_back_def
proof (intro allI impI)
  fix rs r n
  assume rs: "list_all text_redir rs" "stop r" and n: "4 * length (show_cmd c @ show_redirs rs @ r) + 2 \<le> n"
  define m where "m = n - 2"
  have m: "n = Suc (Suc m)" using n by (simp add: m_def)
  then have "4 * length (s @ 41 # show_redirs rs @ r) + 4 \<le> m" using n assms(2) by simp
  from assms(1) [OF this] obtain c' where "parseline m (s @ 41 # show_redirs rs @ r) = Ok (c', 41 # show_redirs rs @ r)" "map_cmd word c' = c"
    by blast
  from read_block [OF this(1) rs] this(2) m assms(2)
  show "\<exists>c'. parseexec n (show_cmd c @ show_redirs rs @ r) = Ok (c', r) \<and> map_cmd word c' = redirs c rs"
    by (simp del: parseexec.simps)
qed

lemma read_line:
  assumes "reads_back c" "r = [] \<or> hd r = 41" "4 * length (show_cmd c @ r) + 4 \<le> n"
  shows "\<exists>c'. parseline n (show_cmd c @ r) = Ok (c', r) \<and> map_cmd word c' = c"
proof -
  obtain m where n: "n = Suc m" using assms(3) by (cases n) auto
  have r: "stop r" "r = [] \<or> hd r \<noteq> 124" using assms(2) by (auto simp: stop_def)
  obtain c' where c': "parsepipe m (show_cmd c @ r) = Ok (c', r)" "map_cmd word c' = c"
    using read_pipe [OF assms(1) r, of m] assms(3) n by auto
  have "parsebacks c' r = (c', r)" using assms(2) by (subst parsebacks.simps) (auto simp: peek_stop [OF r(1)])
  then show ?thesis using c' n assms(2) by (auto simp: peek_stop [OF r(1)])
qed

lemma reads_back_PIPE:
  assumes "reads_back a" "reads_back b"
  shows "reads_back (PIPE a b)"
proof (rule reads_back_block [of "show_cmd a @ 124 # show_cmd b"])
  fix y :: ptr and n
  let ?r = "41 # y"
  assume n: "4 * length ((show_cmd a @ 124 # show_cmd b) @ ?r) + 4 \<le> n"
  define m where "m = n - 2"
  then have m: "n = Suc (Suc m)" using n by simp
  obtain a' where a: "parseexec m (show_cmd a @ 124 # show_cmd b @ ?r) = Ok (a', 124 # show_cmd b @ ?r)" "map_cmd word a' = a"
    using reads_backD [OF assms(1), of "124 # show_cmd b @ ?r" m] n m by (auto simp: stop_def)
  obtain b' where b: "parsepipe m (show_cmd b @ ?r) = Ok (b', ?r)" "map_cmd word b' = b"
    using read_pipe [OF assms(2), of ?r m] n m by (auto simp: stop_def)
  have "parsepipe (Suc m) (show_cmd a @ 124 # show_cmd b @ ?r) = Ok (PIPE a' b', ?r)"
    using a(1) b(1) by (simp add: peek_op gettoken_op)
  moreover have "parsebacks c ?r = (c, ?r)" for c by (subst parsebacks.simps) (simp add: peek_op)
  ultimately show "\<exists>c'. parseline n ((show_cmd a @ 124 # show_cmd b) @ ?r) = Ok (c', ?r) \<and> map_cmd word c' = PIPE a b"
    using a(2) b(2) m by (simp add: peek_op del: parsepipe.simps)
qed simp

lemma reads_back_LIST:
  assumes "reads_back a" "reads_back b"
  shows "reads_back (LIST a b)"
proof (rule reads_back_block [of "show_cmd a @ 59 # show_cmd b"])
  fix y :: ptr and n
  let ?r = "41 # y"
  assume n: "4 * length ((show_cmd a @ 59 # show_cmd b) @ ?r) + 4 \<le> n"
  define m where "m = n - 1"
  then have m: "n = Suc m" using n by simp
  obtain a' where a: "parsepipe m (show_cmd a @ 59 # show_cmd b @ ?r) = Ok (a', 59 # show_cmd b @ ?r)" "map_cmd word a' = a"
    using read_pipe [OF assms(1), of "59 # show_cmd b @ ?r" m] n m by (auto simp: stop_def)
  obtain b' where b: "parseline m (show_cmd b @ ?r) = Ok (b', ?r)" "map_cmd word b' = b"
    using read_line [OF assms(2), of ?r m] n m by auto
  have "parsebacks c (59 # s) = (c, 59 # s)" for c s by (subst parsebacks.simps) (simp add: peek_op)
  then show "\<exists>c'. parseline n ((show_cmd a @ 59 # show_cmd b) @ ?r) = Ok (c', ?r) \<and> map_cmd word c' = LIST a b"
    using a b m by (simp add: peek_op gettoken_op)
qed simp

lemma reads_back_BACK:
  assumes "reads_back c"
  shows "reads_back (BACK c)"
proof (rule reads_back_block [of "show_cmd c @ [38]"])
  fix y :: ptr and n
  let ?r = "41 # y"
  assume n: "4 * length ((show_cmd c @ [38]) @ ?r) + 4 \<le> n"
  define m where "m = n - 1"
  then have m: "n = Suc m" using n by simp
  obtain c' where c: "parsepipe m (show_cmd c @ 38 # ?r) = Ok (c', 38 # ?r)" "map_cmd word c' = c"
    using read_pipe [OF assms, of "38 # ?r" m] n m by (auto simp: stop_def)
  have "parsebacks d ?r = (d, ?r)" for d by (subst parsebacks.simps) (simp add: peek_op)
  then have "parsebacks c' (38 # ?r) = (BACK c', ?r)"
    by (subst parsebacks.simps) (simp add: peek_op gettoken_op ends_def stop_def)
  then show "\<exists>c'. parseline n ((show_cmd c @ [38]) @ ?r) = Ok (c', ?r) \<and> map_cmd word c' = BACK c"
    using c m by (simp add: peek_op)
qed simp

lemma reads_back_EXEC:
  assumes "wf_cmd text_word (EXEC ws)"
  shows "reads_back (EXEC ws)"
  unfolding reads_back_def
proof (intro allI impI)
  fix rs r n
  assume rs: "list_all text_redir rs" and r: "stop r" and "4 * length (show_cmd (EXEC ws) @ show_redirs rs @ r) + 2 \<le> n"
  then obtain m where n: "n = Suc m" by (cases n) auto
  let ?s = "show_cmd (EXEC ws) @ show_redirs rs @ r"
  show "\<exists>c'. parseexec n ?s = Ok (c', r) \<and> map_cmd word c' = redirs (EXEC ws) rs"
  proof (cases ws)
    case Nil
    have e: "ends (show_redirs rs @ r)" using r by (rule ends_show_redirs)
    then have "peek (show_redirs rs @ r) [40] = (show_redirs rs @ r, False)"
      by (cases "show_redirs rs @ r") (auto simp: peek_def Let_def ends_def stop_def)
    then show ?thesis using parse_redirs [OF rs r, of "EXEC []"] parseargs_stop [OF r] Nil n by auto
  next
    case (Cons w vs)
    have w: "text_word w" using assms Cons by simp
    define rest where "rest = show_cmd (EXEC vs) @ show_redirs rs @ r"
    have s: "?s = 32 # w @ rest" using Cons by (simp add: rest_def)
    have "peek ?s [40] = (w @ rest, False)"
      using peek_text_word [OF w, of "[40]" rest] peek_skip [of "32 # w @ rest"] text_word_skip [OF w] s by (simp add: symbols_def)
    moreover have "parseredirs (EXEC []) (w @ rest) = Ok (EXEC [], w @ rest)"
      using parseredirs_word [OF w, of "EXEC []" rest] parse_skip(1) [of "EXEC []" "32 # w @ rest"] w by simp
    moreover have "parseargs 0 (EXEC []) (w @ rest) = parseargs 0 (EXEC []) ?s"
      using parse_skip(2) [of 0 "EXEC []" "32 # w @ rest"] w s by simp
    ultimately show ?thesis using parse_args [of ws 0 rs r "[]"] assms rs r n Cons by simp
  qed
qed

lemma redirs_Cons: "redirs c ((f, mode, fd) # rs) = redirs (REDIR c f mode fd) rs"
  by (simp add: redirs_def)

lemma reads_back_REDIR:
  assumes "reads_back c" "wf_cmd text_word (REDIR c f mode fd)"
  shows "reads_back (REDIR c f mode fd)"
  unfolding reads_back_def
proof (intro allI impI)
  fix rs r n
  assume rs: "list_all text_redir rs" "stop r" and n: "4 * length (show_cmd (REDIR c f mode fd) @ show_redirs rs @ r) + 2 \<le> n"
  have "list_all text_redir ((f, mode, fd) # rs)" using rs assms(2) by (simp add: text_redir_def)
  from assms(1) [unfolded reads_back_def, rule_format, OF this rs(2), of n] n
  show "\<exists>c'. parseexec n (show_cmd (REDIR c f mode fd) @ show_redirs rs @ r) = Ok (c', r) \<and>
      map_cmd word c' = redirs (REDIR c f mode fd) rs"
    by (simp add: redirs_Cons show_redirs_def)
qed

lemma all_read_back: "wf_cmd text_word c \<Longrightarrow> reads_back c"
proof (induction c)
  case (REDIR c f mode fd)
  then show ?case by (intro reads_back_REDIR) simp_all
qed (simp_all add: reads_back_EXEC reads_back_PIPE reads_back_LIST reads_back_BACK del: wf_cmd.simps(1))

text \<open>C14. Every command can be written and is read back: the text of a well-formed command (words of word characters,
  at most nine arguments, the three kinds of redirection, parentheses around every compound command) parses, and
  the words of the command that \<open>parsecmd\<close> builds spell the command that was written.\<close>

theorem show_parsecmd:
  assumes "wf_cmd text_word c"
  shows "\<exists>c' buf. parsecmd (show_cmd c) = Ok (c', buf) \<and> map_cmd word c' = c"
proof -
  obtain c' where "parseline (parse_fuel (show_cmd c)) (show_cmd c) = Ok (c', [])" "map_cmd word c' = c"
    using read_line [OF all_read_back [OF assms], of "[]" "parse_fuel (show_cmd c)"] by (auto simp: parse_fuel_def)
  then show ?thesis by (auto simp: parsecmd_Ok)
qed

section \<open>A concrete line\<close>

text \<open>The line \<open>a b|c>d\<close>, the command it parses to, and the line after \<open>nulterminate\<close>.\<close>

definition demo_line :: "u8 list" where
  "demo_line = [97, 32, 98, 124, 99, 62, 100]"

definition demo_cmd :: pcmd where
  "demo_cmd = PIPE (EXEC [(demo_line, drop 1 demo_line), (drop 2 demo_line, drop 3 demo_line)])
     (REDIR (EXEC [(drop 4 demo_line, drop 5 demo_line)]) (drop 6 demo_line, []) 1537 1)"

lemma demo_parsecmd: "parsecmd demo_line = Ok (demo_cmd, [97, 0, 98, 0, 99, 0, 100, 0])"
  by code_simp

theorem parsecmd_well_typed_witness: "wf_cmd (wf_word demo_line) demo_cmd"
  by (rule parsecmd_well_typed [OF demo_parsecmd])

theorem parsecmd_words_witness: "cstr_at [97, 0, 98, 0, 99, 0, 100, 0] 2 = [98]"
proof -
  have "0 \<notin> set demo_line" "(drop 2 demo_line, drop 3 demo_line) \<in> set_cmd demo_cmd" by (simp_all add: demo_line_def demo_cmd_def)
  from parsecmd_words [OF this(1) demo_parsecmd this(2)] show ?thesis by (simp add: demo_line_def word_def eval_nat_numeral(2))
qed

theorem show_parsecmd_witness:
  "\<exists>c' buf. parsecmd (show_cmd (LIST (BACK (EXEC [[97]])) (REDIR (EXEC [[98], [99]]) [100] 0 0))) = Ok (c', buf) \<and>
     map_cmd word c' = LIST (BACK (EXEC [[97]])) (REDIR (EXEC [[98], [99]]) [100] 0 0)"
  by (rule show_parsecmd) (simp add: text_word_def wordchar_def whitespace_def symbols_def)

end
