(* ===== verification/UserLib.thy ===== *)
theory UserLib
  imports KString
begin

text \<open>
  The library of the user programs (user/ulib.c and user/printf.c) over the byte memory of a process. The loops
  that run to a zero byte are partial functions; \<open>None\<close> means that they do not return. The bytes that \<open>gets\<close> reads
  from the standard input are a list, and the output of the print functions is the list of the bytes they pass
  to \<open>putc\<close>.
\<close>

section \<open>Strings and memory\<close>

partial_function (option) strcpy :: "memory \<Rightarrow> u64 \<Rightarrow> u64 \<Rightarrow> memory option" where
  "strcpy m s t =
     (let c = m t; m' = m(s := c) in if c \<noteq> 0 then strcpy m' (s + 1) (t + 1) else Some m')"

partial_function (option) strcmp :: "memory \<Rightarrow> u64 \<Rightarrow> u64 \<Rightarrow> int option" where
  "strcmp m p q =
     (if m p \<noteq> 0 \<and> m p = m q then strcmp m (p + 1) (q + 1) else Some (uint (m p) - uint (m q)))"

definition strlen_u :: "memory \<Rightarrow> u64 \<Rightarrow> u32 option" where
  "strlen_u m s = map_option of_nat (strlen_from m s 0)"

definition memset_u :: "memory \<Rightarrow> u64 \<Rightarrow> u32 \<Rightarrow> u32 \<Rightarrow> memory" where
  "memset_u m dst c n = memset_loop m dst c 0 (unat n)"

partial_function (option) strchr :: "memory \<Rightarrow> u64 \<Rightarrow> u8 \<Rightarrow> u64 option" where
  "strchr m s c = (if m s = 0 then Some 0 else if m s = c then Some s else strchr m (s + 1) c)"

text \<open>\<open>gets\<close>: at most \<open>nbuf - 1\<close> bytes of the input, up to and with the first line end; also the input that is left.\<close>

fun gets_loop :: "memory \<Rightarrow> u64 \<Rightarrow> nat \<Rightarrow> nat \<Rightarrow> u8 list \<Rightarrow> memory \<times> nat \<times> u8 list" where
  "gets_loop m buf i nbuf [] = (m, i, [])"
| "gets_loop m buf i nbuf (c # input) =
     (if i + 1 < nbuf then
        let m' = m(buf + of_nat i := c)
        in if c = 10 \<or> c = 13 then (m', i + 1, input) else gets_loop m' buf (i + 1) nbuf input
      else (m, i, c # input))"

definition gets :: "memory \<Rightarrow> u64 \<Rightarrow> nat \<Rightarrow> u8 list \<Rightarrow> memory \<times> u8 list" where
  "gets m buf nbuf input =
     (case gets_loop m buf 0 nbuf input of (m, i, rest) \<Rightarrow> (m(buf + of_nat i := 0), rest))"

partial_function (option) atoi_from :: "memory \<Rightarrow> u64 \<Rightarrow> u32 \<Rightarrow> u32 option" where
  "atoi_from m s n =
     (if 48 \<le> m s \<and> m s \<le> 57 then atoi_from m (s + 1) (n * 10 + ucast (m s) - 48) else Some n)"

definition atoi :: "memory \<Rightarrow> u64 \<Rightarrow> u32 option" where
  "atoi m s = atoi_from m s 0"

text \<open>\<open>atoi\<close> on the bytes of a C string.\<close>

definition atoi_bytes :: "u8 list \<Rightarrow> u32" where
  "atoi_bytes s = foldl (\<lambda>n c. n * 10 + ucast c - 48) 0 (takeWhile (\<lambda>c. 48 \<le> c \<and> c \<le> 57) s)"

definition memmove_u :: "memory \<Rightarrow> u64 \<Rightarrow> u64 \<Rightarrow> u32 \<Rightarrow> memory" where
  "memmove_u m dst src n =
     (if src > dst then copy_up m dst src (nat (sint n))
      else copy_down m (dst + scast n) (src + scast n) (nat (sint n)))"

definition memcmp_u :: "memory \<Rightarrow> u64 \<Rightarrow> u64 \<Rightarrow> u32 \<Rightarrow> int" where
  "memcmp_u m s1 s2 n = memcmp_loop m s1 s2 (unat n)"

definition memcpy_u :: "memory \<Rightarrow> u64 \<Rightarrow> u64 \<Rightarrow> u32 \<Rightarrow> memory" where
  "memcpy_u m dst src n = memmove_u m dst src n"

section \<open>Formatted output\<close>

text \<open>The bytes of a string literal of the source.\<close>

definition bytes :: "string \<Rightarrow> u8 list" where
  "bytes s = map (\<lambda>c. of_nat (of_char c)) s"

definition digits :: "u8 list" where
  "digits = [48, 49, 50, 51, 52, 53, 54, 55, 56, 57, 65, 66, 67, 68, 69, 70]"

text \<open>The digits in the order in which the loop stores them in \<open>buf\<close>, least significant first.\<close>

function printint_buf :: "nat \<Rightarrow> nat \<Rightarrow> u8 list" where
  "printint_buf base x =
     digits ! (x mod base) # (if base \<le> 1 \<or> x div base = 0 then [] else printint_buf base (x div base))"
  by pat_completeness auto
termination
proof (relation "measure snd")
  fix base x :: nat
  assume "\<not> (base \<le> 1 \<or> x div base = 0)"
  then show "((base, x div base), base, x) \<in> measure snd" by (cases "x = 0") auto
qed simp

declare printint_buf.simps [simp del]

definition printint_u :: "u32 \<Rightarrow> nat \<Rightarrow> bool \<Rightarrow> u8 list" where
  "printint_u xx base sg =
     (let neg = (sg \<and> sint xx < 0);
          x = (if neg then - xx else xx)
      in rev (printint_buf base (unat x) @ (if neg then [45] else [])))"

fun printptr_digits :: "nat \<Rightarrow> u64 \<Rightarrow> u8 list" where
  "printptr_digits 0 x = []"
| "printptr_digits (Suc n) x = digits ! unat (drop_bit 60 x) # printptr_digits n (push_bit 4 x)"

definition printptr_u :: "u64 \<Rightarrow> u8 list" where
  "printptr_u x = [48, 120] @ printptr_digits 16 x"

text \<open>The variable arguments: each is one 64-bit slot, of which an \<open>int\<close> is the low half; a string is its bytes,
  or \<open>None\<close> for the null pointer.\<close>

datatype vaarg = VInt u64 | VStr "u8 list option"

text \<open>\<open>vprintf\<close>, with the state of its loop: whether the last byte was a percent sign. Reading an argument that the
  caller did not pass, or a string where an integer was passed, is undefined.\<close>

fun vprintf :: "bool \<Rightarrow> u8 list \<Rightarrow> vaarg list \<Rightarrow> u8 list result" where
  "vprintf percent [] ap = Ok []"
| "vprintf False (c # fmt) ap =
     (if c = 37 then vprintf True fmt ap
      else andthen (vprintf False fmt ap) (\<lambda>out. Ok (c # out)))"
| "vprintf True (c # fmt) ap =
     (if c = 100 then
        (case ap of VInt v # ap \<Rightarrow> andthen (vprintf False fmt ap) (\<lambda>out. Ok (printint_u (ucast v) 10 True @ out))
         | _ \<Rightarrow> Undef ''va_arg'')
      else if c = 108 then
        (case ap of VInt v # ap \<Rightarrow> andthen (vprintf False fmt ap) (\<lambda>out. Ok (printint_u (ucast v) 10 False @ out))
         | _ \<Rightarrow> Undef ''va_arg'')
      else if c = 120 then
        (case ap of VInt v # ap \<Rightarrow> andthen (vprintf False fmt ap) (\<lambda>out. Ok (printint_u (ucast v) 16 False @ out))
         | _ \<Rightarrow> Undef ''va_arg'')
      else if c = 112 then
        (case ap of VInt v # ap \<Rightarrow> andthen (vprintf False fmt ap) (\<lambda>out. Ok (printptr_u v @ out))
         | _ \<Rightarrow> Undef ''va_arg'')
      else if c = 115 then
        (case ap of
           VStr (Some s) # ap \<Rightarrow> andthen (vprintf False fmt ap) (\<lambda>out. Ok (takeWhile (\<lambda>c. c \<noteq> 0) s @ out))
         | VStr None # ap \<Rightarrow> andthen (vprintf False fmt ap) (\<lambda>out. Ok ([40, 110, 117, 108, 108, 41] @ out))
         | _ \<Rightarrow> Undef ''va_arg'')
      else if c = 99 then
        (case ap of VInt v # ap \<Rightarrow> andthen (vprintf False fmt ap) (\<lambda>out. Ok (ucast v # out))
         | _ \<Rightarrow> Undef ''va_arg'')
      else if c = 37 then andthen (vprintf False fmt ap) (\<lambda>out. Ok (c # out))
      else andthen (vprintf False fmt ap) (\<lambda>out. Ok (37 # c # out)))"

text \<open>\<open>fprintf\<close> and \<open>printf\<close>: the descriptor and the bytes written to it.\<close>

definition fprintf :: "nat \<Rightarrow> u8 list \<Rightarrow> vaarg list \<Rightarrow> (nat \<times> u8 list) result" where
  "fprintf fd fmt ap = andthen (vprintf False fmt ap) (\<lambda>out. Ok (fd, out))"

definition printf_u :: "u8 list \<Rightarrow> vaarg list \<Rightarrow> (nat \<times> u8 list) result" where
  "printf_u fmt ap = andthen (vprintf False fmt ap) (\<lambda>out. Ok (1, out))"

section \<open>String routines on C strings\<close>

lemma strcmp_cstring:
  "cstring m p xs \<Longrightarrow> cstring m q ys \<Longrightarrow> \<exists>d. strcmp m p q = Some d \<and> (d = 0 \<longleftrightarrow> xs = ys)"
proof (induction xs arbitrary: p q ys)
  case Nil
  then show ?case by (subst strcmp.simps, cases ys) (auto simp: uint_0_iff)
next
  case (Cons x xs)
  show ?case
  proof (cases "m q = x")
    case True
    then obtain zs where "ys = x # zs" "cstring m (q + 1) zs" using Cons.prems by (cases ys) auto
    then show ?thesis using Cons.IH [of "p + 1" "q + 1" zs] Cons.prems True by (subst strcmp.simps) simp
  next
    case False
    then have "ys \<noteq> x # xs" "uint x - uint (m q) \<noteq> 0" using Cons.prems by (auto simp: word_uint_eq_iff)
    then show ?thesis using Cons.prems False by (subst strcmp.simps) auto
  qed
qed

lemma strchr_cstring:
  assumes "cstring m p xs"
  shows "strchr m p c = Some (if c \<in> set xs then p + of_nat (length (takeWhile (\<lambda>x. x \<noteq> c) xs)) else 0)"
  using assms
proof (induction xs arbitrary: p)
  case Nil
  then show ?case by (subst strchr.simps) simp
next
  case (Cons x xs)
  then show ?case using Cons.IH [of "p + 1"] by (subst strchr.simps) (auto simp: algebra_simps)
qed

lemma strcpy_cstring:
  assumes "cstring m t xs" "apart t (length xs) s (length xs)"
  shows "strcpy m s t = Some (write_bytes m s (xs @ [0]))"
  using assms
proof (induction xs arbitrary: m s t)
  case Nil
  then show ?case by (subst strcpy.simps) (simp add: Let_def)
next
  case (Cons x xs)
  have "t + 1 + of_nat i \<noteq> s" if "i \<le> length xs" for i
    using apart_head [of t "Suc (length xs)" s "length xs" "Suc i"] Cons.prems(2) that by (simp add: algebra_simps)
  then have "cstring (m(s := x)) (t + 1) xs" using Cons.prems(1) by (simp add: cstring_upd_other)
  moreover have "apart (t + 1) (length xs) (s + 1) (length xs)" using Cons.prems(2) by (simp add: apart_tail)
  ultimately have "strcpy (m(s := x)) (s + 1) (t + 1) = Some (write_bytes (m(s := x)) (s + 1) (xs @ [0]))"
    by (rule Cons.IH)
  then show ?case using Cons.prems(1) by (subst strcpy.simps) (simp add: Let_def)
qed

lemma strlen_u_cstring: "cstring m p xs \<Longrightarrow> strlen_u m p = Some (of_nat (length xs))"
  using strlen_cstring [of m p xs] by (simp add: strlen_u_def strlen_def)

text \<open>\<open>memmove\<close> copies the bytes the source had before the call, also when the areas overlap.\<close>

lemma sint_u32: "sint (x :: u32) = uint x - (if bit x 31 then 4294967296 else 0)"
  by (simp add: sint_uint signed_take_bit_eq_take_bit_minus bit_uint_iff take_bit_int_eq_self uint_lt2p [where 'a = 32, simplified] split: if_splits)

lemma sint_uint_nonneg: "0 \<le> sint (x :: u32) \<Longrightarrow> sint x = uint x"
  using uint_lt2p [of x] by (simp add: sint_u32 split: if_splits)

lemma memmove_u_write_bytes:
  assumes n: "0 \<le> sint n" and wrap: "unat src + unat n \<le> 18446744073709551616" "unat dst + unat n \<le> 18446744073709551616"
  shows "memmove_u m dst src n = write_bytes m dst (read_bytes m src (unat n))"
proof
  fix x
  have un: "nat (sint n) = unat n" "(scast n :: u64) = ucast n"
    using n sint_uint_nonneg [OF n] by (simp_all add: scast_eq)
  have "memmove_u m dst src n x = (if in_range dst (unat n) x then m (src + (x - dst)) else m x)"
  proof (cases "src > dst")
    case True
    have "src + of_nat i \<noteq> dst + of_nat j" if "j < i" "i < unat n" for i j
      using that wrap True by (intro of_nat_neq_below) (auto simp: word_less_nat_alt)
    then show ?thesis using True wrap by (simp add: memmove_u_def un copy_up_apply)
  next
    case False
    have "src + of_nat i \<noteq> dst + of_nat j" if "i < j" "j < unat n" for i j
      using that wrap False by (intro of_nat_neq_below) (auto simp: word_less_nat_alt)
    then have "copy_down m (dst + of_nat (unat n)) (src + of_nat (unat n)) (unat n) x =
        (if in_range dst (unat n) x then m (src + (x - dst)) else m x)"
      using wrap by (intro copy_down_apply) auto
    then show ?thesis using False by (simp add: memmove_u_def un)
  qed
  then show "memmove_u m dst src n x = write_bytes m dst (read_bytes m src (unat n)) x"
    using wrap by (simp add: write_bytes_apply nth_read_bytes)
qed

text \<open>\<open>gets\<close>: what it stores of the input.\<close>

fun gets_line :: "nat \<Rightarrow> u8 list \<Rightarrow> u8 list" where
  "gets_line k [] = []"
| "gets_line k (c # input) =
     (if k = 0 then [] else if c = 10 \<or> c = 13 then [c] else c # gets_line (k - 1) input)"

lemma gets_loop_line:
  "gets_loop m buf i nbuf input =
     (let xs = gets_line (nbuf - 1 - i) input
      in (write_bytes m (buf + of_nat i) xs, i + length xs, drop (length xs) input))"
proof (induction m buf i nbuf input rule: gets_loop.induct)
  case (2 m buf i nbuf c input)
  then show ?case by (auto simp: Let_def algebra_simps fun_upd_def)
qed simp

lemma length_gets_line: "length (gets_line k input) \<le> k"
  by (induction k input rule: gets_line.induct) auto

lemma atoi_from_bytes:
  "cstring m p s \<Longrightarrow> atoi_from m p n = Some (foldl (\<lambda>n c. n * 10 + ucast c - 48) n (takeWhile (\<lambda>c. 48 \<le> c \<and> c \<le> 57) s))"
proof (induction s arbitrary: p n)
  case Nil
  then show ?case by (subst atoi_from.simps) simp
next
  case (Cons c s)
  then show ?case by (subst atoi_from.simps) auto
qed

lemma atoi_cstring: "cstring m p s \<Longrightarrow> atoi m p = Some (atoi_bytes s)"
  by (simp add: atoi_def atoi_bytes_def atoi_from_bytes)

section \<open>Printing integers\<close>

definition digit_value :: "u8 \<Rightarrow> nat" where
  "digit_value c = (if c < 58 then unat c - 48 else unat c - 55)"

definition number :: "nat \<Rightarrow> u8 list \<Rightarrow> nat" where
  "number base ds = foldl (\<lambda>n d. n * base + digit_value d) 0 ds"

lemma digits_value: "d < 16 \<Longrightarrow> digit_value (digits ! d) = d"
proof -
  have "\<forall>d \<in> set [0..<16]. digit_value (digits ! d) = d" by code_simp
  then show "d < 16 \<Longrightarrow> digit_value (digits ! d) = d" by simp
qed

lemma number_snoc: "number base (ds @ [d]) = number base ds * base + digit_value d"
  by (simp add: number_def)

lemma number_printint_buf:
  "1 < base \<Longrightarrow> base \<le> 16 \<Longrightarrow> number base (rev (printint_buf base x)) = x"
proof (induction base x rule: printint_buf.induct)
  case (1 base x)
  have "digit_value (digits ! (x mod base)) = x mod base" using "1.prems" by (intro digits_value) (meson less_le_trans mod_less_divisor less_trans zero_less_one)
  moreover have "x div base * base + x mod base = x" by simp
  moreover have "x div base = 0 \<Longrightarrow> x mod base = x" using div_mult_mod_eq [of x base] by simp
  ultimately show ?case
    using 1 by (subst printint_buf.simps) (auto simp: number_snoc, simp add: number_def)
qed

lemma length_printint_buf: "1 < base \<Longrightarrow> x < base ^ Suc k \<Longrightarrow> length (printint_buf base x) \<le> Suc k"
proof (induction k arbitrary: x)
  case 0
  then show ?case by (subst printint_buf.simps) simp
next
  case (Suc k)
  then have "x div base < base ^ Suc k" by (simp add: less_mult_imp_div_less mult.commute)
  then show ?case using Suc by (subst printint_buf.simps) auto
qed

lemma printint_unsigned: "printint_u xx base False = rev (printint_buf base (unat xx))"
  by (simp add: printint_u_def)

lemma uint_neg_u32: "sint (x :: u32) < 0 \<Longrightarrow> int (unat (- x)) = - sint x"
proof -
  assume neg: "sint x < 0"
  then have "bit x 31" "x \<noteq> 0" using uint_lt2p [of x] by (auto simp: sint_u32 split: if_splits)
  then have "uint (- x) = 4294967296 - uint x"
    using uint_lt2p [of x] uint_0_iff [of x] by (simp add: uint_word_ariths zmod_zminus1_eq_if)
  then show ?thesis using \<open>bit x 31\<close> by (simp add: sint_u32)
qed



section \<open>Reading a printed number\<close>

lemma atoi_from_digits:
  assumes "cstring m p ds" "\<forall>d \<in> set ds. 48 \<le> d \<and> d \<le> 57"
  shows "atoi_from m p n = Some (foldl (\<lambda>n d. n * 10 + of_nat (digit_value d)) n ds)"
  using assms
proof (induction ds arbitrary: p n)
  case Nil
  then show ?case by (subst atoi_from.simps) simp
next
  case (Cons d ds)
  then have d: "48 \<le> d" "d \<le> 57" by auto
  then have "48 \<le> unat d" "d < 58" by (simp_all add: word_le_nat_alt word_less_nat_alt)
  then have "(ucast d - 48 :: u32) = of_nat (digit_value d)"
    by (simp add: digit_value_def of_nat_diff)
  then have eq: "n * 10 + ucast d - 48 = n * 10 + of_nat (digit_value d)"
    by (metis add_diff_eq)
  have "atoi_from m p n = atoi_from m (p + 1) (n * 10 + ucast d - 48)"
    using Cons.prems d by (subst atoi_from.simps) simp
  also have "\<dots> = atoi_from m (p + 1) (n * 10 + of_nat (digit_value d))" by (simp only: eq)
  finally show ?case using Cons.IH [of "p + 1"] Cons.prems by simp
qed

lemma foldl_of_nat:
  "foldl (\<lambda>n d. n * 10 + of_nat (digit_value d)) (of_nat k :: u32) ds = of_nat (foldl (\<lambda>n d. n * 10 + digit_value d) k ds)"
proof (induction ds arbitrary: k)
  case (Cons d ds)
  then show ?case using Cons.IH [of "k * 10 + digit_value d"] by simp
qed simp

lemma decimal_digits: "d \<in> set (printint_buf 10 x) \<Longrightarrow> 48 \<le> d \<and> d \<le> 57"
proof (induction x rule: less_induct)
  case (less x)
  have "\<forall>d \<in> set [0..<10]. 48 \<le> digits ! d \<and> digits ! d \<le> 57" by code_simp
  then have "48 \<le> digits ! (x mod 10) \<and> digits ! (x mod 10) \<le> 57" by simp
  then show ?case using less.IH [of "x div 10"] less.prems
    by (subst (asm) printint_buf.simps) (auto split: if_splits)
qed

text \<open>A number that has been printed is read back: \<open>atoi\<close> of the decimal digits that \<open>printint\<close> writes for an unsigned
  value is that value.\<close>

lemma printint_atoi: "cstring m p (printint_u xx 10 False) \<Longrightarrow> atoi m p = Some xx"
  using atoi_from_digits [of m p "printint_u xx 10 False" 0] number_printint_buf [of 10 "unat xx"] foldl_of_nat [of 0]
  by (simp add: atoi_def printint_unsigned decimal_digits number_def)

theorem printint_atoi_witness: "atoi ((\<lambda>_. 0)(8 := 52, 9 := 50)) 8 = Some 42"
proof -
  have "printint_u 42 10 False = [52, 50]" by code_simp
  then show ?thesis by (intro printint_atoi) simp
qed

end
