(* ===== verification/ShMain.thy ===== *)
theory ShMain
  imports ShParse UserLib
begin

text \<open>
  The shell around its parser (user/sh.c): reading a line with tab completion, the commands of a line, the built-in
  commands, and \<open>runcmd\<close>. System calls are modelled by what they deliver: the bytes \<open>read\<close> returns are a list, the
  current directory is the list of its entries, and a process is its table of open descriptors. A call that can fail
  asks a parameter whether it does.
\<close>

section \<open>Reading a line\<close>

definition is_valid_identifier_char :: "u8 \<Rightarrow> bool" where
  "is_valid_identifier_char c \<longleftrightarrow>
     (c \<ge> 65 \<and> c \<le> 90) \<or> (c \<ge> 97 \<and> c \<le> 122) \<or> (c \<ge> 48 \<and> c \<le> 57) \<or> c = 95 \<or> c = 46 \<or> c = 45"

text \<open>The bytes of a buffer up to its first zero, and \<open>strcpy\<close> into a buffer at an index: writing past its end is
  undefined.\<close>

definition cbytes :: "u8 list \<Rightarrow> u8 list" where
  "cbytes buf = takeWhile (\<lambda>c. c \<noteq> 0) buf"

definition buf_strcpy :: "u8 list \<Rightarrow> nat \<Rightarrow> u8 list \<Rightarrow> u8 list result" where
  "buf_strcpy buf i s =
     (if i + length s < length buf then Ok (take i buf @ s @ 0 # drop (i + length s + 1) buf)
      else Undef ''strcpy past the end of the buffer'')"

text \<open>The word at the end of a C string, as the index at which it starts. The loop also looks at the byte before
  the buffer, but the position it returns does not depend on it.\<close>

definition find_last_word :: "u8 list \<Rightarrow> nat" where
  "find_last_word s = length s - length (takeWhile is_valid_identifier_char (rev s))"

text \<open>An entry of the current directory: its inode number, its name, and whether \<open>stat\<close> succeeds on it.\<close>

type_synonym dir_entry = "u16 \<times> u8 list \<times> bool"

text \<open>The loop of \<open>tab_completion\<close>: the first entry whose last word begins with the last word of the line.\<close>

fun complete :: "u8 list \<Rightarrow> dir_entry list \<Rightarrow> u8 list option" where
  "complete last_word [] = None"
| "complete last_word ((inum, name, stats) # des) =
     (let buf = [46, 47] @ cbytes (take 14 name);
          w = drop (find_last_word buf) buf
      in if inum = 0 \<or> \<not> stats then complete last_word des
         else if drop (length buf - 2) buf \<noteq> [47, 46] \<and> drop (length buf - 3) buf \<noteq> [47, 46, 46] \<and>
                 take (length last_word) w = last_word
         then Some w
         else complete last_word des)"

text \<open>\<open>tab_completion\<close> on the command buffer; the directory is \<open>None\<close> when it cannot be opened or is no directory.\<close>

definition tab_completion :: "dir_entry list option \<Rightarrow> u8 list \<Rightarrow> (nat \<times> u8 list) result" where
  "tab_completion dir cmdbuf =
     (let s = cbytes cmdbuf; i = find_last_word s; last_word = drop i s
      in case dir of
           None \<Rightarrow> Ok (0, cmdbuf)
         | Some des \<Rightarrow>
             (case complete last_word des of
                None \<Rightarrow> Ok (0, cmdbuf)
              | Some w \<Rightarrow>
                  andthen (buf_strcpy cmdbuf i w) (\<lambda>cmdbuf. Ok (length w - length last_word, cmdbuf))))"

fun get_loop :: "dir_entry list option \<Rightarrow> u8 list \<Rightarrow> nat \<Rightarrow> u8 list \<Rightarrow> (u8 list \<times> nat \<times> u8 list) result" where
  "get_loop dir buf i [] = Ok (buf, i, [])"
| "get_loop dir buf i (c # input) =
     (if i + 1 < length buf then
        if c = 9 then
          andthen (tab_completion dir buf) (\<lambda>(added, buf). get_loop dir buf (i + added) input)
        else
          let buf = buf[i := c]
          in if c = 10 \<or> c = 13 then Ok (buf, i + 1, input) else get_loop dir buf (i + 1) input
      else Ok (buf, i, c # input))"

text \<open>\<open>get_oneline_of_cmd\<close> on a buffer of \<open>nbuf\<close> bytes: the line, or \<open>None\<close> at the end of the input, and the input left.\<close>

definition get_oneline_of_cmd :: "dir_entry list option \<Rightarrow> nat \<Rightarrow> u8 list \<Rightarrow> (u8 list option \<times> u8 list) result" where
  "get_oneline_of_cmd dir nbuf input =
     andthen (get_loop dir (replicate nbuf 0) 0 input) (\<lambda>(buf, i, input).
     if i < length buf then
       let s = cbytes (buf[i := 0]) in Ok (if s = [] then None else Some s, input)
     else Undef ''write past the end of the buffer'')"

section \<open>The commands of a line\<close>

text \<open>What \<open>process_one_cmd\<close> does with a command: change the directory, sleep, or parse and run it in a child.\<close>

datatype action = Chdir "u8 list" | Wait u32 | Run "(pcmd \<times> u8 list) result"

definition process_one_cmd :: "u8 list \<Rightarrow> action" where
  "process_one_cmd s =
     (if take 3 s = [99, 100, 32] then Chdir (drop 3 (butlast s))
      else if take 5 s = [119, 97, 105, 116, 32] then Wait (atoi_bytes (drop 5 s))
      else Run (parsecmd s))"

text \<open>The loop of \<open>main\<close> over one line: every semicolon ends a command.\<close>

fun main_line :: "u8 list \<Rightarrow> u8 list \<Rightarrow> action list" where
  "main_line cmdstart [] = [process_one_cmd cmdstart]"
| "main_line cmdstart (c # p) =
     (if c = 59 then process_one_cmd cmdstart # main_line [] p else main_line (cmdstart @ [c]) p)"

section \<open>Running a command\<close>

text \<open>What a descriptor of a process refers to: what it inherited, an opened file, or an end of a pipe.\<close>

datatype handle = Inherited nat | Opened "u8 list" int | PipeRead nat | PipeWrite nat

type_synonym fdtable = "nat \<Rightarrow> handle option"

definition close_fd :: "nat \<Rightarrow> fdtable \<Rightarrow> fdtable" where
  "close_fd fd fds = fds(fd := None)"

definition fdalloc_u :: "fdtable \<Rightarrow> nat option" where
  "fdalloc_u fds = List.find (\<lambda>fd. fds fd = None) [0..<16]"

definition dup_fd :: "nat \<Rightarrow> fdtable \<Rightarrow> fdtable" where
  "dup_fd fd fds =
     (case (fds fd, fdalloc_u fds) of (Some h, Some d) \<Rightarrow> fds(d := Some h) | _ \<Rightarrow> fds)"

text \<open>
  \<open>runcmd\<close>: the programs it executes, each with its argument strings and the descriptors it starts with, in the
  order in which the processes are made. The \<open>n\<close>-th fallible system call succeeds when \<open>ok n\<close> holds; the
  number of the call also names a pipe.
\<close>

fun runcmd :: "(nat \<Rightarrow> bool) \<Rightarrow> u8 list cmd \<Rightarrow> fdtable \<Rightarrow> nat \<Rightarrow> (u8 list list \<times> fdtable) list \<times> nat" where
  "runcmd ok (EXEC argv) fds n = (if argv = [] then ([], n) else ([(argv, fds)], n))"
| "runcmd ok (REDIR c file mode fd) fds n =
     (let fds = close_fd (nat fd) fds
      in case fdalloc_u fds of
           Some d \<Rightarrow> if ok n then runcmd ok c (fds(d := Some (Opened file mode))) (n + 1) else ([], n + 1)
         | None \<Rightarrow> ([], n + 1))"
| "runcmd ok (LIST l r) fds n =
     (if \<not> ok n then ([], n + 1)
      else case runcmd ok l fds (n + 1) of (xs, n) \<Rightarrow>
           case runcmd ok r fds n of (ys, n) \<Rightarrow> (xs @ ys, n))"
| "runcmd ok (PIPE l r) fds n =
     (case fdalloc_u fds of None \<Rightarrow> ([], n + 1) | Some p0 \<Rightarrow>
      case fdalloc_u (fds(p0 := Some (PipeRead n))) of None \<Rightarrow> ([], n + 1) | Some p1 \<Rightarrow>
      if \<not> ok n then ([], n + 1)
      else
        let fds' = fds(p0 := Some (PipeRead n), p1 := Some (PipeWrite n))
        in if \<not> ok (n + 1) then ([], n + 2)
           else case runcmd ok l (close_fd p1 (close_fd p0 (dup_fd p1 (close_fd 1 fds')))) (n + 2) of (xs, m) \<Rightarrow>
                if \<not> ok m then (xs, m + 1)
                else case runcmd ok r (close_fd p1 (close_fd p0 (dup_fd p0 (close_fd 0 fds')))) (m + 1) of (ys, m) \<Rightarrow>
                     (xs @ ys, m))"
| "runcmd ok (BACK c) fds n = (if \<not> ok n then ([], n + 1) else runcmd ok c fds (n + 1))"

section \<open>Descriptors\<close>

text \<open>A process with standard input, output and error, and nothing else open.\<close>

definition std_fds :: "fdtable \<Rightarrow> bool" where
  "std_fds fds \<longleftrightarrow> dom fds = {0, 1, 2}"

lemma std_fdsD: "std_fds fds \<Longrightarrow> fds k = None \<longleftrightarrow> k \<noteq> 0 \<and> k \<noteq> 1 \<and> k \<noteq> 2"
  by (metis domIff insert_iff singletonD std_fds_def)

lemma std_fds_upd: "std_fds fds \<Longrightarrow> fd = 0 \<or> fd = 1 \<Longrightarrow> std_fds (fds(fd := Some h))"
  by (auto simp: std_fds_def)

lemma fdalloc_lowest:
  assumes "fds d = None" "d < 16" "\<forall>k < d. fds k \<noteq> None"
  shows "fdalloc_u fds = Some d"
  unfolding fdalloc_u_def using assms by (intro find_Some_iff [THEN iffD2] exI [of _ d]) simp

lemma redir_fds:
  assumes "std_fds fds" "fd = 0 \<or> fd = 1"
  shows "fdalloc_u (close_fd fd fds) = Some fd" "std_fds ((close_fd fd fds)(fd := Some h))"
proof -
  show "fdalloc_u (close_fd fd fds) = Some fd"
    using assms(2) by (intro fdalloc_lowest) (auto simp: close_fd_def std_fdsD [OF assms(1)] simp del: not_None_eq)
  show "std_fds ((close_fd fd fds)(fd := Some h))" using std_fds_upd [OF assms] by (simp add: close_fd_def)
qed

lemma pipe_fds:
  assumes "std_fds fds"
  shows "fdalloc_u fds = Some 3" "fdalloc_u (fds(3 := Some h)) = Some 4"
    "close_fd 4 (close_fd 3 (dup_fd 4 (close_fd 1 (fds(3 := Some a, 4 := Some b))))) = fds(1 := Some b)"
    "close_fd 4 (close_fd 3 (dup_fd 3 (close_fd 0 (fds(3 := Some a, 4 := Some b))))) = fds(0 := Some a)"
proof -
  note none = std_fdsD [OF assms]
  show "fdalloc_u fds = Some 3" by (intro fdalloc_lowest) (auto simp: none simp del: not_None_eq)
  show "fdalloc_u (fds(3 := Some h)) = Some 4" by (intro fdalloc_lowest) (auto simp: none simp del: not_None_eq)
  have d1: "fdalloc_u (close_fd 1 (fds(3 := Some a, 4 := Some b))) = Some 1"
    by (intro fdalloc_lowest) (auto simp: close_fd_def none simp del: not_None_eq)
  have d0: "fdalloc_u (close_fd 0 (fds(3 := Some a, 4 := Some b))) = Some 0"
    by (intro fdalloc_lowest) (simp_all add: close_fd_def)
  have free: "fds 3 = None" "fds 4 = None" by (simp_all add: none)
  show "close_fd 4 (close_fd 3 (dup_fd 4 (close_fd 1 (fds(3 := Some a, 4 := Some b))))) = fds(1 := Some b)"
    using d1 free by (auto simp: dup_fd_def close_fd_def fun_eq_iff)
  show "close_fd 4 (close_fd 3 (dup_fd 3 (close_fd 0 (fds(3 := Some a, 4 := Some b))))) = fds(0 := Some a)"
    using d0 free by (auto simp: dup_fd_def close_fd_def fun_eq_iff)
qed

definition job_ok :: "u8 list list \<times> fdtable \<Rightarrow> bool" where
  "job_ok = (\<lambda>(argv, fds). argv \<noteq> [] \<and> std_fds fds)"

lemma runcmd_std:
  "wf_cmd W c \<Longrightarrow> std_fds fds \<Longrightarrow> list_all job_ok (fst (runcmd ok c fds n))"
proof (induction c arbitrary: fds n)
  case (EXEC argv)
  then show ?case by (simp add: job_ok_def)
next
  case (REDIR c w mode fd)
  have "nat fd = 0 \<or> nat fd = 1" using REDIR.prems(1) by auto
  note r = redir_fds [OF REDIR.prems(2) this]
  have "wf_cmd W c" using REDIR.prems(1) by simp
  then show ?case using r(1) REDIR.IH [OF _ r(2), of "Opened w mode" "n + 1"] by (simp add: Let_def del: fun_upd_apply)
next
  case (PIPE l r)
  note p = pipe_fds [OF PIPE.prems(2)]
  have w: "wf_cmd W l" "wf_cmd W r" using PIPE.prems(1) by simp_all
  have std: "std_fds (fds(1 := Some h))" "std_fds (fds(0 := Some h))" for h by (rule std_fds_upd [OF PIPE.prems(2)]; simp)+
  note jobs = PIPE.IH(1) [OF w(1) std(1)] PIPE.IH(2) [OF w(2) std(2)]
  show ?case by (simp add: Let_def split_beta p jobs del: fun_upd_apply One_nat_def)
next
  case (LIST l r)
  then show ?case by (simp add: split_beta)
next
  case (BACK c)
  then show ?case by simp
qed


text \<open>The command \<open>a <b | c\<close>, run by a shell whose calls all succeed.\<close>

definition demo_run :: "u8 list cmd" where
  "demo_run = PIPE (REDIR (EXEC [[97]]) [98] 0 0) (EXEC [[99]])"

definition shell_fds :: fdtable where
  "shell_fds = (\<lambda>fd. if fd < 3 then Some (Inherited fd) else None)"


section \<open>Lists and directories in a line\<close>

text \<open>\<open>main\<close> splits a line at every semicolon, also inside parentheses, so no list in parentheses reaches the parser:
  the line \<open>(a;b)\<close> gives two commands, and both are rejected.\<close>

lemma parenthesised_list_rejected:
  "main_line [] [40, 97, 59, 98, 41, 10] = [Run (Panic ''syntax - missing )''), Run (Panic ''syntax'')]"
  by code_simp

text \<open>\<open>process_one_cmd\<close> removes the last byte of every directory name, the newline; but only the last command of
  a line ends in one: \<open>cd ab;ls\<close> changes to the directory \<open>a\<close>.\<close>

lemma cd_before_semicolon:
  "hd (main_line [] [99, 100, 32, 97, 98, 59, 108, 115, 10]) = Chdir [97]"
  by code_simp

lemma main_line_plain: "59 \<notin> set s \<Longrightarrow> main_line cs s = [process_one_cmd (cs @ s)]"
  by (induction s arbitrary: cs) auto

text \<open>A line of commands that are separated by semicolons is processed command by command.\<close>

lemma main_line_append:
  "59 \<notin> set s \<Longrightarrow> main_line cs (s @ 59 # p) = process_one_cmd (cs @ s) # main_line [] p"
  by (induction s arbitrary: cs) auto

section \<open>The line buffer\<close>

text \<open>Without tabs the line that is read is the input up to its first line end, cut to the buffer, and the rest of the
  input stays.\<close>

lemma get_loop_plain:
  assumes "9 \<notin> set input" "i < length buf"
  defines "line \<equiv> \<lambda>i buf input. gets_line (length buf - 1 - i) input"
  shows "get_loop dir buf i input =
    Ok (take i buf @ line i buf input @ drop (i + length (line i buf input)) buf, i + length (line i buf input),
        drop (length (line i buf input)) input)"
  using assms(1,2)
proof (induction input arbitrary: buf i)
  case Nil
  then show ?case by (simp add: line_def)
next
  case (Cons c input)
  have upd: "buf[i := c] = take i buf @ c # drop (Suc i) buf" using Cons.prems by (intro upd_conv_take_nth_drop) simp
  have len: "length (buf[i := c]) = length buf" by simp
  show ?case
  proof (cases "i + 1 < length buf \<and> c \<noteq> 10 \<and> c \<noteq> 13")
    case True
    then have "line i buf (c # input) = c # line (i + 1) (buf[i := c]) input" by (simp add: line_def numeral_2_eq_2)
    moreover have "take (i + 1) (buf[i := c]) = take i buf @ [c]" "drop (i + 1 + k) (buf[i := c]) = drop (i + 1 + k) buf" for k
      using Cons.prems unfolding upd by (auto simp: ac_simps)
    ultimately show ?thesis using Cons.IH [of "i + 1" "buf[i := c]"] Cons.prems True len by simp
  next
    case False
    then show ?thesis using Cons.prems upd by (auto simp: line_def not_less)
  qed
qed

lemma set_gets_line: "set (gets_line k input) \<subseteq> set input"
  by (induction k input rule: gets_line.induct) auto

lemma get_oneline_plain:
  assumes "9 \<notin> set input" "0 \<notin> set input" "0 < nbuf"
  shows "get_oneline_of_cmd dir nbuf input =
    Ok (if input = [] \<or> nbuf = 1 then None else Some (gets_line (nbuf - 1) input), drop (length (gets_line (nbuf - 1) input)) input)"
proof -
  define xs where "xs = gets_line (nbuf - 1) input"
  have len: "length xs < nbuf" using length_gets_line [of "nbuf - 1" input] assms(3) by (simp add: xs_def)
  have z: "\<forall>x \<in> set xs. x \<noteq> 0" using set_gets_line [of "nbuf - 1" input] assms(2) by (auto simp: xs_def)
  have "cbytes ((xs @ replicate (nbuf - length xs) 0)[length xs := 0]) = xs"
    using len z by (cases "nbuf - length xs") (simp_all add: cbytes_def takeWhile_append2)
  moreover have "xs = [] \<longleftrightarrow> input = [] \<or> nbuf = 1"
    using assms(3) by (cases input) (auto simp: xs_def split: if_splits)
  moreover have "get_loop dir (replicate nbuf 0) 0 input = Ok (xs @ replicate (nbuf - length xs) 0, length xs, drop (length xs) input)"
    using get_loop_plain [OF assms(1), of 0 "replicate nbuf 0" dir] assms(3) by (simp add: xs_def)
  ultimately have "get_oneline_of_cmd dir nbuf input = Ok (if input = [] \<or> nbuf = 1 then None else Some xs, drop (length xs) input)"
    using len by (simp add: get_oneline_of_cmd_def Let_def)
  then show ?thesis by (simp add: xs_def)
qed

end
