(* ===== verification/Primes.thy ===== *)
theory Primes
  imports Proc
begin

text \<open>
  The program \<open>primes\<close> (user/primes.c): a chain of processes that sieve the numbers 2 to 35. Each process reads its
  whole input, writes what it keeps to the pipe to the next process, and only then starts that process. A pipe holds
  512 bytes and a number takes four; a process that writes more than that sleeps for ever, since nothing reads the pipe yet.
\<close>

section \<open>Definitions\<close>

text \<open>How the chain ends: every process has exited normally, one has exited with an error because \<open>pipe\<close> or \<open>fork\<close>
  failed, or one sleeps in \<open>write\<close>.\<close>

datatype ending = Done | Failed | Blocked

abbreviation (input) pipe_full :: "int list \<Rightarrow> bool" where
  "pipe_full ns \<equiv> 4 * length ns > 512"

text \<open>\<open>process\<close>: the numbers that it and the processes after it print. The pipe from the left is the list of the
  numbers in it; after them it is at its end, since every write end is closed. The \<open>n\<close>-th call of \<open>pipe\<close> or
  \<open>fork\<close> succeeds when \<open>ok n\<close> holds, and \<open>pipe\<close> also needs two of the \<open>k\<close> free descriptors of the process. The child
  inherits both ends and the read end of the pipe from the left, which it never closes: it closes only the write end, so
  every process of the chain has one free descriptor less than the one before.\<close>

function process :: "(nat \<Rightarrow> bool) \<Rightarrow> nat \<Rightarrow> nat \<Rightarrow> int list \<Rightarrow> int list \<times> ending" where
  "process ok n k lpipe =
     (case lpipe of
        [] \<Rightarrow> ([], Done)
      | first # nums \<Rightarrow>
          let rpipe = filter (\<lambda>num. num mod first \<noteq> 0) nums
          in if k < 2 \<or> \<not> ok n then ([first], Failed)
             else if pipe_full rpipe then ([first], Blocked)
             else if \<not> ok (n + 1) then ([first], Failed)
             else case process ok (n + 2) (k - 1) rpipe of (printed, e) \<Rightarrow> (first # printed, e))"
  by pat_completeness auto
termination
  by (relation "measure (\<lambda>(_, _, _, lpipe). length lpipe)") (auto simp: less_Suc_eq_le)

declare process.simps [simp del]

text \<open>\<open>main\<close>: descriptors 0 to 2 are open, and in the child the read end of the pipe.\<close>

definition primes_main :: "(nat \<Rightarrow> bool) \<Rightarrow> int list \<times> ending" where
  "primes_main ok =
     (let lpipe = [2..35]
      in if \<not> ok 0 then ([], Failed)
         else if pipe_full lpipe then ([], Blocked)
         else if \<not> ok 1 then ([], Failed)
         else process ok 2 (NOFILE - 4) lpipe)"

section \<open>The sieve prints the primes\<close>

definition is_prime :: "int \<Rightarrow> bool" where
  "is_prime p \<longleftrightarrow> 2 \<le> p \<and> (\<forall>d. 2 \<le> d \<and> d < p \<longrightarrow> \<not> d dvd p)"

text \<open>The numbers from \<open>a\<close> to \<open>m\<close> that no number from 2 up to \<open>a\<close> divides: what reaches the process that deals with \<open>a\<close>.\<close>

definition left_for :: "int \<Rightarrow> int \<Rightarrow> int list" where
  "left_for a m = filter (\<lambda>x. \<forall>d. 2 \<le> d \<and> d < a \<longrightarrow> \<not> d dvd x) [a..m]"

lemma left_for_next:
  assumes "2 \<le> a"
  shows "left_for (a + 1) m = filter (\<lambda>x. \<not> a dvd x) (filter (\<lambda>x. \<forall>d. 2 \<le> d \<and> d < a \<longrightarrow> \<not> d dvd x) [a + 1..m])"
  unfolding left_for_def filter_filter
proof (rule filter_cong [OF refl])
  fix x
  have "2 \<le> d \<and> d < a + 1 \<longleftrightarrow> (2 \<le> d \<and> d < a) \<or> d = a" for d using assms by auto
  then show "(\<forall>d. 2 \<le> d \<and> d < a + 1 \<longrightarrow> \<not> d dvd x) = ((\<forall>d. 2 \<le> d \<and> d < a \<longrightarrow> \<not> d dvd x) \<and> \<not> a dvd x)" by auto
qed

lemma left_for_prime:
  assumes "is_prime a" "a \<le> m"
  shows "left_for a m = a # filter (\<lambda>x. \<forall>d. 2 \<le> d \<and> d < a \<longrightarrow> \<not> d dvd x) [a + 1..m]"
  using assms by (simp add: left_for_def is_prime_def upto_rec1)

lemma left_for_composite:
  assumes "2 \<le> a" "\<not> is_prime a"
  shows "left_for a m = left_for (a + 1) m"
proof -
  obtain d where d: "2 \<le> d" "d < a" "d dvd a" using assms by (auto simp: is_prime_def)
  have "left_for a m = filter (\<lambda>x. \<forall>d. 2 \<le> d \<and> d < a \<longrightarrow> \<not> d dvd x) [a + 1..m]"
    using d by (cases "a \<le> m") (auto simp: left_for_def upto_rec1)
  also have "\<dots> = left_for (a + 1) m"
    unfolding left_for_next [OF assms(1)] filter_filter using d dvd_trans by (intro filter_cong) auto
  finally show ?thesis .
qed

lemma length_left_for: "length (left_for a m) \<le> nat (m - a + 1)"
  unfolding left_for_def by (rule order_trans [OF length_filter_le]) simp

lemma process_primes:
  assumes "2 \<le> a" "m \<le> 129" "\<forall>n. ok n" "length (filter is_prime [a..m]) < k"
  shows "process ok n k (left_for a m) = (filter is_prime [a..m], Done)"
  using assms(1,4)
proof (induction "nat (m + 1 - a)" arbitrary: a n k)
  case 0
  then have "[a..m] = []" by simp
  then show ?case by (simp add: left_for_def process.simps)
next
  case (Suc d)
  then have le: "a \<le> m" by simp
  have IH: "process ok j i (left_for (a + 1) m) = (filter is_prime [a + 1..m], Done)"
    if "length (filter is_prime [a + 1..m]) < i" for i j
    using Suc that by (intro Suc.hyps(1)) auto
  show ?case
  proof (cases "is_prime a")
    case True
    have "length (left_for (a + 1) m) \<le> 128" using length_left_for [of "a + 1" m] Suc.prems assms(2) by simp
    moreover define rest where "rest = filter (\<lambda>x. \<forall>d. 2 \<le> d \<and> d < a \<longrightarrow> \<not> d dvd x) [a + 1..m]"
    have r: "left_for a m = a # rest" "left_for (a + 1) m = filter (\<lambda>x. \<not> a dvd x) rest"
      unfolding rest_def by (rule left_for_prime [OF True le], rule left_for_next [OF Suc.prems(1)])
    have "filter (\<lambda>num. num mod a \<noteq> 0) rest = left_for (a + 1) m"
      unfolding r(2) by (rule filter_cong [OF refl]) (simp add: dvd_eq_mod_eq_0)
    moreover have k: "2 \<le> k" "length (filter is_prime [a + 1..m]) < k - 1"
      using Suc.prems(2) True unfolding upto_rec1 [OF le] by simp_all
    ultimately show ?thesis
      using assms(3) IH [OF k(2), of "n + 2"] k(1) unfolding r(1) process.simps [of ok n k "a # rest"] upto_rec1 [OF le]
      by (simp add: True Let_def)
  next
    case False
    then show ?thesis
      using IH [of k n] left_for_composite [OF Suc.prems(1)] Suc.prems(2) unfolding upto_rec1 [OF le] by simp
  qed
qed

lemma is_prime_code: "is_prime p \<longleftrightarrow> 2 \<le> p \<and> (\<forall>d \<in> set [2..p - 1]. \<not> d dvd p)"
  by (auto simp: is_prime_def)

lemma eleven_primes: "filter is_prime [2..35] = [2, 3, 5, 7, 11, 13, 17, 19, 23, 29, 31]"
  by (simp add: is_prime_code del: set_upto)



end
