(* ===== verification/Pingpong.thy ===== *)
theory Pingpong
  imports Prelude
begin

text \<open>
  The program \<open>pingpong\<close> (user/pingpong.c): two processes that send each other a byte through two pipes, as a machine
  whose steps are the system calls of either process, in any interleaving. A call to \<open>read\<close> waits while its pipe is
  empty and somebody holds its write end open, and fails when nobody does; \<open>write\<close> fails when nobody holds the read end
  open. A process that exits gives up its descriptors.
\<close>

section \<open>Definitions\<close>

datatype who = Father | Son

datatype ppipe = F2S | S2F

datatype pend = RD | WR

datatype ppcall = CloseEnd ppipe pend | WriteByte ppipe u8 | ReadByte ppipe | PrintLine string | WaitChild | Exit nat

text \<open>The branches of the two processes behind \<open>fork\<close>, both calls of \<open>pipe\<close> and \<open>fork\<close> having succeeded.\<close>

definition father :: "ppcall list" where
  "father = [CloseEnd F2S RD, CloseEnd S2F WR, WriteByte F2S 102, CloseEnd F2S WR, ReadByte S2F,
     PrintLine ''received pong'', WaitChild, Exit 0]"

definition son :: "ppcall list" where
  "son = [CloseEnd F2S WR, CloseEnd S2F RD, ReadByte F2S, PrintLine ''received ping'', CloseEnd F2S RD,
     WriteByte S2F 115, CloseEnd S2F WR, Exit 0]"

record ppst =
  code :: "who \<Rightarrow> ppcall list"
  fds :: "(who \<times> ppipe \<times> pend) set"
  bytes_in :: "ppipe \<Rightarrow> u8 list"
  printed :: "(who \<times> string) list"
  status :: "who \<Rightarrow> nat option"

definition pp_start :: ppst where
  "pp_start = \<lparr>code = (\<lambda>w. case w of Father \<Rightarrow> father | Son \<Rightarrow> son), fds = UNIV, bytes_in = (\<lambda>_. []), printed = [],
     status = (\<lambda>_. None)\<rparr>"

definition has_end :: "ppst \<Rightarrow> ppipe \<Rightarrow> pend \<Rightarrow> bool" where
  "has_end s p e \<longleftrightarrow> (Father, p, e) \<in> fds s \<or> (Son, p, e) \<in> fds s"

definition other :: "who \<Rightarrow> who" where
  "other w = (case w of Father \<Rightarrow> Son | Son \<Rightarrow> Father)"

definition exits :: "who \<Rightarrow> nat \<Rightarrow> ppst \<Rightarrow> ppst" where
  "exits w n s = s\<lparr>code := (code s)(w := []), fds := {(v, p, e) \<in> fds s. v \<noteq> w}, status := (status s)(w := Some n)\<rparr>"

text \<open>One call of process \<open>w\<close>; \<open>None\<close> when it waits or has exited.\<close>

fun pp_call :: "who \<Rightarrow> ppcall \<Rightarrow> ppcall list \<Rightarrow> ppst \<Rightarrow> ppst option" where
  "pp_call w (CloseEnd p e) is s = Some (s\<lparr>code := (code s)(w := is), fds := fds s - {(w, p, e)}\<rparr>)"
| "pp_call w (WriteByte p b) is s =
     (if has_end s p RD then Some (s\<lparr>code := (code s)(w := is), bytes_in := (bytes_in s)(p := bytes_in s p @ [b])\<rparr>)
      else Some (exits w 1 s))"
| "pp_call w (ReadByte p) is s =
     (case bytes_in s p of
        b # bs \<Rightarrow> Some (s\<lparr>code := (code s)(w := is), bytes_in := (bytes_in s)(p := bs)\<rparr>)
      | [] \<Rightarrow> if has_end s p WR then None else Some (exits w 1 s))"
| "pp_call w (PrintLine l) is s = Some (s\<lparr>code := (code s)(w := is), printed := printed s @ [(w, l)]\<rparr>)"
| "pp_call w WaitChild is s = (if status s (other w) = None then None else Some (s\<lparr>code := (code s)(w := is)\<rparr>))"
| "pp_call w (Exit n) is s = Some (exits w n s)"

inductive pp_step :: "ppst \<Rightarrow> ppst \<Rightarrow> bool" where
  call: "code s w = i # is \<Longrightarrow> pp_call w i is s = Some t \<Longrightarrow> pp_step s t"

inductive_cases pp_stepE: "pp_step s t"

inductive pp_reach :: "ppst \<Rightarrow> bool" where
  start: "pp_reach pp_start"
| step: "pp_reach s \<Longrightarrow> pp_step s t \<Longrightarrow> pp_reach t"

section \<open>No deadlock\<close>

text \<open>The number of calls after which a process has given up an end of a pipe, and the state after \<open>i\<close> calls of the
  father and \<open>j\<close> of the son.\<close>

fun gone_after :: "who \<Rightarrow> ppipe \<Rightarrow> pend \<Rightarrow> nat" where
  "gone_after Father F2S RD = 1"
| "gone_after Father S2F WR = 2"
| "gone_after Father F2S WR = 4"
| "gone_after Father S2F RD = 8"
| "gone_after Son F2S WR = 1"
| "gone_after Son S2F RD = 2"
| "gone_after Son F2S RD = 5"
| "gone_after Son S2F WR = 7"

definition pp_at :: "nat \<Rightarrow> nat \<Rightarrow> ppst" where
  "pp_at i j =
     \<lparr>code = (\<lambda>w. case w of Father \<Rightarrow> drop i father | Son \<Rightarrow> drop j son),
      fds = {(v, p, e). (case v of Father \<Rightarrow> i | Son \<Rightarrow> j) < gone_after v p e},
      bytes_in = (\<lambda>p. case p of F2S \<Rightarrow> if 3 \<le> i \<and> j < 3 then [102] else [] | S2F \<Rightarrow> if 6 \<le> j \<and> i < 5 then [115] else []),
      printed = (if 4 \<le> j then [(Son, ''received ping'')] else []) @ (if 6 \<le> i then [(Father, ''received pong'')] else []),
      status = (\<lambda>w. case w of Father \<Rightarrow> if i = 8 then Some 0 else None | Son \<Rightarrow> if j = 8 then Some 0 else None)\<rparr>"

definition pp_legal :: "nat \<Rightarrow> nat \<Rightarrow> bool" where
  "pp_legal i j \<longleftrightarrow> i \<le> 8 \<and> j \<le> 8 \<and> (3 \<le> j \<longrightarrow> 3 \<le> i) \<and> (5 \<le> i \<longrightarrow> 6 \<le> j) \<and> (7 \<le> i \<longrightarrow> j = 8)"

lemma pp_start_at: "pp_start = pp_at 0 0"
proof -
  have "0 < gone_after v p e" for v p e by (cases v; cases p; cases e) auto
  then show ?thesis by (auto simp: pp_start_def pp_at_def fun_eq_iff split: who.splits ppipe.splits)
qed

lemma all_ends:
  "(\<forall>v. P v) \<longleftrightarrow> P Father \<and> P Son" "(\<forall>p. Q p) \<longleftrightarrow> Q F2S \<and> Q S2F" "(\<forall>e. R e) \<longleftrightarrow> R RD \<and> R WR"
  by (metis who.exhaust, metis ppipe.exhaust, metis pend.exhaust)

lemma pp_eqI:
  assumes "code s Father = code t Father" "code s Son = code t Son" "\<forall>v p e. (v, p, e) \<in> fds s \<longleftrightarrow> (v, p, e) \<in> fds t"
    "bytes_in s F2S = bytes_in t F2S" "bytes_in s S2F = bytes_in t S2F" "printed s = printed t"
    "status s Father = status t Father" "status s Son = status t Son"
  shows "s = (t :: ppst)"
proof -
  have "code s = code t" "status s = status t" "bytes_in s = bytes_in t" using assms by (simp_all add: fun_eq_iff all_ends)
  moreover have "fds s = fds t" using assms(3) by auto
  ultimately show ?thesis using assms(6) by simp
qed

lemma pp_at_simps [simp]:
  "code (pp_at i j) Father = drop i father" "code (pp_at i j) Son = drop j son"
  "(Father, p, e) \<in> fds (pp_at i j) \<longleftrightarrow> i < gone_after Father p e" "(Son, p, e) \<in> fds (pp_at i j) \<longleftrightarrow> j < gone_after Son p e"
  "bytes_in (pp_at i j) F2S = (if 3 \<le> i \<and> j < 3 then [102] else [])" "bytes_in (pp_at i j) S2F = (if 6 \<le> j \<and> i < 5 then [115] else [])"
  "printed (pp_at i j) = (if 4 \<le> j then [(Son, ''received ping'')] else []) @ (if 6 \<le> i then [(Father, ''received pong'')] else [])"
  "status (pp_at i j) Father = (if i = 8 then Some 0 else None)" "status (pp_at i j) Son = (if j = 8 then Some 0 else None)"
  by (simp_all add: pp_at_def)

lemmas pp_defs = all_ends pp_legal_def has_end_def exits_def other_def

lemma below_8:
  assumes "i < (8 :: nat)"
  obtains "i = 0" | "i = 1" | "i = 2" | "i = 3" | "i = 4" | "i = 5" | "i = 6" | "i = 7"
  using assms by linarith

lemma father_step:
  assumes "pp_legal i j" "code (pp_at i j) Father = c # cs" "pp_call Father c cs (pp_at i j) = Some t"
  shows "pp_legal (i + 1) j" "t = pp_at (i + 1) j"
proof -
  have lt: "i < 8" using assms(2) by (cases "i < 8") (auto simp: father_def)
  then show "pp_legal (i + 1) j"
    by (cases i rule: below_8) (use assms in \<open>auto simp: pp_defs father_def split: if_splits\<close>)
  show "t = pp_at (i + 1) j"
    by (rule below_8 [OF lt]; rule pp_eqI) (use assms in \<open>auto simp: pp_defs father_def split: if_splits\<close>)
qed

lemma son_step:
  assumes "pp_legal i j" "code (pp_at i j) Son = c # cs" "pp_call Son c cs (pp_at i j) = Some t"
  shows "pp_legal i (j + 1)" "t = pp_at i (j + 1)"
proof -
  have lt: "j < 8" using assms(2) by (cases "j < 8") (auto simp: son_def)
  then show "pp_legal i (j + 1)"
    by (cases j rule: below_8) (use assms in \<open>auto simp: pp_defs son_def split: if_splits\<close>)
  show "t = pp_at i (j + 1)"
    by (rule below_8 [OF lt]; rule pp_eqI) (use assms in \<open>auto simp: pp_defs son_def split: if_splits\<close>)
qed

lemma pp_reach_at: "pp_reach s \<Longrightarrow> \<exists>i j. pp_legal i j \<and> s = pp_at i j"
proof (induction rule: pp_reach.induct)
  case start
  then show ?case using pp_start_at by (intro exI [of _ 0]) (simp add: pp_legal_def)
next
  case (step s t)
  then obtain i j where ij: "pp_legal i j" "s = pp_at i j" by blast
  from step.hyps(2) obtain w c cs where c: "code s w = c # cs" "pp_call w c cs s = Some t" by (rule pp_stepE)
  show ?case using father_step [OF ij(1)] son_step [OF ij(1)] c unfolding ij(2) by (cases w) blast+
qed

lemma father_can:
  assumes "pp_legal i j" "i < 8" "i \<noteq> 4 \<or> 6 \<le> j" "i \<noteq> 6 \<or> j = 8"
  shows "\<exists>t. pp_step (pp_at i j) t"
proof -
  have "\<exists>c cs t. code (pp_at i j) Father = c # cs \<and> pp_call Father c cs (pp_at i j) = Some t"
    using assms(2) by (cases i rule: below_8) (use assms in \<open>auto simp: pp_defs father_def\<close>)
  then show ?thesis by (blast intro: pp_step.call)
qed

lemma son_can:
  assumes "pp_legal i j" "j < 8" "j \<noteq> 2 \<or> 3 \<le> i"
  shows "\<exists>t. pp_step (pp_at i j) t"
proof -
  have "\<exists>c cs t. code (pp_at i j) Son = c # cs \<and> pp_call Son c cs (pp_at i j) = Some t"
    using assms(2) by (cases j rule: below_8) (use assms in \<open>auto simp: pp_defs son_def\<close>)
  then show ?thesis by (blast intro: pp_step.call)
qed

text \<open>The calls that are left.\<close>

definition calls_left :: "ppst \<Rightarrow> nat" where
  "calls_left s = length (code s Father) + length (code s Son)"

lemma pp_step_left: "pp_step s t \<Longrightarrow> calls_left t < calls_left s"
proof (erule pp_stepE)
  fix w c cs assume "code s w = c # cs" "pp_call w c cs s = Some t"
  then show ?thesis by (cases w; cases c) (auto simp: calls_left_def exits_def split: if_splits list.splits)
qed

text \<open>
  C21. \<open>pingpong\<close> cannot deadlock: in every interleaving of the calls of the two processes some call can be made until both
  have exited without an error, the son has printed its line before the father, and nothing else is printed; and
  every call brings the end nearer, so every run ends.
\<close>

theorem pingpong_ends:
  assumes "pp_reach s"
  shows "((\<exists>t. pp_step s t) \<or>
      status s Father = Some 0 \<and> status s Son = Some 0 \<and> printed s = [(Son, ''received ping''), (Father, ''received pong'')]) \<and>
    (\<forall>t. pp_step s t \<longrightarrow> calls_left t < calls_left s)"
proof -
  obtain i j where ij: "pp_legal i j" "s = pp_at i j" using pp_reach_at [OF assms] by blast
  have "(\<exists>t. pp_step s t) \<or> i = 8 \<and> j = 8"
  proof (cases "j < 8 \<and> (j \<noteq> 2 \<or> 3 \<le> i)")
    case True
    then show ?thesis using son_can [OF ij(1)] ij(2) by blast
  next
    case False
    then show ?thesis using father_can [OF ij(1)] ij unfolding pp_legal_def by force
  qed
  moreover have "i = 8 \<and> j = 8 \<Longrightarrow> status s Father = Some 0 \<and> status s Son = Some 0 \<and>
      printed s = [(Son, ''received ping''), (Father, ''received pong'')]" by (simp add: ij(2))
  ultimately show ?thesis using pp_step_left by blast
qed

theorem pingpong_ends_witness:
  "pp_reach pp_start \<and> (\<exists>t. pp_step pp_start t)"
proof -
  have "status pp_start Father \<noteq> Some 0" by (simp add: pp_start_def)
  then show ?thesis using pingpong_ends [OF pp_reach.start] pp_reach.start by blast
qed

end
