(* ===== verification/Grep.thy ===== *)
theory Grep
  imports Prelude
begin

text \<open>
  The program \<open>grep\<close> (user/grep.c; user/find.c has the same matcher). Patterns and texts are the bytes of C
  strings. The matcher is proved equal to a declarative meaning of patterns, and the loop over the input is proved to
  print exactly the matching lines, however the input is cut into reads.
\<close>

section \<open>The matcher\<close>

function matchhere :: "u8 list \<Rightarrow> u8 list \<Rightarrow> bool" and matchstar :: "u8 \<Rightarrow> u8 list \<Rightarrow> u8 list \<Rightarrow> bool" where
  "matchhere re tx =
     (if re = [] then True
      else if tl re \<noteq> [] \<and> hd (tl re) = 42 then matchstar (hd re) (tl (tl re)) tx
      else if hd re = 36 \<and> tl re = [] then tx = []
      else if tx \<noteq> [] \<and> (hd re = 46 \<or> hd re = hd tx) then matchhere (tl re) (tl tx)
      else False)"
| "matchstar c re tx =
     (if matchhere re tx then True
      else if tx \<noteq> [] \<and> (hd tx = c \<or> c = 46) then matchstar c re (tl tx)
      else False)"
  by pat_completeness auto
termination
proof (relation "measures [\<lambda>x. case x of Inl (re, _) \<Rightarrow> 2 * length re | Inr (_, re, _) \<Rightarrow> 2 * length re + 1,
    \<lambda>x. case x of Inl (_, tx) \<Rightarrow> length tx | Inr (_, _, tx) \<Rightarrow> length tx]", goal_cases)
  case (2 re tx)
  then have "2 \<le> length re" by (cases re; cases "tl re") auto
  then show ?case by simp
next
  case (3 re tx)
  then show ?case by (cases re) auto
next
  case (5 c re tx)
  then show ?case by (cases tx) auto
qed auto

declare matchhere.simps [simp del] matchstar.simps [simp del]

text \<open>The loop of \<open>match\<close> over the starting points.\<close>

fun match_from :: "u8 list \<Rightarrow> u8 list \<Rightarrow> bool" where
  "match_from re tx = (matchhere re tx \<or> (case tx of [] \<Rightarrow> False | _ # t \<Rightarrow> match_from re t))"

declare match_from.simps [simp del]

definition match :: "u8 list \<Rightarrow> u8 list \<Rightarrow> bool" where
  "match re tx = (if re \<noteq> [] \<and> hd re = 94 then matchhere (tl re) tx else match_from re tx)"

section \<open>The loop over the input\<close>

text \<open>
  The inner loop on the bytes \<open>s\<close> of the buffer: it prints the matching lines and keeps what follows the last line end.
  \<open>strchr\<close> looks no further than a zero byte.
\<close>

function scan :: "u8 list \<Rightarrow> u8 list \<Rightarrow> u8 list \<times> u8 list" where
  "scan pattern s =
     (if 10 \<in> set (takeWhile (\<lambda>c. c \<noteq> 0) s) then
        let line = takeWhile (\<lambda>c. c \<noteq> 10) s;
            out = (if match pattern line then line @ [10] else [])
        in case scan pattern (drop (length line + 1) s) of (out', rest) \<Rightarrow> (out @ out', rest)
      else ([], s))"
  by pat_completeness auto
termination
proof (relation "measure (\<lambda>(_, s). length s)", goal_cases)
  case (2 pattern s)
  then have "s \<noteq> []" by auto
  then show ?case by simp
qed simp

declare scan.simps [simp del]

text \<open>
  The outer loop: \<open>pending\<close> are the \<open>m\<close> bytes kept in the buffer of 1024. The \<open>i\<close>-th \<open>read\<close> returns up to \<open>sz i + 1\<close>
  bytes, as many as there are and as fit; nothing at the end of the file or when it is asked for no bytes.
\<close>

function grep_loop :: "u8 list \<Rightarrow> (nat \<Rightarrow> nat) \<Rightarrow> nat \<Rightarrow> u8 list \<Rightarrow> u8 list \<Rightarrow> u8 list" where
  "grep_loop pattern sz i pending input =
     (let n = min (min (sz i + 1) (1023 - length pending)) (length input)
      in if n = 0 then []
         else case scan pattern (pending @ take n input) of (out, rest) \<Rightarrow>
              out @ grep_loop pattern sz (i + 1) rest (drop n input))"
  by pat_completeness auto
termination
  by (relation "measure (\<lambda>(_, _, _, _, input). length input)") auto

declare grep_loop.simps [simp del]

definition grep :: "u8 list \<Rightarrow> (nat \<Rightarrow> nat) \<Rightarrow> u8 list \<Rightarrow> u8 list" where
  "grep pattern sz input = grep_loop pattern sz 0 [] input"

text \<open>\<open>main\<close>: the exit status and the output, for the arguments behind the program's name; \<open>files\<close> gives the content of
  the files that can be opened.\<close>

fun grep_files :: "u8 list \<Rightarrow> (nat \<Rightarrow> nat) \<Rightarrow> (u8 list \<Rightarrow> u8 list option) \<Rightarrow> u8 list list \<Rightarrow> nat \<times> u8 list" where
  "grep_files pattern sz files [] = (0, [])"
| "grep_files pattern sz files (a # as) =
     (case files a of
        None \<Rightarrow> (1, [103, 114, 101, 112, 58, 32, 99, 97, 110, 110, 111, 116, 32, 111, 112, 101, 110, 32] @ a @ [10])
      | Some input \<Rightarrow> (case grep_files pattern sz files as of (st, out) \<Rightarrow> (st, grep pattern sz input @ out)))"

definition grep_main :: "(nat \<Rightarrow> nat) \<Rightarrow> (u8 list \<Rightarrow> u8 list option) \<Rightarrow> u8 list \<Rightarrow> u8 list list \<Rightarrow> nat \<times> u8 list" where
  "grep_main sz files stdin args =
     (case args of
        [] \<Rightarrow> (1, [])
      | [pattern] \<Rightarrow> (0, grep pattern sz stdin)
      | pattern # names \<Rightarrow> grep_files pattern sz files names)"

section \<open>The meaning of patterns\<close>

datatype item = One u8 | Many u8

text \<open>A literal byte matches itself; a dot matches every byte.\<close>

definition byte_ok :: "u8 \<Rightarrow> u8 \<Rightarrow> bool" where
  "byte_ok c x \<longleftrightarrow> c = 46 \<or> x = c"

text \<open>The items of a pattern, and whether it ends in a dollar sign that means the end of the text.\<close>

fun items :: "u8 list \<Rightarrow> item list" where
  "items [] = []"
| "items [c] = (if c = 36 then [] else [One c])"
| "items (c # d # re) = (if d = 42 then Many c # items re else One c # items (d # re))"

fun at_end :: "u8 list \<Rightarrow> bool" where
  "at_end [] = False"
| "at_end [c] = (c = 36)"
| "at_end (c # d # re) = (if d = 42 then at_end re else at_end (d # re))"

fun item_lang :: "item \<Rightarrow> u8 list set" where
  "item_lang (One c) = {[x] |x. byte_ok c x}"
| "item_lang (Many c) = {xs. \<forall>x \<in> set xs. byte_ok c x}"

fun lang :: "item list \<Rightarrow> u8 list set" where
  "lang [] = {[]}"
| "lang (i # is) = {xs @ ys |xs ys. xs \<in> item_lang i \<and> ys \<in> lang is}"

text \<open>The pattern \<open>re\<close> matches at the beginning of \<open>text\<close>.\<close>

definition here :: "u8 list \<Rightarrow> u8 list \<Rightarrow> bool" where
  "here re tx \<longleftrightarrow> (\<exists>xs ys. tx = xs @ ys \<and> xs \<in> lang (items re) \<and> (at_end re \<longrightarrow> ys = []))"

lemma here_Nil [simp]: "here [] tx"
  by (simp add: here_def)

lemma here_end: "here [36] tx \<longleftrightarrow> tx = []"
  by (auto simp: here_def)

lemma hereI: "xs \<in> lang (items re) \<Longrightarrow> (at_end re \<Longrightarrow> ys = []) \<Longrightarrow> here re (xs @ ys)"
  by (auto simp: here_def)

lemma lang_One: "xs \<in> lang (One c # is) \<longleftrightarrow> (\<exists>x zs. xs = x # zs \<and> byte_ok c x \<and> zs \<in> lang is)"
proof -
  have "x # zs \<in> lang (One c # is)" if "byte_ok c x" "zs \<in> lang is" for x zs
    using that by (simp, intro exI [of _ "[x]"] exI [of _ zs]) simp
  then show ?thesis by auto
qed

lemma here_One:
  assumes "re = [] \<or> hd re \<noteq> 42" "\<not> (c = 36 \<and> re = [])"
  shows "here (c # re) tx \<longleftrightarrow> (\<exists>x t. tx = x # t \<and> byte_ok c x \<and> here re t)"
proof -
  have i: "items (c # re) = One c # items re" "at_end (c # re) = at_end re" using assms by (cases re; auto)+
  show ?thesis
  proof
    assume "here (c # re) tx"
    then obtain xs ys where *: "tx = xs @ ys" "xs \<in> lang (One c # items re)" "at_end re \<longrightarrow> ys = []"
      unfolding here_def i by blast
    then obtain x zs where "xs = x # zs" "byte_ok c x" "zs \<in> lang (items re)" unfolding lang_One by blast
    then show "\<exists>x t. tx = x # t \<and> byte_ok c x \<and> here re t" using * hereI [of zs re ys] by auto
  next
    assume "\<exists>x t. tx = x # t \<and> byte_ok c x \<and> here re t"
    then obtain x xs ys where "tx = (x # xs) @ ys" "byte_ok c x" "xs \<in> lang (items re)" "at_end re \<longrightarrow> ys = []"
      unfolding here_def by auto
    then show "here (c # re) tx" using hereI [of "x # xs" "c # re" ys] unfolding i lang_One by blast
  qed
qed

lemma here_Many:
  "here (c # 42 # re) tx \<longleftrightarrow> (\<exists>xs ys. tx = xs @ ys \<and> (\<forall>x \<in> set xs. byte_ok c x) \<and> here re ys)"
proof
  assume "here (c # 42 # re) tx"
  then obtain vs zs where *: "tx = vs @ zs" "vs \<in> lang (Many c # items re)" "at_end re \<longrightarrow> zs = []"
    unfolding here_def by auto
  then obtain xs ys where "vs = xs @ ys" "\<forall>x \<in> set xs. byte_ok c x" "ys \<in> lang (items re)" by auto
  then show "\<exists>xs ys. tx = xs @ ys \<and> (\<forall>x \<in> set xs. byte_ok c x) \<and> here re ys"
    using * hereI [of ys re zs] by (intro exI [of _ xs] exI [of _ "ys @ zs"]) simp
next
  assume "\<exists>xs ys. tx = xs @ ys \<and> (\<forall>x \<in> set xs. byte_ok c x) \<and> here re ys"
  then obtain xs ys zs where *: "tx = (xs @ ys) @ zs" "\<forall>x \<in> set xs. byte_ok c x" "ys \<in> lang (items re)" "at_end re \<longrightarrow> zs = []"
    unfolding here_def by auto
  then have "xs @ ys \<in> lang (items (c # 42 # re))" by auto
  then show "here (c # 42 # re) tx" using *(1,4) hereI [of "xs @ ys" "c # 42 # re" zs] by simp
qed

text \<open>Zero or more bytes that match \<open>c\<close>, and then \<open>P\<close>: either none of them, or one of them and the same again.\<close>

lemma star_unfold:
  "(\<exists>xs ys. tx = xs @ ys \<and> (\<forall>x \<in> set xs. byte_ok c x) \<and> P ys) \<longleftrightarrow>
   P tx \<or> (tx \<noteq> [] \<and> byte_ok c (hd tx) \<and> (\<exists>xs ys. tl tx = xs @ ys \<and> (\<forall>x \<in> set xs. byte_ok c x) \<and> P ys))"
  (is "?l tx \<longleftrightarrow> _")
proof (cases tx)
  case (Cons x t)
  have "?l (x # t) \<longleftrightarrow> P (x # t) \<or> byte_ok c x \<and> ?l t"
  proof
    assume "?l (x # t)"
    then obtain xs ys where *: "x # t = xs @ ys" "\<forall>x \<in> set xs. byte_ok c x" "P ys" by blast
    then show "P (x # t) \<or> byte_ok c x \<and> ?l t" by (cases xs) auto
  next
    assume "P (x # t) \<or> byte_ok c x \<and> ?l t"
    then show "?l (x # t)"
    proof
      assume "P (x # t)"
      then show ?thesis by (intro exI [of _ "[]"] exI [of _ "x # t"]) simp
    next
      assume "byte_ok c x \<and> ?l t"
      then obtain xs ys where "t = xs @ ys" "\<forall>x \<in> set xs. byte_ok c x" "P ys" "byte_ok c x" by blast
      then show ?thesis by (intro exI [of _ "x # xs"] exI [of _ ys]) simp
    qed
  qed
  then show ?thesis using Cons by simp
qed simp

lemma matchhere_star: "matchhere (c # 42 # re) tx = matchstar c re tx"
  by (subst matchhere.simps) simp

lemma matchhere_end: "matchhere [36] tx \<longleftrightarrow> tx = []"
  by (subst matchhere.simps) simp

lemma matchhere_One:
  "re = [] \<or> hd re \<noteq> 42 \<Longrightarrow> \<not> (c = 36 \<and> re = []) \<Longrightarrow>
   matchhere (c # re) tx = (\<exists>x t. tx = x # t \<and> byte_ok c x \<and> matchhere re t)"
  by (subst matchhere.simps) (cases tx; auto simp: byte_ok_def)

lemma matchstar_here:
  assumes "\<forall>tx. matchhere re tx = here re tx"
  shows "matchstar c re tx = here (c # 42 # re) tx"
proof (induction tx)
  case Nil
  then show ?case using assms by (subst matchstar.simps) (simp add: here_Many)
next
  case (Cons x t)
  have "matchstar c re (x # t) \<longleftrightarrow> here re (x # t) \<or> byte_ok c x \<and> here (c # 42 # re) t"
    using Cons assms by (subst matchstar.simps) (auto simp: byte_ok_def)
  then show ?case using star_unfold [of "x # t" c "here re"] by (simp add: here_Many)
qed

lemma matchhere_here: "matchhere re tx = here re tx"
proof (induction re arbitrary: tx rule: items.induct)
  case 1
  then show ?case by (subst matchhere.simps) simp
next
  case (2 c)
  then show ?case
    using matchhere_One [of "[]" c tx] here_One [of "[]" c tx]
    by (cases "c = 36") (auto simp: matchhere_end here_end matchhere.simps [of "[]"])
next
  case (3 c d re)
  show ?case
  proof (cases "d = 42")
    case True
    then show ?thesis using matchstar_here [of re c tx] 3 by (simp add: matchhere_star)
  next
    case False
    then show ?thesis using 3 by (simp add: matchhere_One here_One)
  qed
qed

lemma match_from_here: "match_from re tx \<longleftrightarrow> (\<exists>pre post. tx = pre @ post \<and> here re post)"
proof (induction tx)
  case Nil
  then show ?case by (subst match_from.simps) (simp add: matchhere_here)
next
  case (Cons x t)
  have "(\<exists>pre post. x # t = pre @ post \<and> here re post) \<longleftrightarrow> here re (x # t) \<or> (\<exists>pre post. t = pre @ post \<and> here re post)"
    by (auto simp: Cons_eq_append_conv)
  then show ?case using Cons by (subst match_from.simps) (simp add: matchhere_here)
qed

text \<open>C17. The matcher decides the meaning of patterns. \<open>match\<close> holds exactly when some part of the text spells a word of the
  pattern: literal bytes, dots for any byte, a star for any number of bytes of the item before it; a pattern that
  begins with a caret only matches at the beginning of the text, and one that ends in a dollar sign only at its end.\<close>

theorem match_meaning:
  "match re tx \<longleftrightarrow>
     (let anchored = (re \<noteq> [] \<and> hd re = 94); pat = (if anchored then tl re else re)
      in \<exists>pre xs post. tx = pre @ xs @ post \<and> xs \<in> lang (items pat) \<and>
           (anchored \<longrightarrow> pre = []) \<and> (at_end pat \<longrightarrow> post = []))"
  by (auto simp: match_def matchhere_here match_from_here here_def Let_def)

theorem match_meaning_witness: "match [94, 97, 42, 36] [97, 97]"
proof -
  have "\<exists>pre xs post. [97, 97] = pre @ xs @ post \<and> xs \<in> lang (items [97, 42, 36]) \<and> pre = [] \<and> post = []"
    by (rule exI [of _ "[]"], rule exI [of _ "[97, 97]"]) (simp add: byte_ok_def)
  then show ?thesis using match_meaning [of "[94, 97, 42, 36]" "[97, 97]"] by (simp add: Let_def)
qed

section \<open>The lines that are printed\<close>

text \<open>The lines of an input that end in a line end, and what follows the last of them.\<close>

fun chop :: "u8 list \<Rightarrow> u8 list \<Rightarrow> u8 list list \<times> u8 list" where
  "chop acc [] = ([], acc)"
| "chop acc (c # s) =
     (if c = 10 then (case chop [] s of (ls, r) \<Rightarrow> (acc # ls, r)) else chop (acc @ [c]) s)"

definition matching :: "u8 list \<Rightarrow> u8 list list \<Rightarrow> u8 list" where
  "matching pattern ls = concat (map (\<lambda>l. l @ [10]) (filter (match pattern) ls))"

lemma matching_simps [simp]:
  "matching pattern [] = []"
  "matching pattern (l # ls) = (if match pattern l then l @ [10] else []) @ matching pattern ls"
  "matching pattern (ls @ ms) = matching pattern ls @ matching pattern ms"
  by (simp_all add: matching_def)

lemma chop_append:
  "chop acc (s @ t) = (case chop acc s of (ls, r) \<Rightarrow> case chop r t of (ms, r') \<Rightarrow> (ls @ ms, r'))"
  by (induction acc s rule: chop.induct) (auto split: prod.splits)

lemma chop_plain: "10 \<notin> set s \<Longrightarrow> chop acc (s @ t) = chop (acc @ s) t"
  by (induction s arbitrary: acc) auto

lemma chop_rest: "10 \<notin> set acc \<Longrightarrow> chop acc s = (ls, r) \<Longrightarrow> 10 \<notin> set r"
  by (induction acc s arbitrary: ls r rule: chop.induct) (auto split: prod.splits if_splits)

lemma chop_set: "chop acc s = (ls, r) \<Longrightarrow> set r \<subseteq> set acc \<union> set s"
  by (induction acc s arbitrary: ls r rule: chop.induct) (auto split: prod.splits if_splits)

text \<open>What is pending is a part of the line it belongs to.\<close>

lemma chop_pending: "chop acc s = (ls, r) \<Longrightarrow> length acc \<le> length (hd (ls @ [r]))"
proof (induction acc s arbitrary: ls r rule: chop.induct)
  case (2 acc c s)
  then show ?case by (cases "c = 10") (fastforce split: prod.splits)+
qed simp

lemma scan_chop:
  "0 \<notin> set s \<Longrightarrow> scan pattern s = (case chop [] s of (ls, r) \<Rightarrow> (matching pattern ls, r))"
proof (induction "length s" arbitrary: s rule: less_induct)
  case less
  have tw: "takeWhile (\<lambda>c. c \<noteq> 0) s = s" using less.prems by (simp add: takeWhile_eq_all_conv) metis
  show ?case
  proof (cases "10 \<in> set s")
    case True
    then obtain l rest where s: "s = l @ 10 # rest" and l: "10 \<notin> set l" using split_list_first by metis
    have l': "takeWhile (\<lambda>c. c \<noteq> 10) s = l" unfolding s using l by (subst takeWhile_append2) auto
    have "scan pattern rest = (case chop [] rest of (ls, r) \<Rightarrow> (matching pattern ls, r))"
      using s less by (intro less.hyps) auto
    moreover have "chop [] s = (case chop [] rest of (ls, r) \<Rightarrow> (l # ls, r))"
      unfolding s using chop_plain [OF l, of "[]" "10 # rest"] by simp
    moreover have "scan pattern s = (case scan pattern rest of (out', r) \<Rightarrow> ((if match pattern l then l @ [10] else []) @ out', r))"
      using True unfolding scan.simps [of pattern s] tw l' Let_def by (simp add: s)
    ultimately show ?thesis by (simp split: prod.splits)
  next
    case False
    then show ?thesis using chop_plain [of s "[]" "[]"] unfolding scan.simps [of pattern s] tw by simp
  qed
qed

lemma grep_loop_lines:
  assumes "10 \<notin> set pending" "0 \<notin> set pending" "0 \<notin> set input" "chop pending input = (ls, r)" "\<forall>l \<in> set (ls @ [r]). length l < 1023"
  shows "grep_loop pattern sz i pending input = matching pattern ls"
  using assms
proof (induction "length input" arbitrary: i pending input ls rule: less_induct)
  case less
  show ?case
  proof (cases "input = []")
    case True
    then show ?thesis using less.prems by (subst grep_loop.simps) simp
  next
    case False
    define n where "n = min (min (sz i + 1) (1023 - length pending)) (length input)"
    have "length pending < 1023" using chop_pending [OF less.prems(4)] less.prems(5) hd_in_set [of "ls @ [r]"] by fastforce
    then have n: "n \<noteq> 0" using False by (simp add: n_def)
    obtain ls1 r1 where c1: "chop pending (take n input) = (ls1, r1)" by fastforce
    obtain ls2 r2 where c2: "chop r1 (drop n input) = (ls2, r2)" by fastforce
    have "chop pending input = (ls1 @ ls2, r2)" using chop_append [of pending "take n input" "drop n input"] c1 c2 by simp
    then have ls: "ls = ls1 @ ls2" "r2 = r" using less.prems(4) by auto
    have "scan pattern (pending @ take n input) = (matching pattern ls1, r1)"
      using scan_chop [of "pending @ take n input" pattern] chop_plain [OF less.prems(1), of "[]" "take n input"] c1 less.prems(2,3)
      by (auto dest: in_set_takeD)
    then have "grep_loop pattern sz i pending input = matching pattern ls1 @ grep_loop pattern sz (i + 1) r1 (drop n input)"
      using n unfolding grep_loop.simps [of pattern sz i pending input] n_def [symmetric] Let_def by simp
    moreover have "grep_loop pattern sz (i + 1) r1 (drop n input) = matching pattern ls2"
    proof (rule less.hyps)
      show "length (drop n input) < length input" using n False by simp
      show "10 \<notin> set r1" by (rule chop_rest [OF less.prems(1) c1])
      show "0 \<notin> set r1" using chop_set [OF c1] less.prems(2,3) by (auto dest: in_set_takeD)
      show "0 \<notin> set (drop n input)" using less.prems(3) by (auto dest: in_set_dropD)
      show "chop r1 (drop n input) = (ls2, r)" using c2 ls by simp
      show "\<forall>l \<in> set (ls2 @ [r]). length l < 1023" using less.prems(5) ls by auto
    qed
    ultimately show ?thesis using ls by simp
  qed
qed

text \<open>C18. \<open>grep\<close> prints exactly the matching lines. On an input without zero bytes whose lines fit into its buffer, the output is the
  lines that end in a line end and that the pattern matches, in order, with their line ends; how \<open>read\<close> cuts the
  input into pieces makes no difference.\<close>

theorem grep_prints_matching_lines:
  assumes "0 \<notin> set input" "chop [] input = (ls, r)" "\<forall>l \<in> set (ls @ [r]). length l < 1023"
  shows "grep pattern sz input = matching pattern ls"
  using grep_loop_lines [OF _ _ assms, of pattern sz 0] by (simp add: grep_def)

theorem grep_prints_matching_lines_witness:
  "grep [97] (\<lambda>_. 0) [97, 10, 98, 10, 99] = matching [97] [[97], [98]]"
  by (rule grep_prints_matching_lines [of _ _ "[99]"]) simp_all

end
