(* ===== verification/UserProgs.thy ===== *)
theory UserProgs
  imports Grep UserLib Proc "HOL-Library.Sublist"
begin

text \<open>
  The small user programs: \<open>wc\<close>, \<open>cat\<close>, \<open>echo\<close>, \<open>ls\<close>, \<open>find\<close>, \<open>xargs\<close>, \<open>kill\<close>, \<open>ln\<close>, \<open>mkdir\<close>, \<open>rm\<close> and \<open>sleep\<close>. Strings are the
  bytes of C strings. A program is a function from its arguments and from what its system calls deliver to what it
  does: its exit status and the calls it makes. As in the model of \<open>grep\<close>, the \<open>i\<close>-th \<open>read\<close> of a file returns up to
  \<open>sz i + 1\<close> bytes.
\<close>

section \<open>Counting words\<close>

record wcst =
  wc_l :: u32
  wc_w :: u32
  wc_c :: u32
  wc_inword :: bool

definition wc_space :: "u8 list" where
  "wc_space = [32, 13, 9, 10, 11]"

text \<open>The body of the inner loop.\<close>

definition wc_byte :: "u8 \<Rightarrow> wcst \<Rightarrow> wcst" where
  "wc_byte b s =
     (let s = s\<lparr>wc_c := wc_c s + 1\<rparr>;
          s = (if b = 10 then s\<lparr>wc_l := wc_l s + 1\<rparr> else s)
      in if b \<in> set wc_space then s\<lparr>wc_inword := False\<rparr>
         else if \<not> wc_inword s then s\<lparr>wc_w := wc_w s + 1, wc_inword := True\<rparr>
         else s)"

function wc_loop :: "(nat \<Rightarrow> nat) \<Rightarrow> nat \<Rightarrow> u8 list \<Rightarrow> wcst \<Rightarrow> wcst" where
  "wc_loop sz i input s =
     (let n = min (min (sz i + 1) 512) (length input)
      in if n = 0 then s else wc_loop sz (i + 1) (drop n input) (fold wc_byte (take n input) s))"
  by pat_completeness auto
termination
  by (relation "measure (\<lambda>(_, _, input, _). length input)") auto

declare wc_loop.simps [simp del]

text \<open>What an open file delivers: its bytes, whether the \<open>read\<close> behind them fails, and how many bytes the \<open>i\<close>-th
  \<open>read\<close> returns.\<close>

type_synonym source = "u8 list \<times> bool \<times> (nat \<Rightarrow> nat)"

text \<open>\<open>wc\<close>: its exit status, when it exits, and what it prints.\<close>

definition wc :: "source \<Rightarrow> u8 list \<Rightarrow> nat \<times> u8 list" where
  "wc src name =
     (case src of (input, bad, sz) \<Rightarrow>
        let s = wc_loop sz 0 input \<lparr>wc_l = 0, wc_w = 0, wc_c = 0, wc_inword = False\<rparr>
        in if bad then (1, bytes ''wc: read error'' @ [10])
           else (0, printint_u (wc_l s) 10 True @ 32 # printint_u (wc_w s) 10 True @ 32 # printint_u (wc_c s) 10 True @
                    32 # name @ [10]))"

fun wc_files :: "(u8 list \<Rightarrow> source option) \<Rightarrow> u8 list list \<Rightarrow> nat \<times> u8 list" where
  "wc_files files [] = (0, [])"
| "wc_files files (a # as) =
     (case files a of
        None \<Rightarrow> (1, bytes ''wc: cannot open '' @ a @ [10])
      | Some src \<Rightarrow>
          (case wc src a of (st, out) \<Rightarrow>
             if st \<noteq> 0 then (st, out)
             else case wc_files files as of (st, out') \<Rightarrow> (st, out @ out')))"

definition wc_main :: "source \<Rightarrow> (u8 list \<Rightarrow> source option) \<Rightarrow> u8 list list \<Rightarrow> nat \<times> u8 list" where
  "wc_main stdin files args = (if args = [] then wc stdin [] else wc_files files args)"

section \<open>Copying and echoing\<close>

text \<open>\<open>cat\<close>: the exit status, the output, and the message to descriptor 2; the \<open>i\<close>-th \<open>write\<close> writes at most \<open>wr i\<close>
  bytes.\<close>

function cat_loop :: "(nat \<Rightarrow> nat) \<Rightarrow> bool \<Rightarrow> (nat \<Rightarrow> nat) \<Rightarrow> nat \<Rightarrow> u8 list \<Rightarrow> nat \<times> u8 list \<times> u8 list" where
  "cat_loop wr bad sz i input =
     (let n = min (min (sz i + 1) 512) (length input)
      in if n = 0 then (if bad then (1, [], bytes ''cat: read error'' @ [10]) else (0, [], []))
         else if wr i < n then (1, take (wr i) input, bytes ''cat: write error'' @ [10])
         else case cat_loop wr bad sz (i + 1) (drop n input) of (st, out, err) \<Rightarrow> (st, take n input @ out, err))"
  by pat_completeness auto
termination
  by (relation "measure (\<lambda>(_, _, _, _, input). length input)") auto

declare cat_loop.simps [simp del]

definition cat :: "(nat \<Rightarrow> nat) \<Rightarrow> source \<Rightarrow> nat \<times> u8 list \<times> u8 list" where
  "cat wr src = (case src of (input, bad, sz) \<Rightarrow> cat_loop wr bad sz 0 input)"

fun cat_files :: "(nat \<Rightarrow> nat \<Rightarrow> nat) \<Rightarrow> (u8 list \<Rightarrow> source option) \<Rightarrow> nat \<Rightarrow> u8 list list \<Rightarrow> nat \<times> u8 list \<times> u8 list" where
  "cat_files wr files j [] = (0, [], [])"
| "cat_files wr files j (a # as) =
     (case files a of
        None \<Rightarrow> (1, [], bytes ''cat: cannot open '' @ a @ [10])
      | Some src \<Rightarrow>
          (case cat (wr j) src of (st, out, err) \<Rightarrow>
             if st \<noteq> 0 then (st, out, err)
             else case cat_files wr files (j + 1) as of (st, out', err) \<Rightarrow> (st, out @ out', err)))"

definition cat_main :: "(nat \<Rightarrow> nat \<Rightarrow> nat) \<Rightarrow> source \<Rightarrow> (u8 list \<Rightarrow> source option) \<Rightarrow> u8 list list \<Rightarrow> nat \<times> u8 list \<times> u8 list" where
  "cat_main wr stdin files args = (if args = [] then cat (wr 0) stdin else cat_files wr files 0 args)"

fun echo_main :: "u8 list list \<Rightarrow> u8 list" where
  "echo_main [] = []"
| "echo_main (a # as) = a @ (if as \<noteq> [] then 32 # echo_main as else [10])"

section \<open>Programs of a few calls\<close>

text \<open>The system calls of the programs below, and their messages to descriptor 2.\<close>

datatype call = Kill u32 | Link "u8 list" "u8 list" | Mkdir "u8 list" | Unlink "u8 list" | SleepFor u32 | Complain "u8 list"

definition kill_main :: "u8 list list \<Rightarrow> nat \<times> call list" where
  "kill_main args =
     (if args = [] then (1, [Complain (bytes ''usage: kill pid...'' @ [10])])
      else (0, map (\<lambda>a. Kill (atoi_bytes a)) args))"

definition ln_main :: "(call \<Rightarrow> bool) \<Rightarrow> u8 list list \<Rightarrow> nat \<times> call list" where
  "ln_main ok args =
     (case args of
        [old, new] \<Rightarrow>
          (0, Link old new #
              (if ok (Link old new) then [] else [Complain (bytes ''link '' @ old @ 32 # new @ bytes '': failed'' @ [10])]))
      | _ \<Rightarrow> (1, [Complain (bytes ''Usage: ln old new'' @ [10])]))"

text \<open>The loops of \<open>mkdir\<close> and \<open>rm\<close> stop at the first call that fails.\<close>

fun each_file :: "(call \<Rightarrow> bool) \<Rightarrow> (u8 list \<Rightarrow> call) \<Rightarrow> (u8 list \<Rightarrow> u8 list) \<Rightarrow> u8 list list \<Rightarrow> call list" where
  "each_file ok f msg [] = []"
| "each_file ok f msg (a # as) =
     (if ok (f a) then f a # each_file ok f msg as else [f a, Complain (msg a)])"

definition mkdir_main :: "(call \<Rightarrow> bool) \<Rightarrow> u8 list list \<Rightarrow> nat \<times> call list" where
  "mkdir_main ok args =
     (if args = [] then (1, [Complain (bytes ''Usage: mkdir files...'' @ [10])])
      else (0, each_file ok Mkdir (\<lambda>a. bytes ''mkdir: '' @ a @ bytes '' failed to create'' @ [10]) args))"

definition rm_main :: "(call \<Rightarrow> bool) \<Rightarrow> u8 list list \<Rightarrow> nat \<times> call list" where
  "rm_main ok args =
     (if args = [] then (1, [Complain (bytes ''Usage: rm files...'' @ [10])])
      else (0, each_file ok Unlink (\<lambda>a. bytes ''rm: '' @ a @ bytes '' failed to delete'' @ [10]) args))"

definition sleep_main :: "u8 list list \<Rightarrow> nat \<times> call list" where
  "sleep_main args =
     (case args of
        [a] \<Rightarrow>
          if sint (atoi_bytes a) \<le> 0 then (1, [Complain (bytes ''Usage: sleep <time>  time need > 0'' @ [10])])
          else (0, [SleepFor (atoi_bytes a)])
      | _ \<Rightarrow> (1, [Complain (bytes ''Usage: sleep <time>'' @ [10])]))"

section \<open>Arguments from the input\<close>

text \<open>
  \<open>xargs\<close>: \<open>curs\<close> (the source's \<open>cur\<close>) are the arguments collected so far and \<open>word\<close> the bytes from \<open>head\<close> to \<open>p\<close>; the result are the argument
  lists the command is run with. A blank or a line end ends a word: its byte is overwritten with zero, and only then
  compared with the line end. Without arguments the program exits with a message (\<open>Panic\<close>). Leaving the buffer of 1024 bytes or the array of 128 pointers is undefined.
\<close>

fun xargs_loop :: "u8 list list \<Rightarrow> nat \<Rightarrow> u8 list list \<Rightarrow> u8 list \<Rightarrow> u8 list \<Rightarrow> u8 list list list result" where
  "xargs_loop args p curs word [] =
     (if curs \<noteq> [] then
        if p < 1024 \<and> length curs + 2 \<le> 128 then Ok [curs @ [word]] else Undef ''xargs buffer''
      else Ok [])"
| "xargs_loop args p curs word (c # input) =
     (if p \<ge> 1024 then Undef ''xargs buffer''
      else if c = 32 \<or> c = 10 then
        if length curs \<ge> 128 then Undef ''xargs buffer'' else
        let stored = (0 :: u8); curs = curs @ [word]
        in if stored = 10 then
             andthen (xargs_loop args (p + 1) [] [] input) (\<lambda>runs. Ok (curs # runs))
           else xargs_loop args (p + 1) curs [] input
      else xargs_loop args (p + 1) curs (word @ [c]) input)"

definition xargs_main :: "u8 list list \<Rightarrow> u8 list \<Rightarrow> u8 list list list result" where
  "xargs_main args input =
     (if args = [] then Panic ''Usage: stdin | xargs order''
      else if length args > 128 then Undef ''xargs buffer''
      else xargs_loop args 0 args [] input)"

section \<open>Listing and finding\<close>

text \<open>
  The file system as the programs see it: a file or device with its type, number and size, or a directory with its
  entries; an entry has an inode number, 14 bytes of name, and what \<open>stat\<close> finds there, if it succeeds.
\<close>

datatype node = Leaf u16 u32 u64 | Dir u32 u64 "dent list"
  and dent = Dent u16 "u8 list" node | Broken u16 "u8 list"

fun node_stat :: "node \<Rightarrow> u16 \<times> u32 \<times> u64" where
  "node_stat (Leaf t ino siz) = (t, ino, siz)"
| "node_stat (Dir ino siz es) = (1, ino, siz)"

definition name14 :: "u8 list \<Rightarrow> u8 list" where
  "name14 name = takeWhile (\<lambda>c. c \<noteq> 0) (take 14 name)"

text \<open>The lines a program writes, each with its descriptor.\<close>

type_synonym lines = "(nat \<times> u8 list) list"

text \<open>\<open>fmtname\<close>: the last part of a path, padded with blanks to 14 bytes.\<close>

definition fmtname :: "u8 list \<Rightarrow> u8 list" where
  "fmtname path =
     (let p = rev (takeWhile (\<lambda>c. c \<noteq> 47) (rev path))
      in if length p \<ge> 14 then p else p @ replicate (14 - length p) 32)"

definition ls_line :: "u8 list \<Rightarrow> u16 \<times> u32 \<times> u64 \<Rightarrow> bool \<Rightarrow> u8 list" where
  "ls_line path st sg =
     (case st of (t, ino, siz) \<Rightarrow>
        fmtname path @ 32 # printint_u (ucast t) 10 True @ 32 # printint_u ino 10 True @ 32 # printint_u (ucast siz) 10 sg)"

fun ls_entry :: "u8 list \<Rightarrow> dent \<Rightarrow> lines" where
  "ls_entry path (Dent inum name n) =
     (if inum = 0 then [] else [(1, ls_line (path @ 47 # name14 name) (node_stat n) True)])"
| "ls_entry path (Broken inum name) =
     (if inum = 0 then [] else [(1, bytes ''ls: cannot stat '' @ path @ 47 # name14 name)])"

text \<open>\<open>ls\<close> on a path, with what \<open>open\<close> finds there.\<close>

definition ls :: "u8 list \<Rightarrow> node option \<Rightarrow> lines" where
  "ls path n =
     (case n of
        None \<Rightarrow> [(2, bytes ''ls: cannot open '' @ path)]
      | Some (Leaf t ino siz) \<Rightarrow> if t = 2 then [(1, ls_line path (t, ino, siz) False)] else []
      | Some (Dir ino siz es) \<Rightarrow>
          if length path + 1 + 14 + 1 > 512 then [(1, bytes ''ls: path too long'')]
          else concat (map (ls_entry path) es))"

definition ls_main :: "(u8 list \<Rightarrow> node option) \<Rightarrow> u8 list list \<Rightarrow> lines" where
  "ls_main files args =
     (if args = [] then ls [46] (files [46]) else concat (map (\<lambda>a. ls a (files a)) args))"

text \<open>
  \<open>find\<close>: the lines it writes and the number of free descriptors it leaves. It keeps a descriptor open for every
  directory on the path; \<open>open\<close> fails when none is free, and \<open>stat\<close> needs one for itself. A path that is too long is
  given up without closing its directory. The name is matched as a C string, which a name of 14 bytes is not.
\<close>

fun find_dir :: "nat \<Rightarrow> u8 list \<Rightarrow> u8 list \<Rightarrow> node \<Rightarrow> (lines \<times> nat) result"
  and find_ent :: "nat \<Rightarrow> u8 list \<Rightarrow> u8 list \<Rightarrow> dent \<Rightarrow> (lines \<times> nat) result"
  and find_ents :: "nat \<Rightarrow> u8 list \<Rightarrow> u8 list \<Rightarrow> dent list \<Rightarrow> (lines \<times> nat) result" where
  "find_dir k path filename (Leaf t ino siz) =
     (if k = 0 then Ok ([(2, bytes ''find: cannot open '' @ path)], k)
      else Ok ([(2, bytes ''find: '' @ path @ bytes '' is not a directory'')], k))"
| "find_dir k path filename (Dir ino siz es) =
     (if k = 0 then Ok ([(2, bytes ''find: cannot open '' @ path)], k)
      else if length path + 1 + 14 + 1 > 512 then Ok ([(1, bytes ''ls: path too long'')], k - 1)
      else andthen (find_ents (k - 1) path filename es) (\<lambda>(out, k). Ok (out, k + 1)))"
| "find_ent k path filename (Dent inum name n) =
     (let buf = path @ 47 # name14 name
      in if inum = 0 then Ok ([], k)
         else if k = 0 then Ok ([(1, bytes ''find: cannot stat '' @ buf)], k)
         else if fst (node_stat n) = 1 \<and> name14 name \<noteq> [46] \<and> name14 name \<noteq> [46, 46] then find_dir k buf filename n
         else if 0 \<notin> set (take 14 name) then Undef ''name without a zero byte''
         else Ok (if match filename (name14 name) then [(1, buf)] else [], k))"
| "find_ent k path filename (Broken inum name) =
     (if inum = 0 then Ok ([], k) else Ok ([(1, bytes ''find: cannot stat '' @ path @ 47 # name14 name)], k))"
| "find_ents k path filename [] = Ok ([], k)"
| "find_ents k path filename (e # es) =
     andthen (find_ent k path filename e) (\<lambda>(out, k).
     andthen (find_ents k path filename es) (\<lambda>(out', k). Ok (out @ out', k)))"

text \<open>\<open>main\<close> of \<open>find\<close>: descriptors 0 to 2 are open.\<close>

definition find_main :: "(u8 list \<Rightarrow> node option) \<Rightarrow> u8 list list \<Rightarrow> (nat \<times> lines) result" where
  "find_main files args =
     (case args of
        path # filename # _ \<Rightarrow>
          (case files path of
             None \<Rightarrow> Ok (0, [(2, bytes ''find: cannot open '' @ path)])
           | Some n \<Rightarrow> andthen (find_dir (NOFILE - 3) path filename n) (\<lambda>(out, k). Ok (0, out)))
      | _ \<Rightarrow> Ok (1, [(1, bytes ''usage : find <directory> <filename>'')]))"

section \<open>What the counts are\<close>

text \<open>The positions at which a word starts: no space, and at the beginning or behind a space.\<close>

definition word_starts :: "u8 list \<Rightarrow> nat set" where
  "word_starts s = {i. i < length s \<and> s ! i \<notin> set wc_space \<and> (i = 0 \<or> s ! (i - 1) \<in> set wc_space)}"

definition wc_of :: "u8 list \<Rightarrow> wcst" where
  "wc_of s = \<lparr>wc_l = of_nat (count_list s 10), wc_w = of_nat (card (word_starts s)), wc_c = of_nat (length s),
     wc_inword = (s \<noteq> [] \<and> last s \<notin> set wc_space)\<rparr>"

lemma word_starts_snoc:
  "word_starts (s @ [b]) =
     (if b \<notin> set wc_space \<and> (s = [] \<or> last s \<in> set wc_space) then insert (length s) (word_starts s) else word_starts s)"
proof -
  have "i \<in> word_starts (s @ [b]) \<longleftrightarrow> i \<in> word_starts s \<or> i = length s \<and> b \<notin> set wc_space \<and> (s = [] \<or> last s \<in> set wc_space)" for i
    by (cases "s = []"; cases "i < length s") (auto simp: word_starts_def nth_append last_conv_nth less_Suc_eq)
  then show ?thesis by auto
qed

lemma finite_word_starts [simp]: "finite (word_starts s)"
  by (simp add: word_starts_def)

lemma length_not_start [simp]: "length s \<notin> word_starts s"
  by (simp add: word_starts_def)

lemma wc_byte_of: "wc_byte b (wc_of s) = wc_of (s @ [b])"
  by (auto simp: wc_byte_def wc_of_def Let_def word_starts_snoc)

lemma fold_wc_byte: "fold wc_byte t (wc_of s) = wc_of (s @ t)"
  by (induction t arbitrary: s) (simp_all add: wc_byte_of)

lemma wc_loop_of: "wc_loop sz i t (wc_of s) = wc_of (s @ t)"
proof (induction "length t" arbitrary: i s t rule: less_induct)
  case less
  define n where "n = min (min (sz i + 1) 512) (length t)"
  show ?case
  proof (cases "t = []")
    case True
    then show ?thesis by (subst wc_loop.simps) simp
  next
    case False
    then have n: "n \<noteq> 0" by (simp add: n_def)
    have "wc_loop sz (i + 1) (drop n t) (wc_of (s @ take n t)) = wc_of ((s @ take n t) @ drop n t)"
      using n False by (intro less) simp
    then show ?thesis
      using n unfolding wc_loop.simps [of sz i t] n_def [symmetric] Let_def by (simp add: fold_wc_byte)
  qed
qed

text \<open>\<open>wc\<close> counts: the numbers it prints are the number of line ends, of words (runs of bytes that are no space) and of
  bytes of its input, modulo \<open>2\<^sup>3\<^sup>2\<close>; how \<open>read\<close> cuts the input into pieces makes no difference.\<close>

lemma wc_counts:
  "wc (input, False, sz) name =
     (0, printint_u (of_nat (count_list input 10)) 10 True @ 32 # printint_u (of_nat (card (word_starts input))) 10 True @
         32 # printint_u (of_nat (length input)) 10 True @ 32 # name @ [10])"
proof -
  have "\<lparr>wc_l = 0, wc_w = 0, wc_c = 0, wc_inword = False\<rparr> = wc_of []" by (simp add: wc_of_def word_starts_def)
  then show ?thesis using wc_loop_of [of sz 0 input "[]"] by (simp add: wc_def wc_of_def)
qed

lemma cat_loop_copies: "\<forall>i. 512 \<le> wr i \<Longrightarrow> cat_loop wr False sz i input = (0, input, [])"
proof (induction "length input" arbitrary: i input rule: less_induct)
  case less
  define n where "n = min (min (sz i + 1) 512) (length input)"
  show ?case
  proof (cases "input = []")
    case True
    then show ?thesis by (subst cat_loop.simps) simp
  next
    case False
    then have "n \<noteq> 0" by (simp add: n_def)
    moreover have "n \<le> 512" "512 \<le> wr i" using less.prems by (simp_all add: n_def)
    then have "\<not> wr i < n" by simp
    moreover have "cat_loop wr False sz (i + 1) (drop n input) = (0, drop n input, [])"
      using \<open>n \<noteq> 0\<close> False less.prems by (intro less.hyps) simp_all
    ultimately show ?thesis
      unfolding cat_loop.simps [of wr False sz i input] n_def [symmetric] Let_def by simp
  qed
qed

text \<open>\<open>cat\<close> writes the contents of its files one after the other.\<close>

lemma cat_files_copies:
  assumes "\<forall>j i. 512 \<le> wr j i" "\<forall>a \<in> set as. \<exists>sz. files a = Some (content a, False, sz)"
  shows "cat_files wr files j as = (0, concat (map content as), [])"
  using assms(2)
proof (induction as arbitrary: j)
  case (Cons a as)
  then obtain sz where "files a = Some (content a, False, sz)" by auto
  moreover have "cat_loop (wr j) False sz 0 (content a) = (0, content a, [])" using assms(1) by (intro cat_loop_copies) simp
  ultimately show ?case using Cons by (simp add: cat_def)
qed simp

section \<open>The runs of \<open>xargs\<close>\<close>

fun xfields :: "u8 list \<Rightarrow> u8 list \<Rightarrow> u8 list list" where
  "xfields word [] = [word]"
| "xfields word (c # s) = (if c = 32 \<or> c = 10 then word # xfields [] s else xfields (word @ [c]) s)"

lemma xargs_loop_fields:
  "curs \<noteq> [] \<Longrightarrow> p + length input < 1024 \<Longrightarrow> length curs + length (xfields word input) < 128 \<Longrightarrow>
   xargs_loop args p curs word input = Ok [curs @ xfields word input]"
proof (induction word input arbitrary: p curs rule: xfields.induct)
  case (2 word c s)
  then show ?case by (cases "c = 32 \<or> c = 10") (auto simp: Let_def)
qed simp

text \<open>\<open>xargs\<close> never runs its command per line: it runs it once, with the fields of all lines, since it overwrites the
  line end with zero before it compares it. The field behind the last separator is passed too, empty when the input
  ends in a line end.\<close>

lemma xargs_runs_once:
  assumes "args \<noteq> []" "length input < 1024" "length args + length (xfields [] input) < 128"
  shows "xargs_main args input = Ok [args @ xfields [] input]"
  using assms xargs_loop_fields [of args 0 input "[]" args] by (simp add: xargs_main_def)

lemma xargs_two_lines: "xargs_main [[101]] [97, 10, 98, 10] = Ok [[[101], [97], [98], []]]"
  by code_simp

end
