(* ===== verification/Umalloc.thy ===== *)
theory Umalloc
  imports Prelude
begin

text \<open>
  The memory allocator of the user programs (user/umalloc.c, after Kernighan and Ritchie). Addresses are counted in
  units of one \<open>Header\<close>, 16 bytes; the state is the two fields of every header, \<open>freep\<close>, and the break of the process. The free
  blocks form a circular list in the order of their addresses, through \<open>base\<close>, which lies below the heap. The loops
  over the list are partial functions; \<open>None\<close> means that they do not return. Whether the system grants more memory is a
  parameter of the model. The sizes are natural numbers: a process is smaller than \<open>2 ^ 32\<close> bytes, since \<open>growproc\<close> keeps
  its size in a \<open>uint\<close>, so the additions of the source do not wrap around.
\<close>

section \<open>Definitions\<close>

record umst =
  um_ptr :: "nat \<Rightarrow> nat"
  um_size :: "nat \<Rightarrow> nat"
  um_freep :: nat
  um_brk :: nat

definition set_ptr :: "nat \<Rightarrow> nat \<Rightarrow> umst \<Rightarrow> umst" where
  "set_ptr p v s = s\<lparr>um_ptr := (um_ptr s)(p := v)\<rparr>"

definition set_size :: "nat \<Rightarrow> nat \<Rightarrow> umst \<Rightarrow> umst" where
  "set_size p v s = s\<lparr>um_size := (um_size s)(p := v)\<rparr>"

text \<open>The loop of \<open>free\<close>: the block of the list behind which \<open>bp\<close> belongs.\<close>

partial_function (option) free_find :: "nat \<Rightarrow> umst \<Rightarrow> nat \<Rightarrow> nat option" where
  "free_find bp s p =
     (if bp > p \<and> bp < um_ptr s p then Some p
      else if p \<ge> um_ptr s p \<and> (bp > p \<or> bp < um_ptr s p) then Some p
      else free_find bp s (um_ptr s p))"

definition free_link :: "nat \<Rightarrow> nat \<Rightarrow> umst \<Rightarrow> umst" where
  "free_link bp p s =
     (let s = (if bp + um_size s bp = um_ptr s p
               then set_ptr bp (um_ptr s (um_ptr s p)) (set_size bp (um_size s bp + um_size s (um_ptr s p)) s)
               else set_ptr bp (um_ptr s p) s);
          s = (if p + um_size s p = bp
               then set_ptr p (um_ptr s bp) (set_size p (um_size s p + um_size s bp) s)
               else set_ptr p bp s)
      in s\<lparr>um_freep := p\<rparr>)"

definition free :: "nat \<Rightarrow> umst \<Rightarrow> umst option" where
  "free ap s =
     (let bp = ap - 1
      in case free_find bp s (um_freep s) of None \<Rightarrow> None | Some p \<Rightarrow> Some (free_link bp p s))"

text \<open>\<open>morecore\<close>: at least 4096 units. \<open>sbrk\<close> takes an \<open>int\<close>, so the number of bytes is cut to 32 bits and read as
  a signed number. The result is \<open>freep\<close>, or 0 when the system refuses.\<close>

definition morecore :: "(int \<Rightarrow> bool) \<Rightarrow> nat \<Rightarrow> umst \<Rightarrow> (nat \<times> umst) option" where
  "morecore grant nu s =
     (let nu = (if nu < 4096 then 4096 else nu);
          n = sint (of_nat (nu * 16) :: u32);
          hp = um_brk s
      in if \<not> grant n then Some (0, s)
         else let s = set_size hp nu (s\<lparr>um_brk := nat (int hp + n div 16)\<rparr>)
              in case free (hp + 1) s of None \<Rightarrow> None | Some s \<Rightarrow> Some (um_freep s, s))"

text \<open>Taking \<open>nunits\<close> from the block \<open>p\<close>, which \<open>prevp\<close> precedes: the whole block or its tail.\<close>

definition malloc_take :: "nat \<Rightarrow> nat \<Rightarrow> nat \<Rightarrow> umst \<Rightarrow> nat \<times> umst" where
  "malloc_take nunits prevp p s =
     (let (p, s) =
        (if um_size s p = nunits then (p, set_ptr prevp (um_ptr s p) s)
         else let s = set_size p (um_size s p - nunits) s;
                  p = p + um_size s p
              in (p, set_size p nunits s))
      in (p + 1, s\<lparr>um_freep := prevp\<rparr>))"

partial_function (option) malloc_loop :: "(int \<Rightarrow> bool) \<Rightarrow> nat \<Rightarrow> nat \<Rightarrow> nat \<Rightarrow> umst \<Rightarrow> (nat \<times> umst) option" where
  "malloc_loop grant nunits prevp p s =
     (if um_size s p \<ge> nunits then Some (malloc_take nunits prevp p s)
      else if p = um_freep s then
        (case morecore grant nunits s of
           None \<Rightarrow> None
         | Some (p, s) \<Rightarrow> if p = 0 then Some (0, s) else malloc_loop grant nunits p (um_ptr s p) s)
      else malloc_loop grant nunits p (um_ptr s p) s)"

definition nunits :: "u32 \<Rightarrow> nat" where
  "nunits nbytes = (unat nbytes + 16 - 1) div 16 + 1"

text \<open>The first call makes \<open>base\<close> an empty circular list.\<close>

definition um_init :: "nat \<Rightarrow> umst \<Rightarrow> umst" where
  "um_init base s =
     (if um_freep s = 0 then set_size base 0 (set_ptr base base (s\<lparr>um_freep := base\<rparr>)) else s)"

definition malloc :: "(int \<Rightarrow> bool) \<Rightarrow> nat \<Rightarrow> u32 \<Rightarrow> umst \<Rightarrow> (nat \<times> umst) option" where
  "malloc grant base nbytes s =
     (let s = um_init base s;
          prevp = um_freep s
      in malloc_loop grant (nunits nbytes) prevp (um_ptr s prevp) s)"

section \<open>The free list\<close>

definition nxt :: "nat list \<Rightarrow> nat \<Rightarrow> nat" where
  "nxt xs e = (case xs of [] \<Rightarrow> e | y # _ \<Rightarrow> y)"

lemma nxt_simps [simp]: "nxt [] e = e" "nxt (x # xs) e = x" "nxt (xs @ ys) e = nxt xs (nxt ys e)"
  by (auto simp: nxt_def split: list.splits)

fun linked :: "umst \<Rightarrow> nat list \<Rightarrow> nat \<Rightarrow> bool" where
  "linked s [] e \<longleftrightarrow> True"
| "linked s (x # xs) e \<longleftrightarrow> um_ptr s x = nxt xs e \<and> linked s xs e"

lemma linked_append [simp]: "linked s (xs @ ys) e \<longleftrightarrow> linked s xs (nxt ys e) \<and> linked s ys e"
  by (induction xs) auto

lemma linked_cong: "(\<forall>x \<in> set xs. um_ptr t x = um_ptr s x) \<Longrightarrow> linked t xs e = linked s xs e"
  by (induction xs) auto

definition apart_blocks :: "umst \<Rightarrow> nat list \<Rightarrow> bool" where
  "apart_blocks s xs \<longleftrightarrow> sorted_wrt (\<lambda>x y. x + um_size s x < y) xs"

text \<open>The units of the blocks of a list.\<close>

definition units :: "umst \<Rightarrow> nat list \<Rightarrow> nat set" where
  "units s xs = (\<Union>x \<in> set xs. {x..<x + um_size s x})"

text \<open>
  The state of the allocator: the circular list \<open>xs\<close> starts at \<open>base\<close>, which is empty; its blocks are in the order of
  their addresses, with something between any two of them, not empty, and below the break.
\<close>

definition um_ok :: "nat \<Rightarrow> umst \<Rightarrow> nat list \<Rightarrow> bool" where
  "um_ok base s xs \<longleftrightarrow>
     0 < base \<and> base < um_brk s \<and> xs \<noteq> [] \<and> hd xs = base \<and> um_size s base = 0 \<and> linked s xs base \<and> apart_blocks s xs \<and>
     um_freep s \<in> set xs \<and> (\<forall>x \<in> set (tl xs). 0 < um_size s x) \<and> (\<forall>x \<in> set xs. x + um_size s x \<le> um_brk s)"

text \<open>Where the block \<open>bp\<close> belongs: behind \<open>p\<close>.\<close>

definition belongs :: "nat \<Rightarrow> nat list \<Rightarrow> nat \<Rightarrow> nat list \<Rightarrow> bool" where
  "belongs bp as p cs \<longleftrightarrow> (\<forall>x \<in> set as. x < p) \<and> p < bp \<and> (\<forall>x \<in> set cs. bp < x) \<and> sorted_wrt (<) as \<and> sorted_wrt (<) cs"

lemma free_find_stop:
  assumes "belongs bp as p cs" "um_ptr s p = nxt cs base" "base \<le> p"
  shows "free_find bp s p = Some p"
  using assms by (subst free_find.simps) (cases cs; auto simp: belongs_def)

lemma free_find_up:
  assumes "belongs bp as p cs" "linked s (as @ p # cs) base" "base \<le> p"
  shows "free_find bp s (nxt as p) = Some p"
  using assms
proof (induction as)
  case Nil
  then show ?case using free_find_stop [of bp "[]" p cs s base] by simp
next
  case (Cons a as)
  then have "um_ptr s a = nxt as p" "a < p" "p < bp" by (auto simp: belongs_def)
  moreover have "a < nxt as p" "nxt as p \<le> p" using Cons.prems(1) by (cases as; auto simp: belongs_def)+
  moreover have "free_find bp s (nxt as p) = Some p" using Cons by (auto simp: belongs_def)
  ultimately show ?case by (subst nxt_simps(2), subst free_find.simps) auto
qed

lemma free_find_down:
  assumes "\<forall>x \<in> set ds. bp < x" "sorted_wrt (<) ds" "linked s ds base" "base < bp" "free_find bp s base = Some p"
  shows "free_find bp s (nxt ds base) = Some p"
  using assms(1-3)
proof (induction ds)
  case (Cons d ds)
  then have "um_ptr s d = nxt ds base" "bp < d" by auto
  moreover have "ds = [] \<or> d < nxt ds base" using Cons.prems(2) by (cases ds) auto
  ultimately show ?case using Cons assms(4) by (subst nxt_simps(2), subst free_find.simps) (cases ds; auto)
qed (simp add: assms(5))

lemma free_find_any:
  assumes b: "belongs bp as p cs" and l: "linked s (as @ p # cs) base" and base: "nxt as p = base" "base < bp"
    and q: "q \<in> set (as @ p # cs)"
  shows "free_find bp s q = Some p"
proof -
  have bp: "base \<le> p" using b base(1) by (cases as) (auto simp: belongs_def)
  from q consider "q \<in> set as" | "q = p" | "q \<in> set cs" by auto
  then show ?thesis
  proof cases
    case 1
    then obtain as1 as2 where as: "as = as1 @ q # as2" by (auto simp: in_set_conv_decomp)
    have "belongs bp (q # as2) p cs" using b by (auto simp: belongs_def as sorted_wrt_append)
    then show ?thesis using free_find_up [of bp "q # as2" p cs s base] l bp by (simp add: as)
  next
    case 2
    then show ?thesis using free_find_stop [OF b _ bp] l by simp
  next
    case 3
    then obtain cs1 cs2 where cs: "cs = cs1 @ q # cs2" by (auto simp: in_set_conv_decomp)
    have "free_find bp s base = Some p" using free_find_up [OF b l bp] base(1) by simp
    then show ?thesis
      using free_find_down [of "q # cs2" bp s base p] b l base(2) by (auto simp: belongs_def cs sorted_wrt_append)
  qed
qed

text \<open>The list around a block that is not in it.\<close>

lemma split_at:
  assumes "sorted_wrt (<) xs" "xs \<noteq> []" "hd xs < bp" "bp \<notin> set xs"
  obtains as p cs where "xs = as @ p # cs" "belongs bp as p cs"
proof -
  have "\<exists>as p cs. xs = as @ p # cs \<and> belongs bp as p cs"
    using assms
  proof (induction xs)
    case (Cons x xs)
    show ?case
    proof (cases "xs \<noteq> [] \<and> hd xs < bp")
      case True
      then obtain as p cs where *: "xs = as @ p # cs" "belongs bp as p cs" using Cons by auto
      then have "belongs bp (x # as) p cs" using Cons.prems(1) by (auto simp: belongs_def)
      then show ?thesis using *(1) by (intro exI [of _ "x # as"]) auto
    next
      case False
      then have "\<forall>y \<in> set xs. bp < y" using Cons.prems by (cases xs) auto
      then show ?thesis using Cons.prems by (intro exI [of _ "[]"]) (auto simp: belongs_def)
    qed
  qed simp
  then show ?thesis using that by blast
qed

section \<open>Freeing a block\<close>

text \<open>What a list of blocks behind \<open>q\<close> looks like.\<close>

definition tail_ok :: "nat \<Rightarrow> umst \<Rightarrow> nat \<Rightarrow> nat list \<Rightarrow> bool" where
  "tail_ok base s q cs \<longleftrightarrow>
     um_ptr s q = nxt cs base \<and> linked s cs base \<and> apart_blocks s (q # cs) \<and> (\<forall>x \<in> set cs. 0 < um_size s x) \<and>
     (\<forall>x \<in> set (q # cs). x + um_size s x \<le> um_brk s)"

lemma split_units: "{p..<p + (a + b)} = {p..<p + a} \<union> {p + a..<p + (a + b) :: nat}"
  by auto

definition free_right :: "nat \<Rightarrow> nat \<Rightarrow> umst \<Rightarrow> umst" where
  "free_right bp p s =
     (if bp + um_size s bp = um_ptr s p
      then set_ptr bp (um_ptr s (um_ptr s p)) (set_size bp (um_size s bp + um_size s (um_ptr s p)) s)
      else set_ptr bp (um_ptr s p) s)"

definition free_left :: "nat \<Rightarrow> nat \<Rightarrow> umst \<Rightarrow> umst" where
  "free_left bp p s =
     (if p + um_size s p = bp
      then set_ptr p (um_ptr s bp) (set_size p (um_size s p + um_size s bp) s)
      else set_ptr p bp s)"

lemma free_link_steps: "free_link bp p s = (free_left bp p (free_right bp p s))\<lparr>um_freep := p\<rparr>"
  by (simp add: free_link_def free_left_def free_right_def Let_def)

lemma units_simps [simp]: "units s [] = {}" "units s (x # xs) = {x..<x + um_size s x} \<union> units s xs" "units s (xs @ ys) = units s xs \<union> units s ys"
  by (auto simp: units_def)

lemma units_cong: "(\<forall>x \<in> set xs. um_size t x = um_size s x) \<Longrightarrow> units t xs = units s xs"
  by (simp add: units_def)

lemma apart_cong: "(\<forall>x \<in> set xs. um_size t x = um_size s x) \<Longrightarrow> apart_blocks t xs = apart_blocks s xs"
  by (induction xs) (auto simp: apart_blocks_def)

lemma um_set_simps [simp]:
  "um_ptr (set_ptr p v s) = (um_ptr s)(p := v)" "um_size (set_ptr p v s) = um_size s"
  "um_size (set_size p v s) = (um_size s)(p := v)" "um_ptr (set_size p v s) = um_ptr s"
  "um_freep (set_ptr p v s) = um_freep s" "um_freep (set_size p v s) = um_freep s"
  "um_brk (set_ptr p v s) = um_brk s" "um_brk (set_size p v s) = um_brk s"
  by (simp_all add: set_ptr_def set_size_def)

lemma free_right_ok:
  assumes t: "tail_ok base s p cs" and bp: "p < bp" "bp \<notin> set cs" "base < bp" "0 < um_size s bp" "bp + um_size s bp \<le> um_brk s"
    and cs: "\<forall>x \<in> set cs. bp + um_size s bp \<le> x"
  obtains ds where "tail_ok base (free_right bp p s) bp ds" "set ds \<subseteq> set cs" "0 < um_size (free_right bp p s) bp"
    "{bp..<bp + um_size (free_right bp p s) bp} \<union> units s ds = {bp..<bp + um_size s bp} \<union> units s cs"
proof (cases "bp + um_size s bp = um_ptr s p")
  case True
  then obtain c ds where c: "cs = c # ds" using t bp by (cases cs) (auto simp: tail_ok_def)
  let ?t = "free_right bp p s"
  have n: "um_ptr ?t = (um_ptr s)(bp := nxt ds base)" "um_size ?t = (um_size s)(bp := um_size s bp + um_size s c)" "um_brk ?t = um_brk s"
    using True t by (auto simp: free_right_def tail_ok_def c)
  have e: "bp + um_size s bp = c" using True t by (simp add: tail_ok_def c)
  have "bp \<notin> set ds" using bp c by auto
  then have "linked ?t ds base" "apart_blocks ?t ds" using t
    by (subst linked_cong [of _ _ s], auto simp: n tail_ok_def c, subst apart_cong [of _ _ s], auto simp: n apart_blocks_def)
  then have "tail_ok base ?t bp ds"
    using t e bp(4) \<open>bp \<notin> set ds\<close> by (auto simp: tail_ok_def n c apart_blocks_def)
  moreover have "{bp..<bp + um_size ?t bp} \<union> units s ds = {bp..<bp + um_size s bp} \<union> units s cs" using e by (auto simp: n c)
  ultimately show ?thesis using that [of ds] bp(4) by (auto simp: n c)
next
  case False
  let ?t = "free_right bp p s"
  have n: "um_ptr ?t = (um_ptr s)(bp := nxt cs base)" "um_size ?t = um_size s" "um_brk ?t = um_brk s"
    using False t by (auto simp: free_right_def tail_ok_def)
  have "bp + um_size s bp < x" if "x \<in> set cs" for x
  proof -
    have "um_ptr s p = hd cs" "hd cs \<le> x" using t that by (cases cs; auto simp: tail_ok_def apart_blocks_def)+
    then show ?thesis using False cs that hd_in_set [of cs] by (cases cs) fastforce+
  qed
  moreover have "linked ?t cs base" using t bp(2) by (subst linked_cong [of _ _ s]) (auto simp: n tail_ok_def)
  ultimately have "tail_ok base ?t bp cs" using t bp(4,5) by (auto simp: tail_ok_def n apart_blocks_def)
  then show ?thesis using that [of cs] bp(4) by (simp add: n)
qed

definition head_ok :: "nat \<Rightarrow> umst \<Rightarrow> nat list \<Rightarrow> nat \<Rightarrow> bool" where
  "head_ok base s as p \<longleftrightarrow>
     0 < base \<and> base < um_brk s \<and> nxt as p = base \<and> um_size s base = 0 \<and> linked s as p \<and> apart_blocks s (as @ [p]) \<and>
     (\<forall>x \<in> set (tl (as @ [p])). 0 < um_size s x)"

lemma um_ok_split:
  "um_ok base s (as @ p # cs) \<longleftrightarrow> head_ok base s as p \<and> tail_ok base s p cs \<and> um_freep s \<in> set (as @ p # cs)"
proof -
  have a: "apart_blocks s (as @ p # cs) \<longleftrightarrow> apart_blocks s (as @ [p]) \<and> apart_blocks s (p # cs)"
    unfolding apart_blocks_def by (auto simp: sorted_wrt_append) fastforce
  have h: "hd (as @ p # cs) = nxt as p" by (cases as) auto
  have z: "(\<forall>x \<in> set (tl (as @ p # cs)). 0 < um_size s x) \<longleftrightarrow> (\<forall>x \<in> set (tl (as @ [p])). 0 < um_size s x) \<and> (\<forall>x \<in> set cs. 0 < um_size s x)"
    by (cases as) auto
  have b: "(\<forall>x \<in> set (as @ p # cs). x + um_size s x \<le> um_brk s) \<longleftrightarrow> (\<forall>x \<in> set (p # cs). x + um_size s x \<le> um_brk s)"
    if "apart_blocks s (as @ [p])"
    using that by (force simp: apart_blocks_def sorted_wrt_append)
  show ?thesis unfolding um_ok_def head_ok_def tail_ok_def h z using a b by auto
qed

lemma free_left_ok:
  assumes h: "head_ok base s as p" and t: "tail_ok base s bp ds" and bp: "p + um_size s p \<le> bp" "p < bp" "bp \<notin> set as" "base < bp"
    and pos: "0 < um_size s bp" and p: "p \<notin> set as"
  obtains cs where "head_ok base (free_left bp p s) as p" "tail_ok base (free_left bp p s) p cs" "set cs \<subseteq> insert bp (set ds)"
    "units (free_left bp p s) (p # cs) = {p..<p + um_size s p} \<union> units s (bp # ds)"
proof (cases "p + um_size s p = bp")
  case True
  let ?t = "free_left bp p s"
  have n: "um_ptr ?t = (um_ptr s)(p := nxt ds base)" "um_size ?t = (um_size s)(p := um_size s p + um_size s bp)" "um_brk ?t = um_brk s"
    using True t by (auto simp: free_left_def tail_ok_def)
  have d: "p \<notin> set ds" using t bp(2) by (auto simp: tail_ok_def apart_blocks_def)
  have pb: "p \<noteq> base" using True h bp(2) by (auto simp: head_ok_def)
  have "linked ?t as p" using h p by (subst linked_cong [of _ _ s]) (auto simp: n head_ok_def)
  moreover have "apart_blocks ?t (as @ [p])" using h p by (auto simp: n head_ok_def apart_blocks_def sorted_wrt_append intro: sorted_wrt_mono_rel [rotated])
  ultimately have "head_ok base ?t as p" using h pb pos by (auto simp: head_ok_def n)
  moreover have "linked ?t ds base" using t d by (subst linked_cong [of _ _ s]) (auto simp: n tail_ok_def)
  moreover have "apart_blocks ?t ds" using t d by (subst apart_cong [of _ _ s]) (auto simp: n tail_ok_def apart_blocks_def)
  ultimately have ok: "head_ok base ?t as p" "tail_ok base ?t p ds"
    using t d True by (auto simp: tail_ok_def n apart_blocks_def)
  have "units ?t ds = units s ds" using d by (intro units_cong) (auto simp: n)
  moreover have "{p..<p + um_size ?t p} = {p..<p + um_size s p} \<union> {bp..<bp + um_size s bp}"
    using split_units [of p "um_size s p" "um_size s bp"] True by (simp add: n flip: add.assoc)
  ultimately have u: "units ?t (p # ds) = {p..<p + um_size s p} \<union> units s (bp # ds)"
    by (simp only: units_simps Un_assoc)
  have sub: "set ds \<subseteq> insert bp (set ds)" by blast
  show ?thesis by (rule that [OF ok sub u])
next
  case False
  let ?t = "free_left bp p s"
  have n: "um_ptr ?t = (um_ptr s)(p := bp)" "um_size ?t = um_size s" "um_brk ?t = um_brk s"
    using False by (auto simp: free_left_def)
  have d: "p \<notin> set (bp # ds)" using t bp(2) by (auto simp: tail_ok_def apart_blocks_def)
  have "linked ?t as p" using h p by (subst linked_cong [of _ _ s]) (auto simp: n head_ok_def)
  then have ok: "head_ok base ?t as p" using h by (auto simp: head_ok_def n apart_blocks_def)
  have "linked ?t ds base" using t d by (subst linked_cong [of _ _ s]) (auto simp: n tail_ok_def)
  then have tail: "tail_ok base ?t p (bp # ds)"
    using t d False bp(1) pos by (fastforce simp: tail_ok_def n apart_blocks_def)
  have u: "units ?t (p # bp # ds) = {p..<p + um_size s p} \<union> units s (bp # ds)"
    using units_cong [of "bp # ds" ?t s] by (simp add: n)
  have sub: "set (bp # ds) \<subseteq> insert bp (set ds)" by simp
  show ?thesis by (rule that [OF ok tail sub u])
qed

lemma free_right_same:
  "x \<noteq> bp \<Longrightarrow> um_ptr (free_right bp p s) x = um_ptr s x" "x \<noteq> bp \<Longrightarrow> um_size (free_right bp p s) x = um_size s x"
  "um_brk (free_right bp p s) = um_brk s" "um_freep (free_right bp p s) = um_freep s"
  by (simp_all add: free_right_def)

lemma head_ok_cong:
  "(\<forall>x \<in> set (as @ [p]). um_size t x = um_size s x) \<Longrightarrow> (\<forall>x \<in> set as. um_ptr t x = um_ptr s x) \<Longrightarrow> um_brk t = um_brk s \<Longrightarrow>
   head_ok base t as p = head_ok base s as p"
proof -
  assume *: "\<forall>x \<in> set (as @ [p]). um_size t x = um_size s x" "\<forall>x \<in> set as. um_ptr t x = um_ptr s x" "um_brk t = um_brk s"
  then have "\<forall>x \<in> set (tl (as @ [p])). um_size t x = um_size s x" by (cases as) auto
  moreover have "nxt as p \<in> set (as @ [p])" by (cases as) auto
  ultimately show ?thesis
    unfolding head_ok_def linked_cong [OF *(2)] apart_cong [OF *(1)] using *(1,3) by auto
qed

lemma tail_ok_freep [simp]: "tail_ok base (s\<lparr>um_freep := q\<rparr>) p cs = tail_ok base s p cs"
  "head_ok base (s\<lparr>um_freep := q\<rparr>) as p = head_ok base s as p" "units (s\<lparr>um_freep := q\<rparr>) xs = units s xs"
proof -
  have "linked (s\<lparr>um_freep := q\<rparr>) xs e = linked s xs e" for xs e by (rule linked_cong) simp
  then show "tail_ok base (s\<lparr>um_freep := q\<rparr>) p cs = tail_ok base s p cs"
    "head_ok base (s\<lparr>um_freep := q\<rparr>) as p = head_ok base s as p" "units (s\<lparr>um_freep := q\<rparr>) xs = units s xs"
    by (simp_all add: tail_ok_def head_ok_def units_def apart_blocks_def)
qed

lemma free_link_ok:
  assumes ok: "um_ok base s (as @ p # cs)" and b: "belongs bp as p cs"
    and bp: "base < bp" "0 < um_size s bp" "bp + um_size s bp \<le> um_brk s" "p + um_size s p \<le> bp" "\<forall>x \<in> set cs. bp + um_size s bp \<le> x"
  shows "\<exists>ys. um_ok base (free_link bp p s) ys \<and> units (free_link bp p s) ys = units s (as @ p # cs) \<union> {bp..<bp + um_size s bp}"
proof -
  have h: "head_ok base s as p" and t: "tail_ok base s p cs" using ok by (simp_all add: um_ok_split)
  have n: "p < bp" "bp \<notin> set cs" "bp \<notin> set as" "p \<notin> set as" using b by (auto simp: belongs_def)
  let ?r = "free_right bp p s"
  obtain ds where ds: "tail_ok base ?r bp ds" "set ds \<subseteq> set cs" "0 < um_size ?r bp"
    "{bp..<bp + um_size ?r bp} \<union> units s ds = {bp..<bp + um_size s bp} \<union> units s cs"
    using free_right_ok [OF t n(1,2) bp(1-3,5)] by blast
  have same: "um_ptr ?r x = um_ptr s x \<and> um_size ?r x = um_size s x" if "x \<noteq> bp" for x using that by (simp add: free_right_same)
  have pr: "um_size ?r p = um_size s p" using same n(1) by simp
  have "\<forall>x \<in> set as. um_ptr ?r x = um_ptr s x \<and> um_size ?r x = um_size s x" using same n(3) by metis
  then have hr: "head_ok base ?r as p" using h pr by (subst head_ok_cong [of _ _ _ s]) (auto simp: free_right_same)
  let ?l = "free_left bp p ?r"
  have le: "p + um_size ?r p \<le> bp" using bp(4) pr by simp
  obtain es where es: "head_ok base ?l as p" "tail_ok base ?l p es" "set es \<subseteq> insert bp (set ds)"
    "units ?l (p # es) = {p..<p + um_size ?r p} \<union> units ?r (bp # ds)"
    by (rule free_left_ok [OF hr ds(1) le n(1,3) bp(1) ds(3) n(4)])
  have "\<forall>x \<in> set as. um_size ?l x = um_size s x" using n(3,4) same by (simp add: free_left_def) metis
  then have "units ?l as = units s as" by (rule units_cong)
  moreover have "\<forall>x \<in> set ds. um_size ?r x = um_size s x" using same ds(2) n(2) by (metis subsetD)
  then have "units ?r ds = units s ds" by (rule units_cong)
  ultimately have "units ?l (as @ p # es) = units s (as @ p # cs) \<union> {bp..<bp + um_size s bp}"
    using es(4) ds(4) pr by (auto simp del: atLeastLessThan_iff)
  moreover have "um_ok base (free_link bp p s) (as @ p # es)"
    using es(1,2) by (simp add: free_link_steps um_ok_split)
  ultimately show ?thesis by (intro exI [of _ "as @ p # es"]) (simp add: free_link_steps)
qed

text \<open>The headers outside the blocks that are free before or after are not written.\<close>

definition live_kept :: "nat \<Rightarrow> umst \<Rightarrow> umst \<Rightarrow> nat set \<Rightarrow> bool" where
  "live_kept base s t U \<longleftrightarrow> (\<forall>x. x \<notin> U \<and> x \<noteq> base \<longrightarrow> um_size t x = um_size s x)"

lemma in_units: "um_ok base s xs \<Longrightarrow> x \<in> set xs \<Longrightarrow> x = base \<or> x \<in> units s xs"
  by (cases xs) (force simp: um_ok_def units_def)+

lemma um_ok_sorted: "um_ok base s xs \<Longrightarrow> sorted_wrt (<) xs"
  unfolding um_ok_def apart_blocks_def by (auto intro: sorted_wrt_mono_rel [rotated])

lemma um_ok_base: "um_ok base s xs \<Longrightarrow> x \<in> set xs \<Longrightarrow> base \<le> x"
  using um_ok_sorted [of base s xs] by (cases xs) (force simp: um_ok_def)+

lemma free_ok:
  assumes ok: "um_ok base s xs" and bp: "base < bp" "0 < um_size s bp" "bp + um_size s bp \<le> um_brk s"
    and disj: "{bp..<bp + um_size s bp} \<inter> units s xs = {}"
  shows "\<exists>t ys. free (bp + 1) s = Some t \<and> um_ok base t ys \<and> units t ys = units s xs \<union> {bp..<bp + um_size s bp} \<and>
    um_brk t = um_brk s \<and> live_kept base s t (units s xs \<union> {bp..<bp + um_size s bp})"
proof -
  have out: "x \<notin> units s xs" if "bp \<le> x" "x < bp + um_size s bp" for x
    using disj that by (meson atLeastLessThan_iff disjoint_iff)
  have bu: "bp \<notin> units s xs" using out [of bp] bp(2) by simp
  then have "bp \<notin> set xs" using in_units [OF ok] bp(1) by auto
  moreover have ne: "xs \<noteq> []" "hd xs = base" using ok by (auto simp: um_ok_def)
  ultimately obtain as p cs where xs: "xs = as @ p # cs" and b: "belongs bp as p cs"
    using split_at [OF um_ok_sorted [OF ok]] bp(1) by metis
  have pb: "nxt as p = base" using ne(2) xs by (cases as) auto
  have p: "p < bp" using b by (simp add: belongs_def)
  have "p + um_size s p \<le> bp" using bu p by (auto simp: xs not_le)
  moreover have "bp + um_size s bp \<le> x" if "x \<in> set cs" for x
  proof (rule ccontr)
    assume "\<not> bp + um_size s bp \<le> x"
    moreover have "bp < x" using b that by (simp add: belongs_def)
    moreover have "x \<in> units s xs" using in_units [OF ok, of x] that bp(1) \<open>bp < x\<close> by (auto simp: xs)
    ultimately show False using out [of x] by simp
  qed
  ultimately obtain ys where ys: "um_ok base (free_link bp p s) ys" "units (free_link bp p s) ys = units s xs \<union> {bp..<bp + um_size s bp}"
    using free_link_ok [OF ok [unfolded xs] b bp] xs by auto
  have f: "um_freep s \<in> set (as @ p # cs)" "linked s (as @ p # cs) base" using ok xs by (auto simp: um_ok_def)
  have "free (bp + 1) s = Some (free_link bp p s)"
    using free_find_any [OF b f(2) pb bp(1) f(1)] by (simp add: free_def)
  moreover have pu: "p = base \<or> p \<in> units s xs" using in_units [OF ok, of p] xs by simp
  moreover have bpu: "bp \<in> {bp..<bp + um_size s bp}" using bp(2) by simp
  moreover have sz: "um_size (free_link bp p s) x = um_size s x" if "x \<noteq> p \<or> p = base" "x \<noteq> bp" for x
  proof -
    have "p = base \<Longrightarrow> um_size s p = 0" using ok by (simp add: um_ok_def)
    then show ?thesis using that p by (auto simp: free_link_steps free_left_def free_right_same)
  qed
  have "live_kept base s (free_link bp p s) (units s xs \<union> {bp..<bp + um_size s bp})"
    unfolding live_kept_def
  proof (intro allI impI)
    fix x assume x: "x \<notin> units s xs \<union> {bp..<bp + um_size s bp} \<and> x \<noteq> base"
    have "x \<noteq> bp" using x bpu by blast
    moreover have "x \<noteq> p" using x pu by blast
    ultimately show "um_size (free_link bp p s) x = um_size s x" by (intro sz) simp_all
  qed
  moreover have "um_brk (free_link bp p s) = um_brk s" by (simp add: free_link_steps free_left_def free_right_same)
  ultimately show ?thesis using ys by blast
qed

section \<open>Taking a block\<close>

definition taken :: "nat \<Rightarrow> nat \<Rightarrow> nat set" where
  "taken a n = {a - 1..<a - 1 + n}"

lemma um_ok_resize:
  assumes ok: "um_ok base s xs" and p: "p \<noteq> base" and n: "0 < n" "n \<le> um_size s p" and q: "q \<in> set xs"
    and t: "um_ptr t = um_ptr s" "um_size t = (um_size s)(h := m, p := n)" "h \<notin> set xs" "um_brk t = um_brk s" "um_freep t = q"
  shows "um_ok base t xs"
proof -
  have le: "um_size t x \<le> um_size s x" if "x \<in> set xs" for x using n t(2,3) that by auto
  have "linked t xs base" using ok by (subst linked_cong [of _ _ s]) (auto simp: t um_ok_def)
  moreover have "apart_blocks t xs"
    unfolding apart_blocks_def
  proof (rule sorted_wrt_mono_rel)
    show "sorted_wrt (\<lambda>x y. x + um_size s x < y) xs" using ok by (simp add: um_ok_def apart_blocks_def)
  next
    fix x y assume "x \<in> set xs" "x + um_size s x < y"
    then show "x + um_size t x < y" using le [of x] by simp
  qed
  moreover have "x + um_size t x \<le> um_brk t" if "x \<in> set xs" for x
    using ok le [OF that] that t(4) by (fastforce simp: um_ok_def)
  moreover have "0 < um_size t x" if "x \<in> set (tl xs)" for x
  proof -
    have "x \<in> set xs" "0 < um_size s x" using that ok by (auto simp: um_ok_def intro: list.set_sel(2))
    then show ?thesis using t(2,3) n by auto
  qed
  moreover have "base \<in> set xs" using ok hd_in_set [of xs] by (auto simp: um_ok_def)
  then have "um_size t base = 0" using ok p t(2,3) by (auto simp: um_ok_def)
  ultimately show ?thesis using ok q t(4,5) by (simp add: um_ok_def)
qed

lemma apart_units:
  assumes "apart_blocks s (as @ p # ds)"
  shows "\<forall>x \<in> units s as. x < p" "\<forall>x \<in> units s ds. p + um_size s p < x"
  using assms by (fastforce simp: apart_blocks_def sorted_wrt_append units_def)+

lemma cut_block:
  assumes "\<forall>x \<in> A. x < p" "\<forall>x \<in> D. p + (k + n) < x"
  shows "(A \<union> {p..<p + (k + n)} \<union> D) - {p + k..<p + (k + n)} = A \<union> {p..<p + k} \<union> (D :: nat set)" (is "?l = ?r")
proof (rule set_eqI)
  fix x show "x \<in> ?l \<longleftrightarrow> x \<in> ?r" using bspec [OF assms(1), of x] bspec [OF assms(2), of x] by auto
qed

lemma take_all_ok:
  assumes ok: "um_ok base s (as @ q # p # ds)" and sz: "0 < um_size s p"
    and t: "t = (set_ptr q (um_ptr s p) s)\<lparr>um_freep := q\<rparr>"
  shows "um_ok base t (as @ q # ds)" "units t (as @ q # ds) = units s (as @ q # p # ds) - {p..<p + um_size s p}"
proof -
  have f: "um_ptr t = (um_ptr s)(q := um_ptr s p)" "um_size t = um_size s" "um_brk t = um_brk s" "um_freep t = q" by (simp_all add: t)
  have h: "head_ok base s as q" "tail_ok base s q (p # ds)" using ok by (simp_all add: um_ok_split)
  have lt: "sorted_wrt (<) (as @ q # p # ds)" by (rule um_ok_sorted [OF ok])
  have "head_ok base t as q" using h(1) lt by (subst head_ok_cong [of _ _ _ s]) (auto simp: f sorted_wrt_append)
  moreover have "linked t ds base" using h(2) lt
    by (subst linked_cong [of _ _ s]) (auto simp: f tail_ok_def sorted_wrt_append)
  then have "tail_ok base t q ds" using h(2) by (auto simp: tail_ok_def f apart_blocks_def)
  ultimately show "um_ok base t (as @ q # ds)" by (simp add: um_ok_split f)
  have "apart_blocks s ((as @ [q]) @ p # ds)" using ok by (simp add: um_ok_def)
  note a = apart_units [OF this]
  have "units t (as @ q # ds) = units s (as @ q # ds)" by (rule units_cong) (simp add: f)
  then show "units t (as @ q # ds) = units s (as @ q # p # ds) - {p..<p + um_size s p}"
    using cut_block [of "units s (as @ [q])" p "units s ds" 0 "um_size s p"] a by (simp add: Un_assoc)
qed

lemma units_shrink:
  assumes ok: "um_ok base s xs" and p: "p \<in> set xs" and n: "n \<le> um_size s p"
    and t: "um_size t = (um_size s)(p + (um_size s p - n) := m, p := um_size s p - n)" "p + (um_size s p - n) \<notin> set xs"
  shows "units t xs = units s xs - {p + (um_size s p - n)..<p + um_size s p}"
proof -
  obtain as ds where xs: "xs = as @ p # ds" using p by (auto simp: in_set_conv_decomp)
  have a: "apart_blocks s (as @ p # ds)" using ok by (simp add: um_ok_def xs)
  have "p \<notin> set as" "p \<notin> set ds" using um_ok_sorted [OF ok] by (auto simp: xs sorted_wrt_append)
  then have "units t as = units s as" "units t ds = units s ds" using t by (auto simp: xs intro!: units_cong)
  moreover have "um_size t p = um_size s p - n" by (simp add: t(1))
  ultimately have "units t xs = units s as \<union> {p..<p + (um_size s p - n)} \<union> units s ds" by (auto simp: xs)
  moreover have "units s xs = units s as \<union> {p..<p + um_size s p} \<union> units s ds" by (auto simp: xs)
  ultimately show ?thesis
    using cut_block [of "units s as" p "units s ds" "um_size s p - n" n] apart_units [OF a] n by simp
qed

text \<open>What a successful \<open>malloc\<close> of \<open>n\<close> units leaves, when the free units were \<open>U\<close>.\<close>

definition gives :: "nat \<Rightarrow> nat \<Rightarrow> umst \<Rightarrow> nat set \<Rightarrow> nat \<Rightarrow> umst \<Rightarrow> bool" where
  "gives base n s U a t \<longleftrightarrow>
     0 < a \<and> um_size t (a - 1) = n \<and> taken a n \<subseteq> U \<and> live_kept base s t U \<and>
     (\<exists>ys. um_ok base t ys \<and> units t ys = U - taken a n)"

lemma malloc_take_ok:
  assumes ok: "um_ok base s xs" and q: "q \<in> set xs" "um_ptr s q = p" and n: "0 < n" "n \<le> um_size s p"
  shows "gives base n s (units s xs) (fst (malloc_take n q p s)) (snd (malloc_take n q p s))"
    "um_brk (snd (malloc_take n q p s)) = um_brk s"
proof -
  have pb: "p \<noteq> base" using n ok by (auto simp: um_ok_def)
  obtain as cs where xs: "xs = as @ q # cs" using q(1) by (auto simp: in_set_conv_decomp)
  then have "nxt cs base = p" using ok q(2) by (simp add: um_ok_def)
  then obtain ds where cs: "cs = p # ds" using pb by (cases cs) auto
  have p: "p \<in> set xs" by (simp add: xs cs)
  have sub: "{p..<p + um_size s p} \<subseteq> units s xs" by (auto simp: xs cs)
  show "um_brk (snd (malloc_take n q p s)) = um_brk s" by (auto simp: malloc_take_def Let_def)
  show "gives base n s (units s xs) (fst (malloc_take n q p s)) (snd (malloc_take n q p s))"
  proof (cases "um_size s p = n")
    case True
    let ?t = "(set_ptr q (um_ptr s p) s)\<lparr>um_freep := q\<rparr>"
    have "um_ok base s (as @ q # p # ds)" using ok by (simp add: xs cs)
    from take_all_ok [OF this _ refl] have "um_ok base ?t (as @ q # ds)" "units ?t (as @ q # ds) = units s xs - {p..<p + n}"
      using n True by (simp_all add: xs cs)
    moreover have "malloc_take n q p s = (p + 1, ?t)" using True by (simp add: malloc_take_def)
    ultimately show ?thesis using sub True by (auto simp: gives_def taken_def live_kept_def)
  next
    case False
    let ?k = "um_size s p - n"
    let ?t = "(set_size (p + ?k) n (set_size p ?k s))\<lparr>um_freep := q\<rparr>"
    have k: "0 < ?k" "?k < um_size s p" "?k + n = um_size s p" using False n by auto
    have "p + ?k \<in> {p..<p + um_size s p}" using k by simp
    then have hu: "p + ?k \<in> units s xs" using sub by blast
    have h: "p + ?k \<notin> set xs"
    proof
      assume "p + ?k \<in> set xs"
      then have "p + ?k \<in> set ds" using um_ok_sorted [OF ok] k by (auto simp: xs cs sorted_wrt_append)
      moreover have "apart_blocks s ((as @ [q]) @ p # ds)" using ok by (simp add: um_ok_def xs cs)
      ultimately show False using k by (auto simp: apart_blocks_def sorted_wrt_append)
    qed
    have sz: "um_size ?t = (um_size s)(p + ?k := n, p := ?k)" using k by (auto simp: fun_upd_twist)
    have "um_ok base ?t xs"
      by (rule um_ok_resize [OF ok pb k(1) _ q(1) _ sz h]) (use k in simp_all)
    moreover have "units ?t xs = units s xs - {p + ?k..<p + um_size s p}"
      by (rule units_shrink [OF ok p n(2) sz h])
    moreover have "malloc_take n q p s = (p + ?k + 1, ?t)" using False by (simp add: malloc_take_def Let_def)
    moreover have "taken (p + ?k + 1) n = {p + ?k..<p + um_size s p}" using k by (simp add: taken_def add.assoc)
    moreover have "live_kept base s ?t (units s xs)"
    proof -
      have "p \<in> units s xs" using sub n by fastforce
      then show ?thesis using hu by (auto simp: live_kept_def)
    qed
    moreover have "{p + ?k..<p + um_size s p} \<subseteq> units s xs" using sub by auto
    moreover have "um_size ?t (p + ?k) = n" by simp
    ultimately show ?thesis unfolding gives_def by (metis add_diff_cancel_right' fst_conv less_add_one not_less_zero snd_conv zero_less_iff_neq_zero)
  qed
qed

section \<open>The search\<close>

text \<open>The search from \<open>q\<close> over the blocks \<open>ds\<close> back to \<open>freep\<close>: it takes the first block that is large enough.\<close>

lemma malloc_scan_fits:
  assumes "linked s (q # ds) e" "e = um_freep s" "e \<notin> set ds" "x \<in> set (ds @ [e])" "n \<le> um_size s x"
  shows "\<exists>r p. r \<in> set (q # ds) \<and> um_ptr s r = p \<and> n \<le> um_size s p \<and>
    malloc_loop g n q (nxt ds e) s = Some (malloc_take n r p s)"
  using assms
proof (induction ds arbitrary: q)
  case Nil
  then show ?case by (auto simp: malloc_loop.simps [of g n q "um_freep s"])
next
  case (Cons d ds)
  show ?case
  proof (cases "n \<le> um_size s d")
    case True
    then show ?thesis using Cons.prems(1) by (auto simp: malloc_loop.simps [of g n q d] intro!: exI [of _ q])
  next
    case False
    then have "malloc_loop g n q d s = malloc_loop g n d (nxt ds e) s"
      using Cons.prems(1-3) by (auto simp: malloc_loop.simps [of g n q d])
    moreover have "x \<in> set (ds @ [e])" using False Cons.prems(4,5) by auto
    ultimately show ?thesis using Cons.IH [of d] Cons.prems by auto
  qed
qed

lemma malloc_scan_none:
  assumes "linked s (q # ds) e" "e = um_freep s" "e \<notin> set ds" "\<forall>x \<in> set (ds @ [e]). um_size s x < n"
  shows "malloc_loop g n q (nxt ds e) s =
    (case morecore g n s of None \<Rightarrow> None | Some (p, s) \<Rightarrow> if p = 0 then Some (0, s) else malloc_loop g n p (um_ptr s p) s)"
  using assms
proof (induction ds arbitrary: q)
  case Nil
  then show ?case by (simp add: malloc_loop.simps [of g n q "um_freep s"])
next
  case (Cons d ds)
  then have "malloc_loop g n q d s = malloc_loop g n d (nxt ds e) s"
    by (auto simp: malloc_loop.simps [of g n q d])
  then show ?case using Cons.IH [of d] Cons.prems by simp
qed

text \<open>The list read from \<open>freep\<close> on.\<close>

lemma from_freep:
  assumes ok: "um_ok base s xs"
  obtains ds where "linked s (um_freep s # ds) (um_freep s)" "um_freep s \<notin> set ds" "set (um_freep s # ds) = set xs"
    "um_ptr s (um_freep s) = nxt ds (um_freep s)"
proof -
  let ?f = "um_freep s"
  obtain as cs where xs: "xs = as @ ?f # cs" using ok by (auto simp: um_ok_def in_set_conv_decomp)
  have "nxt as ?f = base" using ok by (cases as) (auto simp: um_ok_def xs)
  moreover have "linked s (as @ ?f # cs) base" using ok by (simp add: um_ok_def flip: xs)
  ultimately have "linked s (?f # cs @ as) ?f" by simp
  moreover have "?f \<notin> set (cs @ as)" using um_ok_sorted [OF ok] by (auto simp: xs sorted_wrt_append)
  moreover have "set (?f # cs @ as) = set xs" by (auto simp: arg_cong [OF xs, of set])
  ultimately show ?thesis using that [of "cs @ as"] by simp
qed

lemma malloc_fits:
  assumes ok: "um_ok base s xs" and x: "x \<in> set xs" "n \<le> um_size s x" and n: "0 < n"
  obtains a t where "malloc_loop g n (um_freep s) (um_ptr s (um_freep s)) s = Some (a, t)"
    "gives base n s (units s xs) a t" "um_brk t = um_brk s"
proof -
  from from_freep [OF ok] obtain ds where ds: "linked s (um_freep s # ds) (um_freep s)" "um_freep s \<notin> set ds"
    "set (um_freep s # ds) = set xs" "um_ptr s (um_freep s) = nxt ds (um_freep s)" by blast
  have "x \<in> set (ds @ [um_freep s])" using ds(3) x(1) by auto
  from malloc_scan_fits [OF ds(1) refl ds(2) this x(2), of g] obtain r p where
    r: "r \<in> set xs" "um_ptr s r = p" "n \<le> um_size s p"
    and m: "malloc_loop g n (um_freep s) (um_ptr s (um_freep s)) s = Some (malloc_take n r p s)"
    unfolding ds(3,4) by blast
  show ?thesis
    by (rule that [OF _ malloc_take_ok [OF ok r(1,2) n r(3)]]) (simp add: m)
qed

lemma live_kept_trans: "live_kept base s t U \<Longrightarrow> live_kept base t u U \<Longrightarrow> live_kept base s u U"
  by (simp add: live_kept_def)

lemma gives_from: "live_kept base s t U \<Longrightarrow> gives base n t U a u \<Longrightarrow> gives base n s U a u"
  by (auto simp: gives_def intro: live_kept_trans)

text \<open>Units that are all free lie in one block, since two blocks never touch.\<close>

lemma one_block:
  assumes ok: "um_ok base s xs" and sub: "{h..<h + m} \<subseteq> units s xs" and m: "0 < m"
  obtains x where "x \<in> set xs" "m \<le> um_size s x"
proof -
  have "h \<in> units s xs" using sub m by auto
  then obtain x where x: "x \<in> set xs" "x \<le> h" "h < x + um_size s x" by (auto simp: units_def)
  have "h + m \<le> x + um_size s x"
  proof (rule ccontr)
    assume "\<not> h + m \<le> x + um_size s x"
    then have "x + um_size s x \<in> units s xs" using sub x by auto
    then obtain y where y: "y \<in> set xs" "y \<le> x + um_size s x" "x + um_size s x < y + um_size s y" by (auto simp: units_def)
    have a: "apart_blocks s xs" using ok by (simp add: um_ok_def)
    obtain as cs where xs: "xs = as @ x # cs" using x(1) by (auto simp: in_set_conv_decomp)
    show False using a y by (fastforce simp: xs apart_blocks_def sorted_wrt_append)
  qed
  then show ?thesis using x by (intro that [of x]) auto
qed

lemma sint_of_nat_small: "k < 2 ^ 31 \<Longrightarrow> sint (of_nat k :: u32) = int k"
proof -
  assume "k < 2 ^ 31"
  then have "signed_take_bit 31 (int k) = int k" by (intro signed_take_bit_int_eq_self) auto
  moreover have "sint (word_of_int (int k) :: u32) = signed_take_bit 31 (int k)" by transfer simp
  ultimately show ?thesis by simp
qed

lemma morecore_ok:
  assumes ok: "um_ok base s xs" and n: "n < 2 ^ 27" and m: "m = (if n < 4096 then 4096 else n)" and g: "grant (int (16 * m))"
  obtains t ys where "morecore grant n s = Some (um_freep t, t)" "um_ok base t ys"
    "units t ys = units s xs \<union> {um_brk s..<um_brk s + m}" "um_brk t = um_brk s + m"
    "live_kept base s t (units s xs \<union> {um_brk s..<um_brk s + m})"
proof -
  let ?h = "um_brk s"
  let ?s = "set_size ?h m (s\<lparr>um_brk := ?h + m\<rparr>)"
  have below: "x < ?h \<and> x + um_size s x \<le> ?h" if "x \<in> set xs" for x
  proof -
    have "x + um_size s x \<le> ?h" "x = base \<or> x \<in> set (tl xs)" using ok that by (cases xs; auto simp: um_ok_def)+
    then show ?thesis using ok by (fastforce simp: um_ok_def)
  qed
  then have nh: "?h \<notin> set xs" by blast
  then have same: "\<forall>x \<in> set xs. um_size ?s x = um_size s x" by auto
  have "um_ok base ?s xs"
    using ok nh same below linked_cong [of xs ?s s base] apart_cong [OF same]
    by (force simp: um_ok_def intro: list.set_sel(2))
  moreover have u: "units ?s xs = units s xs" by (rule units_cong [OF same])
  moreover have "{?h..<?h + m} \<inter> units s xs = {}" using below by (fastforce simp: units_def)
  moreover have "base < ?h" "0 < m" using ok m by (auto simp: um_ok_def)
  ultimately obtain t ys where t: "free (?h + 1) ?s = Some t" "um_ok base t ys" "units t ys = units s xs \<union> {?h..<?h + m}"
    "um_brk t = ?h + m" "live_kept base ?s t (units s xs \<union> {?h..<?h + m})"
    using free_ok [of base ?s xs ?h] by auto
  have "16 * m < 2 ^ 31" using n m by auto
  then have "sint (of_nat (16 * m) :: u32) = int (16 * m)" by (intro sint_of_nat_small)
  then have "morecore grant n s = Some (um_freep t, t)"
    using g t(1) by (simp add: morecore_def Let_def m [symmetric] mult.commute nat_add_distrib nat_div_distrib)
  moreover have "live_kept base s ?s (units s xs \<union> {?h..<?h + m})" using \<open>0 < m\<close> by (auto simp: live_kept_def)
  ultimately show ?thesis using that t live_kept_trans by blast
qed

lemma malloc_ok:
  assumes ok: "um_ok base (um_init base s) xs" and n: "nunits nbytes < 2 ^ 27"
  shows "\<exists>a t. malloc grant base nbytes s = Some (a, t) \<and>
    (if a = 0
     then t = um_init base s \<and> (\<forall>x \<in> set xs. um_size t x < nunits nbytes) \<and> \<not> grant (int (16 * max 4096 (nunits nbytes)))
     else um_brk s \<le> um_brk t \<and>
       gives base (nunits nbytes) (um_init base s) (units (um_init base s) xs \<union> {um_brk s..<um_brk t}) a t)"
proof -
  let ?s = "um_init base s" and ?n = "nunits nbytes" and ?f = "um_freep (um_init base s)"
  define m where "m = (if ?n < 4096 then 4096 else ?n)"
  have brk: "um_brk ?s = um_brk s" by (simp add: um_init_def)
  have pos: "0 < ?n" by (simp add: nunits_def)
  have mm: "m = max 4096 ?n" "?n \<le> m" "0 < m" "16 * m < 2 ^ 31" using n by (auto simp: m_def)
  have mal: "malloc grant base nbytes s = malloc_loop grant ?n ?f (um_ptr ?s ?f) ?s" by (simp add: malloc_def Let_def)
  show ?thesis
  proof (cases "\<exists>x \<in> set xs. ?n \<le> um_size ?s x")
    case True
    then obtain x where "x \<in> set xs" "?n \<le> um_size ?s x" by blast
    from malloc_fits [OF ok this pos, of grant] obtain a t where
      "malloc_loop grant ?n ?f (um_ptr ?s ?f) ?s = Some (a, t)" "gives base ?n ?s (units ?s xs) a t" "um_brk t = um_brk ?s" .
    then show ?thesis by (auto simp: mal brk gives_def)
  next
    case False
    from from_freep [OF ok] obtain ds where ds: "linked ?s (?f # ds) ?f" "?f \<notin> set ds"
      "set (?f # ds) = set xs" "um_ptr ?s ?f = nxt ds ?f" by blast
    have "\<forall>x \<in> set (ds @ [?f]). um_size ?s x < ?n" using False ds(3) by auto
    note scan = malloc_scan_none [OF ds(1) refl ds(2) this, of grant, folded ds(4)]
    show ?thesis
    proof (cases "grant (int (16 * m))")
      case True
      obtain t ys where t: "morecore grant ?n ?s = Some (um_freep t, t)" "um_ok base t ys"
        "units t ys = units ?s xs \<union> {um_brk ?s..<um_brk ?s + m}" "um_brk t = um_brk ?s + m"
        "live_kept base ?s t (units ?s xs \<union> {um_brk ?s..<um_brk ?s + m})"
        by (rule morecore_ok [where grant = grant, OF ok n m_def True])
      have "um_freep t \<noteq> 0" using um_ok_base [OF t(2)] t(2) by (force simp: um_ok_def)
      moreover obtain x where "x \<in> set ys" "m \<le> um_size t x"
        by (rule one_block [OF t(2), of "um_brk ?s" m]) (use mm(3) in \<open>auto simp: t(3)\<close>)
      then have "x \<in> set ys" "?n \<le> um_size t x" using mm(2) by auto
      from malloc_fits [OF t(2) this pos, of grant] obtain a u where
        u: "malloc_loop grant ?n (um_freep t) (um_ptr t (um_freep t)) t = Some (a, u)" "gives base ?n t (units t ys) a u" "um_brk u = um_brk t" .
      have "gives base ?n ?s (units ?s xs \<union> {um_brk s..<um_brk u}) a u"
        using gives_from [OF t(5)] u(2) unfolding t(3) u(3) t(4) brk by blast
      moreover have "a \<noteq> 0" using u(2) by (simp add: gives_def)
      ultimately show ?thesis using u t(1,4) by (simp add: mal scan brk)
    next
      case refused: False
      have "\<not> grant (sint (of_nat (m * 16) :: u32))"
      proof -
        have "sint (of_nat (16 * m) :: u32) = int (16 * m)" by (rule sint_of_nat_small [OF mm(4)])
        then show ?thesis using refused by (simp only: mult.commute [of m 16] simp_thms)
      qed
      then have "morecore grant ?n ?s = Some (0, ?s)" by (simp add: morecore_def Let_def flip: m_def)
      then show ?thesis using False refused by (auto simp: mal scan mm(1) not_le)
    qed
  qed
qed

text \<open>What was taken can be given back.\<close>

lemma units_between: "um_ok base s xs \<Longrightarrow> units s xs \<subseteq> {base<..<um_brk s}"
proof
  fix x assume ok: "um_ok base s xs" and "x \<in> units s xs"
  then obtain y where y: "y \<in> set xs" "y \<le> x" "x < y + um_size s y" by (auto simp: units_def)
  then have "y \<noteq> base" "base \<le> y" using ok um_ok_base [OF ok] by (auto simp: um_ok_def)
  moreover have "y + um_size s y \<le> um_brk s" using ok y(1) by (simp add: um_ok_def)
  ultimately show "x \<in> {base<..<um_brk s}" using y by simp
qed

lemma gives_free:
  assumes g: "gives base n s U a t" and n: "0 < n" and U: "U \<subseteq> {base<..<um_brk t}"
  shows "\<exists>v ys. free a t = Some v \<and> um_ok base v ys \<and> units v ys = U \<and> live_kept base s v U"
proof -
  obtain ys where ys: "um_ok base t ys" "units t ys = U - taken a n" and a: "0 < a" "um_size t (a - 1) = n"
    and sub: "taken a n \<subseteq> U" and l: "live_kept base s t U" using g by (auto simp: gives_def)
  have "taken a n \<subseteq> {base<..<um_brk t}" using sub U by blast
  then have "a - 1 \<in> {base<..<um_brk t}" "a - 1 + n - 1 \<in> {base<..<um_brk t}" using n by (auto simp: taken_def subset_eq)
  then have "base < a - 1" "a - 1 + n \<le> um_brk t" using n by auto
  then obtain v zs where v: "free (a - 1 + 1) t = Some v" "um_ok base v zs" "units v zs = units t ys \<union> {a - 1..<a - 1 + n}"
    "live_kept base t v (units t ys \<union> {a - 1..<a - 1 + n})"
    using free_ok [OF ys(1), of "a - 1"] a n unfolding ys(2) by (auto simp: taken_def)
  have "units t ys \<union> {a - 1..<a - 1 + n} = U" using sub unfolding ys(2) taken_def by blast
  then show ?thesis using v a(1) live_kept_trans [OF l, of v] by auto
qed



text \<open>
  C16. \<open>free\<close> gives back what \<open>malloc\<close> took: called on the block \<open>malloc\<close> has returned it ends, and the free units are
  again those from before, with what the system added; the blocks next to the one given back are joined with it, so that
  the list is again one of blocks that do not touch, and no header of a block in use is written.
\<close>

theorem malloc_free:
  assumes ok: "um_ok base (um_init base s) xs" and n: "nunits nbytes < 2 ^ 27"
    and m: "malloc grant base nbytes s = Some (a, t)" "a \<noteq> 0"
  shows "\<exists>v ys. free a t = Some v \<and> um_ok base v ys \<and>
    units v ys = units (um_init base s) xs \<union> {um_brk s..<um_brk t} \<and>
    live_kept base (um_init base s) v (units v ys)"
proof -
  have brk: "um_brk (um_init base s) = um_brk s" by (simp add: um_init_def)
  have g: "um_brk s \<le> um_brk t" "gives base (nunits nbytes) (um_init base s) (units (um_init base s) xs \<union> {um_brk s..<um_brk t}) a t"
    using malloc_ok [OF ok n, of grant] m by auto
  have "base < um_brk s" using ok by (simp add: um_ok_def brk)
  then have "units (um_init base s) xs \<union> {um_brk s..<um_brk t} \<subseteq> {base<..<um_brk t}"
    using units_between [OF ok] g(1) by (fastforce simp: brk)
  moreover have "0 < nunits nbytes" by (simp add: nunits_def)
  ultimately obtain v ys where "free a t = Some v" "um_ok base v ys" "units v ys = units (um_init base s) xs \<union> {um_brk s..<um_brk t}"
    "live_kept base (um_init base s) v (units (um_init base s) xs \<union> {um_brk s..<um_brk t})"
    using gives_free [OF g(2)] by blast
  then show ?thesis by metis
qed

theorem malloc_free_witness:
  "\<exists>a t v ys. malloc (\<lambda>_. True) 50 10 \<lparr>um_ptr = \<lambda>_. 0, um_size = \<lambda>_. 0, um_freep = 0, um_brk = 100\<rparr> = Some (a, t) \<and> a \<noteq> 0 \<and>
     free a t = Some v \<and> um_ok 50 v ys"
proof -
  let ?s = "\<lparr>um_ptr = \<lambda>_. 0, um_size = \<lambda>_. 0, um_freep = 0, um_brk = 100\<rparr> :: umst"
  have ok: "um_ok 50 (um_init 50 ?s) [50]" by (simp add: um_ok_def um_init_def apart_blocks_def set_size_def set_ptr_def)
  have n: "nunits 10 < 2 ^ 27" by (simp add: nunits_def)
  obtain a t where m: "malloc (\<lambda>_. True) 50 10 ?s = Some (a, t)" "a \<noteq> 0"
    using malloc_ok [OF ok n, of "\<lambda>_. True"] by (auto split: if_splits)
  show ?thesis using malloc_free [OF ok n m] m by blast
qed

end
