(* ===== verification/Spec2Isabelle.thy ===== *)
theory Spec2Isabelle
  imports Boot Spinlock LogReserve ConsoleRing FsDir Mkfs ShMain Primes Pingpong UserProgs Umalloc
begin

text \<open>
  Verification library of xv6-riscv: the kernel, the program that builds its file system, and the user programs.

  \<^bold>\<open>The program.\<close> The kernel boots each hart through kernel/entry.S and kernel/start.c into \<open>main\<close>, runs processes under
  three-level page tables, and offers system calls on processes, memory, files, pipes and devices. Files lie on a virtio
  disk under a buffer cache and a redo log that makes groups of block writes atomic. mkfs/mkfs.c writes the initial disk. The
  user programs are the shell, a small library and utilities on top of the system calls.

  \<^bold>\<open>How C is modelled.\<close> Integers are words of their width (\<open>u8\<close>, \<open>u16\<close>, \<open>u32\<close>, \<open>u64\<close>), so that they wrap around as in C. Memory is a
  function from 64-bit addresses to bytes; structures in memory and on disk have the byte layout of the source. An operation takes
  the state and returns \<open>Ok\<close> with its result and the new state, \<open>Panic\<close> with the message of the panic, \<open>Sleep\<close> with the channel when it
  blocks (the source loops and tries again after \<open>wakeup\<close>), or \<open>Undef\<close> where C leaves the behaviour open. The state is one extensible
  record that every layer extends: memory, processes, disk, buffers, log, inodes, pipes, files, devices, control registers. A
  section between \<open>acquire\<close> and \<open>release\<close> is one atomic step; theory Spinlock shows why that is sound for one lock.

  \<^bold>\<open>The theories, from below.\<close>

  \<^item> Prelude, Layout, KString: words, outcomes, byte codecs and memory; the macros of kernel/riscv.h and kernel/memlayout.h;
    kernel/string.c.
  \<^item> Kalloc: kernel/kalloc.c. The free list inside the free pages; the locale \<open>page_allocator\<close> is its contract, interpreted on \<open>kalloc\<close>
    and \<open>kfree\<close>. \<open>kinit\<close> frees all of RAM.
  \<^item> Vm, PageTable, UserMem, VmFrame: kernel/vm.c. \<open>walk\<close>, \<open>mappages\<close> and \<open>uvmunmap\<close> on the tree of tables and what they change of the
    translation; \<open>copyin\<close>, \<open>copyout\<close> and \<open>copyinstr\<close> against the bytes of user memory; frame conditions.
  \<^item> Proc, ProcLife, Sleeplock, Virtio: kernel/proc.c, kernel/sleeplock.c, kernel/virtio_disk.c.
  \<^item> Bio, BlockCache: kernel/bio.c, and the contract of \<open>bread\<close>: every reader sees the current content of the block.
  \<^item> Log, LogOps, LogCrash, Transaction, LogReserve: kernel/log.c. Crash atomicity of \<open>commit\<close> and of recovery through the locale
    \<open>redo_log\<close>, interpreted on the header format of the log; transactions as a refinement of atomic updates; the reservation of log
    space in every interleaving of operations.
  \<^item> Fs, FsAlloc, FsFile, FsInode, FsDir: kernel/fs.c. The bitmap allocator, the blocks and bytes of a file, \<open>readi\<close> after \<open>writei\<close>,
    directories as lists of entries.
  \<^item> Mkfs: mkfs/mkfs.c. The image that \<open>main\<close> builds, in the terms of the kernel's file system theories, and that the kernel's
    \<open>readi\<close> returns the files in it.
  \<^item> Ring, Pipe, PipeQueue, File: kernel/pipe.c and kernel/file.c. The locale \<open>byte_ring\<close> is the contract of a bounded queue; pipes and
    the transmit buffer of the serial port interpret it.
  \<^item> Uart, Console, ConsoleRing: kernel/uart.c, kernel/printf.c, kernel/console.c. Line editing, and the order of the output.
  \<^item> Exec, Sysfile, Trap: kernel/exec.c, kernel/syscall.c, kernel/sysfile.c, kernel/sysproc.c, kernel/trap.c, kernel/plic.c.
  \<^item> Asm, Boot, Spinlock: the assembly files as lists of instructions of a small RISC-V machine; start-up; spin locks of several harts
    at the level of single memory accesses.
  \<^item> Sh, ShParse, ShMain: user/sh.c. The parser ends, types its result, cuts out the words it should, and inverts printing;
    \<open>runcmd\<close> gives every program the descriptors it should have.
  \<^item> UserLib, Umalloc: user/ulib.c, user/printf.c, user/umalloc.c. Numbers printed and read back; \<open>malloc\<close> and \<open>free\<close> on the circular
    free list.
  \<^item> Grep, Primes, Pingpong, UserProgs: the utilities. What \<open>grep\<close> matches and prints, the sieve of processes, the two processes of
    \<open>pingpong\<close> in every interleaving, and \<open>wc\<close>, \<open>cat\<close>, \<open>echo\<close>, \<open>ls\<close>, \<open>find\<close>, \<open>xargs\<close>, \<open>kill\<close>, \<open>ln\<close>, \<open>mkdir\<close>, \<open>rm\<close>, \<open>sleep\<close>.

  \<^bold>\<open>What spans components.\<close> The layers meet in the contracts above: the log theorems use the cache only through the contract of
  \<open>bread\<close> and its relatives; the file system theorems use the log only through transactions (\<open>in_tx\<close>, \<open>tx_step\<close>); \<open>copyin\<close> and
  \<open>copyout\<close> rest on the translations of PageTable, pipes on \<open>copyin\<close> and \<open>copyout\<close>; Mkfs ends in the hypotheses of the kernel's
  \<open>readi\<close>, so that the path of a byte from the host through the image into the kernel is one theorem.

  \<^bold>\<open>Loops, fuel and bounds.\<close> Loops with a counter are recursive functions with a measure. Loops that C cannot bound are
  partial functions whose value \<open>None\<close> means that they do not return (\<open>strlen\<close>, the search of \<open>free\<close> and \<open>malloc\<close>); for these the
  theorems show that they return. The recursive-descent parser of the shell has fuel: four units per byte of the line and four
  more, since between two bytes consumed the parser passes through at most four of its functions; \<open>ShParse\<close> shows that this fuel never
  runs out. \<open>freewalk\<close> has fuel for the three levels of a page table. Sizes that the source bounds keep their values: 1024-byte
  blocks, 30 log blocks and buffers, 268 blocks per file, 1000 blocks of disk, 512 bytes per pipe.

  \<^bold>\<open>Parameters.\<close> What hardware and host decide is an argument: the contents of the disk, device registers and interrupts,
  translation by the hardware in theory Asm, the bytes and sizes \<open>read\<close> returns to a user program, and whether a system call of a user program
  succeeds.

  \<^bold>\<open>Not modelled.\<close> The test programs user/usertests.c, user/grind.c, user/stressfs.c and user/forktest.c check the kernel and compute
  nothing of their own. user/init.c, user/uptime.c and user/zombie.c are a few system calls each. kernel/ramdisk.c is not
  built and does not fit the current buffers. Headers with declarations only, user/usys.pl (which generates the stubs) and
  the linker script hold no code to model. Timing, weak memory and instruction fetch are outside the model: harts interleave
  single accesses in order, which is what the fences of the lock code provide. In the user programs an error of \<open>read\<close> is
  modelled for \<open>wc\<close> and \<open>cat\<close> only; in \<open>pingpong\<close> the branches for a failing \<open>pipe\<close> or \<open>fork\<close>, which print a message and exit, are
  left out.
\<close>

end
